(* ===== verification/Prelude.thy ===== *)
theory Prelude
  imports
    Main
    "HOL-Library.Word"
    "HOL-Library.List_Lexorder"
    "HOL-Library.Sublist"
begin

text \<open>
  Shared vocabulary of the development.

  \<^item> The names of the machine types the program uses (\<open>byte\<close>, \<open>u16\<close>, \<open>u32\<close>, \<open>u64\<close>, \<open>bytes\<close>).
    A \<open>size_t\<close> that counts bytes or elements of an in-memory buffer is a \<open>nat\<close>; every place
    where the program narrows it to a fixed width or subtracts from it says so in its definition.
  \<^item> The result type \<open>'a res\<close> of fallible code: a failed \<open>assert\<close>, a thrown exception, a
    returned error string and a read outside a buffer are the values \<open>Inl e\<close>. A failed
    \<open>assert\<close> ends the run, as in a build without \<open>NDEBUG\<close>; a theorem that concludes
    \<open>Inr x\<close> shows that no assertion fails, so that it also describes a build in which
    assertions are compiled out.
  \<^item> The monad \<open>('s, 'a) m\<close> of code that may also change a shared state \<open>'s\<close> or not return
    (\<open>None\<close>), with one loop combinator \<open>m_while\<close>.
  \<^item> \<open>ok I m Q\<close>: started in any state that satisfies \<open>I\<close>, the computation \<open>m\<close> returns, raises
    nothing, re-establishes \<open>I\<close> and its result satisfies \<open>Q\<close> (total correctness).
  \<^item> Facts on lists and on ordered association lists that several components use.
\<close>

section \<open>Machine types\<close>

type_synonym byte = "8 word"
type_synonym u16 = "16 word"
type_synonym u32 = "32 word"
type_synonym u64 = "64 word"
type_synonym bytes = "byte list"
type_synonym entry = "bytes \<times> bytes"

named_theorems codec_simps \<open>length and round-trip equations of the byte encodings\<close>
named_theorems ok_rules \<open>introduction rules for total correctness\<close>
named_theorems inv_intros \<open>preservation of component invariants\<close>

text \<open>Narrowing casts keep the values that fit.\<close>

lemma unat_of_nat_narrow [simp]:
  "a < 65536 \<Longrightarrow> unat (of_nat a :: u16) = a"
  "b < 4294967296 \<Longrightarrow> unat (of_nat b :: u32) = b"
  "c < 18446744073709551616 \<Longrightarrow> unat (of_nat c :: u64) = c"
  by (simp_all add: unat_of_nat take_bit_nat_eq_self)

lemma unat_u16_bound [simp]: "unat (v :: u16) < 65536"
  using unsigned_less [of v] by simp

lemma unat_u32_bound [simp]: "unat (v :: u32) < 4294967296"
  using unsigned_less [of v] by simp

section \<open>Results\<close>

datatype error =
    AssertFailed string
  | Throw string
  | Fail string
  | OutOfRange string

text \<open>\<open>std::to_string\<close> of a number.\<close>

fun decimal :: "nat \<Rightarrow> string" where
  "decimal n = (if n < 10 then [''0123456789'' ! n] else decimal (n div 10) @ [''0123456789'' ! (n mod 10)])"

declare decimal.simps [simp del]

type_synonym 'a res = "error + 'a"

definition res_bind :: "'a res \<Rightarrow> ('a \<Rightarrow> 'b res) \<Rightarrow> 'b res" where
  "res_bind r f = (case r of Inl e \<Rightarrow> Inl e | Inr x \<Rightarrow> f x)"

definition assert_res :: "string \<Rightarrow> bool \<Rightarrow> unit res" where
  "assert_res msg b = (if b then Inr () else Inl (AssertFailed msg))"

fun map_res :: "('a \<Rightarrow> 'b res) \<Rightarrow> 'a list \<Rightarrow> 'b list res" where
  "map_res f [] = Inr []"
| "map_res f (x # xs) = res_bind (f x) (\<lambda>y. res_bind (map_res f xs) (\<lambda>ys. Inr (y # ys)))"

definition is_ok :: "'a res \<Rightarrow> bool" where
  "is_ok r = (case r of Inl _ \<Rightarrow> False | Inr _ \<Rightarrow> True)"

lemma res_bind_simps [simp]:
  "res_bind (Inl e) f = Inl e"
  "res_bind (Inr x) f = f x"
  by (simp_all add: res_bind_def)

lemma is_ok_simps [simp]: "\<not> is_ok (Inl e)" "is_ok (Inr x)"
  by (simp_all add: is_ok_def)

lemma res_bind_Inr_iff: "res_bind r f = Inr y \<longleftrightarrow> (\<exists>x. r = Inr x \<and> f x = Inr y)"
  by (cases r) auto

lemma assert_res_simps [simp]:
  "assert_res msg True = Inr ()"
  "assert_res msg False = Inl (AssertFailed msg)"
  by (simp_all add: assert_res_def)

lemma assert_res_Inr_iff [simp]: "assert_res msg b = Inr u \<longleftrightarrow> b"
  by (simp add: assert_res_def)

lemma map_res_Inr: "(\<And>x. x \<in> set xs \<Longrightarrow> f x = Inr (g x)) \<Longrightarrow> map_res f xs = Inr (map g xs)"
  by (induction xs) auto

lemma map_res_append:
  "map_res f (xs @ ys) = res_bind (map_res f xs) (\<lambda>us. res_bind (map_res f ys) (\<lambda>vs. Inr (us @ vs)))"
  by (induction xs) (auto simp: res_bind_def split: sum.splits)

subsection \<open>Checked reads of a byte buffer\<close>

text \<open>The program reads buffers through raw pointers. A read that leaves the buffer is
  undefined; the model makes it the error \<open>OutOfRange\<close>.\<close>

definition sub_bytes :: "bytes \<Rightarrow> nat \<Rightarrow> nat \<Rightarrow> bytes res" where
  "sub_bytes buf off n =
     (if off + n \<le> length buf then Inr (take n (drop off buf)) else Inl (OutOfRange ''sub_bytes''))"

lemma sub_bytes_append [simp]:
  "length xs = off \<Longrightarrow> length ys = n \<Longrightarrow> sub_bytes (xs @ ys @ zs) off n = Inr ys"
  "length xs = off \<Longrightarrow> length ys = n \<Longrightarrow> sub_bytes (xs @ ys) off n = Inr ys"
  by (auto simp: sub_bytes_def)

lemma sub_bytes_Inr_iff:
  "sub_bytes buf off n = Inr xs \<longleftrightarrow> off + n \<le> length buf \<and> xs = take n (drop off buf)"
  by (auto simp: sub_bytes_def)

section \<open>Computations on a shared state\<close>

type_synonym ('s, 'a) m = "'s \<Rightarrow> ('a res \<times> 's) option"

definition m_return :: "'a \<Rightarrow> ('s, 'a) m" where
  "m_return x = (\<lambda>s. Some (Inr x, s))"

definition m_lift :: "'a res \<Rightarrow> ('s, 'a) m" where
  "m_lift r = (\<lambda>s. Some (r, s))"

definition m_bind :: "('s, 'a) m \<Rightarrow> ('a \<Rightarrow> ('s, 'b) m) \<Rightarrow> ('s, 'b) m" where
  "m_bind p f = (\<lambda>s. case p s of
       None \<Rightarrow> None
     | Some (r, s') \<Rightarrow> (case r of Inl e \<Rightarrow> Some (Inl e, s') | Inr x \<Rightarrow> f x s'))"

text \<open>\<open>while (b) c\<close> over the local variables \<open>x\<close>; \<open>None\<close> when the loop does not end.\<close>

partial_function (option) m_while ::
  "('a \<Rightarrow> ('s, bool) m) \<Rightarrow> ('a \<Rightarrow> ('s, 'a) m) \<Rightarrow> 'a \<Rightarrow> 's \<Rightarrow> ('a res \<times> 's) option" where
  "m_while b c x s = (case b x s of
       None \<Rightarrow> None
     | Some (r, s1) \<Rightarrow> (case r of
           Inl e \<Rightarrow> Some (Inl e, s1)
         | Inr t \<Rightarrow> (if t then (case c x s1 of
               None \<Rightarrow> None
             | Some (r2, s2) \<Rightarrow> (case r2 of
                   Inl e \<Rightarrow> Some (Inl e, s2)
                 | Inr x' \<Rightarrow> m_while b c x' s2))
             else Some (Inr x, s1))))"

declare m_while.simps [code]

text \<open>A \<open>for\<close> loop that appends one result per element.\<close>

fun m_map :: "('a \<Rightarrow> ('s, 'b) m) \<Rightarrow> 'a list \<Rightarrow> ('s, 'b list) m" where
  "m_map f [] = m_return []"
| "m_map f (x # xs) = m_bind (f x) (\<lambda>y. m_bind (m_map f xs) (\<lambda>ys. m_return (y # ys)))"

lemma m_apply [simp]:
  "m_return x s = Some (Inr x, s)"
  "m_lift r s = Some (r, s)"
  by (simp_all add: m_return_def m_lift_def)

lemma m_bind_case: "m_bind p f s = (case p s of None \<Rightarrow> None | Some (Inl e, s') \<Rightarrow> Some (Inl e, s') | Some (Inr x, s') \<Rightarrow> f x s')"
  by (auto simp: m_bind_def split: option.splits sum.splits)

lemma m_bind_assoc: "m_bind (m_bind p f) g = m_bind p (\<lambda>x. m_bind (f x) g)"
  by (auto simp: m_bind_case fun_eq_iff split: option.split sum.split)

lemma m_bindE:
  assumes "m_bind p f s = Some (r, s')"
  obtains e where "p s = Some (Inl e, s')" | x s1 where "p s = Some (Inr x, s1)" "f x s1 = Some (r, s')"
  using assms by (auto simp: m_bind_case split: option.splits sum.splits)

lemma m_bind_lift_Inr [simp]: "m_bind (m_lift (Inr x)) f = f x"
  by (simp add: m_bind_def fun_eq_iff)

lemma m_bind_return [simp]: "m_bind (m_return x) f = f x"
  by (simp add: m_bind_def fun_eq_iff)

subsection \<open>Total correctness\<close>

definition ok :: "('s \<Rightarrow> bool) \<Rightarrow> ('s, 'a) m \<Rightarrow> ('a \<Rightarrow> bool) \<Rightarrow> bool" where
  "ok I p Q \<longleftrightarrow> (\<forall>s. I s \<longrightarrow> (\<exists>x s'. p s = Some (Inr x, s') \<and> I s' \<and> Q x))"

lemma okD:
  assumes "ok I p Q" and "I s"
  obtains x s' where "p s = Some (Inr x, s')" and "I s'" and "Q x"
  using assms by (auto simp: ok_def)

lemma ok_exec: "ok I p (\<lambda>r. r = x) \<Longrightarrow> I s \<Longrightarrow> \<exists>s'. p s = Some (Inr x, s') \<and> I s'"
  by (auto simp: ok_def)

lemma ok_return [simp, ok_rules]: "Q x \<Longrightarrow> ok I (m_return x) Q"
  by (simp add: ok_def)

lemma ok_pure [simp]: "Q x \<Longrightarrow> ok I (\<lambda>s. Some (Inr x, s)) Q"
  by (simp add: ok_def)

lemma ok_lift [ok_rules]: "r = Inr x \<Longrightarrow> Q x \<Longrightarrow> ok I (m_lift r) Q"
  by (simp add: ok_def)

lemma ok_weaken: "ok I p Q \<Longrightarrow> (\<And>x. Q x \<Longrightarrow> R x) \<Longrightarrow> ok I p R"
  unfolding ok_def by blast

lemma ok_bind:
  assumes "ok I p Q" and "\<And>x. Q x \<Longrightarrow> ok I (f x) R"
  shows "ok I (m_bind p f) R"
  unfolding ok_def
proof (intro allI impI)
  fix s assume "I s"
  with assms(1) obtain x s' where 1: "p s = Some (Inr x, s')" "I s'" "Q x" by (rule okD)
  with assms(2) have "ok I (f x) R" by blast
  then obtain y s'' where "f x s' = Some (Inr y, s'')" "I s''" "R y" using 1(2) by (rule okD)
  with 1 show "\<exists>y s''. m_bind p f s = Some (Inr y, s'') \<and> I s'' \<and> R y"
    by (auto simp: m_bind_def)
qed

lemma ok_map:
  assumes "list_all2 (\<lambda>x y. ok I (f x) (\<lambda>z. R z y)) xs ys"
  shows "ok I (m_map f xs) (\<lambda>zs. list_all2 R zs ys)"
  using assms
proof (induction xs ys rule: list_all2_induct)
  case (Cons x xs y ys)
  show ?case
    by (auto intro!: ok_bind [OF Cons.hyps(1)] ok_bind [OF Cons.IH] ok_return)
qed (auto intro: ok_return)

lemma ok_if [ok_rules]:
  "(b \<Longrightarrow> ok I p Q) \<Longrightarrow> (\<not> b \<Longrightarrow> ok I q Q) \<Longrightarrow> ok I (if b then p else q) Q"
  by simp

text \<open>The loop rule: an invariant that relates the loop variables to ghost data \<open>g\<close>, a guard whose
  value the ghost data determine, and a measure of them that every iteration decreases.\<close>

lemma ok_while:
  fixes f :: "'g \<Rightarrow> nat"
  assumes guard: "\<And>x g. J x g \<Longrightarrow> ok I (b x) (\<lambda>t. t = B g)"
    and body: "\<And>x g. J x g \<Longrightarrow> B g \<Longrightarrow> ok I (c x) (\<lambda>x'. \<exists>g'. J x' g' \<and> f g' < f g)"
    and init: "J x g"
  shows "ok I (m_while b c x) (\<lambda>y. \<exists>g. J y g \<and> \<not> B g)"
  using init
proof (induction g arbitrary: x rule: measure_induct_rule [where f = f])
  case (less g)
  show ?case
    unfolding ok_def
  proof (intro allI impI)
    fix s assume "I s"
    with guard [OF less.prems] obtain s1 where b: "b x s = Some (Inr (B g), s1)" "I s1"
      by (auto elim: okD)
    show "\<exists>y s'. m_while b c x s = Some (Inr y, s') \<and> I s' \<and> (\<exists>g. J y g \<and> \<not> B g)"
    proof (cases "B g")
      case False
      with b less.prems show ?thesis by (auto simp: m_while.simps [of b c x s])
    next
      case True
      with body [OF less.prems] b(2) obtain x' s2 g'
        where c: "c x s1 = Some (Inr x', s2)" "I s2" "J x' g'" "f g' < f g"
        by (auto elim!: okD)
      from less.IH [OF c(4,3)] c(2) obtain y s3
        where "m_while b c x' s2 = Some (Inr y, s3)" "I s3" "\<exists>g. J y g \<and> \<not> B g"
        by (rule okD)
      with True b c show ?thesis by (auto simp: m_while.simps [of b c x s])
    qed
  qed
qed

section \<open>Lists\<close>

lemma dropWhile_drop_nth:
  assumes "\<forall>j < i. P (xs ! j)" and "i < length xs \<Longrightarrow> \<not> P (xs ! i)" and "i \<le> length xs"
  shows "dropWhile P xs = drop i xs"
proof -
  have "dropWhile P (take i xs @ drop i xs) = dropWhile P (drop i xs)"
    by (rule dropWhile_append2) (use assms in \<open>auto simp: in_set_conv_nth\<close>)
  also have "\<dots> = drop i xs"
    using assms(2) by (cases "i < length xs") (auto simp: Cons_nth_drop_Suc [symmetric])
  finally show ?thesis by simp
qed

lemma drop_Cons_nth: "x # xs = drop i es \<Longrightarrow> i < length es \<and> x = es ! i \<and> xs = drop (Suc i) es"
  by (metis Cons_nth_drop_Suc drop_all list.discI list.inject not_le)

lemma length_concat_const:
  "(\<And>x. x \<in> set xs \<Longrightarrow> length (f x) = n) \<Longrightarrow> length (concat (map f xs)) = n * length xs"
  by (induction xs) auto

lemma subseq_subset: "subseq xs ys \<Longrightarrow> set xs \<subseteq> set ys"
  by (auto elim: list_emb_set)

lemma list_all2_split:
  "list_all2 (\<lambda>x z. \<exists>y. R x y \<and> S y z) xs zs \<Longrightarrow> \<exists>ys. list_all2 R xs ys \<and> list_all2 S ys zs"
proof (induction xs zs rule: list_all2_induct)
  case (Cons x xs z zs)
  then obtain y ys where "R x y" "S y z" "list_all2 R xs ys" "list_all2 S ys zs" by blast
  then show ?case by (intro exI [of _ "y # ys"]) simp
qed simp

subsection \<open>Ordered association lists\<close>

text \<open>The contents of every sorted run of the store (a memtable, a table, a level, an iterator)
  are a list of entries with strictly increasing keys.\<close>

abbreviation sorted_entries :: "('k::linorder \<times> 'v) list \<Rightarrow> bool" where
  "sorted_entries es \<equiv> sorted_wrt (<) (map fst es)"

lemma sorted_entries_distinct: "sorted_entries es \<Longrightarrow> distinct (map fst es)"
  using strict_sorted_iff by blast

lemma sorted_entries_drop: "sorted_entries es \<Longrightarrow> sorted_entries (drop n es)"
  by (simp add: drop_map [symmetric] sorted_wrt_drop)

lemma sorted_entries_filter: "sorted_entries es \<Longrightarrow> sorted_entries (filter P es)"
  by (induction es) auto

lemma sorted_entries_bounds:
  assumes "sorted_entries es" and "e \<in> set es"
  shows "fst (hd es) \<le> fst e" and "fst e \<le> fst (last es)"
proof -
  show "fst (hd es) \<le> fst e" using assms by (cases es) (auto simp: less_imp_le)
  show "fst e \<le> fst (last es)"
    using assms by (cases es rule: rev_cases) (auto simp: sorted_wrt_append less_imp_le)
qed

lemma sorted_entries_step_over:
  "sorted_entries d \<Longrightarrow> \<forall>e \<in> set d. k \<le> fst e \<Longrightarrow>
   filter (\<lambda>e. k < fst e) d = (case d of [] \<Rightarrow> [] | x # r \<Rightarrow> if fst x = k then r else x # r)"
  by (cases d) (auto simp: filter_id_conv intro: less_trans order.not_eq_order_implies_strict)

lemma sorted_entries_map_of_None:
  "sorted_entries ((k, v) # es) \<Longrightarrow> x \<le> k \<Longrightarrow> map_of es x = None"
  by (auto simp: map_of_eq_None_iff)

text \<open>A strictly ordered association list is determined by the map it represents.\<close>

lemma map_of_enumerate: "distinct (map fst xs) \<Longrightarrow> map (\<lambda>k. (k, the (map_of xs k))) (map fst xs) = xs"
  unfolding map_map by (rule map_idI) (auto dest: map_of_is_SomeI)

lemma sorted_entries_unique:
  fixes xs ys :: "('k::linorder \<times> 'v) list"
  assumes "sorted_entries xs" "sorted_entries ys" "map_of xs = map_of ys"
  shows "xs = ys"
proof -
  have "set (map fst xs) = set (map fst ys)"
    using assms(3) by (metis dom_map_of_conv_image_fst image_set)
  then have "map fst xs = map fst ys"
    using assms(1,2) by (meson strict_sorted_equal)
  moreover have "xs = map (\<lambda>k. (k, the (map_of xs k))) (map fst xs)"
    "ys = map (\<lambda>k. (k, the (map_of ys k))) (map fst ys)"
    using assms(1,2) by (simp_all only: map_of_enumerate sorted_entries_distinct)
  ultimately show ?thesis using assms(3) by metis
qed

subsection \<open>Runs split over several lists\<close>

lemma concat_split: "i < length runs \<Longrightarrow> concat runs = concat (take i runs) @ runs ! i @ concat (drop (Suc i) runs)"
  by (subst id_take_nth_drop [of i runs]) simp_all

lemma drop_Suc_concat: "i < length runs \<Longrightarrow> concat (drop i runs) = runs ! i @ concat (drop (Suc i) runs)"
  by (metis Cons_nth_drop_Suc concat.simps(2))

lemma dropWhile_append_above: "\<forall>e \<in> set ys. \<not> P e \<Longrightarrow> dropWhile P (xs @ ys) = dropWhile P xs @ ys"
  by (induction xs) (auto simp: dropWhile_eq_self_iff)

text \<open>In a sorted sequence cut into pieces, the last piece that does not start above \<open>key\<close> is the only one
  in which the entries from \<open>key\<close> on can begin.\<close>

lemma partition_point_split:
  fixes runs :: "('k::linorder \<times> 'v) list list" and key :: 'k
  assumes s: "sorted_entries (concat runs)" and ne: "\<forall>r \<in> set runs. r \<noteq> []" "runs \<noteq> []"
  defines "c \<equiv> length (takeWhile (\<lambda>r. fst (hd r) \<le> key) runs)"
  shows "c - 1 < length runs"
    and "dropWhile (\<lambda>e. fst e < key) (concat runs) =
      dropWhile (\<lambda>e. fst e < key) (runs ! (c - 1)) @ concat (drop (Suc (c - 1)) runs)"
proof -
  let ?i = "c - 1"
  have c: "c \<le> length runs" unfolding c_def by (rule length_takeWhile_le)
  then show il: "?i < length runs" using ne(2) by (cases runs) auto
  have below: "fst (hd (runs ! j)) \<le> key" if "j < c" for j
    using that nth_mem [of j "takeWhile (\<lambda>r. fst (hd r) \<le> key) runs"]
    by (auto simp: c_def takeWhile_nth dest: set_takeWhileD)
  have above: "key < fst (hd (runs ! c))" if "c < length runs"
    using nth_length_takeWhile [of "\<lambda>r. fst (hd r) \<le> key" runs] that by (simp add: c_def not_le)
  have s': "sorted_entries (concat (take j runs) @ runs ! j @ concat (drop (Suc j) runs))" if "j < length runs" for j
    using s concat_split [OF that] by simp
  have hd: "hd (runs ! j) \<in> set (runs ! j)" "runs ! j \<noteq> []" if "j < length runs" for j
    using ne(1) that by simp_all
  have le: "fst (hd (runs ! j)) \<le> fst e" if "j < length runs" "e \<in> set (concat (drop j runs))" for j e
    using that s' [OF that(1)] hd(2) [OF that(1)] drop_Suc_concat [OF that(1)]
    by (cases "runs ! j") (auto simp: sorted_wrt_append less_imp_le simp del: set_concat)
  have "\<forall>e \<in> set (concat (take ?i runs)). fst e < key"
  proof
    fix e assume e: "e \<in> set (concat (take ?i runs))"
    then have "?i < c" by (cases c) auto
    then have "fst (hd (runs ! ?i)) \<le> key" by (rule below)
    moreover have "fst e < fst (hd (runs ! ?i))"
      using s' [OF il] hd [OF il] e by (auto simp: sorted_wrt_append simp del: set_concat)
    ultimately show "fst e < key" by simp
  qed
  moreover have "\<forall>e \<in> set (concat (drop (Suc ?i) runs)). \<not> fst e < key"
  proof
    fix e assume e: "e \<in> set (concat (drop (Suc ?i) runs))"
    then have "Suc ?i < length runs" by (cases "Suc ?i < length runs") auto
    then have cl: "c < length runs" by (cases c) auto
    have "e \<in> set (concat (drop c runs))"
      using e drop_Suc_concat [OF cl] by (cases c) (auto simp del: set_concat)
    then show "\<not> fst e < key" using le [OF cl] above [OF cl] by fastforce
  qed
  ultimately show "dropWhile (\<lambda>e. fst e < key) (concat runs) =
      dropWhile (\<lambda>e. fst e < key) (runs ! ?i) @ concat (drop (Suc ?i) runs)"
    using dropWhile_append_above [of _ "\<lambda>e. fst e < key"]
    by (subst concat_split [OF il]) (simp add: dropWhile_append2 del: set_concat)
qed

lemma map_of_filter_fst: "map_of (filter (\<lambda>e. P (fst e)) xs) k = (if P k then map_of xs k else None)"
  by (induction xs) auto

lemma map_of_filter_sorted:
  fixes es :: "('k::linorder \<times> 'v) list"
  assumes "sorted_entries es"
  shows "map_of (filter (\<lambda>e. P (fst e) \<and> Q (snd e)) es) k =
    (if P k then (case map_of es k of None \<Rightarrow> None | Some v \<Rightarrow> if Q v then Some v else None) else None)"
  using assms
proof (induction es)
  case (Cons e es)
  have "map_of es (fst e) = None" using Cons.prems by (auto simp: map_of_eq_None_iff)
  then show ?case using Cons by auto
qed simp

lemma filter_key_sorted:
  fixes es :: "('k::linorder \<times> 'v) list"
  assumes "sorted_entries es"
  shows "filter (\<lambda>e. fst e = key \<and> Q (snd e)) es =
    (case map_of es key of None \<Rightarrow> [] | Some v \<Rightarrow> if Q v then [(key, v)] else [])"
  using assms
proof (induction es)
  case (Cons e es)
  show ?case
  proof (cases "fst e = key")
    case True
    then have "map_of es key = None" using Cons.prems by (auto simp: map_of_eq_None_iff)
    then show ?thesis using Cons True by (cases e) simp
  qed (use Cons in \<open>cases e; simp\<close>)
qed simp

end
