(* ===== verification/Key.thy ===== *)
theory Key
  imports Prelude
begin

text \<open>
  \<open>include/mini_lsm/key.h\<close>: the non-owning \<open>KeySlice\<close> and the owning \<open>KeyVec\<close>. Both are a
  sequence of bytes; the pointer of a slice is the sequence it designates. The comparison
  operators of both classes go through \<open>KeySlice::compare\<close>, and the theory shows that this
  comparison is the lexicographic order of the library (\<open>HOL-Library.List_Lexorder\<close> over
  unsigned bytes), so that \<open><\<close>, \<open>\<le>\<close> and \<open>sorted\<close> on keys mean what the program computes.
\<close>

section \<open>KeySlice\<close>

text \<open>\<open>memcmp\<close>: the sign of the first difference, bytes read as unsigned. Only the sign of its
  result is specified, and only the sign is used.\<close>

fun memcmp :: "bytes \<Rightarrow> bytes \<Rightarrow> nat \<Rightarrow> int" where
  "memcmp (a # as) (b # bs) (Suc n) = (if a = b then memcmp as bs n else if a < b then -1 else 1)"
| "memcmp as bs n = 0"

lemma memcmp_code [code]:
  "memcmp as bs n = (case (as, bs) of
     (a # as, b # bs) \<Rightarrow> if n = 0 then 0 else if a = b then memcmp as bs (n - 1) else if a < b then -1 else 1
   | _ \<Rightarrow> 0)"
  by (cases "(as, bs, n)" rule: memcmp.cases) (auto split: list.split nat.split)

definition KeySlice_compare :: "bytes \<Rightarrow> bytes \<Rightarrow> int" where
  "KeySlice_compare self other =
     (let min_len = min (length self) (length other);
          cmp = memcmp self other min_len
      in if min_len > 0 \<and> cmp \<noteq> 0 then cmp
         else if length self < length other then -1
         else if length self > length other then 1
         else 0)"

definition KeySlice_eq :: "bytes \<Rightarrow> bytes \<Rightarrow> bool" where
  "KeySlice_eq lhs rhs = (KeySlice_compare lhs rhs = 0)"

definition KeySlice_ne :: "bytes \<Rightarrow> bytes \<Rightarrow> bool" where
  "KeySlice_ne lhs rhs = (KeySlice_compare lhs rhs \<noteq> 0)"

definition KeySlice_lt :: "bytes \<Rightarrow> bytes \<Rightarrow> bool" where
  "KeySlice_lt lhs rhs = (KeySlice_compare lhs rhs < 0)"

definition KeySlice_gt :: "bytes \<Rightarrow> bytes \<Rightarrow> bool" where
  "KeySlice_gt lhs rhs = (KeySlice_compare lhs rhs > 0)"

definition KeySlice_le :: "bytes \<Rightarrow> bytes \<Rightarrow> bool" where
  "KeySlice_le lhs rhs = (KeySlice_compare lhs rhs \<le> 0)"

definition KeySlice_ge :: "bytes \<Rightarrow> bytes \<Rightarrow> bool" where
  "KeySlice_ge lhs rhs = (KeySlice_compare lhs rhs \<ge> 0)"

section \<open>KeyVec\<close>

definition KeyVec_clear :: "bytes \<Rightarrow> bytes" where
  "KeyVec_clear data = []"

definition KeyVec_append :: "bytes \<Rightarrow> bytes \<Rightarrow> bytes" where
  "KeyVec_append data ptr = data @ ptr"

definition KeyVec_set_from_slice :: "bytes \<Rightarrow> bytes \<Rightarrow> bytes" where
  "KeyVec_set_from_slice data sl = KeyVec_append (KeyVec_clear data) sl"

section \<open>The comparison is the lexicographic order\<close>

text \<open>One step of the comparison on two keys with a first byte.\<close>

lemma KeySlice_compare_simps [simp]:
  "KeySlice_compare [] [] = 0"
  "KeySlice_compare [] (b # bs) = -1"
  "KeySlice_compare (a # as) [] = 1"
  "KeySlice_compare (a # as) (b # bs) =
     (if a = b then KeySlice_compare as bs else if a < b then -1 else 1)"
  by (auto simp: KeySlice_compare_def Let_def min_def)

lemma KeySlice_compare_sign:
  "(KeySlice_compare a b < 0 \<longleftrightarrow> a < b) \<and> (KeySlice_compare a b = 0 \<longleftrightarrow> a = b)"
  by (induction a b rule: list_induct2') (auto simp: Cons_less_Cons)

lemma KeySlice_ops [simp]:
  "KeySlice_eq a b = (a = b)"
  "KeySlice_ne a b = (a \<noteq> b)"
  "KeySlice_lt a b = (a < b)"
  "KeySlice_gt a b = (b < a)"
  "KeySlice_le a b = (a \<le> b)"
  "KeySlice_ge a b = (b \<le> a)"
  using KeySlice_compare_sign [of a b]
  by (auto simp: KeySlice_eq_def KeySlice_ne_def KeySlice_lt_def KeySlice_gt_def
      KeySlice_le_def KeySlice_ge_def)

lemma KeyVec_ops [simp]:
  "KeyVec_clear d = []"
  "KeyVec_append d p = d @ p"
  "KeyVec_set_from_slice d p = p"
  by (simp_all add: KeyVec_clear_def KeyVec_append_def KeyVec_set_from_slice_def)

section \<open>Properties\<close>

text \<open>\<open>KeySlice::compare\<close> is a three-way comparison for the byte-wise lexicographic order: it is
  negative exactly when the left key comes first, zero exactly on equal keys, and swapping its
  arguments swaps the sign.\<close>

theorem KeySlice_compare_lexicographic:
  "(KeySlice_compare a b < 0 \<longleftrightarrow> (a, b) \<in> lexord {(x, y). x < y}) \<and>
   (KeySlice_compare a b = 0 \<longleftrightarrow> a = b) \<and> sgn (KeySlice_compare b a) = - sgn (KeySlice_compare a b)"
proof (intro conjI)
  show "KeySlice_compare a b < 0 \<longleftrightarrow> (a, b) \<in> lexord {(x, y). x < y}"
    using KeySlice_compare_sign [of a b] by (simp add: list_less_def)
  show "KeySlice_compare a b = 0 \<longleftrightarrow> a = b" using KeySlice_compare_sign [of a b] by simp
  show "sgn (KeySlice_compare b a) = - sgn (KeySlice_compare a b)"
    using KeySlice_compare_sign [of a b] KeySlice_compare_sign [of b a]
    by (cases a b rule: linorder_cases) (auto simp: sgn_if)
qed

end
