(* ===== verification/Endian.thy ===== *)
theory Endian
  imports Prelude
begin

text \<open>
  \<open>include/mini_lsm/endian.h\<close>: the big-endian encodings of the fixed-width integers that every
  file format of the program is built from. \<open>put_uN_be\<close> appends to a growing buffer,
  \<open>write_uN_be\<close> overwrites bytes in place, \<open>read_uN_be\<close> reads at a pointer. The pointer is a
  buffer and an offset into it; reading past the end is \<open>OutOfRange\<close>.

  \<open>crc32_hash\<close> forwards to zlib, whose \<open>crc32\<close> is a parameter of the definitions that use it (a
  null pointer is \<open>None\<close>); no theorem assumes anything of it.

  The locale \<open>be_codec\<close> is the contract of one width: fixed length, and reading what was put.
\<close>

unbundle bit_operations_syntax

section \<open>The checksum\<close>

type_synonym zlib_crc32 = "u64 \<Rightarrow> bytes option \<Rightarrow> u64"

text \<open>zlib takes the length as a \<open>uInt\<close> of 32 bits.\<close>

definition crc32_hash :: "zlib_crc32 \<Rightarrow> bytes \<Rightarrow> u32" where
  "crc32_hash crc32 data =
     (let crc = crc32 0 None
      in ucast (crc32 crc (Some (take (length data mod 2 ^ 32) data))))"

section \<open>Writing\<close>

definition put_u16_be :: "bytes \<Rightarrow> u16 \<Rightarrow> bytes" where
  "put_u16_be buf v = buf @ [ucast (drop_bit 8 v AND 0xFF), ucast (v AND 0xFF)]"

definition put_u32_be :: "bytes \<Rightarrow> u32 \<Rightarrow> bytes" where
  "put_u32_be buf v = buf @
     [ucast (drop_bit 24 v AND 0xFF), ucast (drop_bit 16 v AND 0xFF),
      ucast (drop_bit 8 v AND 0xFF), ucast (v AND 0xFF)]"

definition put_u64_be :: "bytes \<Rightarrow> u64 \<Rightarrow> bytes" where
  "put_u64_be buf v = buf @
     [ucast (drop_bit 56 v AND 0xFF), ucast (drop_bit 48 v AND 0xFF),
      ucast (drop_bit 40 v AND 0xFF), ucast (drop_bit 32 v AND 0xFF),
      ucast (drop_bit 24 v AND 0xFF), ucast (drop_bit 16 v AND 0xFF),
      ucast (drop_bit 8 v AND 0xFF), ucast (v AND 0xFF)]"

definition write_u16_be :: "bytes \<Rightarrow> nat \<Rightarrow> u16 \<Rightarrow> bytes res" where
  "write_u16_be dst off v =
     (if off + 2 \<le> length dst
      then Inr (dst[off := ucast (drop_bit 8 v AND 0xFF), off + 1 := ucast (v AND 0xFF)])
      else Inl (OutOfRange ''write_u16_be''))"

definition write_u32_be :: "bytes \<Rightarrow> nat \<Rightarrow> u32 \<Rightarrow> bytes res" where
  "write_u32_be dst off v =
     (if off + 4 \<le> length dst
      then Inr (dst[off := ucast (drop_bit 24 v AND 0xFF), off + 1 := ucast (drop_bit 16 v AND 0xFF),
                    off + 2 := ucast (drop_bit 8 v AND 0xFF), off + 3 := ucast (v AND 0xFF)])
      else Inl (OutOfRange ''write_u32_be''))"

definition write_u64_be :: "bytes \<Rightarrow> nat \<Rightarrow> u64 \<Rightarrow> bytes res" where
  "write_u64_be dst off v =
     (if off + 8 \<le> length dst
      then Inr (dst[off := ucast (drop_bit 56 v AND 0xFF), off + 1 := ucast (drop_bit 48 v AND 0xFF),
                    off + 2 := ucast (drop_bit 40 v AND 0xFF), off + 3 := ucast (drop_bit 32 v AND 0xFF),
                    off + 4 := ucast (drop_bit 24 v AND 0xFF), off + 5 := ucast (drop_bit 16 v AND 0xFF),
                    off + 6 := ucast (drop_bit 8 v AND 0xFF), off + 7 := ucast (v AND 0xFF)])
      else Inl (OutOfRange ''write_u64_be''))"

section \<open>Reading\<close>

definition read_u16_be :: "bytes \<Rightarrow> nat \<Rightarrow> u16 res" where
  "read_u16_be src off =
     (if off + 2 \<le> length src
      then Inr (push_bit 8 (ucast (src ! off)) OR ucast (src ! (off + 1)))
      else Inl (OutOfRange ''read_u16_be''))"

definition read_u32_be :: "bytes \<Rightarrow> nat \<Rightarrow> u32 res" where
  "read_u32_be src off =
     (if off + 4 \<le> length src
      then Inr (push_bit 24 (ucast (src ! off)) OR push_bit 16 (ucast (src ! (off + 1))) OR
                push_bit 8 (ucast (src ! (off + 2))) OR ucast (src ! (off + 3)))
      else Inl (OutOfRange ''read_u32_be''))"

definition read_u64_be :: "bytes \<Rightarrow> nat \<Rightarrow> u64 res" where
  "read_u64_be src off =
     (if off + 8 \<le> length src
      then Inr (push_bit 56 (ucast (src ! off)) OR push_bit 48 (ucast (src ! (off + 1))) OR
                push_bit 40 (ucast (src ! (off + 2))) OR push_bit 32 (ucast (src ! (off + 3))) OR
                push_bit 24 (ucast (src ! (off + 4))) OR push_bit 16 (ucast (src ! (off + 5))) OR
                push_bit 8 (ucast (src ! (off + 6))) OR ucast (src ! (off + 7)))
      else Inl (OutOfRange ''read_u64_be''))"

section \<open>The contract of a width\<close>

text \<open>\<open>enc v\<close> is what \<open>put\<close> appends.\<close>

locale be_codec =
  fixes put :: "bytes \<Rightarrow> 'w \<Rightarrow> bytes"
    and wr :: "bytes \<Rightarrow> nat \<Rightarrow> 'w \<Rightarrow> bytes res"
    and rd :: "bytes \<Rightarrow> nat \<Rightarrow> 'w res"
    and width :: nat
  assumes put_append: "put buf v = buf @ put [] v"
    and length_put: "length (put [] v) = width"
    and rd_local: "off + width \<le> length src \<Longrightarrow> rd src off = rd (take width (drop off src)) 0"
    and rd_short: "length src < off + width \<Longrightarrow> \<exists>e. rd src off = Inl e"
    and rd_put: "rd (put [] v) 0 = Inr v"
    and put_rd: "length xs = width \<Longrightarrow> rd xs 0 = Inr v \<Longrightarrow> put [] v = xs"
    and rd_total: "length xs = width \<Longrightarrow> \<exists>v. rd xs 0 = Inr v"
    and wr_put: "off + width \<le> length dst \<Longrightarrow>
      wr dst off v = Inr (take off dst @ put [] v @ drop (off + width) dst)"
    and wr_short: "length dst < off + width \<Longrightarrow> \<exists>e. wr dst off v = Inl e"
begin

lemma length_put_buf: "length (put buf v) = length buf + width"
  by (subst put_append) (simp add: length_put)

text \<open>Reading at the place where a value was put gives it back, whatever surrounds it.\<close>

lemma rd_at: "length pre = off \<Longrightarrow> rd (pre @ put [] v @ post) off = Inr v"
  by (subst rd_local) (auto simp: length_put rd_put)

lemma rd_at_put: "length pre = off \<Longrightarrow> rd (put pre v) off = Inr v"
  using rd_at [of pre off v "[]"] by (subst put_append) simp

lemma rd_ok: "off + width \<le> length src \<Longrightarrow> \<exists>v. rd src off = Inr v"
  using rd_local [of off src] rd_total [of "take width (drop off src)"] by (metis length_take
      length_drop le_diff_conv2 min.absorb2 add.commute add_leE)

text \<open>Conversely, the bytes a read consumed are the encoding of its result.\<close>

lemma rd_inverse:
  assumes "rd src off = Inr v"
  shows "off + width \<le> length src \<and> take width (drop off src) = put [] v"
proof -
  have len: "off + width \<le> length src"
    using assms rd_short by (metis Inl_Inr_False not_le)
  then have "rd (take width (drop off src)) 0 = Inr v" using assms rd_local [OF len] by metis
  with len show ?thesis using put_rd [of "take width (drop off src)" v] by simp
qed

lemma rd_iff: "rd src off = Inr v \<longleftrightarrow> off + width \<le> length src \<and> take width (drop off src) = put [] v"
  using rd_inverse [of src off v] rd_local [of off src] rd_put [of v] by auto

text \<open>In-place writing is visible to the reader at the same place and nowhere else.\<close>

lemma rd_wr:
  assumes "off + width \<le> length dst"
  shows "\<exists>dst'. wr dst off v = Inr dst' \<and> length dst' = length dst \<and> rd dst' off = Inr v \<and>
    take off dst' = take off dst \<and> drop (off + width) dst' = drop (off + width) dst"
  using assms rd_at [of "take off dst" off v "drop (off + width) dst"]
  by (simp add: wr_put length_put)

end

section \<open>The three widths satisfy the contract\<close>

subsection \<open>Bits of a byte sequence\<close>

lemma mask_byte: "(255 :: 'a::len word) = mask 8"
  by (simp add: mask_eq_exp_minus_1)

lemma byte_bit_beyond: "8 \<le> n \<Longrightarrow> bit (x :: byte) n = False"
  using bit_imp_le_length [of x n] by auto

lemma octet_index: "n < 64 \<Longrightarrow> \<exists>q r. n = 8 * q + r \<and> r < 8 \<and> q \<in> {0, 1, 2, 3, 4, 5, 6, 7 :: nat}"
  by (rule exI [of _ "n div 8"], rule exI [of _ "n mod 8"]) auto

lemmas octet_simps = bit_simps mask_byte byte_bit_beyond

lemma join_u16:
  "push_bit 8 (ucast (ucast (drop_bit 8 v AND 255) :: byte)) OR ucast (ucast (v AND 255) :: byte)
     = (v :: u16)"
  by (rule bit_word_eqI) (auto simp: octet_simps)

lemma join_u32:
  "push_bit 24 (ucast (ucast (drop_bit 24 v AND 255) :: byte)) OR
   push_bit 16 (ucast (ucast (drop_bit 16 v AND 255) :: byte)) OR
   push_bit 8 (ucast (ucast (drop_bit 8 v AND 255) :: byte)) OR
   ucast (ucast (v AND 255) :: byte) = (v :: u32)" (is "?l = v")
proof (rule bit_word_eqI)
  fix n assume n: "n < LENGTH(32)"
  then obtain q r where "n = 8 * q + r" "r < 8" "q \<in> {0, 1, 2, 3, 4, 5, 6, 7}"
    using octet_index [of n] by auto
  then show "bit ?l n = bit v n"
    using n by (elim insertE emptyE) (simp_all add: octet_simps)
qed

lemma join_u64:
  "push_bit 56 (ucast (ucast (drop_bit 56 v AND 255) :: byte)) OR
   push_bit 48 (ucast (ucast (drop_bit 48 v AND 255) :: byte)) OR
   push_bit 40 (ucast (ucast (drop_bit 40 v AND 255) :: byte)) OR
   push_bit 32 (ucast (ucast (drop_bit 32 v AND 255) :: byte)) OR
   push_bit 24 (ucast (ucast (drop_bit 24 v AND 255) :: byte)) OR
   push_bit 16 (ucast (ucast (drop_bit 16 v AND 255) :: byte)) OR
   push_bit 8 (ucast (ucast (drop_bit 8 v AND 255) :: byte)) OR
   ucast (ucast (v AND 255) :: byte) = (v :: u64)" (is "?l = v")
proof (rule bit_word_eqI)
  fix n assume "n < LENGTH(64)"
  then obtain q r where "n = 8 * q + r" "r < 8" "q \<in> {0, 1, 2, 3, 4, 5, 6, 7}"
    using octet_index [of n] by auto
  then show "bit ?l n = bit v n"
    by (elim insertE emptyE) (simp_all add: octet_simps)
qed

text \<open>Cutting the joined word at byte \<open>i\<close> gives byte \<open>i\<close>.\<close>

lemma cut_u16:
  fixes a b :: byte
  defines "w \<equiv> push_bit 8 (ucast a) OR ucast b :: u16"
  shows "ucast (drop_bit 8 w AND 255) = a" "ucast (w AND 255) = b"
  unfolding w_def by (rule bit_word_eqI, simp add: octet_simps)+

lemma cut_u32:
  fixes a b c d :: byte
  defines "w \<equiv> push_bit 24 (ucast a) OR push_bit 16 (ucast b) OR push_bit 8 (ucast c) OR ucast d :: u32"
  shows "ucast (drop_bit 24 w AND 255) = a" "ucast (drop_bit 16 w AND 255) = b"
    "ucast (drop_bit 8 w AND 255) = c" "ucast (w AND 255) = d"
  unfolding w_def by (rule bit_word_eqI, simp add: octet_simps)+

lemma cut_u64:
  fixes a b c d e f g h :: byte
  defines "w \<equiv> push_bit 56 (ucast a) OR push_bit 48 (ucast b) OR push_bit 40 (ucast c) OR
    push_bit 32 (ucast d) OR push_bit 24 (ucast e) OR push_bit 16 (ucast f) OR
    push_bit 8 (ucast g) OR ucast h :: u64"
  shows "ucast (drop_bit 56 w AND 255) = a" "ucast (drop_bit 48 w AND 255) = b"
    "ucast (drop_bit 40 w AND 255) = c" "ucast (drop_bit 32 w AND 255) = d"
    "ucast (drop_bit 24 w AND 255) = e" "ucast (drop_bit 16 w AND 255) = f"
    "ucast (drop_bit 8 w AND 255) = g" "ucast (w AND 255) = h"
  unfolding w_def by (rule bit_word_eqI, simp add: octet_simps)+

lemma bytes_of_length:
  "length xs = 2 \<Longrightarrow> \<exists>a b. xs = [a, b]"
  "length ys = 4 \<Longrightarrow> \<exists>a b c d. ys = [a, b, c, d]"
  "length zs = 8 \<Longrightarrow> \<exists>a b c d e f g h. zs = [a, b, c, d, e, f, g, h]"
  by (auto simp: numeral_eq_Suc length_Suc_conv)

text \<open>Putting a joined word gives the bytes it was joined from.\<close>

lemma put_join_u16: "put_u16_be [] (push_bit 8 (ucast a) OR ucast b) = [a, b]"
  by (simp only: put_u16_be_def append_Nil cut_u16)

lemma put_join_u32:
  "put_u32_be [] (push_bit 24 (ucast a) OR push_bit 16 (ucast b) OR push_bit 8 (ucast c) OR ucast d)
     = [a, b, c, d]"
  by (simp only: put_u32_be_def append_Nil cut_u32)

lemma put_join_u64:
  "put_u64_be [] (push_bit 56 (ucast a) OR push_bit 48 (ucast b) OR push_bit 40 (ucast c) OR
     push_bit 32 (ucast d) OR push_bit 24 (ucast e) OR push_bit 16 (ucast f) OR
     push_bit 8 (ucast g) OR ucast h) = [a, b, c, d, e, f, g, h]"
  by (simp only: put_u64_be_def append_Nil cut_u64)

lemma read_list:
  "read_u16_be [a, b] 0 = Inr (push_bit 8 (ucast a) OR ucast b)"
  "read_u32_be [a, b, c, d] 0 =
     Inr (push_bit 24 (ucast a) OR push_bit 16 (ucast b) OR push_bit 8 (ucast c) OR ucast d)"
  "read_u64_be [a, b, c, d, e, f, g, h] 0 =
     Inr (push_bit 56 (ucast a) OR push_bit 48 (ucast b) OR push_bit 40 (ucast c) OR
       push_bit 32 (ucast d) OR push_bit 24 (ucast e) OR push_bit 16 (ucast f) OR
       push_bit 8 (ucast g) OR ucast h)"
  by (simp_all add: read_u16_be_def read_u32_be_def read_u64_be_def)

subsection \<open>In-place updates\<close>

lemma window_split:
  assumes "off + n \<le> length dst"
  obtains mid where "dst = take off dst @ mid @ drop (off + n) dst" "length mid = n"
proof
  show "dst = take off dst @ take n (drop off dst) @ drop (off + n) dst"
    by (metis add.commute append_take_drop_id drop_drop)
  show "length (take n (drop off dst)) = n" using assms by simp
qed

lemma write_u16_window:
  assumes "off + 2 \<le> length dst"
  shows "write_u16_be dst off v = Inr (take off dst @ put_u16_be [] v @ drop (off + 2) dst)"
proof -
  from assms obtain mid where d: "dst = take off dst @ mid @ drop (off + 2) dst" "length mid = 2"
    by (rule window_split)
  obtain a b where "mid = [a, b]" using bytes_of_length(1) [OF d(2)] by blast
  with d have eq: "dst = take off dst @ [a, b] @ drop (off + 2) dst" by simp
  have "dst[off := x, off + 1 := y] = take off dst @ [x, y] @ drop (off + 2) dst" for x y
    by (subst eq) (use assms in \<open>simp add: list_update_append numeral_eq_Suc\<close>)
  then show ?thesis using assms by (simp add: write_u16_be_def put_u16_be_def)
qed

lemma write_u32_window:
  assumes "off + 4 \<le> length dst"
  shows "write_u32_be dst off v = Inr (take off dst @ put_u32_be [] v @ drop (off + 4) dst)"
proof -
  from assms obtain mid where d: "dst = take off dst @ mid @ drop (off + 4) dst" "length mid = 4"
    by (rule window_split)
  obtain a b c e where "mid = [a, b, c, e]" using bytes_of_length(2) [OF d(2)] by blast
  with d have eq: "dst = take off dst @ [a, b, c, e] @ drop (off + 4) dst" by simp
  have "dst[off := x, off + 1 := y, off + 2 := z, off + 3 := w] =
      take off dst @ [x, y, z, w] @ drop (off + 4) dst" for x y z w
    by (subst eq) (use assms in \<open>simp add: list_update_append numeral_eq_Suc\<close>)
  then show ?thesis using assms by (simp add: write_u32_be_def put_u32_be_def)
qed

lemma write_u64_window:
  assumes "off + 8 \<le> length dst"
  shows "write_u64_be dst off v = Inr (take off dst @ put_u64_be [] v @ drop (off + 8) dst)"
proof -
  from assms obtain mid where d: "dst = take off dst @ mid @ drop (off + 8) dst" "length mid = 8"
    by (rule window_split)
  obtain a b c e f g h i where "mid = [a, b, c, e, f, g, h, i]"
    using bytes_of_length(3) [OF d(2)] by blast
  with d have eq: "dst = take off dst @ [a, b, c, e, f, g, h, i] @ drop (off + 8) dst" by simp
  have "dst[off := x, off + 1 := y, off + 2 := z, off + 3 := w,
            off + 4 := x', off + 5 := y', off + 6 := z', off + 7 := w'] =
      take off dst @ [x, y, z, w, x', y', z', w'] @ drop (off + 8) dst" for x y z w x' y' z' w'
    by (subst eq) (use assms in \<open>simp add: list_update_append numeral_eq_Suc\<close>)
  then show ?thesis using assms by (simp add: write_u64_be_def put_u64_be_def)
qed

subsection \<open>Interpretations\<close>

interpretation u16: be_codec put_u16_be write_u16_be read_u16_be 2
proof unfold_locales
  fix xs :: bytes and v :: u16
  assume xs: "length xs = 2" and rd: "read_u16_be xs 0 = Inr v"
  from bytes_of_length(1) [OF xs] obtain a b where "xs = [a, b]" by blast
  with rd show "put_u16_be [] v = xs"
    using put_join_u16 by (metis Inr_inject read_list(1))
next
  fix off v and dst :: bytes
  assume "off + 2 \<le> length dst"
  then show "write_u16_be dst off v = Inr (take off dst @ put_u16_be [] v @ drop (off + 2) dst)"
    by (rule write_u16_window)
qed (use join_u16 in \<open>auto simp: put_u16_be_def read_u16_be_def write_u16_be_def\<close>)

interpretation u32: be_codec put_u32_be write_u32_be read_u32_be 4
proof unfold_locales
  fix xs :: bytes and v :: u32
  assume xs: "length xs = 4" and rd: "read_u32_be xs 0 = Inr v"
  from bytes_of_length(2) [OF xs] obtain a b c d where "xs = [a, b, c, d]" by blast
  with rd show "put_u32_be [] v = xs"
    using put_join_u32 by (metis Inr_inject read_list(2))
next
  fix off v and dst :: bytes
  assume "off + 4 \<le> length dst"
  then show "write_u32_be dst off v = Inr (take off dst @ put_u32_be [] v @ drop (off + 4) dst)"
    by (rule write_u32_window)
qed (use join_u32 in \<open>auto simp: put_u32_be_def read_u32_be_def write_u32_be_def\<close>)

interpretation u64: be_codec put_u64_be write_u64_be read_u64_be 8
proof unfold_locales
  fix xs :: bytes and v :: u64
  assume xs: "length xs = 8" and rd: "read_u64_be xs 0 = Inr v"
  from bytes_of_length(3) [OF xs] obtain a b c d e f g h where "xs = [a, b, c, d, e, f, g, h]" by blast
  with rd show "put_u64_be [] v = xs"
    using put_join_u64 by (metis Inr_inject read_list(3))
next
  fix off v and dst :: bytes
  assume "off + 8 \<le> length dst"
  then show "write_u64_be dst off v = Inr (take off dst @ put_u64_be [] v @ drop (off + 8) dst)"
    by (rule write_u64_window)
qed (use join_u64 in \<open>auto simp: put_u64_be_def read_u64_be_def write_u64_be_def\<close>)

lemmas be_lengths [simp, codec_simps] =
  u16.length_put u32.length_put u64.length_put
  u16.length_put_buf u32.length_put_buf u64.length_put_buf

lemmas be_at [simp, codec_simps] = u16.rd_at u32.rd_at u64.rd_at

text \<open>A stand-in for the checksum function, for concrete examples.\<close>

definition example_crc32 :: zlib_crc32 where
  "example_crc32 crc buf = (case buf of None \<Rightarrow> 0 | Some d \<Rightarrow> fold (\<lambda>b a. 3 * a + ucast b) d (crc + 7))"

section \<open>Properties\<close>

text \<open>The big-endian codecs of the three widths are inverse to each other: what \<open>put\<close> appends,
  \<open>read\<close> at that position returns; and a \<open>read\<close> that succeeds determines the bytes it read, which
  are those \<open>put\<close> writes for the value.\<close>

theorem endian_roundtrip:
  "read_u16_be (put_u16_be buf a) (length buf) = Inr a \<and>
   read_u32_be (put_u32_be buf b) (length buf) = Inr b \<and>
   read_u64_be (put_u64_be buf c) (length buf) = Inr c \<and>
   (read_u16_be src off = Inr a \<longleftrightarrow> off + 2 \<le> length src \<and> take 2 (drop off src) = put_u16_be [] a) \<and>
   (read_u32_be src off = Inr b \<longleftrightarrow> off + 4 \<le> length src \<and> take 4 (drop off src) = put_u32_be [] b) \<and>
   (read_u64_be src off = Inr c \<longleftrightarrow> off + 8 \<le> length src \<and> take 8 (drop off src) = put_u64_be [] c)"
  by (intro conjI u16.rd_at_put u32.rd_at_put u64.rd_at_put u16.rd_iff u32.rd_iff u64.rd_iff refl)

text \<open>Writing a value in place inside the buffer succeeds, changes only the bytes of its window
  and is read back; a write that would leave the buffer is an error.\<close>

theorem write_in_place:
  "(if off + 4 \<le> length dst
    then \<exists>dst'. write_u32_be dst off v = Inr dst' \<and> length dst' = length dst \<and> read_u32_be dst' off = Inr v \<and>
      take off dst' = take off dst \<and> drop (off + 4) dst' = drop (off + 4) dst
    else \<exists>e. write_u32_be dst off v = Inl e)"
  using u32.rd_wr [of off dst v] u32.wr_short [of dst off v] by (simp split: if_split)

end
