(* ===== verification/Files.thy ===== *)
theory Files
  imports Prelude
begin

text \<open>
  The files of the machine, and \<open>FileObject\<close> of \<open>include/mini_lsm/table.h\<close>, \<open>src/table/builder.cpp\<close>.

  The files are a map \<open>fs\<close> from paths to contents. What the operating system and the C library
  answer is the record \<open>io\<close>, an argument of the operations that write: whether a file can be
  opened, how many bytes a call of \<open>write\<close> or \<open>fwrite\<close> takes, whether \<open>fflush\<close>, \<open>fsync\<close>
  and \<open>remove\<close> succeed.

  A table file is written once, opened read-only and never changed, so an open \<open>FileObject\<close> is its
  contents; \<open>pread\<close> within a regular file delivers the bytes asked for, in one call or in several.
\<close>

section \<open>The operating system\<close>

type_synonym fs = "string \<Rightarrow> bytes option"

record io =
  io_fopen :: "string \<Rightarrow> bool"
  io_fwrite :: "bytes \<Rightarrow> nat"
  io_fflush :: bool
  io_open :: "string \<Rightarrow> bool"
  io_write :: "bytes \<Rightarrow> int"
  io_fsync :: bool
  io_remove :: "string \<Rightarrow> bool"

text \<open>The machine does what it is asked to; \<open>write\<close> may take fewer bytes than it is offered.\<close>

definition io_works :: "io \<Rightarrow> bool" where
  "io_works io \<longleftrightarrow> (\<forall>p. io_fopen io p) \<and> (\<forall>b. io_fwrite io b = length b) \<and> io_fflush io \<and>
     (\<forall>p. io_open io p) \<and> io_fsync io \<and> (\<forall>b. b \<noteq> [] \<longrightarrow> 0 < io_write io b \<and> io_write io b \<le> int (length b))"

section \<open>FileObject\<close>

record FileObject =
  fo_content :: bytes

definition FileObject_size :: "FileObject \<Rightarrow> nat" where
  "FileObject_size file = length (fo_content file)"

definition FileObject_open :: "io \<Rightarrow> string \<Rightarrow> (fs, FileObject) m" where
  "FileObject_open io path = (\<lambda>files.
     case files path of
       None \<Rightarrow> Some (Inl (Throw (''Failed to open file: '' @ path)), files)
     | Some d \<Rightarrow>
         if \<not> io_open io path then Some (Inl (Throw (''Failed to open file: '' @ path)), files)
         else Some (Inr \<lparr>fo_content = d\<rparr>, files))"

text \<open>One round of the writing loop.\<close>

definition FileObject_write_step :: "io \<Rightarrow> string \<Rightarrow> bytes \<Rightarrow> nat \<Rightarrow> (fs, nat) m" where
  "FileObject_write_step io path data written = (\<lambda>files.
     let rest = drop written data; ret = io_write io rest in
     if ret < 0 then Some (Inl (Throw (''Failed to write data to file: '' @ path)), files)
     else Some (Inr (written + nat ret),
       files(path \<mapsto> (case files path of None \<Rightarrow> [] | Some d \<Rightarrow> d) @ take (nat ret) rest)))"

definition FileObject_create :: "io \<Rightarrow> string \<Rightarrow> bytes \<Rightarrow> (fs, FileObject) m" where
  "FileObject_create io path data = (\<lambda>files.
     if \<not> io_open io path then Some (Inl (Throw (''Failed to create file: '' @ path)), files)
     else m_bind (m_while (\<lambda>written. m_return (written < length data)) (FileObject_write_step io path data) 0)
            (\<lambda>_. FileObject_open io path) (files(path \<mapsto> [])))"

text \<open>An offset or a length outside the file makes \<open>pread\<close> (or the allocation of the buffer) fail;
  all these failures are exceptions.\<close>

definition FileObject_read :: "FileObject \<Rightarrow> nat \<Rightarrow> nat \<Rightarrow> bytes res" where
  "FileObject_read file off len =
     (if len = 0 then Inr []
      else if off + len \<le> length (fo_content file) then Inr (take len (drop off (fo_content file)))
      else Inl (Throw ''Unexpected EOF during pread''))"

lemma FileObject_read_append:
  "fo_content file = xs @ ys @ zs \<Longrightarrow> length xs = off \<Longrightarrow> length ys = n \<Longrightarrow> FileObject_read file off n = Inr ys"
  by (auto simp: FileObject_read_def)

text \<open>However the writes are split up, the file ends up with the data.\<close>

lemma write_loop_ok:
  assumes "io_works io" and "written \<le> length data" and "files path = Some (take written data)"
  shows "m_while (\<lambda>written. m_return (written < length data)) (FileObject_write_step io path data) written files =
    Some (Inr (length data), files(path \<mapsto> data))"
  using assms(2,3)
proof (induction "length data - written" arbitrary: written files rule: less_induct)
  case less
  show ?case
  proof (cases "written < length data")
    case False
    then show ?thesis using less.prems by (subst m_while.simps) (simp add: fun_upd_idem)
  next
    case True
    let ?rest = "drop written data" and ?n = "nat (io_write io (drop written data))"
    have "?rest \<noteq> []" using True by simp
    then have "0 < io_write io ?rest \<and> io_write io ?rest \<le> int (length ?rest)"
      using assms(1) unfolding io_works_def by blast
    then have n: "0 < ?n" "?n \<le> length data - written" "\<not> io_write io ?rest < 0" by auto
    have "take written data @ take ?n ?rest = take (written + ?n) data" by (simp add: take_add)
    then have step: "FileObject_write_step io path data written files =
        Some (Inr (written + ?n), files(path \<mapsto> take (written + ?n) data))"
      using n(3) less.prems(2) by (simp add: FileObject_write_step_def Let_def)
    have "m_while (\<lambda>written. m_return (written < length data)) (FileObject_write_step io path data)
        (written + ?n) (files(path \<mapsto> take (written + ?n) data)) =
      Some (Inr (length data), (files(path \<mapsto> take (written + ?n) data))(path \<mapsto> data))"
      using n less.prems True by (intro less.hyps) auto
    then show ?thesis using True step by (subst m_while.simps) simp
  qed
qed

lemma FileObject_create_ok:
  assumes "io_works io"
  shows "FileObject_create io path data files = Some (Inr \<lparr>fo_content = data\<rparr>, files(path \<mapsto> data))"
proof -
  have "m_while (\<lambda>written. m_return (written < length data)) (FileObject_write_step io path data) 0
      (files(path \<mapsto> [])) = Some (Inr (length data), (files(path \<mapsto> []))(path \<mapsto> data))"
    by (rule write_loop_ok [OF assms]) simp_all
  then show ?thesis
    using assms by (simp add: FileObject_create_def m_bind_def FileObject_open_def io_works_def)
qed

section \<open>Properties\<close>

text \<open>A system whose \<open>write\<close> takes one byte at a time, so that every loop around it is exercised.\<close>

definition example_io :: io where
  "example_io = \<lparr>io_fopen = \<lambda>_. True, io_fwrite = length, io_fflush = True, io_open = \<lambda>_. True, io_write = \<lambda>_. 1,
     io_fsync = True, io_remove = \<lambda>_. True\<rparr>"

lemma example_io_works: "io_works example_io"
  by (auto simp: io_works_def example_io_def Suc_le_eq simp flip: of_nat_Suc)

text \<open>C39: \<open>FileObject::create\<close> returns for every way in which \<open>write\<close> may split the data, leaves
  exactly the data in the file and touches no other file; \<open>read\<close> then returns the requested bytes,
  or throws when they extend beyond the end.\<close>

theorem FileObject_create_read:
  assumes "io_works io"
  shows "\<exists>file. FileObject_create io path data files = Some (Inr file, files(path \<mapsto> data)) \<and>
    FileObject_size file = length data \<and>
    FileObject_read file off len =
      (if len = 0 \<or> off + len \<le> length data then Inr (take len (drop off data))
       else Inl (Throw ''Unexpected EOF during pread''))"
  using FileObject_create_ok [OF assms, of path data files]
  by (auto simp: FileObject_read_def FileObject_size_def)

theorem FileObject_create_read_witness:
  "io_works example_io \<and>
   (\<exists>file. FileObject_create example_io ''a'' [1, 2, 3] Map.empty = Some (Inr file, Map.empty(''a'' \<mapsto> [1, 2, 3])) \<and>
      FileObject_size file = 3 \<and> FileObject_read file 1 2 = Inr [2, 3])"
  using FileObject_create_read [OF example_io_works, of "''a''" "[1, 2, 3]" Map.empty 1 2] example_io_works
  by (simp add: numeral_2_eq_2 numeral_3_eq_3)

end
