(* ===== verification/Wal.thy ===== *)
theory Wal
  imports Key Endian Files
begin

text \<open>
  The write-ahead log (\<open>include/mini_lsm/wal.h\<close>, \<open>src/wal.cpp\<close>).

  A \<open>Wal\<close> owns a buffered \<open>FILE*\<close>: \<open>wal_buf\<close> holds what was written to the stream and has not
  reached the file yet; a crash leaves the file with some prefix of it.

  A frame is \<open>key_len\<close>, key, \<open>value_len\<close>, value and the checksum of all that. The lemmas show what
  recovery reads from any file: exactly the longest sequence of intact frames it starts with.
\<close>

section \<open>The log\<close>

record Wal =
  wal_path :: string
  wal_fp :: bool
  wal_buf :: bytes

text \<open>\<open>fopen(path, "wb+")\<close> creates or empties the file.\<close>

definition Wal_create :: "io \<Rightarrow> string \<Rightarrow> fs \<Rightarrow> Wal res \<times> fs" where
  "Wal_create io path fs =
     (if \<not> io_fopen io path then (Inl (Fail ''Failed to create WAL file''), fs)
      else (Inr \<lparr>wal_path = path, wal_fp = True, wal_buf = []\<rparr>, fs(path \<mapsto> [])))"

text \<open>One round of the recovery loop: \<open>None\<close> where it breaks off, otherwise the next position and the
  record.\<close>

definition Wal_read_frame :: "zlib_crc32 \<Rightarrow> bytes \<Rightarrow> nat \<Rightarrow> (nat \<times> entry) option res" where
  "Wal_read_frame crc32 buf pos =
     (if length buf - pos < 2 then Inr None
      else res_bind (read_u16_be buf pos) (\<lambda>kl.
        let key_len = unat kl in
        if length buf - pos < 2 + key_len + 2 then Inr None
        else res_bind (read_u16_be buf (pos + 2 + key_len)) (\<lambda>vl.
          let val_len = unat vl; frame_content_len = 2 + key_len + 2 + val_len in
          if length buf - pos < frame_content_len + 4 then Inr None
          else res_bind (sub_bytes buf pos frame_content_len) (\<lambda>content.
            let computed_crc = crc32_hash crc32 content in
            res_bind (read_u32_be buf (pos + frame_content_len)) (\<lambda>expected_crc.
            if computed_crc \<noteq> expected_crc then Inr None
            else res_bind (sub_bytes buf (pos + 2) key_len) (\<lambda>key.
              res_bind (sub_bytes buf (pos + 2 + key_len + 2) val_len) (\<lambda>val.
              Inr (Some (pos + frame_content_len + 4, (key, val))))))))))"

lemma Wal_read_frame_advances: "Wal_read_frame crc32 buf pos = Inr (Some (pos', r)) \<Longrightarrow> pos < pos' \<and> pos' \<le> length buf"
  by (auto simp: Wal_read_frame_def Let_def res_bind_Inr_iff split: if_splits)

function Wal_recover_loop :: "zlib_crc32 \<Rightarrow> bytes \<Rightarrow> nat \<Rightarrow> entry list \<Rightarrow> (nat \<times> entry list) res" where
  "Wal_recover_loop crc32 buf pos recovered =
     (if pos < length buf then
        (case Wal_read_frame crc32 buf pos of
           Inl e \<Rightarrow> Inl e
         | Inr None \<Rightarrow> Inr (pos, recovered)
         | Inr (Some (pos', r)) \<Rightarrow> Wal_recover_loop crc32 buf pos' (recovered @ [r]))
      else Inr (pos, recovered))"
  by pat_completeness auto
termination
  by (relation "measure (\<lambda>(_, buf, pos, _). length buf - pos)")
    (auto dest!: Wal_read_frame_advances)

declare Wal_recover_loop.simps [simp del]

text \<open>\<open>truncate\<close> cuts the file; \<open>fopen(path, "ab+")\<close> appends to what is there.\<close>

definition Wal_recover :: "zlib_crc32 \<Rightarrow> io \<Rightarrow> string \<Rightarrow> fs \<Rightarrow> (Wal \<times> entry list) res \<times> fs" where
  "Wal_recover crc32 io path fs =
     (case fs path of
        None \<Rightarrow>
          (case Wal_create io path fs of (r, fs) \<Rightarrow> (res_bind r (\<lambda>w. Inr (w, [])), fs))
      | Some buf \<Rightarrow>
          (case Wal_recover_loop crc32 buf 0 [] of
             Inl e \<Rightarrow> (Inl e, fs)
           | Inr (pos, recovered) \<Rightarrow>
               let fs = (if pos \<noteq> length buf then fs(path \<mapsto> take pos buf) else fs) in
               if \<not> io_fopen io path then (Inl (Fail ''Failed to open WAL for append after recovery''), fs)
               else (Inr (\<lparr>wal_path = path, wal_fp = True, wal_buf = []\<rparr>, recovered), fs)))"

text \<open>\<open>fwrite\<close> reports how many bytes it took.\<close>

definition Wal_put :: "zlib_crc32 \<Rightarrow> io \<Rightarrow> bytes \<Rightarrow> bytes \<Rightarrow> Wal \<Rightarrow> unit res \<times> Wal" where
  "Wal_put crc32 io key value wal =
     (if \<not> wal_fp wal then (Inl (Fail ''WAL file pointer is null''), wal)
      else
        let frame = put_u16_be [] (of_nat (length key));
            frame = frame @ key;
            frame = put_u16_be frame (of_nat (length value));
            frame = frame @ value;
            crc = crc32_hash crc32 frame;
            frame = put_u32_be frame crc;
            written = io_fwrite io frame;
            wal = wal\<lparr>wal_buf := wal_buf wal @ take written frame\<rparr>
        in if written \<noteq> length frame then (Inl (Fail ''Failed to write frame to WAL''), wal)
           else (Inr (), wal))"

fun Wal_batch_frames :: "zlib_crc32 \<Rightarrow> entry list \<Rightarrow> bytes \<Rightarrow> bytes" where
  "Wal_batch_frames crc32 [] buffer = buffer"
| "Wal_batch_frames crc32 ((key, value) # batch) buffer =
     (let start_idx = length buffer;
          buffer = put_u16_be buffer (of_nat (length key));
          buffer = buffer @ key;
          buffer = put_u16_be buffer (of_nat (length value));
          buffer = buffer @ value;
          crc = crc32_hash crc32 (drop start_idx buffer);
          buffer = put_u32_be buffer crc
      in Wal_batch_frames crc32 batch buffer)"

definition Wal_put_batch :: "zlib_crc32 \<Rightarrow> io \<Rightarrow> entry list \<Rightarrow> Wal \<Rightarrow> unit res \<times> Wal" where
  "Wal_put_batch crc32 io batch wal =
     (if \<not> wal_fp wal then (Inl (Fail ''WAL file pointer is null''), wal)
      else
        let buffer = Wal_batch_frames crc32 batch [];
            written = io_fwrite io buffer;
            wal = wal\<lparr>wal_buf := wal_buf wal @ take written buffer\<rparr>
        in if written \<noteq> length buffer then (Inl (Fail ''Failed to write batch to WAL''), wal)
           else (Inr (), wal))"

text \<open>\<open>fflush\<close> moves the buffered bytes to the end of the file.\<close>

definition Wal_fflush :: "Wal \<Rightarrow> fs \<Rightarrow> Wal \<times> fs" where
  "Wal_fflush wal fs =
     (wal\<lparr>wal_buf := []\<rparr>,
      fs(wal_path wal \<mapsto> (case fs (wal_path wal) of None \<Rightarrow> [] | Some d \<Rightarrow> d) @ wal_buf wal))"

definition Wal_sync :: "io \<Rightarrow> Wal \<Rightarrow> fs \<Rightarrow> unit res \<times> Wal \<times> fs" where
  "Wal_sync io wal fs =
     (if \<not> wal_fp wal then (Inl (Fail ''WAL file pointer is null''), wal, fs)
      else if \<not> io_fflush io then (Inl (Fail ''Failed to flush WAL buffer''), wal, fs)
      else (Inr (), Wal_fflush wal fs))"

text \<open>The destructor flushes and closes.\<close>

definition Wal_destroy :: "Wal \<Rightarrow> fs \<Rightarrow> fs" where
  "Wal_destroy wal fs = (if wal_fp wal then snd (Wal_fflush wal fs) else fs)"

section \<open>Frames\<close>

definition wal_content :: "entry \<Rightarrow> bytes" where
  "wal_content e = put_u16_be [] (of_nat (length (fst e))) @ fst e @
     put_u16_be [] (of_nat (length (snd e))) @ snd e"

definition wal_frame :: "zlib_crc32 \<Rightarrow> entry \<Rightarrow> bytes" where
  "wal_frame crc32 e = wal_content e @ put_u32_be [] (crc32_hash crc32 (wal_content e))"

abbreviation wal_frames :: "zlib_crc32 \<Rightarrow> entry list \<Rightarrow> bytes" where
  "wal_frames crc32 es \<equiv> concat (map (wal_frame crc32) es)"

text \<open>The lengths fit their 16-bit fields.\<close>

definition wal_entry :: "entry \<Rightarrow> bool" where
  "wal_entry e \<longleftrightarrow> length (fst e) < 2 ^ 16 \<and> length (snd e) < 2 ^ 16"

lemma length_wal_content [simp]: "length (wal_content e) = 4 + length (fst e) + length (snd e)"
  by (simp add: wal_content_def)

lemma length_wal_frame [simp]: "length (wal_frame crc32 e) = 8 + length (fst e) + length (snd e)"
  by (simp add: wal_frame_def)

text \<open>What the two writers append.\<close>

lemma wal_content_puts:
  "put_u16_be (put_u16_be buf (of_nat (length k)) @ k) (of_nat (length v)) @ v = buf @ wal_content (k, v)"
  by (subst u16.put_append, subst u16.put_append [of buf]) (simp add: wal_content_def)

lemma wal_frame_puts:
  "put_u32_be (buf @ wal_content e) (crc32_hash crc32 (wal_content e)) = buf @ wal_frame crc32 e"
  by (subst u32.put_append) (simp add: wal_frame_def)

lemma Wal_put_eq:
  assumes "io_works io" and "wal_fp wal"
  shows "Wal_put crc32 io k v wal = (Inr (), wal\<lparr>wal_buf := wal_buf wal @ wal_frame crc32 (k, v)\<rparr>)"
  using assms wal_content_puts [of "[]" k v] wal_frame_puts [of "[]" "(k, v)" crc32]
  by (simp add: Wal_put_def io_works_def Let_def)

lemma Wal_batch_frames_eq: "Wal_batch_frames crc32 es buf = buf @ wal_frames crc32 es"
proof (induction es arbitrary: buf)
  case (Cons e es)
  have "drop (length buf) (buf @ xs) = xs" for xs by simp
  with Cons show ?case
    by (cases e) (simp add: Let_def wal_content_puts wal_frame_puts del: drop_append)
qed simp

lemma Wal_put_batch_eq:
  "io_works io \<Longrightarrow> wal_fp wal \<Longrightarrow>
   Wal_put_batch crc32 io es wal = (Inr (), wal\<lparr>wal_buf := wal_buf wal @ wal_frames crc32 es\<rparr>)"
  by (simp add: Wal_put_batch_def io_works_def Wal_batch_frames_eq Let_def)

section \<open>Recovery\<close>

lemma wal_parts:
  fixes crc32 k v pre post
  defines "a \<equiv> put_u16_be [] (of_nat (length k))" and "b \<equiv> put_u16_be [] (of_nat (length v))"
    and "c \<equiv> put_u32_be [] (crc32_hash crc32 (wal_content (k, v)))"
  shows "wal_frame crc32 (k, v) = a @ k @ b @ v @ c" "length a = 2" "length b = 2" "length c = 4"
  by (simp_all add: wal_frame_def wal_content_def assms)

lemma Wal_read_frame_intact:
  assumes "wal_entry e" and pos: "length pre = pos"
  shows "Wal_read_frame crc32 (pre @ wal_frame crc32 e @ post) pos =
    Inr (Some (pos + length (wal_frame crc32 e), e))"
proof -
  obtain k v where e: "e = (k, v)" by (cases e)
  let ?buf = "pre @ wal_frame crc32 e @ post"
  let ?a = "put_u16_be [] (of_nat (length k))" and ?b = "put_u16_be [] (of_nat (length v))"
  let ?c = "put_u32_be [] (crc32_hash crc32 (wal_content e))"
  have kl: "unat (of_nat (length k) :: u16) = length k" and vl: "unat (of_nat (length v) :: u16) = length v"
    using assms(1) by (simp_all add: e wal_entry_def)
  have buf: "?buf = pre @ ?a @ (k @ ?b @ v @ ?c @ post)" "?buf = (pre @ ?a @ k) @ ?b @ (v @ ?c @ post)"
    "?buf = (pre @ wal_content e) @ ?c @ post" "?buf = pre @ wal_content e @ (?c @ post)"
    "?buf = (pre @ ?a) @ k @ (?b @ v @ ?c @ post)" "?buf = (pre @ ?a @ k @ ?b) @ v @ (?c @ post)"
    by (simp_all add: e wal_frame_def wal_content_def)
  have "read_u16_be ?buf pos = Inr (of_nat (length k))"
    unfolding buf(1) using pos by (rule u16.rd_at)
  moreover have "read_u16_be ?buf (pos + 2 + length k) = Inr (of_nat (length v))"
    unfolding buf(2) by (rule u16.rd_at) (simp add: pos)
  moreover have "read_u32_be ?buf (pos + (2 + length k + 2 + length v)) = Inr (crc32_hash crc32 (wal_content e))"
    unfolding buf(3) by (rule u32.rd_at) (simp add: pos e)
  moreover have "sub_bytes ?buf pos (2 + length k + 2 + length v) = Inr (wal_content e)"
    unfolding buf(4) by (rule sub_bytes_append) (simp_all add: pos e)
  moreover have "sub_bytes ?buf (pos + 2) (length k) = Inr k"
    unfolding buf(5) by (rule sub_bytes_append) (simp_all add: pos)
  moreover have "sub_bytes ?buf (pos + 2 + length k + 2) (length v) = Inr v"
    unfolding buf(6) by (rule sub_bytes_append) (simp_all add: pos)
  moreover have "\<not> length ?buf - pos < 2" "\<not> length ?buf - pos < 2 + length k + 2"
    "\<not> length ?buf - pos < 2 + length k + 2 + length v + 4"
    by (simp_all add: pos e)
  moreover have "pos + (2 + length k + 2 + length v) + 4 = pos + length (wal_frame crc32 e)" by (simp add: e)
  ultimately show ?thesis
    unfolding Wal_read_frame_def Let_def
    by (simp only: res_bind_simps kl vl if_False not_True_eq_False simp_thms) (simp add: e)
qed

text \<open>A torn frame is recognised, whatever its checksum.\<close>

lemma strict_prefix_peel:
  assumes "strict_prefix t (xs @ rest)" and "length xs \<le> length t"
  obtains t' where "t = xs @ t'" and "strict_prefix t' rest"
proof -
  obtain z zs where z: "xs @ rest = t @ z # zs" by (rule strict_prefixE' [OF assms(1)])
  from z obtain us where "xs @ us = t \<and> rest = us @ z # zs \<or> xs = t @ us \<and> us @ rest = z # zs"
    unfolding append_eq_append_conv2 by blast
  then have "t = xs @ us \<and> rest = us @ z # zs"
  proof
    assume "xs = t @ us \<and> us @ rest = z # zs"
    moreover from this have "us = []" using assms(2) by simp
    ultimately show ?thesis by simp
  qed simp
  then have "t = xs @ us" and r: "rest = us @ z # zs" by simp_all
  then show thesis by (intro that [of us] strict_prefixI' [OF r])
qed

lemma Wal_read_frame_torn:
  assumes "wal_entry e" and "strict_prefix t (wal_frame crc32 e)" and pos: "length pre = pos"
  shows "Wal_read_frame crc32 (pre @ t) pos = Inr None"
proof (cases "length t < 2")
  case True
  then show ?thesis using pos by (simp add: Wal_read_frame_def)
next
  case False
  obtain k v where e: "e = (k, v)" by (cases e)
  have kl: "unat (of_nat (length k) :: u16) = length k" and vl: "unat (of_nat (length v) :: u16) = length v"
    using assms(1) by (simp_all add: e wal_entry_def)
  have lt: "length t < 8 + length k + length v"
    using prefix_length_less [OF assms(2)] by (simp add: e)
  define crc where "crc = put_u32_be [] (crc32_hash crc32 (wal_content (k, v)))"
  have "strict_prefix t (put_u16_be [] (of_nat (length k)) @ k @ put_u16_be [] (of_nat (length v)) @ v @ crc)"
    using assms(2) by (simp add: e wal_parts(1) crc_def)
  then obtain t' where t: "t = put_u16_be [] (of_nat (length k)) @ t'"
    and t': "strict_prefix t' (k @ put_u16_be [] (of_nat (length v)) @ v @ crc)"
    by (rule strict_prefix_peel) (use False in simp)
  have rk: "read_u16_be (pre @ t) pos = Inr (of_nat (length k))"
    unfolding t using pos by (rule u16.rd_at)
  show ?thesis
  proof (cases "length t < 2 + length k + 2")
    case True
    then show ?thesis using False pos rk kl by (simp add: Wal_read_frame_def Let_def)
  next
    case long: False
    then have len: "length k + 2 \<le> length t'" by (simp add: t)
    obtain t'' where t2: "t' = k @ t''" and pre: "strict_prefix t'' (put_u16_be [] (of_nat (length v)) @ v @ crc)"
      by (rule strict_prefix_peel [OF t']) (use len in simp)
    obtain u where u: "t'' = put_u16_be [] (of_nat (length v)) @ u"
      by (rule strict_prefix_peel [OF pre]) (use len t2 in simp_all)
    have rv: "read_u16_be (pre' @ t'') (length pre') = Inr (of_nat (length v))" for pre'
      unfolding u by (rule u16.rd_at) simp
    have "pre @ t = (pre @ put_u16_be [] (of_nat (length k)) @ k) @ t''" by (simp add: t t2)
    then have "read_u16_be (pre @ t) (pos + 2 + length k) = Inr (of_nat (length v))"
      using rv [of "pre @ put_u16_be [] (of_nat (length k)) @ k"] pos by simp
    moreover have "length (pre @ t) - pos < 2 + length k + 2 + length v + 4" "\<not> length (pre @ t) - pos < 2"
      "\<not> length (pre @ t) - pos < 2 + length k + 2"
      using False pos lt long by simp_all
    ultimately show ?thesis
      unfolding Wal_read_frame_def Let_def by (simp only: rk res_bind_simps kl vl if_True if_False)
  qed
qed

text \<open>Completeness of recovery: every intact frame is recovered, a torn one at the end is cut off.\<close>

lemma Wal_recover_loop_frames:
  assumes "\<forall>e \<in> set es. wal_entry e" and "length pre = pos"
    and t: "t = [] \<or> Wal_read_frame crc32 (pre @ wal_frames crc32 es @ t) (pos + length (wal_frames crc32 es)) = Inr None"
  shows "Wal_recover_loop crc32 (pre @ wal_frames crc32 es @ t) pos acc =
    Inr (pos + length (wal_frames crc32 es), acc @ es)"
  using assms
proof (induction es arbitrary: pre pos acc)
  case Nil
  then show ?case by (auto simp: Wal_recover_loop.simps)
next
  case (Cons e es)
  have "Wal_recover_loop crc32 ((pre @ wal_frame crc32 e) @ wal_frames crc32 es @ t)
      (pos + length (wal_frame crc32 e)) (acc @ [e]) =
    Inr ((pos + length (wal_frame crc32 e)) + length (wal_frames crc32 es), (acc @ [e]) @ es)"
    by (rule Cons.IH) (use Cons.prems in \<open>simp_all add: add.assoc\<close>)
  moreover have "Wal_read_frame crc32 (pre @ wal_frames crc32 (e # es) @ t) pos =
      Inr (Some (pos + length (wal_frame crc32 e), e))"
    using Wal_read_frame_intact [of e pre pos crc32 "wal_frames crc32 es @ t"] Cons.prems by simp
  ultimately show ?case
    using Cons.prems(2) by (subst Wal_recover_loop.simps) (simp add: add.assoc)
qed

text \<open>Soundness: what one round accepts is a frame of the file.\<close>

lemma take_drop_add: "take (m + n) (drop i xs) = take m (drop i xs) @ take n (drop (i + m) xs)"
  by (simp add: take_add add.commute)

lemma Wal_read_frame_sound:
  assumes "Wal_read_frame crc32 buf pos = Inr (Some (pos', e))"
  shows "wal_entry e \<and> pos' = pos + length (wal_frame crc32 e) \<and>
    take (length (wal_frame crc32 e)) (drop pos buf) = wal_frame crc32 e"
proof -
  from assms obtain kl vl where
    rk: "read_u16_be buf pos = Inr kl" and rv: "read_u16_be buf (pos + 2 + unat kl) = Inr vl"
    and len: "pos + (2 + unat kl + 2 + unat vl + 4) \<le> length buf"
    and crc: "read_u32_be buf (pos + (2 + unat kl + 2 + unat vl)) =
      Inr (crc32_hash crc32 (take (2 + unat kl + 2 + unat vl) (drop pos buf)))"
    and e: "e = (take (unat kl) (drop (pos + 2) buf), take (unat vl) (drop (pos + 2 + unat kl + 2) buf))"
    and pos': "pos' = pos + (2 + unat kl + 2 + unat vl) + 4"
    by (auto simp: Wal_read_frame_def Let_def res_bind_Inr_iff sub_bytes_Inr_iff split: if_splits)
  have lk: "length (fst e) = unat kl" and lv: "length (snd e) = unat vl" using len by (auto simp: e)
  note inv = u16.rd_inverse [OF rk] u16.rd_inverse [OF rv] u32.rd_inverse [OF crc]
  have "take (2 + unat kl + 2 + unat vl) (drop pos buf) = wal_content e"
    unfolding take_drop_add wal_content_def lk lv using inv
    by (simp add: e add.assoc)
  moreover have "take (2 + unat kl + 2 + unat vl + 4) (drop pos buf) =
      take (2 + unat kl + 2 + unat vl) (drop pos buf) @ take 4 (drop (pos + (2 + unat kl + 2 + unat vl)) buf)"
    by (rule take_drop_add)
  ultimately have "take (2 + unat kl + 2 + unat vl + 4) (drop pos buf) = wal_frame crc32 e"
    using inv(3) by (simp only: wal_frame_def)
  moreover have l: "length (wal_frame crc32 e) = 2 + unat kl + 2 + unat vl + 4" by (simp add: lk lv)
  ultimately have "take (length (wal_frame crc32 e)) (drop pos buf) = wal_frame crc32 e" by (simp only:)
  then show ?thesis by (simp add: wal_entry_def lk lv pos' del: length_wal_frame) (simp add: lk lv)
qed

lemma Wal_read_frame_no_error: "\<exists>r. Wal_read_frame crc32 buf pos = Inr r"
proof -
  have "\<exists>r. Wal_read_frame crc32 buf pos = Inr r" if "2 \<le> length buf - pos"
  proof -
    have "pos + 2 \<le> length buf" using that by linarith
    then obtain kl where kl: "read_u16_be buf pos = Inr kl" using u16.rd_ok by blast
    have "\<exists>vl. read_u16_be buf (pos + 2 + unat kl) = Inr vl" if "\<not> length buf - pos < 2 + unat kl + 2"
      using u16.rd_ok [of "pos + 2 + unat kl" buf] that by auto
    moreover have "\<exists>c. read_u32_be buf (pos + (2 + unat kl + 2 + n)) = Inr c"
      if "\<not> length buf - pos < 2 + unat kl + 2 + n + 4" for n
      using u32.rd_ok [of "pos + (2 + unat kl + 2 + n)" buf] that by auto
    ultimately show ?thesis
      using kl that unfolding Wal_read_frame_def Let_def
      by (fastforce simp: sub_bytes_def)
  qed
  then show ?thesis by (cases "length buf - pos < 2") (auto simp: Wal_read_frame_def)
qed

lemma Wal_recover_loop_sound:
  assumes "pos \<le> length buf"
  shows "\<exists>pos' es. Wal_recover_loop crc32 buf pos acc = Inr (pos', acc @ es) \<and> (\<forall>e \<in> set es. wal_entry e) \<and>
    pos' = pos + length (wal_frames crc32 es) \<and> take pos' buf = take pos buf @ wal_frames crc32 es \<and>
    (pos' < length buf \<longrightarrow> Wal_read_frame crc32 buf pos' = Inr None)"
  using assms
proof (induction crc32 buf pos acc rule: Wal_recover_loop.induct)
  case (1 crc32 buf pos acc)
  obtain r where r: "Wal_read_frame crc32 buf pos = Inr r" using Wal_read_frame_no_error by blast
  show ?case
  proof (cases "pos < length buf \<and> r \<noteq> None")
    case False
    then have "pos < length buf \<Longrightarrow> r = None" by blast
    then show ?thesis using 1 r by (subst Wal_recover_loop.simps) (auto intro!: exI [of _ "[]"])
  next
    case True
    then obtain p e where "r = Some (p, e)" by auto
    with r have rf: "Wal_read_frame crc32 buf pos = Inr (Some (p, e))" by simp
    note s = Wal_read_frame_sound [OF rf] and p = Wal_read_frame_advances [OF rf]
    from 1(1) [OF _ rf refl] True p obtain pos' es where IH:
      "Wal_recover_loop crc32 buf p (acc @ [e]) = Inr (pos', (acc @ [e]) @ es)" "\<forall>e \<in> set es. wal_entry e"
      "pos' = p + length (wal_frames crc32 es)" "take pos' buf = take p buf @ wal_frames crc32 es"
      "pos' < length buf \<longrightarrow> Wal_read_frame crc32 buf pos' = Inr None" by auto
    have "take p buf = take pos buf @ wal_frame crc32 e"
      using s by (simp add: take_add)
    with IH s rf True show ?thesis
      by (subst Wal_recover_loop.simps) (auto intro!: exI [of _ "e # es"])
  qed
qed

section \<open>The life of a log\<close>

text \<open>An open log whose file holds the frames of \<open>es\<close> and whose stream buffers those of \<open>fs\<close>.\<close>

definition wal_holds :: "zlib_crc32 \<Rightarrow> Wal \<Rightarrow> fs \<Rightarrow> entry list \<Rightarrow> entry list \<Rightarrow> bool" where
  "wal_holds crc32 wal files es bs \<longleftrightarrow> wal_fp wal \<and> files (wal_path wal) = Some (wal_frames crc32 es) \<and>
     wal_buf wal = wal_frames crc32 bs \<and> (\<forall>e \<in> set (es @ bs). wal_entry e)"

text \<open>A crash keeps the first \<open>n\<close> bytes of what the stream had buffered.\<close>

definition wal_crash :: "nat \<Rightarrow> Wal \<Rightarrow> fs \<Rightarrow> fs" where
  "wal_crash n wal files = snd (Wal_fflush (wal\<lparr>wal_buf := take n (wal_buf wal)\<rparr>) files)"

lemma wal_holds_create [inv_intros]:
  "io_works io \<Longrightarrow> \<exists>w. Wal_create io path files = (Inr w, files(path \<mapsto> [])) \<and> wal_path w = path \<and>
     wal_holds crc32 w (files(path \<mapsto> [])) [] []"
  by (simp add: Wal_create_def io_works_def wal_holds_def)

lemma wal_holds_put [inv_intros]:
  assumes "io_works io" and "wal_holds crc32 wal files es bs" and "wal_entry (k, v)"
  shows "\<exists>w. Wal_put crc32 io k v wal = (Inr (), w) \<and> wal_path w = wal_path wal \<and>
    wal_holds crc32 w files es (bs @ [(k, v)])"
  using assms Wal_put_eq [OF assms(1), of wal crc32 k v] by (auto simp: wal_holds_def)

lemma wal_holds_put_batch [inv_intros]:
  assumes "io_works io" and "wal_holds crc32 wal files es bs" and "\<forall>e \<in> set cs. wal_entry e"
  shows "\<exists>w. Wal_put_batch crc32 io cs wal = (Inr (), w) \<and> wal_path w = wal_path wal \<and>
    wal_holds crc32 w files es (bs @ cs)"
  using assms Wal_put_batch_eq [OF assms(1), of wal crc32 cs] by (auto simp: wal_holds_def)

lemma wal_holds_sync [inv_intros]:
  assumes "io_works io" and "wal_holds crc32 wal files es bs"
  shows "\<exists>w files'. Wal_sync io wal files = (Inr (), w, files') \<and> wal_path w = wal_path wal \<and>
    (\<forall>p. p \<noteq> wal_path wal \<longrightarrow> files' p = files p) \<and> wal_holds crc32 w files' (es @ bs) []"
  using assms by (auto simp: Wal_sync_def Wal_fflush_def io_works_def wal_holds_def)

text \<open>A prefix of the bytes of some frames is the bytes of the first few of them and a torn one.\<close>

lemma take_wal_frames:
  "\<exists>j t. take n (wal_frames crc32 bs) = wal_frames crc32 (take j bs) @ t \<and>
     (length bs \<le> j \<and> t = [] \<or> j < length bs \<and> strict_prefix t (wal_frame crc32 (bs ! j)))"
proof (induction bs arbitrary: n)
  case (Cons e bs)
  show ?case
  proof (cases "n < length (wal_frame crc32 e)")
    case True
    then have "strict_prefix (take n (wal_frame crc32 e)) (wal_frame crc32 e)"
      by (simp add: strict_prefix_def take_is_prefix del: length_wal_frame)
    then show ?thesis
      using True by (intro exI [of _ 0] exI [of _ "take n (wal_frame crc32 e)"]) simp
  next
    case False
    obtain j t where jt: "take (n - length (wal_frame crc32 e)) (wal_frames crc32 bs) = wal_frames crc32 (take j bs) @ t"
      "length bs \<le> j \<and> t = [] \<or> j < length bs \<and> strict_prefix t (wal_frame crc32 (bs ! j))" using Cons by blast
    then show ?thesis
      using False by (intro exI [of _ "Suc j"] exI [of _ t]) (auto simp del: length_wal_frame)
  qed
qed simp

lemma wal_frames_torn_short:
  assumes "j < length bs" and "strict_prefix t (wal_frame crc32 (bs ! j))"
  shows "length (wal_frames crc32 (take j bs) @ t) < length (wal_frames crc32 bs)"
proof -
  have "wal_frames crc32 bs = wal_frames crc32 (take j bs @ bs ! j # drop (Suc j) bs)"
    by (simp only: id_take_nth_drop [OF assms(1), symmetric])
  then show ?thesis using prefix_length_less [OF assms(2)] by simp
qed

text \<open>After a crash, recovery yields everything that was synced and a prefix of what was not, and leaves
  a log that holds just that.\<close>

lemma Wal_recover_crash:
  assumes "io_works io" and h: "wal_holds crc32 wal files es bs"
  shows "\<exists>j w files'. Wal_recover crc32 io (wal_path wal) (wal_crash n wal files) = (Inr (w, es @ take j bs), files') \<and>
    wal_path w = wal_path wal \<and> wal_holds crc32 w files' (es @ take j bs) [] \<and>
    (length (wal_buf wal) \<le> n \<longrightarrow> take j bs = bs)"
proof -
  obtain j t where jt: "take n (wal_frames crc32 bs) = wal_frames crc32 (take j bs) @ t"
    "length bs \<le> j \<and> t = [] \<or> j < length bs \<and> strict_prefix t (wal_frame crc32 (bs ! j))"
    using take_wal_frames by blast
  let ?keep = "wal_frames crc32 (es @ take j bs)"
  have disk: "wal_crash n wal files (wal_path wal) = Some (?keep @ t)"
    using h jt(1) by (simp add: wal_crash_def Wal_fflush_def wal_holds_def)
  have wf: "\<forall>e \<in> set (es @ take j bs). wal_entry e" and wf': "\<forall>e \<in> set bs. wal_entry e"
    using h by (auto simp: wal_holds_def dest: in_set_takeD)
  have "Wal_recover_loop crc32 ([] @ ?keep @ t) 0 [] = Inr (0 + length ?keep, [] @ es @ take j bs)"
  proof (rule Wal_recover_loop_frames [OF wf])
    show "t = [] \<or> Wal_read_frame crc32 ([] @ ?keep @ t) (0 + length ?keep) = Inr None"
      using jt(2) wf' Wal_read_frame_torn [of "bs ! j" t crc32 ?keep "length ?keep"] by auto
  qed simp
  then have loop: "Wal_recover_loop crc32 (?keep @ t) 0 [] = Inr (length ?keep, es @ take j bs)" by simp
  define files' where "files' = (if t = [] then wal_crash n wal files else (wal_crash n wal files)(wal_path wal \<mapsto> ?keep))"
  have "Wal_recover crc32 io (wal_path wal) (wal_crash n wal files) =
      (Inr (\<lparr>wal_path = wal_path wal, wal_fp = True, wal_buf = []\<rparr>, es @ take j bs), files')"
    using assms(1) disk loop by (simp add: Wal_recover_def io_works_def Let_def files'_def)
  moreover have "wal_holds crc32 \<lparr>wal_path = wal_path wal, wal_fp = True, wal_buf = []\<rparr> files' (es @ take j bs) []"
    using disk wf by (auto simp: wal_holds_def files'_def)
  moreover have "take j bs = bs" if "length (wal_buf wal) \<le> n"
  proof -
    have "length (wal_frames crc32 bs) = length (wal_frames crc32 (take j bs) @ t)"
      using jt(1) h that by (simp add: wal_holds_def)
    then have "length bs \<le> j" using jt(2) wal_frames_torn_short [of j bs t crc32] by linarith
    then show ?thesis by simp
  qed
  ultimately show ?thesis by (intro exI [of _ j] exI [of _ files'] exI) auto
qed

section \<open>Runs of the log\<close>

text \<open>The states a log goes through: it is created, frames are appended singly or in batches, it is
  synced, and after a crash, in which any prefix of the buffered bytes may have reached the file,
  it is recovered and used again. The two lists record the entries the file holds for certain and
  those still in the buffer.\<close>

inductive wal_reach :: "zlib_crc32 \<Rightarrow> io \<Rightarrow> Wal \<Rightarrow> fs \<Rightarrow> entry list \<Rightarrow> entry list \<Rightarrow> bool"
  for crc32 :: zlib_crc32 and io :: io where
  create: "Wal_create io path files = (Inr w, files') \<Longrightarrow> wal_reach crc32 io w files' [] []"
| put: "wal_reach crc32 io w files es bs \<Longrightarrow> wal_entry (k, v) \<Longrightarrow> Wal_put crc32 io k v w = (Inr (), w') \<Longrightarrow>
    wal_reach crc32 io w' files es (bs @ [(k, v)])"
| batch: "wal_reach crc32 io w files es bs \<Longrightarrow> \<forall>e \<in> set cs. wal_entry e \<Longrightarrow>
    Wal_put_batch crc32 io cs w = (Inr (), w') \<Longrightarrow> wal_reach crc32 io w' files es (bs @ cs)"
| sync: "wal_reach crc32 io w files es bs \<Longrightarrow> Wal_sync io w files = (Inr (), w', files') \<Longrightarrow>
    wal_reach crc32 io w' files' (es @ bs) []"
| crash: "wal_reach crc32 io w files es bs \<Longrightarrow>
    Wal_recover crc32 io (wal_path w) (wal_crash n w files) = (Inr (w', rs), files') \<Longrightarrow>
    wal_reach crc32 io w' files' rs []"

lemma wal_reach_holds:
  assumes "io_works io" and "wal_reach crc32 io w files es bs"
  shows "wal_holds crc32 w files es bs"
  using assms(2)
proof induction
  case (create path files w files')
  then show ?case using wal_holds_create [OF assms(1), of path files crc32] by (elim exE conjE) (simp only: prod.inject sum.inject)
next
  case (put w files es bs k v w')
  then show ?case using wal_holds_put [OF assms(1) put.IH, of k v] by auto
next
  case (batch w files es bs cs w')
  then show ?case using wal_holds_put_batch [OF assms(1) batch.IH, of cs] by auto
next
  case (sync w files es bs w' files')
  then show ?case using wal_holds_sync [OF assms(1) sync.IH] by auto
next
  case (crash w files es bs n w' rs files')
  then show ?case using Wal_recover_crash [OF assms(1) crash.IH, of n] by auto
qed

text \<open>A log with one synced and one buffered entry.\<close>

lemma wal_entry_short: "wal_entry ([a], [])" "wal_entry ([a], [b])"
  by (simp_all add: wal_entry_def)

lemma example_wal_reach: "\<exists>w files. wal_reach example_crc32 example_io w files [([1], [2])] [([1], [])]"
proof -
  note io = example_io_works and h = wal_reach_holds [OF example_io_works]
  obtain w0 f0 where 0: "wal_reach example_crc32 example_io w0 f0 [] []"
    using wal_holds_create [OF io, of "''w''" Map.empty example_crc32] by (blast intro: wal_reach.create)
  obtain w1 where 1: "wal_reach example_crc32 example_io w1 f0 [] [([1], [2])]"
    using wal_holds_put [OF io h [OF 0] wal_entry_short(2), of 1 2] wal_reach.put [OF 0 wal_entry_short(2), of 1 2] by auto
  obtain w2 f2 where 2: "wal_reach example_crc32 example_io w2 f2 [([1], [2])] []"
    using wal_holds_sync [OF io h [OF 1]] wal_reach.sync [OF 1] by auto
  show ?thesis
    using wal_holds_put [OF io h [OF 2] wal_entry_short(1), of 1] wal_reach.put [OF 2 wal_entry_short(1), of 1] by auto
qed

section \<open>Properties\<close>

text \<open>C30: durability of the write-ahead log. Whatever the history of the log, including earlier crashes,
  after a crash in which an arbitrary prefix of the unsynced bytes reached the file, recovery
  returns all synced entries followed by a prefix of the unsynced ones, in order, and nothing else;
  if all buffered bytes reached the file, nothing is lost.\<close>

theorem Wal_durable:
  assumes "io_works io" and "wal_reach crc32 io w files es bs"
  shows "\<exists>j w' files'. Wal_recover crc32 io (wal_path w) (wal_crash n w files) = (Inr (w', es @ take j bs), files') \<and>
    wal_path w' = wal_path w \<and> (length (wal_buf w) \<le> n \<longrightarrow> take j bs = bs)"
  using Wal_recover_crash [OF assms(1) wal_reach_holds [OF assms], of n] by blast

theorem Wal_durable_witness:
  "\<exists>w files. wal_reach example_crc32 example_io w files [([1], [2])] [([1], [])] \<and>
    (\<exists>j w' files'. Wal_recover example_crc32 example_io (wal_path w) (wal_crash 5 w files) =
        (Inr (w', [([1], [2])] @ take j [([1], [])]), files'))"
  using example_wal_reach Wal_durable [OF example_io_works, of example_crc32 _ _ "[([1], [2])]" "[([1], [])]" 5] by blast

text \<open>C34: recovery is sound on arbitrary file contents, corrupt ones included: it does not fail, every
  entry it returns is the content of a frame with a matching checksum, these frames are the
  beginning of the file, and the file is cut to them; recovery stops only at the end of the file or
  at a frame that is truncated or fails its checksum.\<close>

theorem Wal_recover_sound:
  assumes "io_fopen io path" and "files path = Some raw"
  shows "\<exists>w es. Wal_recover crc32 io path files = (Inr (w, es), files(path \<mapsto> wal_frames crc32 es)) \<and>
    (\<forall>e \<in> set es. wal_entry e) \<and> prefix (wal_frames crc32 es) raw \<and>
    (raw = wal_frames crc32 es \<or> Wal_read_frame crc32 raw (length (wal_frames crc32 es)) = Inr None)"
proof -
  obtain es where es: "Wal_recover_loop crc32 raw 0 [] = Inr (length (wal_frames crc32 es), es)"
    "\<forall>e \<in> set es. wal_entry e" "take (length (wal_frames crc32 es)) raw = wal_frames crc32 es"
    "length (wal_frames crc32 es) < length raw \<longrightarrow>
       Wal_read_frame crc32 raw (length (wal_frames crc32 es)) = Inr None"
    using Wal_recover_loop_sound [of 0 raw crc32 "[]"] by auto
  have pre: "prefix (wal_frames crc32 es) raw" using es(3) by (metis take_is_prefix)
  then have "length (wal_frames crc32 es) = length raw \<longleftrightarrow> raw = wal_frames crc32 es"
    by (auto simp: prefix_def)
  moreover have "files(path \<mapsto> raw) = files" using assms(2) by (simp add: fun_upd_idem)
  ultimately show ?thesis using assms es pre prefix_length_le [OF pre]
    by (auto simp: Wal_recover_def Let_def le_less)
qed

theorem Wal_recover_sound_witness:
  "io_fopen example_io ''w'' \<and>
   (\<exists>w es. Wal_recover example_crc32 example_io ''w'' [''w'' \<mapsto> [0, 1, 9]] =
      (Inr (w, es), [''w'' \<mapsto> wal_frames example_crc32 es]) \<and>
      (\<forall>e \<in> set es. wal_entry e) \<and> prefix (wal_frames example_crc32 es) [0, 1, 9])"
  using Wal_recover_sound [of example_io "''w''" "[''w'' \<mapsto> [0, 1, 9]]" "[0, 1, 9]" example_crc32]
  by (auto simp: example_io_def)

end
