(* ===== verification/Storage_Iterator.thy ===== *)
theory Storage_Iterator
  imports Key
begin

text \<open>
  The iterator interface of \<open>include/mini_lsm/iterators.h\<close> (\<open>StorageIterator\<close>, \<open>Bound\<close>).

  A C++ class that implements the interface is a value of \<open>('s, 'i) iter_ops\<close>: its four virtual
  functions on iterators of type \<open>'i\<close>, where \<open>next\<close> may change the shared state \<open>'s\<close> (the block
  cache) and may throw. A class template over iterator types is a function from the operations
  of its arguments to its own operations.

  The locale \<open>storage_iterator\<close> is the contract all of them keep. \<open>rep it xs\<close> says that the
  iterator \<open>it\<close> is in a proper state and \<open>xs\<close> are the entries it still has to deliver. The
  client loop that drains an iterator is verified once against the contract.
\<close>

section \<open>Bounds\<close>

datatype Bound = Unbounded | Included bytes | Excluded bytes

text \<open>\<open>above_lower\<close>, \<open>below_upper\<close>: what the two bounds of a scan mean for a key.\<close>

fun above_lower :: "Bound \<Rightarrow> bytes \<Rightarrow> bool" where
  "above_lower Unbounded k = True"
| "above_lower (Included l) k = (l \<le> k)"
| "above_lower (Excluded l) k = (l < k)"

fun below_upper :: "Bound \<Rightarrow> bytes \<Rightarrow> bool" where
  "below_upper Unbounded k = True"
| "below_upper (Included u) k = (k \<le> u)"
| "below_upper (Excluded u) k = (k < u)"

lemma below_upper_mono: "below_upper b k' \<Longrightarrow> k \<le> k' \<Longrightarrow> below_upper b k"
  by (cases b) auto

section \<open>The operations of an iterator class\<close>

record ('s, 'i) iter_ops =
  it_key :: "'i \<Rightarrow> bytes res"
  it_value :: "'i \<Rightarrow> bytes res"
  it_valid :: "'i \<Rightarrow> bool"
  it_next :: "'i \<Rightarrow> ('s, 'i) m"

text \<open>The loop \<open>while (iter.is_valid()) { ... iter.key() ... iter.value() ...; iter.next(); }\<close>
  of every reader, collecting what it sees.\<close>

definition drain_step :: "('s, 'i) iter_ops \<Rightarrow> 'i \<times> entry list \<Rightarrow> ('s, 'i \<times> entry list) m" where
  "drain_step ops = (\<lambda>(it, acc).
     m_bind (m_lift (it_key ops it)) (\<lambda>k.
     m_bind (m_lift (it_value ops it)) (\<lambda>v.
     m_bind (it_next ops it) (\<lambda>it'. m_return (it', acc @ [(k, v)])))))"

definition drain :: "('s, 'i) iter_ops \<Rightarrow> 'i \<Rightarrow> ('s, entry list) m" where
  "drain ops it =
     m_bind (m_while (\<lambda>(it, acc). m_return (it_valid ops it)) (drain_step ops) (it, []))
       (\<lambda>(it, acc). m_return acc)"

section \<open>The contract\<close>

locale storage_iterator =
  fixes ops :: "('s, 'i) iter_ops"
    and sinv :: "'s \<Rightarrow> bool"
    and rep :: "'i \<Rightarrow> entry list \<Rightarrow> bool"
  assumes valid_iff: "rep it xs \<Longrightarrow> it_valid ops it \<longleftrightarrow> xs \<noteq> []"
    and key_hd: "rep it (x # xs) \<Longrightarrow> it_key ops it = Inr (fst x)"
    and value_hd: "rep it (x # xs) \<Longrightarrow> it_value ops it = Inr (snd x)"
    and next_tl: "rep it (x # xs) \<Longrightarrow> ok sinv (it_next ops it) (\<lambda>it'. rep it' xs)"
begin

lemma valid_Cons: "rep it (x # xs) \<Longrightarrow> it_valid ops it"
  using valid_iff by blast

lemma valid_Nil: "rep it [] \<Longrightarrow> \<not> it_valid ops it"
  using valid_iff by blast

lemma drain_step_ok:
  "rep it (x # xs) \<Longrightarrow> ok sinv (drain_step ops (it, acc)) (\<lambda>(it', acc'). rep it' xs \<and> acc' = acc @ [x])"
  by (auto simp: drain_step_def key_hd value_hd intro!: ok_bind [OF next_tl] ok_return)

text \<open>Draining an iterator returns, and returns its entries.\<close>

lemma drain_ok:
  assumes "rep it xs"
  shows "ok sinv (drain ops it) (\<lambda>r. r = xs)"
proof -
  let ?J = "\<lambda>(it, acc) ys. rep it ys \<and> acc @ ys = xs"
  have "ok sinv (m_while (\<lambda>(it, acc). m_return (it_valid ops it)) (drain_step ops) (it, []))
      (\<lambda>y. \<exists>ys. ?J y ys \<and> \<not> ys \<noteq> [])"
  proof (rule ok_while [where f = length])
    fix y ys assume "?J y ys" and "ys \<noteq> []"
    then obtain it acc z zs where y: "y = (it, acc)" "rep it (z # zs)" "acc @ z # zs = xs" "ys = z # zs"
      by (cases ys) auto
    show "ok sinv (drain_step ops y) (\<lambda>x'. \<exists>ys'. ?J x' ys' \<and> length ys' < length ys)"
      unfolding y by (rule ok_weaken [OF drain_step_ok [OF y(2)]]) (use y in auto)
  qed (use assms valid_iff in \<open>auto intro: ok_return\<close>)
  then show ?thesis
    unfolding drain_def by (rule ok_bind) (auto intro!: ok_return)
qed

end

text \<open>The iterators of the store deliver strictly increasing keys; merging relies on it.\<close>

locale sorted_iterator = storage_iterator +
  assumes rep_sorted: "rep it xs \<Longrightarrow> sorted_entries xs"

end
