(* ===== verification/Merge_Spec.thy ===== *)
theory Merge_Spec
  imports Prelude "HOL-Library.Multiset"
begin

text \<open>
  What merging sorted runs means, independently of any iterator: \<open>merge2 xs ys\<close> is the ordered
  union of two runs in which \<open>xs\<close> is the newer one and shadows \<open>ys\<close>; \<open>merge_runs\<close> merges a list
  of runs, newest first; \<open>kmerge\<close> merges runs that carry their age as an index, in whatever
  order they are listed.
\<close>

section \<open>Merging two runs\<close>

fun merge2 :: "('k::linorder \<times> 'v) list \<Rightarrow> ('k \<times> 'v) list \<Rightarrow> ('k \<times> 'v) list" where
  "merge2 [] ys = ys"
| "merge2 xs [] = xs"
| "merge2 (x # xs) (y # ys) =
     (if fst x < fst y then x # merge2 xs (y # ys)
      else if fst x = fst y then x # merge2 xs ys
      else y # merge2 (x # xs) ys)"

lemma merge2_Nil2 [simp]: "merge2 xs [] = xs"
  by (cases xs) auto

lemma merge2_eq_Nil [simp]: "merge2 xs ys = [] \<longleftrightarrow> xs = [] \<and> ys = []"
  by (cases xs; cases ys) auto

lemma keys_merge2: "fst ` set (merge2 xs ys) = fst ` set xs \<union> fst ` set ys"
  by (induction xs ys rule: merge2.induct) auto

lemma ball_merge2:
  "(\<forall>e \<in> set (merge2 xs ys). P (fst e)) \<longleftrightarrow> (\<forall>e \<in> set xs. P (fst e)) \<and> (\<forall>e \<in> set ys. P (fst e))"
proof -
  have "(\<forall>k \<in> fst ` set (merge2 xs ys). P k) \<longleftrightarrow> (\<forall>k \<in> fst ` set xs. P k) \<and> (\<forall>k \<in> fst ` set ys. P k)"
    unfolding keys_merge2 by auto
  then show ?thesis by simp
qed

lemma merge2_Cons_above: "\<forall>e \<in> set ys. fst x < fst e \<Longrightarrow> merge2 (x # xs) ys = x # merge2 xs ys"
  by (cases ys) auto

lemma merge2_above_Cons: "\<forall>e \<in> set xs. fst y < fst e \<Longrightarrow> merge2 xs (y # ys) = y # merge2 xs ys"
  by (cases xs) auto

lemma sorted_merge2: "sorted_entries xs \<Longrightarrow> sorted_entries ys \<Longrightarrow> sorted_entries (merge2 xs ys)"
  by (induction xs ys rule: merge2.induct) (auto simp: ball_merge2 [where P = "\<lambda>k. _ < k"])

text \<open>The first run wins.\<close>

lemma map_of_merge2:
  "sorted_entries xs \<Longrightarrow> sorted_entries ys \<Longrightarrow> map_of (merge2 xs ys) = map_of ys ++ map_of xs"
proof (induction xs ys rule: merge2.induct)
  case (3 x xs y ys)
  have no: "map_of us k = None" if "sorted_entries ((k', v) # us)" "k \<le> k'" for us :: "('a \<times> 'b) list" and k k' v
    using that by (rule sorted_entries_map_of_None)
  obtain k v where x: "x = (k, v)" by (cases x)
  obtain l w where y: "y = (l, w)" by (cases y)
  show ?case
  proof (cases k l rule: linorder_cases)
    case less
    then show ?thesis
      using 3 no [of l w ys] by (auto simp: x y fun_eq_iff map_add_def split: option.splits)
  next
    case equal
    then show ?thesis
      using 3 by (auto simp: x y fun_eq_iff map_add_def split: option.splits)
  next
    case greater
    then show ?thesis
      using 3 no [of k v xs l] by (auto simp: x y fun_eq_iff map_add_def split: option.splits)
  qed
qed auto

section \<open>Merging many runs\<close>

definition merge_runs :: "('k::linorder \<times> 'v) list list \<Rightarrow> ('k \<times> 'v) list" where
  "merge_runs xss = foldr merge2 xss []"

lemma merge_runs_simps [simp]:
  "merge_runs [] = []"
  "merge_runs (xs # xss) = merge2 xs (merge_runs xss)"
  by (simp_all add: merge_runs_def)

lemma keys_merge_runs: "fst ` set (merge_runs xss) = (\<Union>xs \<in> set xss. fst ` set xs)"
  by (induction xss) (auto simp: keys_merge2)

lemma sorted_merge_runs: "(\<And>xs. xs \<in> set xss \<Longrightarrow> sorted_entries xs) \<Longrightarrow> sorted_entries (merge_runs xss)"
  by (induction xss) (auto intro: sorted_merge2)

lemma map_of_merge_runs:
  "(\<And>xs. xs \<in> set xss \<Longrightarrow> sorted_entries xs) \<Longrightarrow>
   map_of (merge_runs xss) = foldr (\<lambda>xs m. m ++ map_of xs) xss Map.empty"
  by (induction xss) (auto simp: map_of_merge2 sorted_merge_runs)

lemma foldr_map_add:
  "foldr (\<lambda>xs m. m ++ map_of xs) yss Map.empty ++ foldr (\<lambda>xs m. m ++ map_of xs) xss Map.empty =
     foldr (\<lambda>xs m. m ++ map_of xs) xss (foldr (\<lambda>xs m. m ++ map_of xs) yss Map.empty)"
  by (induction xss) auto

lemma merge_runs_filter: "merge_runs (filter (\<lambda>xs. xs \<noteq> []) xss) = merge_runs xss"
  by (induction xss) auto

text \<open>Selecting keys commutes with merging.\<close>

lemma filter_merge2:
  "sorted_entries xs \<Longrightarrow> sorted_entries ys \<Longrightarrow>
   filter (\<lambda>e. P (fst e)) (merge2 xs ys) = merge2 (filter (\<lambda>e. P (fst e)) xs) (filter (\<lambda>e. P (fst e)) ys)"
proof (induction xs ys rule: merge2.induct)
  case (3 x xs y ys)
  have "\<forall>e \<in> set (filter (\<lambda>e. P (fst e)) xs). fst x < fst e" "\<forall>e \<in> set (filter (\<lambda>e. P (fst e)) ys). fst y < fst e"
    using 3 by auto
  moreover have "fst x < fst y \<Longrightarrow> \<forall>e \<in> set (filter (\<lambda>e. P (fst e)) (y # ys)). fst x < fst e"
    "fst y < fst x \<Longrightarrow> \<forall>e \<in> set (filter (\<lambda>e. P (fst e)) (x # xs)). fst y < fst e"
    using 3(5,4) by (auto intro: less_trans)
  ultimately show ?case
    using 3 by (auto simp: merge2_Cons_above merge2_above_Cons)
qed auto

lemma filter_merge_runs:
  "(\<And>xs. xs \<in> set xss \<Longrightarrow> sorted_entries xs) \<Longrightarrow>
   filter (\<lambda>e. P (fst e)) (merge_runs xss) = merge_runs (map (filter (\<lambda>e. P (fst e))) xss)"
  by (induction xss) (auto simp: filter_merge2 sorted_merge_runs)

text \<open>Merging is associative.\<close>

lemma merge2_merge_runs:
  assumes "\<And>xs. xs \<in> set (xss @ yss) \<Longrightarrow> sorted_entries xs"
  shows "merge2 (merge_runs xss) (merge_runs yss) = merge_runs (xss @ yss)"
proof (rule sorted_entries_unique)
  have s: "sorted_entries (merge_runs xss)" "sorted_entries (merge_runs yss)"
    using assms by (auto intro: sorted_merge_runs)
  then show "sorted_entries (merge2 (merge_runs xss) (merge_runs yss))" by (rule sorted_merge2)
  show "sorted_entries (merge_runs (xss @ yss))" using assms by (rule sorted_merge_runs)
  have "map_of (merge_runs (xss @ yss)) = foldr (\<lambda>xs m. m ++ map_of xs) (xss @ yss) Map.empty"
    using assms by (rule map_of_merge_runs)
  moreover have "map_of (merge_runs xss) = foldr (\<lambda>xs m. m ++ map_of xs) xss Map.empty"
    "map_of (merge_runs yss) = foldr (\<lambda>xs m. m ++ map_of xs) yss Map.empty"
    using assms by (intro map_of_merge_runs; simp)+
  ultimately show "map_of (merge2 (merge_runs xss) (merge_runs yss)) = map_of (merge_runs (xss @ yss))"
    using s by (simp add: map_of_merge2 foldr_map_add)
qed

text \<open>Remove the entry for \<open>k\<close> when it is at the head.\<close>

definition pop_key :: "'k \<Rightarrow> ('k \<times> 'v) list \<Rightarrow> ('k \<times> 'v) list" where
  "pop_key k xs = (case xs of [] \<Rightarrow> [] | x # r \<Rightarrow> if fst x = k then r else xs)"

lemma pop_key_simps [simp]:
  "pop_key k [] = []"
  "pop_key k (x # r) = (if fst x = k then r else x # r)"
  by (simp_all add: pop_key_def)

lemma pop_key_above: "sorted_entries xs \<Longrightarrow> (\<And>x. xs \<noteq> [] \<Longrightarrow> k < fst (hd xs)) \<Longrightarrow> pop_key k xs = xs"
  by (cases xs) auto

text \<open>One step of the merge: the least key comes first, with the value of the first run that has
  it; that key disappears from every run.\<close>

lemma ball_merge_runs:
  "(\<forall>e \<in> set (merge_runs xss). P (fst e)) \<longleftrightarrow> (\<forall>xs \<in> set xss. \<forall>e \<in> set xs. P (fst e))"
  by (induction xss) (auto simp: ball_merge2)

lemma sorted_head_above: "sorted_entries xs \<Longrightarrow> (xs \<noteq> [] \<Longrightarrow> k < fst (hd xs)) \<Longrightarrow> e \<in> set xs \<Longrightarrow> k < fst e"
  by (cases xs) auto

text \<open>A run whose head is not \<open>k\<close> (and not below it) has only keys above \<open>k\<close>.\<close>

lemma merge_runs_least:
  assumes "\<And>xs. xs \<in> set post \<Longrightarrow> sorted_entries xs"
    and "\<And>xs. xs \<in> set post \<Longrightarrow> xs \<noteq> [] \<Longrightarrow> k \<le> fst (hd xs)"
  shows "merge_runs post = merge_runs (map (pop_key k) post) \<and> (\<forall>e \<in> set (merge_runs post). k < fst e) \<or>
    (\<exists>w. merge_runs post = (k, w) # merge_runs (map (pop_key k) post))"
  using assms
proof (induction post)
  case (Cons xs post)
  then have IH: "merge_runs post = merge_runs (map (pop_key k) post) \<and> (\<forall>e \<in> set (merge_runs post). k < fst e) \<or>
      (\<exists>w. merge_runs post = (k, w) # merge_runs (map (pop_key k) post))" by simp
  show ?case
  proof (cases "xs \<noteq> [] \<and> fst (hd xs) = k")
    case True
    then obtain w r where xs: "xs = (k, w) # r" by (cases xs) auto
    from IH show ?thesis
    proof (elim disjE conjE exE)
      assume "merge_runs post = merge_runs (map (pop_key k) post)" "\<forall>e \<in> set (merge_runs post). k < fst e"
      then show ?thesis using xs by (simp add: merge2_Cons_above)
    qed (auto simp: xs)
  next
    case False
    then have hd: "xs \<noteq> [] \<Longrightarrow> k < fst (hd xs)" using Cons.prems(2) [of xs] by (simp add: le_less)
    have s: "sorted_entries xs" using Cons.prems(1) [of xs] by simp
    have above: "\<forall>e \<in> set xs. k < fst e" using sorted_head_above [OF s hd] by blast
    have pop: "pop_key k xs = xs" using s hd by (rule pop_key_above)
    from IH show ?thesis
    proof (elim disjE conjE exE)
      assume "merge_runs post = merge_runs (map (pop_key k) post)" "\<forall>e \<in> set (merge_runs post). k < fst e"
      then show ?thesis using pop above by (simp add: ball_merge2 [where P = "\<lambda>x. k < x"])
    next
      fix w assume "merge_runs post = (k, w) # merge_runs (map (pop_key k) post)"
      then show ?thesis using pop above by (simp add: merge2_above_Cons)
    qed
  qed
qed simp

lemma merge_runs_step:
  assumes "\<And>xs. xs \<in> set (pre @ ((k, v) # r) # post) \<Longrightarrow> sorted_entries xs"
    and "\<And>xs. xs \<in> set pre \<Longrightarrow> xs \<noteq> [] \<Longrightarrow> k < fst (hd xs)"
    and "\<And>xs. xs \<in> set post \<Longrightarrow> xs \<noteq> [] \<Longrightarrow> k \<le> fst (hd xs)"
  shows "merge_runs (pre @ ((k, v) # r) # post) =
    (k, v) # merge_runs (map (pop_key k) (pre @ ((k, v) # r) # post))"
  using assms
proof (induction pre)
  case Nil
  then have "merge_runs post = merge_runs (map (pop_key k) post) \<and> (\<forall>e \<in> set (merge_runs post). k < fst e) \<or>
    (\<exists>w. merge_runs post = (k, w) # merge_runs (map (pop_key k) post))"
    by (intro merge_runs_least) auto
  then show ?case
    by (elim disjE conjE exE) (simp_all add: merge2_Cons_above)
next
  case (Cons xs pre)
  then have IH: "merge_runs (pre @ ((k, v) # r) # post) =
    (k, v) # merge_runs (map (pop_key k) (pre @ ((k, v) # r) # post))" by simp
  have s: "sorted_entries xs" and hd: "xs \<noteq> [] \<Longrightarrow> k < fst (hd xs)"
    using Cons.prems(1,2) [of xs] by simp_all
  have "\<forall>e \<in> set xs. k < fst e" using sorted_head_above [OF s hd] by blast
  moreover have "pop_key k xs = xs" using s hd by (rule pop_key_above)
  ultimately show ?case using IH by (simp add: merge2_above_Cons)
qed

section \<open>Merging runs that carry an index\<close>

definition kmerge :: "(nat \<times> ('k::linorder \<times> 'v) list) list \<Rightarrow> ('k \<times> 'v) list" where
  "kmerge L = merge_runs (map snd (sort_key fst L))"

lemma kmerge_perm:
  assumes "mset L = mset L'" and "distinct (map fst L)"
  shows "kmerge L = kmerge L'"
proof -
  have "inj_on fst (set L)" using assms(2) by (simp add: distinct_map)
  then have "sort_key fst L = sort_key fst L'"
    using assms(1) by (intro sort_key_inj_key_eq) simp_all
  then show ?thesis by (simp add: kmerge_def)
qed

lemma kmerge_filter: "kmerge (filter (\<lambda>p. snd p \<noteq> []) L) = kmerge L"
proof -
  have "map snd (filter (\<lambda>p. snd p \<noteq> []) M) = filter (\<lambda>xs. xs \<noteq> []) (map snd M)"
    for M :: "(nat \<times> ('a \<times> 'b) list) list" by (induction M) auto
  then show ?thesis by (simp add: kmerge_def filter_sort [symmetric] merge_runs_filter)
qed

lemma kmerge_drop_Nil [simp]: "kmerge ((i, []) # L) = kmerge L"
  using kmerge_filter [of "(i, []) # L"] kmerge_filter [of L] by simp

lemma kmerge_drop_Nil2 [simp]: "kmerge (p # (j, []) # L) = kmerge (p # L)"
  using kmerge_filter [of "p # (j, []) # L"] kmerge_filter [of "p # L"] by (cases "snd p = []") simp_all

lemma insort_key_apsnd: "insort_key fst (apsnd g p) (map (apsnd g) M) = map (apsnd g) (insort_key fst p M)"
  by (induction M) auto

lemma sort_key_apsnd: "sort_key fst (map (apsnd g) L) = map (apsnd g) (sort_key fst L)"
  by (induction L) (auto simp: insort_key_apsnd simp del: apsnd_conv)

lemma kmerge_enumerate: "kmerge (enumerate n xss) = merge_runs xss"
proof -
  have "sort_key fst (enumerate n xss) = enumerate n xss"
    by (rule sort_key_id_if_sorted) (simp add: map_fst_enumerate)
  then show ?thesis by (simp add: kmerge_def)
qed

lemma kmerge_Nil [simp]: "kmerge [] = []"
  by (simp add: kmerge_def)

lemma merge_runs_eq_Nil: "merge_runs xss = [] \<longleftrightarrow> (\<forall>xs \<in> set xss. xs = [])"
  by (induction xss) auto

lemma kmerge_eq_Nil: "kmerge L = [] \<longleftrightarrow> (\<forall>p \<in> set L. snd p = [])"
  by (auto simp: kmerge_def merge_runs_eq_Nil)

lemma kmerge_Cons_neq_Nil: "xs \<noteq> [] \<Longrightarrow> kmerge ((i, xs) # L) \<noteq> []"
  unfolding kmerge_eq_Nil by simp

lemma sorted_kmerge: "(\<And>p. p \<in> set L \<Longrightarrow> sorted_entries (snd p)) \<Longrightarrow> sorted_entries (kmerge L)"
  unfolding kmerge_def by (rule sorted_merge_runs) auto

lemma kmerge_step:
  assumes dist: "distinct (map fst L)" and sorted: "\<And>p. p \<in> set L \<Longrightarrow> sorted_entries (snd p)"
    and mem: "(i, (k, v) # r) \<in> set L"
    and least: "\<And>j ys. (j, ys) \<in> set L \<Longrightarrow> ys \<noteq> [] \<Longrightarrow> k < fst (hd ys) \<or> k = fst (hd ys) \<and> i \<le> j"
  shows "kmerge L = (k, v) # kmerge (map (apsnd (pop_key k)) L)"
proof -
  from mem have "(i, (k, v) # r) \<in> set (sort_key fst L)" by simp
  then obtain pre post where split: "sort_key fst L = pre @ (i, (k, v) # r) # post"
    by (meson split_list)
  have "sorted (map fst (sort_key fst L))" "distinct (map fst (sort_key fst L))"
    using dist by (simp_all add: distinct_map)
  then have pre: "fst p < i" if "p \<in> set pre" for p
    using that unfolding split by (auto simp: sorted_append order.strict_iff_order)
  have set: "set L = set (pre @ (i, (k, v) # r) # post)"
    using split by (metis set_sort)
  have "merge_runs (map snd pre @ ((k, v) # r) # map snd post) =
      (k, v) # merge_runs (map (pop_key k) (map snd pre @ ((k, v) # r) # map snd post))"
  proof (rule merge_runs_step)
    fix xs assume "xs \<in> set (map snd pre @ ((k, v) # r) # map snd post)"
    then have "\<exists>p \<in> set L. xs = snd p" using set by force
    then show "sorted_entries xs" using sorted by blast
  next
    fix xs assume "xs \<in> set (map snd pre)" "xs \<noteq> []"
    then show "k < fst (hd xs)" using least pre set by fastforce
  next
    fix xs assume "xs \<in> set (map snd post)" "xs \<noteq> []"
    then show "k \<le> fst (hd xs)" using least set by fastforce
  qed
  then show ?thesis
    by (simp add: kmerge_def sort_key_apsnd split comp_def)
qed

end
