(* ===== verification/Merge_Iterator.thy ===== *)
theory Merge_Iterator
  imports Storage_Iterator Merge_Spec "HOL-Library.Product_Lexorder"
begin

text \<open>
  The class template \<open>MergeIterator<I>\<close> of \<open>include/mini_lsm/iterators.h\<close>: the ordered union of
  any number of iterators, the one with the smaller index being the newer one.

  The program keeps the iterators in a binary heap made with \<open>std::make_heap\<close>, \<open>std::push_heap\<close>
  and \<open>std::pop_heap\<close>. The library promises a maximum in front and nothing about the rest of the
  arrangement; the model's arrangement is the one in descending order, which is a heap. The
  order \<open>operator<\<close> of \<open>HeapWrapper\<close> reads the keys of the two iterators and is total on
  iterators of different index, so the program sees the same front whatever the arrangement.
\<close>

section \<open>The heap of iterators\<close>

record 'i HeapWrapper =
  hw_index :: nat
  hw_iter :: 'i

definition HeapWrapper_less :: "('s, 'i) iter_ops \<Rightarrow> 'i HeapWrapper \<Rightarrow> 'i HeapWrapper \<Rightarrow> bool res" where
  "HeapWrapper_less I self other =
     res_bind (it_key I (hw_iter self)) (\<lambda>k.
     res_bind (it_key I (hw_iter other)) (\<lambda>ok.
     let cmp = KeySlice_compare k ok in
     if cmp \<noteq> 0 then Inr (cmp > 0) else Inr (hw_index self > hw_index other)))"

fun heap_insert :: "('s, 'i) iter_ops \<Rightarrow> 'i HeapWrapper \<Rightarrow> 'i HeapWrapper list \<Rightarrow> 'i HeapWrapper list res" where
  "heap_insert I x [] = Inr [x]"
| "heap_insert I x (y # ys) =
     res_bind (HeapWrapper_less I x y) (\<lambda>lt.
     if lt then res_bind (heap_insert I x ys) (\<lambda>zs. Inr (y # zs)) else Inr (x # y # ys))"

fun make_heap :: "('s, 'i) iter_ops \<Rightarrow> 'i HeapWrapper list \<Rightarrow> 'i HeapWrapper list res" where
  "make_heap I [] = Inr []"
| "make_heap I (x # xs) = res_bind (make_heap I xs) (heap_insert I x)"

definition push_heap :: "('s, 'i) iter_ops \<Rightarrow> 'i HeapWrapper list \<Rightarrow> 'i HeapWrapper list res" where
  "push_heap I h = (if h = [] then Inr [] else heap_insert I (last h) (butlast h))"

definition pop_heap :: "'i HeapWrapper list \<Rightarrow> 'i HeapWrapper list" where
  "pop_heap h = (case h of [] \<Rightarrow> [] | x # r \<Rightarrow> r @ [x])"

section \<open>The iterator\<close>

record 'i MergeIterator =
  mi_heap :: "'i HeapWrapper list"
  mi_current :: "'i HeapWrapper option"

definition MergeIterator_create :: "('s, 'i) iter_ops \<Rightarrow> 'i list \<Rightarrow> 'i MergeIterator res" where
  "MergeIterator_create I iters =
     (let heap = map (\<lambda>(i, it). \<lparr>hw_index = i, hw_iter = it\<rparr>)
                   (filter (\<lambda>(i, it). it_valid I it) (enumerate 0 iters)) in
      res_bind (make_heap I heap) (\<lambda>heap.
      if heap \<noteq> [] then
        let heap = pop_heap heap
        in Inr \<lparr>mi_heap = butlast heap, mi_current = Some (last heap)\<rparr>
      else Inr \<lparr>mi_heap = heap, mi_current = None\<rparr>))"

definition MergeIterator_key :: "('s, 'i) iter_ops \<Rightarrow> 'i MergeIterator \<Rightarrow> bytes res" where
  "MergeIterator_key I mi =
     (case mi_current mi of None \<Rightarrow> Inl (OutOfRange ''current_'') | Some c \<Rightarrow> it_key I (hw_iter c))"

definition MergeIterator_value :: "('s, 'i) iter_ops \<Rightarrow> 'i MergeIterator \<Rightarrow> bytes res" where
  "MergeIterator_value I mi =
     (case mi_current mi of None \<Rightarrow> Inl (OutOfRange ''current_'') | Some c \<Rightarrow> it_value I (hw_iter c))"

definition MergeIterator_is_valid :: "('s, 'i) iter_ops \<Rightarrow> 'i MergeIterator \<Rightarrow> bool" where
  "MergeIterator_is_valid I mi = (case mi_current mi of None \<Rightarrow> False | Some c \<Rightarrow> it_valid I (hw_iter c))"

text \<open>The loop of \<open>next\<close> that advances the older iterators standing on the current key: its
  condition, its body, and the loop.\<close>

definition MergeIterator_dup_guard ::
  "('s, 'i) iter_ops \<Rightarrow> 'i HeapWrapper \<Rightarrow> 'i HeapWrapper list \<Rightarrow> ('s, bool) m" where
  "MergeIterator_dup_guard I cur heap =
     (case heap of
        [] \<Rightarrow> m_return False
      | front # _ \<Rightarrow>
          m_bind (m_lift (it_key I (hw_iter front))) (\<lambda>k.
          m_bind (m_lift (it_key I (hw_iter cur))) (\<lambda>ck. m_return (KeySlice_eq k ck))))"

definition MergeIterator_dup_body ::
  "('s, 'i) iter_ops \<Rightarrow> 'i HeapWrapper list \<Rightarrow> ('s, 'i HeapWrapper list) m" where
  "MergeIterator_dup_body I heap =
     (let heap = pop_heap heap; top = last heap; heap = butlast heap in
      m_bind (it_next I (hw_iter top)) (\<lambda>it.
      if it_valid I it
      then m_lift (push_heap I (heap @ [top\<lparr>hw_iter := it\<rparr>]))
      else m_return heap))"

definition MergeIterator_skip_dups ::
  "('s, 'i) iter_ops \<Rightarrow> 'i HeapWrapper \<Rightarrow> 'i HeapWrapper list \<Rightarrow> ('s, 'i HeapWrapper list) m" where
  "MergeIterator_skip_dups I cur heap =
     m_while (MergeIterator_dup_guard I cur) (MergeIterator_dup_body I) heap"

text \<open>The rest of \<open>next\<close>, once the current iterator has been advanced to \<open>it\<close>.\<close>

definition MergeIterator_replace ::
  "('s, 'i) iter_ops \<Rightarrow> 'i HeapWrapper \<Rightarrow> 'i HeapWrapper list \<Rightarrow> 'i MergeIterator res" where
  "MergeIterator_replace I cur heap =
     (if \<not> it_valid I (hw_iter cur) then
        if heap \<noteq> [] then
          let heap = pop_heap heap in Inr \<lparr>mi_heap = butlast heap, mi_current = Some (last heap)\<rparr>
        else Inr \<lparr>mi_heap = heap, mi_current = None\<rparr>
      else
        case heap of
          [] \<Rightarrow> Inr \<lparr>mi_heap = heap, mi_current = Some cur\<rparr>
        | front # _ \<Rightarrow>
            res_bind (HeapWrapper_less I cur front) (\<lambda>lt.
            if lt then
              let heap = pop_heap heap; top = last heap; heap = butlast heap in
              res_bind (push_heap I (heap @ [cur])) (\<lambda>heap.
              Inr \<lparr>mi_heap = heap, mi_current = Some top\<rparr>)
            else Inr \<lparr>mi_heap = heap, mi_current = Some cur\<rparr>))"

definition MergeIterator_next :: "('s, 'i) iter_ops \<Rightarrow> 'i MergeIterator \<Rightarrow> ('s, 'i MergeIterator) m" where
  "MergeIterator_next I mi =
     (case mi_current mi of
        None \<Rightarrow> m_lift (Inl (AssertFailed ''current_.has_value()''))
      | Some cur \<Rightarrow>
          m_bind (MergeIterator_skip_dups I cur (mi_heap mi)) (\<lambda>heap.
          m_bind (it_next I (hw_iter cur)) (\<lambda>it.
          m_lift (MergeIterator_replace I (cur\<lparr>hw_iter := it\<rparr>) heap))))"

definition MergeIterator_ops :: "('s, 'i) iter_ops \<Rightarrow> ('s, 'i MergeIterator) iter_ops" where
  "MergeIterator_ops I =
     \<lparr>it_key = MergeIterator_key I, it_value = MergeIterator_value I,
      it_valid = MergeIterator_is_valid I, it_next = MergeIterator_next I\<rparr>"

section \<open>The heap, seen through the contents of its iterators\<close>

text \<open>An iterator of index \<open>fst p\<close> that still holds the entries \<open>snd p\<close>, at least one.\<close>

definition hw_rep :: "('i \<Rightarrow> entry list \<Rightarrow> bool) \<Rightarrow> 'i HeapWrapper \<Rightarrow> nat \<times> entry list \<Rightarrow> bool" where
  "hw_rep rep w p \<longleftrightarrow> hw_index w = fst p \<and> rep (hw_iter w) (snd p) \<and> snd p \<noteq> []"

text \<open>Smaller key first, then smaller index.\<close>

definition prio :: "nat \<times> entry list \<Rightarrow> bytes \<times> nat" where
  "prio p = (fst (hd (snd p)), fst p)"

definition heap_rep :: "('i \<Rightarrow> entry list \<Rightarrow> bool) \<Rightarrow> 'i HeapWrapper list \<Rightarrow> (nat \<times> entry list) list \<Rightarrow> bool" where
  "heap_rep rep h L \<longleftrightarrow> list_all2 (hw_rep rep) h L \<and> sorted (map prio L) \<and> distinct (map fst L)"

text \<open>The whole iterator: the current one has priority over every other.\<close>

definition mi_abs :: "('i \<Rightarrow> entry list \<Rightarrow> bool) \<Rightarrow> 'i MergeIterator \<Rightarrow> entry list \<Rightarrow> bool" where
  "mi_abs rep mi zs \<longleftrightarrow>
     (case mi_current mi of
        None \<Rightarrow> mi_heap mi = [] \<and> zs = []
      | Some c \<Rightarrow> (\<exists>p L. hw_rep rep c p \<and> heap_rep rep (mi_heap mi) L \<and> fst p \<notin> fst ` set L \<and>
           (\<forall>q \<in> set L. prio p < prio q) \<and> zs = kmerge (p # L)))"

lemma pop_heap_Cons: "last (pop_heap (x # h)) = x" "butlast (pop_heap (x # h)) = h"
  by (simp_all add: pop_heap_def)

lemma push_heap_snoc: "push_heap I (h @ [x]) = heap_insert I x h"
  by (simp add: push_heap_def)

lemma heap_rep_Cons:
  "heap_rep rep (w # h) L \<longleftrightarrow>
     (\<exists>p M. L = p # M \<and> hw_rep rep w p \<and> heap_rep rep h M \<and> (\<forall>q \<in> set M. prio p \<le> prio q) \<and> fst p \<notin> fst ` set M)"
  by (auto simp: heap_rep_def list_all2_Cons1)

lemma heap_rep_Nil [simp]: "heap_rep rep [] L \<longleftrightarrow> L = []"
  by (auto simp: heap_rep_def)

lemma prio_less_of_le: "prio p \<le> prio q \<Longrightarrow> fst p \<noteq> fst q \<Longrightarrow> prio p < prio q"
  by (auto simp: prio_def)

lemma sorted_hd_prio: "sorted (map prio L) \<Longrightarrow> q \<in> set L \<Longrightarrow> prio (hd L) \<le> prio q"
  by (cases L) auto

section \<open>The contract\<close>

locale merge_over = sorted_iterator I sinv rep
  for I :: "('s, 'i) iter_ops" and sinv :: "'s \<Rightarrow> bool" and rep :: "'i \<Rightarrow> entry list \<Rightarrow> bool"
begin

lemma hw_rep_key: "hw_rep rep w p \<Longrightarrow> it_key I (hw_iter w) = Inr (fst (hd (snd p)))"
  by (cases "snd p") (auto simp: hw_rep_def dest: key_hd)

lemma hw_rep_sorted: "hw_rep rep w p \<Longrightarrow> sorted_entries (snd p)"
  by (auto simp: hw_rep_def dest: rep_sorted)

text \<open>\<open>operator<\<close> is the reverse of the priority order.\<close>

lemma HeapWrapper_less_eq:
  assumes "hw_rep rep v p" and "hw_rep rep w q"
  shows "HeapWrapper_less I v w = Inr (prio q < prio p)"
  using KeySlice_compare_sign [of "fst (hd (snd p))" "fst (hd (snd q))"] assms
  by (auto simp: HeapWrapper_less_def hw_rep_key [OF assms(1)] hw_rep_key [OF assms(2)] prio_def
      hw_rep_def Let_def)

lemma heap_insert_ok:
  assumes "list_all2 (hw_rep rep) h L" and "hw_rep rep w p"
  shows "\<exists>h'. heap_insert I w h = Inr h' \<and> list_all2 (hw_rep rep) h' (insort_key prio p L)"
  using assms
proof (induction h L rule: list_all2_induct)
  case (Cons v h q L)
  then show ?case using HeapWrapper_less_eq [of w p v q] by (auto simp: not_le)
qed simp

lemma heap_insert_rep:
  assumes "heap_rep rep h L" and "hw_rep rep w p" and "fst p \<notin> fst ` set L"
  obtains h' M where "heap_insert I w h = Inr h'" and "heap_rep rep h' M" and "mset M = mset (p # L)"
proof -
  obtain h' where h': "heap_insert I w h = Inr h'" "list_all2 (hw_rep rep) h' (insort_key prio p L)"
    using heap_insert_ok assms(1,2) unfolding heap_rep_def by blast
  have m: "mset (insort_key prio p L) = mset (p # L)" by simp
  have "mset (map fst (insort_key prio p L)) = mset (map fst (p # L))" using m by (simp only: mset_map)
  moreover have "distinct (map fst (p # L))" using assms(1,3) by (simp add: heap_rep_def)
  ultimately have "distinct (map fst (insort_key prio p L))" using mset_eq_imp_distinct_iff by blast
  then have "heap_rep rep h' (insort_key prio p L)"
    using h'(2) assms(1) by (simp add: heap_rep_def sorted_insort_key)
  with h'(1) m show thesis using that by blast
qed

lemma make_heap_rep:
  assumes "list_all2 (hw_rep rep) h L" and "distinct (map fst L)"
  obtains h' M where "make_heap I h = Inr h'" and "heap_rep rep h' M" and "mset M = mset L"
  using assms
proof (induction h L arbitrary: thesis rule: list_all2_induct)
  case (Cons w h p L)
  from Cons.prems(2) have "distinct (map fst L)" and p: "fst p \<notin> fst ` set L" by auto
  then obtain h' M where h': "make_heap I h = Inr h'" "heap_rep rep h' M" "mset M = mset L"
    using Cons.IH by blast
  then have "fst p \<notin> fst ` set M" using p by (metis mset_eq_setD)
  then obtain h'' N where "heap_insert I w h' = Inr h''" "heap_rep rep h'' N" "mset N = mset (p # M)"
    using heap_insert_rep [OF h'(2) Cons.hyps(1)] by blast
  then show ?case using Cons.prems(1) h' by simp
qed simp

text \<open>A popped front is a proper current iterator for the rest.\<close>

lemma mi_rep_front:
  assumes "heap_rep rep (w # h) L"
  shows "mi_abs rep \<lparr>mi_heap = h, mi_current = Some w\<rparr> (kmerge L)"
proof -
  from assms obtain p M where L: "L = p # M" "hw_rep rep w p" "heap_rep rep h M"
    "\<forall>q \<in> set M. prio p \<le> prio q" "fst p \<notin> fst ` set M"
    by (auto simp: heap_rep_Cons)
  then have "\<forall>q \<in> set M. prio p < prio q" by (metis imageI prio_less_of_le)
  with L show ?thesis
    by (simp only: mi_abs_def MergeIterator.simps option.case) (intro exI [of _ p] exI [of _ M], simp)
qed

lemma mi_rep_pop:
  assumes "heap_rep rep h L" and "h \<noteq> []"
  shows "mi_abs rep \<lparr>mi_heap = butlast (pop_heap h), mi_current = Some (last (pop_heap h))\<rparr> (kmerge L)"
  using assms mi_rep_front by (cases h) (auto simp: pop_heap_Cons)

lemma create_ok:
  assumes "list_all2 rep its xss"
  shows "\<exists>mi. MergeIterator_create I its = Inr mi \<and> mi_abs rep mi (merge_runs xss)"
proof -
  define h where "h = map (\<lambda>(i, it). \<lparr>hw_index = i, hw_iter = it\<rparr>)
      (filter (\<lambda>(i, it). it_valid I it) (enumerate 0 its))"
  define L where "L = filter (\<lambda>p. snd p \<noteq> []) (enumerate 0 xss)"
  have "list_all2 (hw_rep rep) (map (\<lambda>(i, it). \<lparr>hw_index = i, hw_iter = it\<rparr>)
      (filter (\<lambda>(i, it). it_valid I it) (enumerate n its))) (filter (\<lambda>p. snd p \<noteq> []) (enumerate n xss))" for n
    using assms
  proof (induction its xss arbitrary: n rule: list_all2_induct)
    case (Cons it its xs xss)
    then show ?case using valid_iff [of it xs] by (auto simp: hw_rep_def)
  qed simp
  then have rep: "list_all2 (hw_rep rep) h L" by (simp add: h_def L_def)
  have dist: "distinct (map fst L)"
    unfolding L_def by (rule distinct_map_filter) (simp add: map_fst_enumerate)
  have km: "kmerge L = merge_runs xss" by (simp add: L_def kmerge_filter kmerge_enumerate)
  obtain h' M where h': "make_heap I h = Inr h'" "heap_rep rep h' M" "mset M = mset L"
    by (rule make_heap_rep [OF rep dist])
  have "kmerge M = merge_runs xss"
    using kmerge_perm [of L M] h'(3) dist km by simp
  then show ?thesis
    using h'(1,2) mi_rep_pop [OF h'(2)]
    by (cases "h' = []") (simp_all add: MergeIterator_create_def h_def [symmetric] Let_def mi_abs_def)
qed

subsection \<open>Skipping duplicates\<close>

lemma dup_guard_ok:
  assumes "heap_rep rep h L" and "rep (hw_iter cur) ((k, v) # r)"
  shows "ok sinv (MergeIterator_dup_guard I cur h) (\<lambda>t. t = (L \<noteq> [] \<and> fst (hd (snd (hd L))) = k))"
proof (cases h)
  case Nil
  then show ?thesis using assms by (auto simp: MergeIterator_dup_guard_def intro: ok_return)
next
  case (Cons w h')
  then obtain p M where "L = p # M" "hw_rep rep w p" using assms(1) by (auto simp: heap_rep_Cons)
  then show ?thesis
    using Cons key_hd [OF assms(2)]
    by (auto simp: MergeIterator_dup_guard_def hw_rep_key ok_def)
qed

text \<open>One iteration takes \<open>k\<close> out of the iterator in front.\<close>

lemma dup_body_ok:
  assumes rep: "heap_rep rep h ((j, (k, v) # s) # M)"
  shows "ok sinv (MergeIterator_dup_body I h)
    (\<lambda>h'. \<exists>L'. heap_rep rep h' L' \<and> mset L' = (if s = [] then mset M else mset ((j, s) # M)))"
proof -
  from rep obtain w h0 where h: "h = w # h0" by (cases h) auto
  with rep have w: "hw_rep rep w (j, (k, v) # s)" and M: "heap_rep rep h0 M" and j: "j \<notin> fst ` set M"
    by (auto simp: heap_rep_Cons)
  from w have idx: "hw_index w = j" and it: "rep (hw_iter w) ((k, v) # s)" by (auto simp: hw_rep_def)
  show ?thesis
    unfolding MergeIterator_dup_body_def Let_def h pop_heap_Cons push_heap_snoc
  proof (rule ok_bind [OF next_tl [OF it]])
    fix it' assume it': "rep it' s"
    show "ok sinv (if it_valid I it' then m_lift (heap_insert I (w\<lparr>hw_iter := it'\<rparr>) h0) else m_return h0)
      (\<lambda>h'. \<exists>L'. heap_rep rep h' L' \<and> mset L' = (if s = [] then mset M else mset ((j, s) # M)))"
    proof (cases "s = []")
      case True
      then show ?thesis using M valid_iff [OF it'] by (auto intro: ok_return)
    next
      case False
      then have "hw_rep rep (w\<lparr>hw_iter := it'\<rparr>) (j, s)" using idx it' by (simp add: hw_rep_def)
      then obtain h' L' where "heap_insert I (w\<lparr>hw_iter := it'\<rparr>) h0 = Inr h'" "heap_rep rep h' L'"
        "mset L' = mset ((j, s) # M)"
        using heap_insert_rep [OF M] j by (metis fst_conv)
      then show ?thesis using False valid_iff [OF it'] by (auto intro!: ok_lift)
    qed
  qed
qed

text \<open>The loop removes \<open>k\<close> from every iterator in the heap: what merging the rest with the advanced
  current run \<open>r\<close> gives does not change.\<close>

definition dup_inv :: "bytes \<Rightarrow> nat \<times> entry list \<Rightarrow> entry list \<Rightarrow> 'i HeapWrapper list \<Rightarrow>
    (nat \<times> entry list) list \<Rightarrow> bool" where
  "dup_inv k p zs h L \<longleftrightarrow> heap_rep rep h L \<and> fst p \<notin> fst ` set L \<and> (\<forall>q \<in> set L. k \<le> fst (hd (snd q))) \<and>
     kmerge (p # map (apsnd (pop_key k)) L) = zs"

lemma heap_rep_sorted: "heap_rep rep h L \<Longrightarrow> q \<in> set L \<Longrightarrow> sorted_entries (snd q) \<and> snd q \<noteq> []"
  unfolding heap_rep_def using hw_rep_sorted
  by (metis (no_types, lifting) hw_rep_def in_set_conv_nth list_all2_conv_all_nth)

lemma dup_inv_step:
  assumes inv: "dup_inv k p zs h ((j, (k, v) # s) # M)" and rep: "heap_rep rep h' L'"
    and m: "mset L' = (if s = [] then mset M else mset ((j, s) # M))"
  shows "dup_inv k p zs h' L'"
proof -
  have dist: "distinct (map fst (p # (j, s) # M))"
    using inv by (auto simp: dup_inv_def heap_rep_def)
  have s: "sorted_entries ((k, v) # s)"
    using inv heap_rep_sorted [of h "(j, (k, v) # s) # M" "(j, (k, v) # s)"] by (simp add: dup_inv_def)
  then have pop: "pop_key k s = s" and hd: "s \<noteq> [] \<Longrightarrow> k \<le> fst (hd s)" by (cases s; auto)+
  have set: "set L' = (if s = [] then set M else insert (j, s) (set M))"
    using m by (metis list.simps(15) set_mset_mset)
  have "mset (p # map (apsnd (pop_key k)) L') =
      mset (p # map (apsnd (pop_key k)) (if s = [] then M else (j, s) # M))"
    using m by (simp only: mset.simps mset_map) simp
  moreover have "distinct (map fst (p # map (apsnd (pop_key k)) L'))"
    using rep dist set by (auto simp: heap_rep_def comp_def)
  ultimately have "kmerge (p # map (apsnd (pop_key k)) L') =
      kmerge (p # map (apsnd (pop_key k)) (if s = [] then M else (j, s) # M))"
    by (rule kmerge_perm)
  also have "\<dots> = zs" using inv pop by (auto simp: dup_inv_def)
  finally show ?thesis
    using inv rep set hd dist by (auto simp: dup_inv_def)
qed

text \<open>When the loop ends, every iterator left stands on a key above \<open>k\<close>.\<close>

lemma skip_dups_ok:
  assumes "dup_inv k p zs h L" and "rep (hw_iter cur) ((k, v) # r)"
  shows "ok sinv (MergeIterator_skip_dups I cur h)
    (\<lambda>h'. \<exists>L'. heap_rep rep h' L' \<and> fst p \<notin> fst ` set L' \<and> kmerge (p # L') = zs)"
proof -
  let ?B = "\<lambda>L :: (nat \<times> entry list) list. L \<noteq> [] \<and> fst (hd (snd (hd L))) = k"
  let ?f = "\<lambda>L :: (nat \<times> entry list) list. sum_mset (image_mset (\<lambda>q. length (snd q)) (mset L))"
  have "ok sinv (m_while (MergeIterator_dup_guard I cur) (MergeIterator_dup_body I) h)
      (\<lambda>h'. \<exists>L'. dup_inv k p zs h' L' \<and> \<not> ?B L')"
  proof (rule ok_while [where f = ?f and J = "dup_inv k p zs"])
    fix h L assume inv: "dup_inv k p zs h L"
    then show "ok sinv (MergeIterator_dup_guard I cur h) (\<lambda>t. t = ?B L)"
      using assms(2) by (intro dup_guard_ok) (auto simp: dup_inv_def)
    assume "?B L"
    then obtain j xs M where L: "L = (j, xs) # M" and "fst (hd xs) = k" by (cases L) auto
    moreover have "xs \<noteq> []" using inv heap_rep_sorted L by (force simp: dup_inv_def)
    ultimately obtain v s where L: "L = (j, (k, v) # s) # M" by (cases xs) auto
    have rep: "heap_rep rep h ((j, (k, v) # s) # M)" using inv L by (simp add: dup_inv_def)
    show "ok sinv (MergeIterator_dup_body I h) (\<lambda>h'. \<exists>L'. dup_inv k p zs h' L' \<and> ?f L' < ?f L)"
    proof (rule ok_weaken [OF dup_body_ok [OF rep]], elim exE conjE)
      fix h' L' assume h': "heap_rep rep h' L'" "mset L' = (if s = [] then mset M else mset ((j, s) # M))"
      have "dup_inv k p zs h' L'" by (rule dup_inv_step [OF inv [unfolded L] h'])
      moreover have "?f L' < ?f L" unfolding h'(2) L by simp
      ultimately show "\<exists>L'. dup_inv k p zs h' L' \<and> ?f L' < ?f L" by blast
    qed
  qed (rule assms(1))
  then show ?thesis
    unfolding MergeIterator_skip_dups_def
  proof (rule ok_weaken)
    fix h' assume "\<exists>L'. dup_inv k p zs h' L' \<and> \<not> ?B L'"
    then obtain L' where inv: "dup_inv k p zs h' L'" and B: "\<not> ?B L'" by blast
    have "pop_key k (snd q) = snd q" if "q \<in> set L'" for q
    proof -
      have "heap_rep rep h' L'" and ge: "\<forall>q \<in> set L'. k \<le> fst (hd (snd q))"
        using inv by (simp_all add: dup_inv_def)
      then have s: "sorted_entries (snd q)" and "prio (hd L') \<le> prio q"
        using that heap_rep_sorted by (auto simp: heap_rep_def intro: sorted_hd_prio)
      moreover have "k < fst (hd (snd (hd L')))" using B ge that by (cases L') auto
      ultimately have "k < fst (hd (snd q))" by (auto simp: prio_def)
      with s show ?thesis by (intro pop_key_above)
    qed
    then have "map (apsnd (pop_key k)) L' = L'" by (intro map_idI) (auto simp: apsnd_def map_prod_def)
    with inv show "\<exists>L'. heap_rep rep h' L' \<and> fst p \<notin> fst ` set L' \<and> kmerge (p # L') = zs"
      by (auto simp: dup_inv_def)
  qed
qed

subsection \<open>Choosing the next current iterator\<close>

lemma replace_ok:
  assumes cur: "rep (hw_iter cur) r" "hw_index cur = i" and rep: "heap_rep rep h L" and i: "i \<notin> fst ` set L"
  shows "\<exists>mi. MergeIterator_replace I cur h = Inr mi \<and> mi_abs rep mi (kmerge ((i, r) # L))"
proof (cases "r = []")
  case True
  then show ?thesis
    using mi_rep_pop [OF rep] rep valid_iff [OF cur(1)]
    by (cases "h = []") (auto simp: MergeIterator_replace_def Let_def mi_abs_def)
next
  case False
  then have c: "hw_rep rep cur (i, r)" and v: "it_valid I (hw_iter cur)"
    using cur valid_iff [OF cur(1)] by (auto simp: hw_rep_def)
  show ?thesis
  proof (cases h)
    case Nil
    then show ?thesis
      using c v rep mi_rep_front [of cur "[]" "[(i, r)]"]
      by (auto simp: MergeIterator_replace_def heap_rep_Cons)
  next
    case (Cons w h0)
    then obtain q M where L: "L = q # M" "hw_rep rep w q" "heap_rep rep h0 M"
      "\<forall>p \<in> set M. prio q \<le> prio p" "fst q \<notin> fst ` set M"
      using rep by (auto simp: heap_rep_Cons)
    note lt = HeapWrapper_less_eq [OF c L(2)]
    show ?thesis
    proof (cases "prio q < prio (i, r)")
      case True
      have "i \<notin> fst ` set M" using i L(1) by auto
      then obtain h1 N where h1: "heap_insert I cur h0 = Inr h1" "heap_rep rep h1 N" "mset N = mset ((i, r) # M)"
        using heap_insert_rep [OF L(3) c] by auto
      have set: "set N = insert (i, r) (set M)" using h1(3) by (metis list.simps(15) set_mset_mset)
      have hr: "heap_rep rep (w # h1) (q # N)"
        unfolding heap_rep_Cons using L h1(2) set True i by auto
      have "kmerge (q # N) = kmerge ((i, r) # L)"
        using hr h1(3) by (intro kmerge_perm) (auto simp: L(1) heap_rep_def)
      with mi_rep_front [OF hr] show ?thesis
        using True v lt Cons h1(1)
        by (simp add: MergeIterator_replace_def pop_heap_Cons push_heap_snoc Let_def)
    next
      case False
      then have "heap_rep rep (cur # h) ((i, r) # L)"
        unfolding heap_rep_Cons [of _ cur] using c rep i L by auto
      from mi_rep_front [OF this] show ?thesis
        using False v lt Cons by (simp add: MergeIterator_replace_def)
    qed
  qed
qed

lemma mi_abs_Cons:
  assumes "mi_abs rep mi (z # zs)"
  obtains c i v r L where "mi_current mi = Some c" and "hw_index c = i" and "rep (hw_iter c) (z # r)"
    and "dup_inv (fst z) (i, r) zs (mi_heap mi) L"
proof -
  from assms obtain c p L where c: "mi_current mi = Some c" "hw_rep rep c p"
    "heap_rep rep (mi_heap mi) L" "fst p \<notin> fst ` set L" "\<forall>q \<in> set L. prio p < prio q"
    "z # zs = kmerge (p # L)"
    by (auto simp: mi_abs_def split: option.splits)
  obtain i k v r where p: "p = (i, (k, v) # r)"
    using c(2) by (cases p; cases "snd p") (auto simp: hw_rep_def)
  have "kmerge (p # L) = (k, v) # kmerge (map (apsnd (pop_key k)) (p # L))"
  proof (rule kmerge_step)
    show "distinct (map fst (p # L))" using c(3,4) by (simp add: heap_rep_def)
    show "sorted_entries (snd q)" if "q \<in> set (p # L)" for q
      using that hw_rep_sorted [OF c(2)] heap_rep_sorted [OF c(3), of q] by auto
    show "(i, (k, v) # r) \<in> set (p # L)" using p by simp
    show "k < fst (hd ys) \<or> k = fst (hd ys) \<and> i \<le> j" if "(j, ys) \<in> set (p # L)" for j ys
      using that c(5) p by (fastforce simp: prio_def)
  qed
  then have z: "z = (k, v)" "zs = kmerge ((i, r) # map (apsnd (pop_key k)) L)" using c(6) p by simp_all
  have "k \<le> fst (hd (snd q))" if "q \<in> set L" for q
    using c(5) that p by (fastforce simp: prio_def)
  then have "dup_inv (fst z) (i, r) zs (mi_heap mi) L"
    using c(3,4) p z by (auto simp: dup_inv_def)
  then show thesis using that c(1,2) p z by (auto simp: hw_rep_def)
qed

end

sublocale merge_over \<subseteq> mg: sorted_iterator "MergeIterator_ops I" sinv "mi_abs rep"
proof unfold_locales
  fix mi zs assume "mi_abs rep mi zs"
  then show "it_valid (MergeIterator_ops I) mi = (zs \<noteq> [])"
    by (auto simp: MergeIterator_ops_def MergeIterator_is_valid_def mi_abs_def hw_rep_def kmerge_Cons_neq_Nil
        valid_iff split: option.splits)
next
  fix mi z zs assume "mi_abs rep mi (z # zs)"
  then obtain c i v r L where c: "mi_current mi = Some c" "hw_index c = i" "rep (hw_iter c) (z # r)"
    "dup_inv (fst z) (i, r) zs (mi_heap mi) L" by (rule mi_abs_Cons)
  show "it_key (MergeIterator_ops I) mi = Inr (fst z)"
    using c key_hd by (simp add: MergeIterator_ops_def MergeIterator_key_def)
  show "it_value (MergeIterator_ops I) mi = Inr (snd z)"
    using c value_hd by (simp add: MergeIterator_ops_def MergeIterator_value_def)
  have "rep (hw_iter c) ((fst z, snd z) # r)" using c(3) by simp
  then show "ok sinv (it_next (MergeIterator_ops I) mi) (\<lambda>mi'. mi_abs rep mi' zs)"
    unfolding MergeIterator_ops_def MergeIterator_next_def iter_ops.simps c(1) option.case
  proof (rule ok_bind [OF skip_dups_ok [OF c(4)]])
    fix h' assume "\<exists>L'. heap_rep rep h' L' \<and> fst (i, r) \<notin> fst ` set L' \<and> kmerge ((i, r) # L') = zs"
    then obtain L' where L': "heap_rep rep h' L'" "i \<notin> fst ` set L'" "kmerge ((i, r) # L') = zs" by auto
    show "ok sinv (m_bind (it_next I (hw_iter c)) (\<lambda>it. m_lift (MergeIterator_replace I (c\<lparr>hw_iter := it\<rparr>) h')))
        (\<lambda>mi'. mi_abs rep mi' zs)"
    proof (rule ok_bind [OF next_tl [OF c(3)]])
      fix it assume "rep it r"
      then obtain mi' where "MergeIterator_replace I (c\<lparr>hw_iter := it\<rparr>) h' = Inr mi'" "mi_abs rep mi' zs"
        using replace_ok [of "c\<lparr>hw_iter := it\<rparr>" r i h' L'] c(2) L' by auto
      then show "ok sinv (m_lift (MergeIterator_replace I (c\<lparr>hw_iter := it\<rparr>) h')) (\<lambda>mi'. mi_abs rep mi' zs)"
        by (rule ok_lift)
    qed
  qed
next
  fix mi zs assume "mi_abs rep mi zs"
  then consider "zs = []" | c p L where "hw_rep rep c p" "heap_rep rep (mi_heap mi) L" "zs = kmerge (p # L)"
    by (auto simp: mi_abs_def split: option.splits)
  then show "sorted_entries zs"
  proof cases
    case (2 c p L)
    show ?thesis
      unfolding 2(3) using hw_rep_sorted [OF 2(1)] heap_rep_sorted [OF 2(2)]
      by (intro sorted_kmerge) auto
  qed simp
qed

end
