(* ===== verification/Two_Merge_Iterator.thy ===== *)
theory Two_Merge_Iterator
  imports Storage_Iterator Merge_Spec
begin

text \<open>
  The class template \<open>TwoMergeIterator<A, B>\<close> of \<open>include/mini_lsm/iterators.h\<close>: the ordered
  union of two iterators in which \<open>A\<close> is newer and shadows \<open>B\<close>. The template parameters are the
  operations of the two iterator classes.

  The locale \<open>two_merge\<close> assumes the contract of both and the \<open>sublocale\<close> shows the contract
  for the union, with the contents \<open>merge2\<close> of the two contents.
\<close>

section \<open>The iterator\<close>

record ('a, 'b) TwoMergeIterator =
  tm_a :: 'a
  tm_b :: 'b
  tm_first :: bool

definition TwoMergeIterator_skip_b ::
  "('s, 'a) iter_ops \<Rightarrow> ('s, 'b) iter_ops \<Rightarrow> 'a \<Rightarrow> 'b \<Rightarrow> ('s, 'b) m" where
  "TwoMergeIterator_skip_b A B a b =
     (if it_valid A a then
        if it_valid B b then
          m_bind (m_lift (it_key B b)) (\<lambda>kb.
          m_bind (m_lift (it_key A a)) (\<lambda>ka.
          if KeySlice_eq kb ka then it_next B b else m_return b))
        else m_return b
      else m_return b)"

definition TwoMergeIterator_choose_a ::
  "('s, 'a) iter_ops \<Rightarrow> ('s, 'b) iter_ops \<Rightarrow> 'a \<Rightarrow> 'b \<Rightarrow> bool res" where
  "TwoMergeIterator_choose_a A B a b =
     (if \<not> it_valid A a then Inr False
      else if \<not> it_valid B b then Inr True
      else res_bind (it_key A a) (\<lambda>ka. res_bind (it_key B b) (\<lambda>kb. Inr (KeySlice_lt ka kb))))"

text \<open>\<open>skip_b(); first_ = choose_a();\<close>, the common end of the constructor and of \<open>next\<close>.\<close>

definition TwoMergeIterator_settle ::
  "('s, 'a) iter_ops \<Rightarrow> ('s, 'b) iter_ops \<Rightarrow> 'a \<Rightarrow> 'b \<Rightarrow> ('s, ('a, 'b) TwoMergeIterator) m" where
  "TwoMergeIterator_settle A B a b =
     m_bind (TwoMergeIterator_skip_b A B a b) (\<lambda>b.
     m_bind (m_lift (TwoMergeIterator_choose_a A B a b)) (\<lambda>first.
     m_return \<lparr>tm_a = a, tm_b = b, tm_first = first\<rparr>))"

definition TwoMergeIterator_create ::
  "('s, 'a) iter_ops \<Rightarrow> ('s, 'b) iter_ops \<Rightarrow> 'a \<Rightarrow> 'b \<Rightarrow> ('s, ('a, 'b) TwoMergeIterator) m" where
  "TwoMergeIterator_create A B a b = TwoMergeIterator_settle A B a b"

definition TwoMergeIterator_key ::
  "('s, 'a) iter_ops \<Rightarrow> ('s, 'b) iter_ops \<Rightarrow> ('a, 'b) TwoMergeIterator \<Rightarrow> bytes res" where
  "TwoMergeIterator_key A B it = (if tm_first it then it_key A (tm_a it) else it_key B (tm_b it))"

definition TwoMergeIterator_value ::
  "('s, 'a) iter_ops \<Rightarrow> ('s, 'b) iter_ops \<Rightarrow> ('a, 'b) TwoMergeIterator \<Rightarrow> bytes res" where
  "TwoMergeIterator_value A B it = (if tm_first it then it_value A (tm_a it) else it_value B (tm_b it))"

definition TwoMergeIterator_is_valid ::
  "('s, 'a) iter_ops \<Rightarrow> ('s, 'b) iter_ops \<Rightarrow> ('a, 'b) TwoMergeIterator \<Rightarrow> bool" where
  "TwoMergeIterator_is_valid A B it = (if tm_first it then it_valid A (tm_a it) else it_valid B (tm_b it))"

definition TwoMergeIterator_next ::
  "('s, 'a) iter_ops \<Rightarrow> ('s, 'b) iter_ops \<Rightarrow> ('a, 'b) TwoMergeIterator \<Rightarrow>
   ('s, ('a, 'b) TwoMergeIterator) m" where
  "TwoMergeIterator_next A B it =
     (if tm_first it
      then m_bind (it_next A (tm_a it)) (\<lambda>a. TwoMergeIterator_settle A B a (tm_b it))
      else m_bind (it_next B (tm_b it)) (\<lambda>b. TwoMergeIterator_settle A B (tm_a it) b))"

definition TwoMergeIterator_ops ::
  "('s, 'a) iter_ops \<Rightarrow> ('s, 'b) iter_ops \<Rightarrow> ('s, ('a, 'b) TwoMergeIterator) iter_ops" where
  "TwoMergeIterator_ops A B =
     \<lparr>it_key = TwoMergeIterator_key A B, it_value = TwoMergeIterator_value A B,
      it_valid = TwoMergeIterator_is_valid A B, it_next = TwoMergeIterator_next A B\<rparr>"

section \<open>The contract\<close>

text \<open>The two heads differ and \<open>first_\<close> says which one is smaller.\<close>

definition tm_settled :: "entry list \<Rightarrow> entry list \<Rightarrow> bool \<Rightarrow> bool" where
  "tm_settled xs ys first \<longleftrightarrow>
     (xs \<noteq> [] \<and> ys \<noteq> [] \<longrightarrow> fst (hd xs) \<noteq> fst (hd ys)) \<and>
     first = (xs \<noteq> [] \<and> (ys = [] \<or> fst (hd xs) < fst (hd ys)))"

definition tm_abs ::
  "('a \<Rightarrow> entry list \<Rightarrow> bool) \<Rightarrow> ('b \<Rightarrow> entry list \<Rightarrow> bool) \<Rightarrow>
   ('a, 'b) TwoMergeIterator \<Rightarrow> entry list \<Rightarrow> bool" where
  "tm_abs absA absB it zs \<longleftrightarrow>
     (\<exists>xs ys. absA (tm_a it) xs \<and> absB (tm_b it) ys \<and> tm_settled xs ys (tm_first it) \<and> zs = merge2 xs ys)"

text \<open>What \<open>skip_b\<close> leaves of the older run.\<close>

definition skip_dup :: "entry list \<Rightarrow> entry list \<Rightarrow> entry list" where
  "skip_dup xs ys = (if xs \<noteq> [] \<and> ys \<noteq> [] \<and> fst (hd ys) = fst (hd xs) then tl ys else ys)"

lemma skip_dup_settled:
  "sorted_entries ys \<Longrightarrow>
   tm_settled xs (skip_dup xs ys)
     (xs \<noteq> [] \<and> (skip_dup xs ys = [] \<or> fst (hd xs) < fst (hd (skip_dup xs ys))))"
  by (cases ys; cases "tl ys") (auto simp: tm_settled_def skip_dup_def)

lemma merge2_skip_dup: "merge2 xs (skip_dup xs ys) = merge2 xs ys" if "sorted_entries ys"
proof (cases "xs \<noteq> [] \<and> ys \<noteq> [] \<and> fst (hd ys) = fst (hd xs)")
  case True
  then obtain x r y s where xy: "xs = x # r" "ys = y # s" by (cases xs; cases ys) auto
  then have "\<forall>e \<in> set s. fst x < fst e" using True that by auto
  then show ?thesis using True xy by (simp add: skip_dup_def merge2_Cons_above)
qed (auto simp: skip_dup_def)

locale two_merge =
  a: sorted_iterator A sinv absA + b: sorted_iterator B sinv absB
  for A :: "('s, 'a) iter_ops" and B :: "('s, 'b) iter_ops" and sinv :: "'s \<Rightarrow> bool"
    and absA :: "'a \<Rightarrow> entry list \<Rightarrow> bool" and absB :: "'b \<Rightarrow> entry list \<Rightarrow> bool"
begin

lemma skip_b_ok:
  assumes "absA a xs" and "absB b ys"
  shows "ok sinv (TwoMergeIterator_skip_b A B a b) (\<lambda>b'. absB b' (skip_dup xs ys))"
proof (cases "xs \<noteq> [] \<and> ys \<noteq> []")
  case True
  then obtain x r y s where xy: "xs = x # r" "ys = y # s" by (cases xs; cases ys) auto
  have "ok sinv (if fst y = fst x then it_next B b else m_return b) (\<lambda>b'. absB b' (skip_dup xs ys))"
    using b.next_tl [of b y s] assms xy by (auto simp: skip_dup_def intro: ok_return)
  then show ?thesis
    using assms xy a.valid_iff b.valid_iff a.key_hd [of a x r] b.key_hd [of b y s]
    by (simp add: TwoMergeIterator_skip_b_def)
next
  case False
  then show ?thesis
    using assms a.valid_iff [OF assms(1)] b.valid_iff [OF assms(2)]
    by (auto simp: TwoMergeIterator_skip_b_def skip_dup_def intro: ok_return)
qed

lemma choose_a_eq:
  assumes "absA a xs" and "absB b ys"
  shows "TwoMergeIterator_choose_a A B a b = Inr (xs \<noteq> [] \<and> (ys = [] \<or> fst (hd xs) < fst (hd ys)))"
  using assms a.valid_iff [OF assms(1)] b.valid_iff [OF assms(2)] a.key_hd b.key_hd
  by (cases xs; cases ys) (auto simp: TwoMergeIterator_choose_a_def)

lemma settle_ok:
  assumes "absA a xs" and "absB b ys"
  shows "ok sinv (TwoMergeIterator_settle A B a b) (\<lambda>it. tm_abs absA absB it (merge2 xs ys))"
  unfolding TwoMergeIterator_settle_def
proof (rule ok_bind [OF skip_b_ok [OF assms]])
  fix b' assume b': "absB b' (skip_dup xs ys)"
  have s: "sorted_entries ys" using assms(2) by (rule b.rep_sorted)
  show "ok sinv (m_bind (m_lift (TwoMergeIterator_choose_a A B a b')) (\<lambda>first.
      m_return \<lparr>tm_a = a, tm_b = b', tm_first = first\<rparr>)) (\<lambda>it. tm_abs absA absB it (merge2 xs ys))"
    unfolding choose_a_eq [OF assms(1) b'] m_bind_lift_Inr
    by (rule ok_return, unfold tm_abs_def, intro exI [of _ xs] exI [of _ "skip_dup xs ys"])
      (use assms(1) b' skip_dup_settled [OF s] merge2_skip_dup [OF s] in simp)
qed

text \<open>The constructor establishes the contents \<open>merge2\<close>.\<close>

lemma create_ok:
  "absA a xs \<Longrightarrow> absB b ys \<Longrightarrow>
   ok sinv (TwoMergeIterator_create A B a b) (\<lambda>it. tm_abs absA absB it (merge2 xs ys))"
  unfolding TwoMergeIterator_create_def by (rule settle_ok)

text \<open>A non-empty union: which side delivers, and what is left.\<close>

lemma tm_abs_Cons:
  assumes "tm_abs absA absB it (z # zs)"
  shows "tm_first it \<and> (\<exists>r ys. absA (tm_a it) (z # r) \<and> absB (tm_b it) ys \<and> zs = merge2 r ys) \<or>
    \<not> tm_first it \<and> (\<exists>xs s. absA (tm_a it) xs \<and> absB (tm_b it) (z # s) \<and> zs = merge2 xs s)"
proof -
  obtain xs ys where *: "absA (tm_a it) xs" "absB (tm_b it) ys" "tm_settled xs ys (tm_first it)"
    "z # zs = merge2 xs ys"
    using assms by (auto simp: tm_abs_def)
  then show ?thesis
    by (cases xs; cases ys) (fastforce simp: tm_settled_def split: if_splits)+
qed

end

sublocale two_merge \<subseteq> tm: sorted_iterator "TwoMergeIterator_ops A B" sinv "tm_abs absA absB"
proof unfold_locales
  fix it zs assume "tm_abs absA absB it zs"
  then show "it_valid (TwoMergeIterator_ops A B) it = (zs \<noteq> [])"
    by (auto simp: tm_abs_def TwoMergeIterator_ops_def TwoMergeIterator_is_valid_def tm_settled_def
        a.valid_iff b.valid_iff)
next
  fix it z zs assume "tm_abs absA absB it (z # zs)"
  note c = tm_abs_Cons [OF this]
  show "it_key (TwoMergeIterator_ops A B) it = Inr (fst z)"
    using c by (auto simp: TwoMergeIterator_ops_def TwoMergeIterator_key_def dest: a.key_hd b.key_hd)
  show "it_value (TwoMergeIterator_ops A B) it = Inr (snd z)"
    using c by (auto simp: TwoMergeIterator_ops_def TwoMergeIterator_value_def dest: a.value_hd b.value_hd)
  show "ok sinv (it_next (TwoMergeIterator_ops A B) it) (\<lambda>it'. tm_abs absA absB it' zs)"
    using c
    by (auto simp: TwoMergeIterator_ops_def TwoMergeIterator_next_def
        intro!: ok_bind [OF a.next_tl] ok_bind [OF b.next_tl] settle_ok)
next
  fix it zs assume "tm_abs absA absB it zs"
  then show "sorted_entries zs"
    by (auto simp: tm_abs_def dest: a.rep_sorted b.rep_sorted intro!: sorted_merge2)
qed

end
