(* ===== verification/Lsm_Iterator.thy ===== *)
theory Lsm_Iterator
  imports Storage_Iterator
begin

text \<open>
  The two outermost iterators of a scan (\<open>src/lsm_iterator.cpp\<close>, \<open>include/mini_lsm/lsm_iterator.h\<close>).

  \<open>LsmIterator\<close> stops at the upper bound and hides deleted keys (an empty value is a tombstone);
  \<open>FusedIterator\<close> makes an iterator that has thrown invalid for good. A null \<open>unique_ptr\<close> is
  \<open>None\<close>. An exception leaves the object behind, so \<open>FusedIterator_next\<close> returns the object and
  the exception it rethrows.
\<close>

section \<open>LsmIterator\<close>

record 'i LsmIterator =
  li_inner :: "'i option"
  li_end_bound :: Bound
  li_is_valid :: bool

text \<open>\<open>inner_->f()\<close>; following a null pointer is undefined.\<close>

definition LsmIterator_inner :: "'i LsmIterator \<Rightarrow> 'i res" where
  "LsmIterator_inner it = (case li_inner it of None \<Rightarrow> Inl (OutOfRange ''inner_'') | Some i \<Rightarrow> Inr i)"

definition LsmIterator_match_end_bound :: "('s, 'i) iter_ops \<Rightarrow> 'i LsmIterator \<Rightarrow> 'i LsmIterator res" where
  "LsmIterator_match_end_bound I it =
     (if \<not> li_is_valid it then Inr it
      else case li_end_bound it of
        Unbounded \<Rightarrow> Inr it
      | Included b \<Rightarrow>
          res_bind (LsmIterator_inner it) (\<lambda>i. res_bind (it_key I i) (\<lambda>k.
          if KeySlice_gt k b then Inr (it\<lparr>li_is_valid := False\<rparr>) else Inr it))
      | Excluded b \<Rightarrow>
          res_bind (LsmIterator_inner it) (\<lambda>i. res_bind (it_key I i) (\<lambda>k.
          if KeySlice_ge k b then Inr (it\<lparr>li_is_valid := False\<rparr>) else Inr it)))"

definition LsmIterator_next_inner :: "('s, 'i) iter_ops \<Rightarrow> 'i LsmIterator \<Rightarrow> ('s, 'i LsmIterator) m" where
  "LsmIterator_next_inner I it =
     m_bind (m_lift (LsmIterator_inner it)) (\<lambda>i.
     m_bind (it_next I i) (\<lambda>i.
     let it = it\<lparr>li_inner := Some i\<rparr> in
     if \<not> it_valid I i then m_return (it\<lparr>li_is_valid := False\<rparr>)
     else m_lift (LsmIterator_match_end_bound I it)))"

definition LsmIterator_on_delete :: "('s, 'i) iter_ops \<Rightarrow> 'i LsmIterator \<Rightarrow> ('s, bool) m" where
  "LsmIterator_on_delete I it =
     (if li_is_valid it then
        m_bind (m_lift (LsmIterator_inner it)) (\<lambda>i.
        m_bind (m_lift (it_value I i)) (\<lambda>v. m_return (v = [])))
      else m_return False)"

definition LsmIterator_move_to_non_delete ::
  "('s, 'i) iter_ops \<Rightarrow> 'i LsmIterator \<Rightarrow> ('s, 'i LsmIterator) m" where
  "LsmIterator_move_to_non_delete I it = m_while (LsmIterator_on_delete I) (LsmIterator_next_inner I) it"

definition LsmIterator_create :: "('s, 'i) iter_ops \<Rightarrow> 'i option \<Rightarrow> Bound \<Rightarrow> ('s, 'i LsmIterator) m" where
  "LsmIterator_create I inner end_bound =
     (case inner of
        Some i \<Rightarrow>
          if it_valid I i then
            m_bind (m_lift (LsmIterator_match_end_bound I
                \<lparr>li_inner = Some i, li_end_bound = end_bound, li_is_valid = True\<rparr>))
              (LsmIterator_move_to_non_delete I)
          else m_return \<lparr>li_inner = Some i, li_end_bound = end_bound, li_is_valid = False\<rparr>
      | None \<Rightarrow> m_return \<lparr>li_inner = None, li_end_bound = end_bound, li_is_valid = False\<rparr>)"

definition LsmIterator_key :: "('s, 'i) iter_ops \<Rightarrow> 'i LsmIterator \<Rightarrow> bytes res" where
  "LsmIterator_key I it =
     res_bind (assert_res ''is_valid_'' (li_is_valid it)) (\<lambda>_. res_bind (LsmIterator_inner it) (it_key I))"

definition LsmIterator_value :: "('s, 'i) iter_ops \<Rightarrow> 'i LsmIterator \<Rightarrow> bytes res" where
  "LsmIterator_value I it =
     res_bind (assert_res ''is_valid_'' (li_is_valid it)) (\<lambda>_. res_bind (LsmIterator_inner it) (it_value I))"

definition LsmIterator_is_valid :: "'i LsmIterator \<Rightarrow> bool" where
  "LsmIterator_is_valid it = li_is_valid it"

definition LsmIterator_next :: "('s, 'i) iter_ops \<Rightarrow> 'i LsmIterator \<Rightarrow> ('s, 'i LsmIterator) m" where
  "LsmIterator_next I it =
     (if \<not> li_is_valid it then m_return it
      else m_bind (LsmIterator_next_inner I it) (LsmIterator_move_to_non_delete I))"

definition LsmIterator_ops :: "('s, 'i) iter_ops \<Rightarrow> ('s, 'i LsmIterator) iter_ops" where
  "LsmIterator_ops I =
     \<lparr>it_key = LsmIterator_key I, it_value = LsmIterator_value I,
      it_valid = LsmIterator_is_valid, it_next = LsmIterator_next I\<rparr>"

section \<open>FusedIterator\<close>

record 'i FusedIterator =
  fi_iter :: "'i option"
  fi_has_errored :: bool

definition FusedIterator_create :: "'i option \<Rightarrow> 'i FusedIterator" where
  "FusedIterator_create iter = \<lparr>fi_iter = iter, fi_has_errored = False\<rparr>"

definition FusedIterator_is_valid :: "('s, 'i) iter_ops \<Rightarrow> 'i FusedIterator \<Rightarrow> bool" where
  "FusedIterator_is_valid I it =
     (\<not> fi_has_errored it \<and> (case fi_iter it of None \<Rightarrow> False | Some i \<Rightarrow> it_valid I i))"

definition FusedIterator_key :: "('s, 'i) iter_ops \<Rightarrow> 'i FusedIterator \<Rightarrow> bytes res" where
  "FusedIterator_key I it =
     res_bind (assert_res ''is_valid()'' (FusedIterator_is_valid I it)) (\<lambda>_.
     case fi_iter it of None \<Rightarrow> Inl (OutOfRange ''iter_'') | Some i \<Rightarrow> it_key I i)"

definition FusedIterator_value :: "('s, 'i) iter_ops \<Rightarrow> 'i FusedIterator \<Rightarrow> bytes res" where
  "FusedIterator_value I it =
     res_bind (assert_res ''is_valid()'' (FusedIterator_is_valid I it)) (\<lambda>_.
     case fi_iter it of None \<Rightarrow> Inl (OutOfRange ''iter_'') | Some i \<Rightarrow> it_value I i)"

text \<open>Only an exception is caught. What the exception leaves in \<open>*iter_\<close> is never looked at again:
  every operation tests \<open>has_errored_\<close> first.\<close>

definition FusedIterator_next ::
  "('s, 'i) iter_ops \<Rightarrow> 'i FusedIterator \<Rightarrow> ('s, 'i FusedIterator \<times> error option) m" where
  "FusedIterator_next I it =
     (if fi_has_errored it then m_return (it, None)
      else case fi_iter it of
        None \<Rightarrow> m_return (it, None)
      | Some i \<Rightarrow>
          if \<not> it_valid I i then m_return (it, None)
          else (\<lambda>s. case it_next I i s of
              None \<Rightarrow> None
            | Some (Inr i', s') \<Rightarrow> Some (Inr (it\<lparr>fi_iter := Some i'\<rparr>, None), s')
            | Some (Inl (Throw e), s') \<Rightarrow> Some (Inr (it\<lparr>fi_has_errored := True\<rparr>, Some (Throw e)), s')
            | Some (Inl e, s') \<Rightarrow> Some (Inl e, s')))"

definition FusedIterator_ops :: "('s, 'i) iter_ops \<Rightarrow> ('s, 'i FusedIterator) iter_ops" where
  "FusedIterator_ops I =
     \<lparr>it_key = FusedIterator_key I, it_value = FusedIterator_value I,
      it_valid = FusedIterator_is_valid I,
      it_next = (\<lambda>it. m_bind (FusedIterator_next I it) (\<lambda>(it, e).
         case e of None \<Rightarrow> m_return it | Some e \<Rightarrow> m_lift (Inl e)))\<rparr>"

section \<open>The contract\<close>

text \<open>What a scan with upper bound \<open>ub\<close> shows of the entries \<open>xs\<close>.\<close>

definition visible :: "Bound \<Rightarrow> entry list \<Rightarrow> entry list" where
  "visible ub xs = filter (\<lambda>e. snd e \<noteq> []) (takeWhile (\<lambda>e. below_upper ub (fst e)) xs)"

lemma visible_Nil [simp]: "visible ub [] = []"
  by (simp add: visible_def)

lemma visible_Cons [simp]:
  "visible ub (x # xs) =
     (if below_upper ub (fst x) then (if snd x = [] then visible ub xs else x # visible ub xs) else [])"
  unfolding visible_def by (cases "below_upper ub (fst x)"; cases "snd x = []") simp_all

lemma visible_sorted_eq:
  assumes "sorted_entries xs"
  shows "visible ub xs = filter (\<lambda>e. below_upper ub (fst e) \<and> snd e \<noteq> []) xs"
  using assms
proof (induction xs)
  case (Cons x xs)
  have "filter (\<lambda>e. below_upper ub (fst e) \<and> snd e \<noteq> []) xs = []" if "\<not> below_upper ub (fst x)"
    using Cons.prems that below_upper_mono [of ub] by (fastforce simp: filter_empty_conv less_imp_le)
  then show ?case using Cons by auto
qed simp

lemma sorted_visible: "sorted_entries xs \<Longrightarrow> sorted_entries (visible ub xs)"
  by (simp add: visible_sorted_eq sorted_entries_filter)

text \<open>The state between two advances: \<open>is_valid_\<close> says whether the inner iterator stands on an entry
  within the bound.\<close>

definition li_at :: "('i \<Rightarrow> entry list \<Rightarrow> bool) \<Rightarrow> Bound \<Rightarrow> 'i LsmIterator \<Rightarrow> entry list \<Rightarrow> bool" where
  "li_at rep ub it xs \<longleftrightarrow> (\<exists>i. li_inner it = Some i \<and> rep i xs) \<and> li_end_bound it = ub \<and>
     li_is_valid it = (xs \<noteq> [] \<and> below_upper ub (fst (hd xs)))"

definition li_abs :: "('i \<Rightarrow> entry list \<Rightarrow> bool) \<Rightarrow> 'i LsmIterator \<Rightarrow> entry list \<Rightarrow> bool" where
  "li_abs rep it zs \<longleftrightarrow> (if li_is_valid it
     then \<exists>xs. li_at rep (li_end_bound it) it xs \<and> snd (hd xs) \<noteq> [] \<and> zs = visible (li_end_bound it) xs
     else zs = [])"

definition fi_abs :: "('i \<Rightarrow> entry list \<Rightarrow> bool) \<Rightarrow> 'i FusedIterator \<Rightarrow> entry list \<Rightarrow> bool" where
  "fi_abs rep it zs \<longleftrightarrow> \<not> fi_has_errored it \<and> (\<exists>i. fi_iter it = Some i \<and> rep i zs)"

locale lsm_over = sorted_iterator I sinv rep
  for I :: "('s, 'i) iter_ops" and sinv :: "'s \<Rightarrow> bool" and rep :: "'i \<Rightarrow> entry list \<Rightarrow> bool"
begin

lemma match_end_bound_ok:
  assumes "rep i (x # xs)"
  shows "\<exists>it'. LsmIterator_match_end_bound I \<lparr>li_inner = Some i, li_end_bound = ub, li_is_valid = True\<rparr> = Inr it' \<and>
    li_at rep ub it' (x # xs)"
  using assms key_hd [OF assms]
  by (cases ub) (auto simp: LsmIterator_match_end_bound_def LsmIterator_inner_def li_at_def)

lemma next_inner_ok:
  assumes "li_at rep ub it (x # xs)" and "below_upper ub (fst x)"
  shows "ok sinv (LsmIterator_next_inner I it) (\<lambda>it'. li_at rep ub it' xs)"
proof -
  from assms obtain i where it: "it = \<lparr>li_inner = Some i, li_end_bound = ub, li_is_valid = True\<rparr>"
    and i: "rep i (x # xs)"
    by (cases it) (auto simp: li_at_def)
  show ?thesis
    unfolding it LsmIterator_next_inner_def LsmIterator_inner_def Let_def LsmIterator.simps option.case m_bind_lift_Inr
  proof (rule ok_bind [OF next_tl [OF i]])
    fix i' assume i': "rep i' xs"
    show "ok sinv (if \<not> it_valid I i'
        then m_return \<lparr>li_inner = Some i', li_end_bound = ub, li_is_valid = False\<rparr>
        else m_lift (LsmIterator_match_end_bound I \<lparr>li_inner = Some i', li_end_bound = ub, li_is_valid = True\<rparr>))
      (\<lambda>it'. li_at rep ub it' xs)"
      using i' match_end_bound_ok [of i' "hd xs" "tl xs" ub] valid_iff [OF i']
      by (cases xs) (auto intro!: ok_return ok_lift simp: li_at_def)
  qed
qed

lemma on_delete_ok:
  "li_at rep ub it xs \<Longrightarrow>
   ok sinv (LsmIterator_on_delete I it) (\<lambda>t. t = (xs \<noteq> [] \<and> below_upper ub (fst (hd xs)) \<and> snd (hd xs) = []))"
  by (cases xs) (auto simp: LsmIterator_on_delete_def LsmIterator_inner_def li_at_def value_hd ok_def)

lemma move_to_non_delete_ok:
  assumes "li_at rep ub it xs"
  shows "ok sinv (LsmIterator_move_to_non_delete I it) (\<lambda>it'. li_abs rep it' (visible ub xs))"
proof -
  let ?B = "\<lambda>xs :: entry list. xs \<noteq> [] \<and> below_upper ub (fst (hd xs)) \<and> snd (hd xs) = []"
  have "ok sinv (m_while (LsmIterator_on_delete I) (LsmIterator_next_inner I) it)
      (\<lambda>it'. \<exists>ys. (li_at rep ub it' ys \<and> visible ub ys = visible ub xs) \<and> \<not> ?B ys)"
  proof (rule ok_while [where f = length])
    fix it ys assume J: "li_at rep ub it ys \<and> visible ub ys = visible ub xs"
    then show "ok sinv (LsmIterator_on_delete I it) (\<lambda>t. t = ?B ys)" by (blast intro: on_delete_ok)
    assume "?B ys"
    then obtain y ys' where ys: "ys = y # ys'" "below_upper ub (fst y)" "snd y = []" by (cases ys) auto
    show "ok sinv (LsmIterator_next_inner I it)
        (\<lambda>it'. \<exists>ys'. (li_at rep ub it' ys' \<and> visible ub ys' = visible ub xs) \<and> length ys' < length ys)"
      using J ys by (intro ok_weaken [OF next_inner_ok [of ub it y ys']]) auto
  qed (use assms in simp)
  then show ?thesis
    unfolding LsmIterator_move_to_non_delete_def
  proof (rule ok_weaken)
    fix it' assume "\<exists>ys. (li_at rep ub it' ys \<and> visible ub ys = visible ub xs) \<and> \<not> ?B ys"
    then obtain ys where "li_at rep ub it' ys" "visible ub xs = visible ub ys" "\<not> ?B ys" by auto
    then show "li_abs rep it' (visible ub xs)"
      by (cases ys) (auto simp: li_abs_def li_at_def)
  qed
qed

lemma create_ok:
  assumes "rep i xs"
  shows "ok sinv (LsmIterator_create I (Some i) ub) (\<lambda>it. li_abs rep it (visible ub xs))"
proof (cases xs)
  case Nil
  then show ?thesis
    using valid_iff [OF assms] by (auto simp: LsmIterator_create_def li_abs_def intro: ok_return)
next
  case (Cons x r)
  then obtain it where "LsmIterator_match_end_bound I
      \<lparr>li_inner = Some i, li_end_bound = ub, li_is_valid = True\<rparr> = Inr it" "li_at rep ub it xs"
    using match_end_bound_ok assms by blast
  then show ?thesis
    using Cons valid_iff [OF assms] move_to_non_delete_ok [of ub it xs]
    by (simp add: LsmIterator_create_def del: visible_Cons)
qed

lemma li_abs_Cons:
  assumes "li_abs rep it (z # zs)"
  obtains i r where "li_is_valid it" and "li_inner it = Some i" and "rep i (z # r)"
    and "li_at rep (li_end_bound it) it (z # r)" and "below_upper (li_end_bound it) (fst z)"
    and "zs = visible (li_end_bound it) r"
proof -
  from assms obtain xs where v: "li_is_valid it" and xs: "li_at rep (li_end_bound it) it xs" "snd (hd xs) \<noteq> []"
    "z # zs = visible (li_end_bound it) xs"
    by (auto simp: li_abs_def split: if_splits)
  moreover from v xs(1) obtain x r where "xs = x # r" "below_upper (li_end_bound it) (fst x)"
    by (cases xs) (auto simp: li_at_def)
  ultimately show thesis using that by (auto simp: li_at_def)
qed

end

sublocale lsm_over \<subseteq> lsm: sorted_iterator "LsmIterator_ops I" sinv "li_abs rep"
proof unfold_locales
  fix it zs assume "li_abs rep it zs"
  then show "it_valid (LsmIterator_ops I) it = (zs \<noteq> [])"
    by (auto simp: li_abs_def LsmIterator_ops_def LsmIterator_is_valid_def li_at_def neq_Nil_conv split: if_splits)
next
  fix it z zs assume "li_abs rep it (z # zs)"
  then obtain i r where it: "li_is_valid it" "li_inner it = Some i" "rep i (z # r)"
    "li_at rep (li_end_bound it) it (z # r)" "below_upper (li_end_bound it) (fst z)"
    "zs = visible (li_end_bound it) r" by (rule li_abs_Cons)
  show "it_key (LsmIterator_ops I) it = Inr (fst z)"
    using it key_hd by (simp add: LsmIterator_ops_def LsmIterator_key_def LsmIterator_inner_def)
  show "it_value (LsmIterator_ops I) it = Inr (snd z)"
    using it value_hd by (simp add: LsmIterator_ops_def LsmIterator_value_def LsmIterator_inner_def)
  show "ok sinv (it_next (LsmIterator_ops I) it) (\<lambda>it'. li_abs rep it' zs)"
    unfolding LsmIterator_ops_def iter_ops.simps LsmIterator_next_def it(6)
    using it(1) ok_bind [OF next_inner_ok [OF it(4,5)] move_to_non_delete_ok] by simp
next
  fix it zs assume "li_abs rep it zs"
  then show "sorted_entries zs"
    by (auto simp: li_abs_def li_at_def split: if_splits intro!: sorted_visible dest: rep_sorted)
qed

text \<open>An iterator that keeps its contract never throws, and \<open>FusedIterator\<close> adds nothing to it.\<close>

locale fused_over = sorted_iterator I sinv rep
  for I :: "('s, 'i) iter_ops" and sinv :: "'s \<Rightarrow> bool" and rep :: "'i \<Rightarrow> entry list \<Rightarrow> bool"

sublocale fused_over \<subseteq> fused: sorted_iterator "FusedIterator_ops I" sinv "fi_abs rep"
proof unfold_locales
  fix it zs assume "fi_abs rep it zs"
  then show "it_valid (FusedIterator_ops I) it = (zs \<noteq> [])"
    using valid_iff by (auto simp: fi_abs_def FusedIterator_ops_def FusedIterator_is_valid_def)
next
  fix it z zs assume "fi_abs rep it (z # zs)"
  then obtain i where it: "\<not> fi_has_errored it" "fi_iter it = Some i" "rep i (z # zs)"
    by (auto simp: fi_abs_def)
  note [simp] = valid_Cons [OF it(3)] key_hd [OF it(3)] value_hd [OF it(3)]
  show "it_key (FusedIterator_ops I) it = Inr (fst z)"
    using it by (simp add: FusedIterator_ops_def FusedIterator_key_def FusedIterator_is_valid_def)
  show "it_value (FusedIterator_ops I) it = Inr (snd z)"
    using it by (simp add: FusedIterator_ops_def FusedIterator_value_def FusedIterator_is_valid_def)
  show "ok sinv (it_next (FusedIterator_ops I) it) (\<lambda>it'. fi_abs rep it' zs)"
    unfolding ok_def
  proof (intro allI impI)
    fix s assume "sinv s"
    with next_tl [OF it(3)] obtain i' s' where "it_next I i s = Some (Inr i', s')" "sinv s'" "rep i' zs"
      by (rule okD)
    with it show "\<exists>x s'. it_next (FusedIterator_ops I) it s = Some (Inr x, s') \<and> sinv s' \<and> fi_abs rep x zs"
      by (simp add: FusedIterator_ops_def FusedIterator_next_def m_bind_def fi_abs_def)
  qed
next
  fix it zs assume "fi_abs rep it zs"
  then show "sorted_entries zs" using rep_sorted by (auto simp: fi_abs_def)
qed

section \<open>Properties\<close>

text \<open>Once an exception escaped from \<open>FusedIterator::next\<close>, the iterator is finished: the exception
  is passed on, the iterator is invalid from then on, and further calls of \<open>next\<close> return without
  touching the iterator below; \<open>key\<close> and \<open>value\<close> then fail their assertion.\<close>

theorem FusedIterator_stays_invalid:
  assumes "FusedIterator_is_valid I it" and "fi_iter it = Some i" and "it_next I i s = Some (Inl (Throw e), s')"
  shows "\<exists>it'. FusedIterator_next I it s = Some (Inr (it', Some (Throw e)), s') \<and> \<not> FusedIterator_is_valid I it' \<and>
    FusedIterator_next I it' = m_return (it', None) \<and> \<not> is_ok (FusedIterator_key I it') \<and>
    \<not> is_ok (FusedIterator_value I it')"
  using assms by (auto simp: FusedIterator_next_def FusedIterator_is_valid_def FusedIterator_key_def
      FusedIterator_value_def m_return_def)

text \<open>An iterator over one entry whose \<open>next\<close> throws.\<close>

definition throwing_ops :: "(unit, unit) iter_ops" where
  "throwing_ops = \<lparr>it_key = \<lambda>_. Inr [1], it_value = \<lambda>_. Inr [2], it_valid = \<lambda>_. True,
     it_next = \<lambda>_. m_lift (Inl (Throw ''block checksum mismatched''))\<rparr>"

theorem FusedIterator_stays_invalid_witness:
  "\<exists>it'. FusedIterator_next throwing_ops (FusedIterator_create (Some ())) () =
      Some (Inr (it', Some (Throw ''block checksum mismatched'')), ()) \<and>
    \<not> FusedIterator_is_valid throwing_ops it' \<and> FusedIterator_next throwing_ops it' = m_return (it', None)"
  using FusedIterator_stays_invalid [of throwing_ops "FusedIterator_create (Some ())" "()" "()" "''block checksum mismatched''" "()"]
  by (auto simp: FusedIterator_create_def FusedIterator_is_valid_def throwing_ops_def m_lift_def)

end
