(* ===== verification/Mem_Table.thy ===== *)
theory Mem_Table
  imports Wal Merge_Iterator Two_Merge_Iterator Lsm_Iterator
begin

text \<open>
  The memtable (\<open>include/mini_lsm/mem_table.h\<close>, \<open>src/mem_table.cpp\<close>,
  \<open>src/iterators/mem_table_iterator.cpp\<close>): an ordered map with an optional write-ahead log.

  \<open>std::map<std::string, std::string>\<close> is the list of its entries in the order of the keys, with
  the library's operations \<open>operator[]\<close>, \<open>find\<close>, \<open>lower_bound\<close> and \<open>upper_bound\<close> on it; the order
  of \<open>std::string\<close> is the order of the bytes. An iterator copies the entries in range when it is
  made. \<open>MemTable::flush\<close> is with the table builder.
\<close>

section \<open>The ordered map\<close>

fun map_assign :: "bytes \<Rightarrow> bytes \<Rightarrow> entry list \<Rightarrow> entry list" where
  "map_assign k v [] = [(k, v)]"
| "map_assign k v (x # xs) =
     (if k < fst x then (k, v) # x # xs
      else if k = fst x then (k, v) # xs
      else x # map_assign k v xs)"

definition map_find :: "bytes \<Rightarrow> entry list \<Rightarrow> bytes option" where
  "map_find k es = map_of es k"

definition map_lower_bound :: "bytes \<Rightarrow> entry list \<Rightarrow> entry list" where
  "map_lower_bound l es = dropWhile (\<lambda>e. fst e < l) es"

definition map_upper_bound :: "bytes \<Rightarrow> entry list \<Rightarrow> entry list" where
  "map_upper_bound l es = dropWhile (\<lambda>e. fst e \<le> l) es"

lemma keys_map_assign: "fst ` set (map_assign k v es) = insert k (fst ` set es)"
  by (induction es) auto

lemma map_of_map_assign: "sorted_entries es \<Longrightarrow> map_of (map_assign k v es) = (map_of es)(k \<mapsto> v)"
  by (induction es) (auto simp: fun_eq_iff)

lemma sorted_map_assign [inv_intros]: "sorted_entries es \<Longrightarrow> sorted_entries (map_assign k v es)"
proof (induction es)
  case (Cons x xs)
  have "\<forall>y \<in> set (map_assign k v xs). fst x < fst y" if "fst x < k"
  proof
    fix y assume "y \<in> set (map_assign k v xs)"
    then have "fst y \<in> insert k (fst ` set xs)" using keys_map_assign [of k v xs] by blast
    then show "fst x < fst y" using Cons.prems that by auto
  qed
  with Cons show ?case by (cases x) auto
qed simp

lemma dropWhile_sorted_entries:
  fixes es :: "('k::linorder \<times> 'v) list"
  assumes "sorted_entries es" and "\<And>k k'. \<not> P k \<Longrightarrow> k < k' \<Longrightarrow> \<not> P k'"
  shows "dropWhile (\<lambda>e. P (fst e)) es = filter (\<lambda>e. \<not> P (fst e)) es"
  using assms(1)
proof (induction es)
  case (Cons x es)
  then have "filter (\<lambda>e. \<not> P (fst e)) es = es" if "\<not> P (fst x)"
    using that assms(2) by (intro filter_True) auto
  with Cons show ?case by auto
qed simp

lemma takeWhile_sorted_entries:
  fixes es :: "('k::linorder \<times> 'v) list"
  assumes "sorted_entries es" and "\<And>k k'. \<not> P k \<Longrightarrow> k < k' \<Longrightarrow> \<not> P k'"
  shows "takeWhile (\<lambda>e. P (fst e)) es = filter (\<lambda>e. P (fst e)) es"
  using assms(1)
proof (induction es)
  case (Cons x es)
  then have "filter (\<lambda>e. P (fst e)) es = []" if "\<not> P (fst x)"
    using that assms(2) by (intro filter_False) auto
  with Cons show ?case by auto
qed simp

section \<open>The memtable\<close>

record MemTable =
  mt_id :: nat
  mt_map :: "entry list"
  mt_wal :: "Wal option"
  mt_approximate_size :: nat

definition MemTable_new :: "nat \<Rightarrow> Wal option \<Rightarrow> MemTable" where
  "MemTable_new tid wal = \<lparr>mt_id = tid, mt_map = [], mt_wal = wal, mt_approximate_size = 0\<rparr>"

definition MemTable_create_with_wal :: "io \<Rightarrow> nat \<Rightarrow> string \<Rightarrow> fs \<Rightarrow> MemTable res \<times> fs" where
  "MemTable_create_with_wal io tid path files =
     (case Wal_create io path files of
        (Inl e, files) \<Rightarrow> (Inl e, files)
      | (Inr wal, files) \<Rightarrow> (Inr (MemTable_new tid (Some wal)), files))"

definition MemTable_load :: "entry \<Rightarrow> MemTable \<Rightarrow> MemTable" where
  "MemTable_load r table =
     (case r of (k, v) \<Rightarrow>
        table\<lparr>mt_map := map_assign k v (mt_map table),
          mt_approximate_size := mt_approximate_size table + (length k + length v)\<rparr>)"

definition MemTable_recover_from_wal ::
  "zlib_crc32 \<Rightarrow> io \<Rightarrow> nat \<Rightarrow> string \<Rightarrow> fs \<Rightarrow> MemTable res \<times> fs" where
  "MemTable_recover_from_wal crc32 io tid path files =
     (case Wal_recover crc32 io path files of
        (Inl e, files) \<Rightarrow> (Inl e, files)
      | (Inr (wal, records), files) \<Rightarrow>
          (Inr (fold MemTable_load records (MemTable_new tid (Some wal))), files))"

definition MemTable_put :: "zlib_crc32 \<Rightarrow> io \<Rightarrow> bytes \<Rightarrow> bytes \<Rightarrow> MemTable \<Rightarrow> unit res \<times> MemTable" where
  "MemTable_put crc32 io key value table =
     (let store = (\<lambda>table. (Inr (),
          table\<lparr>mt_map := map_assign key value (mt_map table),
            mt_approximate_size := mt_approximate_size table + (length key + length value)\<rparr>))
      in case mt_wal table of
           Some wal \<Rightarrow>
             (case Wal_put crc32 io key value wal of
                (Inl e, wal) \<Rightarrow> (Inl e, table\<lparr>mt_wal := Some wal\<rparr>)
              | (Inr _, wal) \<Rightarrow> store (table\<lparr>mt_wal := Some wal\<rparr>))
         | None \<Rightarrow> store table)"

definition MemTable_get :: "bytes \<Rightarrow> MemTable \<Rightarrow> bytes option" where
  "MemTable_get key table = map_find key (mt_map table)"

definition MemTable_sync_wal :: "io \<Rightarrow> MemTable \<Rightarrow> fs \<Rightarrow> unit res \<times> MemTable \<times> fs" where
  "MemTable_sync_wal io table files =
     (case mt_wal table of
        Some wal \<Rightarrow>
          (case Wal_sync io wal files of (r, wal, files) \<Rightarrow> (r, table\<lparr>mt_wal := Some wal\<rparr>, files))
      | None \<Rightarrow> (Inr (), table, files))"

definition MemTable_is_empty :: "MemTable \<Rightarrow> bool" where
  "MemTable_is_empty table = (mt_map table = [])"

section \<open>The iterator\<close>

record MemTableIterator =
  mti_snapshot :: "entry list"
  mti_idx :: nat

definition MemTableIterator_all :: "MemTable option \<Rightarrow> MemTableIterator" where
  "MemTableIterator_all table =
     (case table of
        None \<Rightarrow> \<lparr>mti_snapshot = [], mti_idx = 0\<rparr>
      | Some t \<Rightarrow> \<lparr>mti_snapshot = mt_map t, mti_idx = 0\<rparr>)"

text \<open>The copying loop of the constructor.\<close>

fun MemTableIterator_copy :: "Bound \<Rightarrow> entry list \<Rightarrow> entry list" where
  "MemTableIterator_copy upper [] = []"
| "MemTableIterator_copy upper (e # es) =
     (case upper of
        Included b \<Rightarrow> if KeySlice_gt (fst e) b then [] else e # MemTableIterator_copy upper es
      | Excluded b \<Rightarrow> if KeySlice_ge (fst e) b then [] else e # MemTableIterator_copy upper es
      | Unbounded \<Rightarrow> e # MemTableIterator_copy upper es)"

definition MemTableIterator_range :: "MemTable option \<Rightarrow> Bound \<Rightarrow> Bound \<Rightarrow> MemTableIterator" where
  "MemTableIterator_range table lower upper =
     (case table of
        None \<Rightarrow> \<lparr>mti_snapshot = [], mti_idx = 0\<rparr>
      | Some t \<Rightarrow>
          let from = (case lower of
                Unbounded \<Rightarrow> mt_map t
              | Included l \<Rightarrow> map_lower_bound l (mt_map t)
              | Excluded l \<Rightarrow> map_upper_bound l (mt_map t))
          in \<lparr>mti_snapshot = MemTableIterator_copy upper from, mti_idx = 0\<rparr>)"

definition MemTable_scan :: "Bound \<Rightarrow> Bound \<Rightarrow> MemTable \<Rightarrow> MemTableIterator" where
  "MemTable_scan lower upper table = MemTableIterator_range (Some table) lower upper"

definition MemTableIterator_is_valid :: "MemTableIterator \<Rightarrow> bool" where
  "MemTableIterator_is_valid it = (mti_idx it < length (mti_snapshot it))"

definition MemTableIterator_key :: "MemTableIterator \<Rightarrow> bytes res" where
  "MemTableIterator_key it =
     res_bind (assert_res ''is_valid()'' (MemTableIterator_is_valid it)) (\<lambda>_.
     Inr (fst (mti_snapshot it ! mti_idx it)))"

definition MemTableIterator_value :: "MemTableIterator \<Rightarrow> bytes res" where
  "MemTableIterator_value it =
     res_bind (assert_res ''is_valid()'' (MemTableIterator_is_valid it)) (\<lambda>_.
     Inr (snd (mti_snapshot it ! mti_idx it)))"

definition MemTableIterator_next :: "MemTableIterator \<Rightarrow> MemTableIterator" where
  "MemTableIterator_next it =
     (if MemTableIterator_is_valid it then it\<lparr>mti_idx := mti_idx it + 1\<rparr> else it)"

definition MemTableIterator_ops :: "('s, MemTableIterator) iter_ops" where
  "MemTableIterator_ops =
     \<lparr>it_key = MemTableIterator_key, it_value = MemTableIterator_value,
      it_valid = MemTableIterator_is_valid, it_next = (\<lambda>it. m_return (MemTableIterator_next it))\<rparr>"

section \<open>The map a memtable stands for\<close>

definition mt_wf :: "MemTable \<Rightarrow> bool" where
  "mt_wf t \<longleftrightarrow> sorted_entries (mt_map t)"

definition mt_view :: "MemTable \<Rightarrow> bytes \<Rightarrow> bytes option" where
  "mt_view t = map_of (mt_map t)"

lemma mt_wf_new [inv_intros]: "mt_wf (MemTable_new tid wal)"
  by (simp add: mt_wf_def MemTable_new_def)

lemma mt_view_new [simp]: "mt_view (MemTable_new tid wal) = Map.empty"
  by (simp add: mt_view_def MemTable_new_def)

lemma MemTable_load_wf [inv_intros]: "mt_wf t \<Longrightarrow> mt_wf (MemTable_load r t)"
  by (simp add: mt_wf_def MemTable_load_def sorted_map_assign split: prod.splits)

lemma MemTable_load_view: "mt_wf t \<Longrightarrow> mt_view (MemTable_load r t) = (mt_view t)(fst r \<mapsto> snd r)"
  by (simp add: mt_wf_def mt_view_def MemTable_load_def map_of_map_assign split: prod.splits)

lemma fold_MemTable_load:
  assumes "mt_wf t"
  shows "mt_wf (fold MemTable_load rs t)"
    and "mt_view (fold MemTable_load rs t) = mt_view t ++ map_of (rev rs)"
    and "mt_id (fold MemTable_load rs t) = mt_id t"
    and "mt_wal (fold MemTable_load rs t) = mt_wal t"
  using assms
proof (induction rs arbitrary: t)
  case (Cons r rs)
  { case 1 then show ?case using Cons MemTable_load_wf by simp
  next case 2 then show ?case
      using Cons(2) [OF MemTable_load_wf, of t r] MemTable_load_view [of t r]
      by (cases r) (simp add: map_add_upd_left)
  next case 3 then show ?case using Cons(3) [OF MemTable_load_wf] by (simp add: MemTable_load_def split: prod.splits)
  next case 4 then show ?case using Cons(4) [OF MemTable_load_wf] by (simp add: MemTable_load_def split: prod.splits) }
qed simp_all

text \<open>\<open>put\<close> is the map update, unless the log refuses the record: then the map is unchanged.\<close>

lemma MemTable_put_view:
  assumes "mt_wf t" and "MemTable_put crc32 io k v t = (r, t')"
  shows "mt_wf t'" and "mt_view t' = (case r of Inl _ \<Rightarrow> mt_view t | Inr _ \<Rightarrow> (mt_view t)(k \<mapsto> v))"
    and "mt_id t' = mt_id t"
  using assms
  by (auto simp: MemTable_put_def mt_wf_def mt_view_def Let_def map_of_map_assign sorted_map_assign
      split: option.splits prod.splits sum.splits)

lemma MemTable_get_view: "MemTable_get k t = mt_view t k"
  by (simp add: MemTable_get_def map_find_def mt_view_def)

section \<open>The contract of the iterator\<close>

definition mti_abs :: "MemTableIterator \<Rightarrow> entry list \<Rightarrow> bool" where
  "mti_abs it xs \<longleftrightarrow> sorted_entries (mti_snapshot it) \<and> mti_idx it \<le> length (mti_snapshot it) \<and>
     xs = drop (mti_idx it) (mti_snapshot it)"

interpretation memtable_iter: sorted_iterator MemTableIterator_ops sinv mti_abs for sinv
proof unfold_locales
  fix it xs assume "mti_abs it xs"
  then show "it_valid MemTableIterator_ops it = (xs \<noteq> [])"
    by (auto simp: mti_abs_def MemTableIterator_ops_def MemTableIterator_is_valid_def)
next
  fix it x xs assume a: "mti_abs it (x # xs)"
  then have i: "mti_idx it < length (mti_snapshot it)" "x = mti_snapshot it ! mti_idx it"
    "xs = drop (Suc (mti_idx it)) (mti_snapshot it)"
    using drop_Cons_nth [of x xs "mti_idx it" "mti_snapshot it"] by (auto simp: mti_abs_def)
  show "it_key MemTableIterator_ops it = Inr (fst x)" "it_value MemTableIterator_ops it = Inr (snd x)"
    using i by (simp_all add: MemTableIterator_ops_def MemTableIterator_key_def MemTableIterator_value_def
        MemTableIterator_is_valid_def)
  show "ok sinv (it_next MemTableIterator_ops it) (\<lambda>it'. mti_abs it' xs)"
    using i a by (auto simp: MemTableIterator_ops_def MemTableIterator_next_def MemTableIterator_is_valid_def
        mti_abs_def intro!: ok_return)
next
  fix it xs assume "mti_abs it xs"
  then show "sorted_entries xs" by (auto simp: mti_abs_def intro: sorted_entries_drop)
qed

interpretation memtable_merge: merge_over MemTableIterator_ops sinv mti_abs for sinv
  by unfold_locales

lemma MemTableIterator_copy_eq: "MemTableIterator_copy ub es = takeWhile (\<lambda>e. below_upper ub (fst e)) es"
  by (induction es) (auto split: Bound.splits simp: not_le not_less)

text \<open>A scan delivers the entries within the bounds, in order.\<close>

definition in_range :: "Bound \<Rightarrow> Bound \<Rightarrow> bytes \<Rightarrow> bool" where
  "in_range lower upper k \<longleftrightarrow> above_lower lower k \<and> below_upper upper k"

lemma MemTable_scan_abs:
  assumes "mt_wf t"
  shows "mti_abs (MemTable_scan lower upper t) (filter (\<lambda>e. in_range lower upper (fst e)) (mt_map t))"
proof -
  let ?from = "case lower of Unbounded \<Rightarrow> mt_map t | Included l \<Rightarrow> map_lower_bound l (mt_map t)
      | Excluded l \<Rightarrow> map_upper_bound l (mt_map t)"
  have s: "sorted_entries (mt_map t)" using assms by (simp add: mt_wf_def)
  have start: "?from = filter (\<lambda>e. above_lower lower (fst e)) (mt_map t)"
    using dropWhile_sorted_entries [OF s, of "\<lambda>k. k < _"] dropWhile_sorted_entries [OF s, of "\<lambda>k. k \<le> _"]
    by (cases lower) (auto simp: map_lower_bound_def map_upper_bound_def not_le not_less)
  have "sorted_entries ?from" unfolding start using s by (rule sorted_entries_filter)
  then have "MemTableIterator_copy upper ?from = filter (\<lambda>e. below_upper upper (fst e)) ?from"
    unfolding MemTableIterator_copy_eq
    by (rule takeWhile_sorted_entries) (use below_upper_mono less_imp_le in blast)
  then show ?thesis
    using s by (simp add: MemTable_scan_def MemTableIterator_range_def mti_abs_def start in_range_def
        conj_commute sorted_entries_filter Let_def)
qed

section \<open>A table and its log\<close>

text \<open>The log of a table holds, synced or buffered, exactly the puts that made up its contents.\<close>

definition mt_logs :: "zlib_crc32 \<Rightarrow> string \<Rightarrow> MemTable \<Rightarrow> fs \<Rightarrow> entry list \<Rightarrow> entry list \<Rightarrow> bool" where
  "mt_logs crc32 path t files es bs \<longleftrightarrow> mt_wf t \<and> mt_view t = map_of (rev (es @ bs)) \<and>
     (\<exists>w. mt_wal t = Some w \<and> wal_path w = path \<and> wal_holds crc32 w files es bs)"

fun MemTable_put_all :: "zlib_crc32 \<Rightarrow> io \<Rightarrow> entry list \<Rightarrow> MemTable \<Rightarrow> unit res \<times> MemTable" where
  "MemTable_put_all crc32 io [] t = (Inr (), t)"
| "MemTable_put_all crc32 io ((k, v) # es) t =
     (case MemTable_put crc32 io k v t of
        (Inl e, t) \<Rightarrow> (Inl e, t)
      | (Inr _, t) \<Rightarrow> MemTable_put_all crc32 io es t)"

lemma MemTable_new_fields [simp]: "mt_id (MemTable_new tid wal) = tid" "mt_wal (MemTable_new tid wal) = wal"
  by (simp_all add: MemTable_new_def)

lemma mt_logs_create [inv_intros]:
  assumes "io_works io"
  shows "\<exists>t. MemTable_create_with_wal io tid path files = (Inr t, files(path \<mapsto> [])) \<and>
    mt_logs crc32 path t (files(path \<mapsto> [])) [] []"
  using wal_holds_create [OF assms, of path files crc32]
  by (elim exE conjE) (simp add: MemTable_create_with_wal_def mt_logs_def mt_wf_new)

lemma mt_logs_put [inv_intros]:
  assumes "io_works io" and "mt_logs crc32 path t files es bs" and "wal_entry (k, v)"
  shows "\<exists>t'. MemTable_put crc32 io k v t = (Inr (), t') \<and> mt_logs crc32 path t' files es (bs @ [(k, v)])"
proof -
  from assms(2) obtain w where w: "mt_wal t = Some w" "wal_path w = path" "wal_holds crc32 w files es bs"
    and wf: "mt_wf t" "mt_view t = map_of (rev (es @ bs))" by (auto simp: mt_logs_def)
  from wal_holds_put [OF assms(1) w(3) assms(3)] obtain w' where
    w': "Wal_put crc32 io k v w = (Inr (), w')" "wal_path w' = path" "wal_holds crc32 w' files es (bs @ [(k, v)])"
    using w(2) by auto
  define t' where "t' = snd (MemTable_put crc32 io k v t)"
  have "MemTable_put crc32 io k v t = (Inr (), t')" "mt_wal t' = Some w'"
    using w(1) w'(1) by (simp_all add: MemTable_put_def Let_def t'_def)
  moreover have "mt_wf t'" "mt_view t' = (mt_view t)(k \<mapsto> v)"
    using MemTable_put_view [OF wf(1) calculation(1)] by simp_all
  ultimately show ?thesis using w' wf by (auto simp: mt_logs_def)
qed

lemma mt_logs_put_all [inv_intros]:
  assumes "io_works io" and "mt_logs crc32 path t files es bs" and "\<forall>e \<in> set cs. wal_entry e"
  shows "\<exists>t'. MemTable_put_all crc32 io cs t = (Inr (), t') \<and> mt_logs crc32 path t' files es (bs @ cs)"
  using assms(2,3)
proof (induction cs arbitrary: t bs)
  case (Cons c cs)
  obtain k v where c: "c = (k, v)" by (cases c)
  from mt_logs_put [OF assms(1) Cons.prems(1), of k v] Cons.prems(2) obtain t1 where
    "MemTable_put crc32 io k v t = (Inr (), t1)" "mt_logs crc32 path t1 files es (bs @ [(k, v)])" by (auto simp: c)
  with Cons.IH [of t1 "bs @ [(k, v)]"] Cons.prems(2) show ?case by (simp add: c)
qed simp

lemma mt_logs_sync [inv_intros]:
  assumes "io_works io" and "mt_logs crc32 path t files es bs"
  shows "\<exists>t' files'. MemTable_sync_wal io t files = (Inr (), t', files') \<and> mt_logs crc32 path t' files' (es @ bs) []"
proof -
  from assms(2) obtain w where w: "mt_wal t = Some w" "wal_path w = path" "wal_holds crc32 w files es bs"
    by (auto simp: mt_logs_def)
  from wal_holds_sync [OF assms(1) w(3)] obtain w' files' where
    "Wal_sync io w files = (Inr (), w', files')" "wal_path w' = path" "wal_holds crc32 w' files' (es @ bs) []"
    using w(2) by auto
  with assms(2) w(1) show ?thesis by (auto simp: MemTable_sync_wal_def mt_logs_def mt_wf_def mt_view_def)
qed

lemma mt_logs_recover:
  assumes "io_works io" and "mt_logs crc32 path t files es bs" and "mt_wal t = Some w"
  shows "\<exists>j t' files'. MemTable_recover_from_wal crc32 io tid path (wal_crash n w files) = (Inr t', files') \<and>
    mt_logs crc32 path t' files' (es @ take j bs) [] \<and> mt_id t' = tid \<and>
    (length (wal_buf w) \<le> n \<longrightarrow> take j bs = bs)"
proof -
  have w: "wal_path w = path" "wal_holds crc32 w files es bs" using assms(2,3) by (auto simp: mt_logs_def)
  from Wal_recover_crash [OF assms(1) w(2), of n] obtain j w' files' where
    r: "Wal_recover crc32 io path (wal_crash n w files) = (Inr (w', es @ take j bs), files')" "wal_path w' = path"
    "wal_holds crc32 w' files' (es @ take j bs) []" "length (wal_buf w) \<le> n \<longrightarrow> take j bs = bs"
    by (auto simp: w(1))
  note f = fold_MemTable_load [OF mt_wf_new [of tid "Some w'"], of "es @ take j bs"]
  have "mt_logs crc32 path (fold MemTable_load (es @ take j bs) (MemTable_new tid (Some w'))) files' (es @ take j bs) []"
    using f r(2,3) by (simp add: mt_logs_def)
  then show ?thesis using r f(3) by (auto simp: MemTable_recover_from_wal_def)
qed

section \<open>Properties\<close>

text \<open>Durability of a memtable. Puts followed by \<open>sync_wal\<close> and by further puts succeed; if the
  process then dies with an arbitrary prefix of the unsynced log bytes on disk, recovering the table
  from its log gives a table with exactly the contents after all synced puts and a prefix of the
  later ones.\<close>

theorem MemTable_durable:
  assumes "io_works io" and "\<forall>e \<in> set (es @ bs). wal_entry e"
  shows "\<exists>t0 f0 t1 t2 f2 t3 w. MemTable_create_with_wal io tid path files = (Inr t0, f0) \<and>
    MemTable_put_all crc32 io es t0 = (Inr (), t1) \<and> MemTable_sync_wal io t1 f0 = (Inr (), t2, f2) \<and>
    MemTable_put_all crc32 io bs t2 = (Inr (), t3) \<and> mt_wal t3 = Some w \<and> mt_view t3 = map_of (rev (es @ bs)) \<and>
    (\<exists>j t' f'. MemTable_recover_from_wal crc32 io tid path (wal_crash n w f2) = (Inr t', f') \<and> mt_wf t' \<and>
       mt_id t' = tid \<and> mt_view t' = map_of (rev (es @ take j bs)) \<and> (length (wal_buf w) \<le> n \<longrightarrow> mt_view t' = mt_view t3))"
proof -
  from mt_logs_create [OF assms(1), of tid path files crc32] obtain t0 f0 where
    0: "MemTable_create_with_wal io tid path files = (Inr t0, f0)" "mt_logs crc32 path t0 f0 [] []" by blast
  from mt_logs_put_all [OF assms(1) 0(2), of es] assms(2) obtain t1 where
    1: "MemTable_put_all crc32 io es t0 = (Inr (), t1)" "mt_logs crc32 path t1 f0 [] es" by auto
  from mt_logs_sync [OF assms(1) 1(2)] obtain t2 f2 where
    2: "MemTable_sync_wal io t1 f0 = (Inr (), t2, f2)" "mt_logs crc32 path t2 f2 es []" by auto
  from mt_logs_put_all [OF assms(1) 2(2), of bs] assms(2) obtain t3 where
    3: "MemTable_put_all crc32 io bs t2 = (Inr (), t3)" "mt_logs crc32 path t3 f2 es bs" by auto
  then obtain w where w: "mt_wal t3 = Some w" and v: "mt_view t3 = map_of (rev (es @ bs))" by (auto simp: mt_logs_def)
  from mt_logs_recover [OF assms(1) 3(2) w, of tid n] obtain j t' f' where
    "MemTable_recover_from_wal crc32 io tid path (wal_crash n w f2) = (Inr t', f')"
    "mt_logs crc32 path t' f' (es @ take j bs) []" "mt_id t' = tid" "length (wal_buf w) \<le> n \<longrightarrow> take j bs = bs" by blast
  moreover from this(2) have "mt_wf t'" "mt_view t' = map_of (rev (es @ take j bs))" by (simp_all add: mt_logs_def)
  ultimately have "\<exists>j t' f'. MemTable_recover_from_wal crc32 io tid path (wal_crash n w f2) = (Inr t', f') \<and> mt_wf t' \<and>
      mt_id t' = tid \<and> mt_view t' = map_of (rev (es @ take j bs)) \<and> (length (wal_buf w) \<le> n \<longrightarrow> mt_view t' = mt_view t3)"
    using v by (intro exI [of _ j] exI [of _ t'] exI [of _ f']) simp
  with 0(1) 1(1) 2(1) 3(1) w v show ?thesis by blast
qed

theorem MemTable_durable_witness:
  "\<exists>t0 f0 t1 t2 f2 t3 w. MemTable_create_with_wal example_io 3 ''3.wal'' Map.empty = (Inr t0, f0) \<and>
    MemTable_put_all example_crc32 example_io [([1], [2])] t0 = (Inr (), t1) \<and>
    MemTable_sync_wal example_io t1 f0 = (Inr (), t2, f2) \<and>
    MemTable_put_all example_crc32 example_io [([1], [])] t2 = (Inr (), t3) \<and> mt_wal t3 = Some w \<and>
    mt_view t3 = map_of (rev ([([1], [2])] @ [([1], [])])) \<and>
    (\<exists>j t' f'. MemTable_recover_from_wal example_crc32 example_io 3 ''3.wal'' (wal_crash 4 w f2) = (Inr t', f') \<and>
       mt_wf t' \<and> mt_id t' = 3 \<and> mt_view t' = map_of (rev ([([1], [2])] @ take j [([1], [])])) \<and>
       (length (wal_buf w) \<le> 4 \<longrightarrow> mt_view t' = mt_view t3))"
  by (rule MemTable_durable [OF example_io_works]) (simp add: wal_entry_short)

text \<open>\<open>MemTable::put\<close> and \<open>get\<close>. A put that returns success makes \<open>get\<close> return the value for its key
  and changes no other key; a put whose log write fails leaves the contents as they were. The order
  of the map is kept.\<close>

theorem MemTable_put_get:
  assumes "mt_wf t" and "MemTable_put crc32 io k v t = (r, t')"
  shows "mt_wf t' \<and> MemTable_get k' t' = (if is_ok r \<and> k' = k then Some v else MemTable_get k' t)"
  using MemTable_put_view [OF assms] by (auto simp: MemTable_get_view split: sum.splits)

theorem MemTable_put_get_witness:
  "\<exists>t'. MemTable_put example_crc32 example_io [5] [6] (MemTable_new 1 None) = (Inr (), t') \<and>
    mt_wf t' \<and> MemTable_get [5] t' = Some [6] \<and> MemTable_get [4] t' = None"
proof -
  obtain r t' where 1: "MemTable_put example_crc32 example_io [5] [6] (MemTable_new 1 None) = (r, t')" by (cases "MemTable_put example_crc32 example_io [5] [6] (MemTable_new 1 None)")
  then have "r = Inr ()" by (simp add: MemTable_put_def MemTable_new_def Let_def)
  then show ?thesis
    using 1 MemTable_put_get [OF mt_wf_new 1, of "[5]"] MemTable_put_get [OF mt_wf_new 1, of "[4]"]
    by (simp add: MemTable_get_view)
qed

text \<open>\<open>MemTable::scan\<close> yields the entries of the table whose keys lie within both bounds, in key
  order and without duplicates, each with its latest value.\<close>

theorem MemTable_scan_drain:
  assumes "mt_wf t"
  shows "\<exists>xs. drain MemTableIterator_ops (MemTable_scan lower upper t) () = Some (Inr xs, ()) \<and> sorted_entries xs \<and>
    map_of xs = (\<lambda>k. if in_range lower upper k then MemTable_get k t else None)"
proof -
  define xs where "xs = filter (\<lambda>e. in_range lower upper (fst e)) (mt_map t)"
  have "drain MemTableIterator_ops (MemTable_scan lower upper t) () = Some (Inr xs, ())"
    using okD [OF memtable_iter.drain_ok [OF MemTable_scan_abs [OF assms]], of "\<lambda>_. True" "()"] by (auto simp: xs_def)
  moreover have "sorted_entries xs" using memtable_iter.rep_sorted [OF MemTable_scan_abs [OF assms]] by (simp add: xs_def)
  moreover have "map_of xs k = (if in_range lower upper k then MemTable_get k t else None)" for k
    by (simp add: xs_def MemTable_get_view mt_view_def map_of_filter_fst)
  ultimately show ?thesis by blast
qed

theorem MemTable_scan_drain_witness:
  "\<exists>xs. drain MemTableIterator_ops (MemTable_scan (Included [1]) Unbounded (MemTable_new 1 None)) () = Some (Inr xs, ()) \<and>
    sorted_entries xs \<and>
    map_of xs = (\<lambda>k. if in_range (Included [1]) Unbounded k then MemTable_get k (MemTable_new 1 None) else None)"
  by (rule MemTable_scan_drain) (rule mt_wf_new)

end
