(* ===== verification/Block.thy ===== *)
theory Block
  imports Endian Key
begin

text \<open>
  \<open>include/mini_lsm/block.h\<close> and \<open>src/block/builder.cpp\<close>: a data block of a table file and its
  builder. A block is the concatenation of prefix-compressed entries followed by the 16-bit
  offsets of the entries and their 16-bit number.

  The specification side is \<open>block_of es\<close>, the block that holds the entries \<open>es\<close>. The theory
  shows that encoding and decoding are inverse to each other, that a sequence of accepted
  \<open>add\<close> calls builds exactly \<open>block_of\<close> of the added entries, and the size bound that the
  capacity test of \<open>add\<close> really gives.
\<close>

section \<open>Block\<close>

record Block =
  blk_data :: bytes
  blk_offsets :: "u16 list"

definition Block_encode :: "Block \<Rightarrow> bytes" where
  "Block_encode b =
     put_u16_be (fold (\<lambda>offset buf. put_u16_be buf offset) (blk_offsets b) (blk_data b))
       (of_nat (length (blk_offsets b)))"

text \<open>\<open>data_end\<close> is an unsigned difference; it wraps past \<open>len - 2\<close> exactly when the offsets
  would not fit, which the second assertion rejects.\<close>

definition Block_decode :: "bytes \<Rightarrow> Block res" where
  "Block_decode raw =
     res_bind (assert_res ''len >= 2'' (2 \<le> length raw)) (\<lambda>_.
     res_bind (read_u16_be raw (length raw - 2)) (\<lambda>num_entries.
     let offsets_len = unat num_entries * 2 in
     res_bind (assert_res ''data_end <= len - 2'' (offsets_len \<le> length raw - 2)) (\<lambda>_.
     let data_end = length raw - 2 - offsets_len in
     res_bind (sub_bytes raw 0 data_end) (\<lambda>data.
     res_bind (map_res (\<lambda>i. read_u16_be raw (data_end + i * 2)) [0..<unat num_entries]) (\<lambda>offsets.
     Inr \<lparr>blk_data = data, blk_offsets = offsets\<rparr>)))))"

section \<open>BlockBuilder\<close>

record BlockBuilder =
  bb_offsets :: "u16 list"
  bb_data :: bytes
  bb_block_size :: nat
  bb_first_key :: bytes

fun compute_overlap :: "bytes \<Rightarrow> bytes \<Rightarrow> nat" where
  "compute_overlap (a # as) (b # bs) = (if a \<noteq> b then 0 else Suc (compute_overlap as bs))"
| "compute_overlap as bs = 0"

definition BlockBuilder_new :: "nat \<Rightarrow> BlockBuilder" where
  "BlockBuilder_new block_size =
     \<lparr>bb_offsets = [], bb_data = [], bb_block_size = block_size, bb_first_key = []\<rparr>"

definition BlockBuilder_is_empty :: "BlockBuilder \<Rightarrow> bool" where
  "BlockBuilder_is_empty b = (bb_offsets b = [])"

definition BlockBuilder_add :: "BlockBuilder \<Rightarrow> bytes \<Rightarrow> bytes \<Rightarrow> (bool \<times> BlockBuilder) res" where
  "BlockBuilder_add b key val =
     res_bind (assert_res ''!key.is_empty()'' (key \<noteq> [])) (\<lambda>_.
     let estimated = 2 + length (bb_offsets b) * 2 + length (bb_data b) in
     if estimated + length key + length val + 2 * 3 > bb_block_size b \<and> \<not> BlockBuilder_is_empty b
     then Inr (False, b)
     else
       let offsets = bb_offsets b @ [of_nat (length (bb_data b))];
           overlap = compute_overlap (bb_first_key b) key;
           data1 = put_u16_be (bb_data b) (of_nat overlap);
           data2 = put_u16_be data1 (of_nat (length key - overlap));
           data3 = data2 @ drop overlap key;
           data4 = put_u16_be data3 (of_nat (length val));
           data5 = data4 @ val
       in Inr (True, b\<lparr>bb_offsets := offsets, bb_data := data5,
                 bb_first_key := (if bb_first_key b = [] then key else bb_first_key b)\<rparr>))"

definition BlockBuilder_build :: "BlockBuilder \<Rightarrow> Block res" where
  "BlockBuilder_build b =
     res_bind (assert_res ''!is_empty()'' (\<not> BlockBuilder_is_empty b)) (\<lambda>_.
     Inr \<lparr>blk_data = bb_data b, blk_offsets = bb_offsets b\<rparr>)"

section \<open>Encoding and decoding\<close>

lemma fold_put_u16: "fold (\<lambda>v buf. put_u16_be buf v) vs buf = buf @ concat (map (put_u16_be []) vs)"
proof (induction vs arbitrary: buf)
  case (Cons v vs)
  then show ?case by (simp add: u16.put_append [of buf v])
qed simp

lemma Block_encode_eq:
  "Block_encode b = blk_data b @ concat (map (put_u16_be []) (blk_offsets b)) @
     put_u16_be [] (of_nat (length (blk_offsets b)))"
  by (subst Block_encode_def, subst u16.put_append) (simp add: fold_put_u16)

lemma length_concat_put_u16 [simp]: "length (concat (map (put_u16_be []) vs)) = 2 * length vs"
  by (simp add: length_concat_const)

lemma length_Block_encode: "length (Block_encode b) = length (blk_data b) + 2 * length (blk_offsets b) + 2"
  by (simp add: Block_encode_eq)

text \<open>The \<open>i\<close>-th element of an array of encoded values.\<close>

lemma read_u16_array:
  assumes "i < length vs" "length pre = off"
  shows "read_u16_be (pre @ concat (map (put_u16_be []) vs) @ post) (off + i * 2) = Inr (vs ! i)"
proof -
  have "vs = take i vs @ vs ! i # drop (Suc i) vs" using assms(1) by (simp add: id_take_nth_drop)
  then have "concat (map (put_u16_be []) vs) = concat (map (put_u16_be []) (take i vs)) @
      put_u16_be [] (vs ! i) @ concat (map (put_u16_be []) (drop (Suc i) vs))"
    by (metis concat.simps(2) concat_append list.simps(9) map_append)
  then have eq: "pre @ concat (map (put_u16_be []) vs) @ post =
      (pre @ concat (map (put_u16_be []) (take i vs))) @ put_u16_be [] (vs ! i) @
      (concat (map (put_u16_be []) (drop (Suc i) vs)) @ post)" by simp
  show ?thesis
    unfolding eq by (rule u16.rd_at) (use assms in simp)
qed

lemma Block_decode_encode:
  assumes "length (blk_offsets b) < 2 ^ 16"
  shows "Block_decode (Block_encode b) = Inr b"
proof -
  let ?n = "length (blk_offsets b)"
  let ?raw = "Block_encode b"
  have n: "unat (of_nat ?n :: u16) = ?n" using assms by simp
  have num: "read_u16_be ?raw (length ?raw - 2) = Inr (of_nat ?n)"
    using u16.rd_at [of "blk_data b @ concat (map (put_u16_be []) (blk_offsets b))"
        "length ?raw - 2" "of_nat ?n" "[]"]
    by (simp add: Block_encode_eq)
  have offs: "map_res (\<lambda>i. read_u16_be ?raw (length (blk_data b) + i * 2)) [0..<?n] =
      Inr (map (\<lambda>i. blk_offsets b ! i) [0..<?n])"
    by (rule map_res_Inr) (simp add: Block_encode_eq read_u16_array)
  have data: "sub_bytes ?raw 0 (length (blk_data b)) = Inr (blk_data b)"
    by (simp add: sub_bytes_def Block_encode_eq)
  show ?thesis
    using num offs data by (simp add: Block_decode_def length_Block_encode n map_nth)
qed

text \<open>Only encodings decode, and only to the block they encode.\<close>

lemma read_u16_all:
  assumes "map_res (\<lambda>i. read_u16_be raw (off + i * 2)) [0..<n] = Inr vs"
  shows "length vs = n \<and> off + 2 * n \<le> length raw \<or> n = 0 \<and> vs = []"
    and "take (2 * n) (drop off raw) = concat (map (put_u16_be []) vs)"
  using assms
proof (induction n arbitrary: vs)
  case (Suc n)
  {
    case 1
    then show ?case using Suc.IH(1) by (fastforce simp: map_res_append res_bind_Inr_iff dest: u16.rd_inverse)
  next
    case 2
    then obtain xs x where *: "vs = xs @ [x]" "map_res (\<lambda>i. read_u16_be raw (off + i * 2)) [0..<n] = Inr xs"
      "read_u16_be raw (off + n * 2) = Inr x"
      by (auto simp: map_res_append res_bind_Inr_iff)
    from u16.rd_inverse [OF *(3)] have "take 2 (drop (off + n * 2) raw) = put_u16_be [] x" by simp
    moreover have "take (2 * Suc n) (drop off raw) =
        take (2 * n) (drop off raw) @ take 2 (drop (off + n * 2) raw)"
      using take_add [of "2 * n" 2 "drop off raw"] by (simp add: ac_simps)
    ultimately show ?case using Suc.IH(2) [OF *(2)] *(1) by simp
  }
qed simp_all

lemma Block_encode_decode:
  assumes "Block_decode raw = Inr b"
  shows "Block_encode b = raw"
proof -
  from assms obtain num where len: "2 \<le> length raw"
    and num: "read_u16_be raw (length raw - 2) = Inr num"
    and fits: "unat num * 2 \<le> length raw - 2"
    and data: "blk_data b = take (length raw - 2 - unat num * 2) raw"
    and offs: "map_res (\<lambda>i. read_u16_be raw (length raw - 2 - unat num * 2 + i * 2)) [0..<unat num] =
      Inr (blk_offsets b)"
    by (auto simp: Block_decode_def Let_def res_bind_Inr_iff sub_bytes_Inr_iff)
  let ?e = "length raw - 2 - unat num * 2"
  have n: "length (blk_offsets b) = unat num" using read_u16_all(1) [OF offs] by auto
  have tail: "drop (length raw - 2) raw = put_u16_be [] num"
    using u16.rd_inverse [OF num] len by simp
  have "raw = take ?e raw @ take (2 * unat num) (drop ?e raw) @ drop (2 * unat num) (drop ?e raw)"
    by (metis append_take_drop_id)
  moreover have "drop (2 * unat num) (drop ?e raw) = drop (length raw - 2) raw"
    unfolding drop_drop using fits by (intro arg_cong [where f = "\<lambda>i. drop i raw"]) arith
  ultimately show ?thesis
    using read_u16_all(2) [OF offs] data tail by (simp add: Block_encode_eq n)
qed

section \<open>The block of a list of entries\<close>

text \<open>\<open>fk\<close> is the first key of the block, empty while the first entry itself is encoded.\<close>

definition entry_code :: "bytes \<Rightarrow> entry \<Rightarrow> bytes" where
  "entry_code fk e =
     (let overlap = compute_overlap fk (fst e) in
      put_u16_be [] (of_nat overlap) @ put_u16_be [] (of_nat (length (fst e) - overlap)) @
      drop overlap (fst e) @ put_u16_be [] (of_nat (length (snd e))) @ snd e)"

definition first_key_of :: "entry list \<Rightarrow> bytes" where
  "first_key_of es = (case es of [] \<Rightarrow> [] | e # _ \<Rightarrow> fst e)"

definition entry_codes :: "entry list \<Rightarrow> bytes list" where
  "entry_codes es = (case es of [] \<Rightarrow> [] | e # r \<Rightarrow> entry_code [] e # map (entry_code (fst e)) r)"

definition entry_offset :: "entry list \<Rightarrow> nat \<Rightarrow> nat" where
  "entry_offset es i = length (concat (take i (entry_codes es)))"

definition block_of :: "entry list \<Rightarrow> Block" where
  "block_of es =
     \<lparr>blk_data = concat (entry_codes es),
      blk_offsets = map (\<lambda>i. of_nat (entry_offset es i)) [0..<length es]\<rparr>"

text \<open>An entry that the 16-bit length fields can represent, and a block in which every offset
  fits its 16-bit field.\<close>

definition wf_entry :: "entry \<Rightarrow> bool" where
  "wf_entry e \<longleftrightarrow> fst e \<noteq> [] \<and> length (fst e) < 2 ^ 16 \<and> length (snd e) < 2 ^ 16"

definition wf_block :: "entry list \<Rightarrow> bool" where
  "wf_block es \<longleftrightarrow> es \<noteq> [] \<and> length es < 2 ^ 16 \<and> (\<forall>e \<in> set es. wf_entry e) \<and>
     (\<forall>i < length es. entry_offset es i < 2 ^ 16)"

lemma compute_overlap_le: "compute_overlap fk k \<le> length k"
  by (induction fk k rule: compute_overlap.induct) auto

lemma compute_overlap_le_first: "compute_overlap fk k \<le> length fk"
  by (induction fk k rule: compute_overlap.induct) auto

lemma take_compute_overlap: "take (compute_overlap fk k) fk = take (compute_overlap fk k) k"
  by (induction fk k rule: compute_overlap.induct) auto

lemma compute_overlap_join: "take (compute_overlap fk k) fk @ drop (compute_overlap fk k) k = k"
  by (metis take_compute_overlap append_take_drop_id)

text \<open>The overlap is the longest common prefix.\<close>

lemma compute_overlap_maximal:
  "compute_overlap fk k < length fk \<Longrightarrow> compute_overlap fk k < length k \<Longrightarrow>
   fk ! compute_overlap fk k \<noteq> k ! compute_overlap fk k"
  by (induction fk k rule: compute_overlap.induct) auto

lemma length_entry_codes [simp]: "length (entry_codes es) = length es"
  by (cases es) (auto simp: entry_codes_def)

lemma length_entry_code:
  "length (entry_code fk e) = 6 + (length (fst e) - compute_overlap fk (fst e)) + length (snd e)"
  by (simp add: entry_code_def Let_def)

lemma length_entry_code_le: "length (entry_code fk e) \<le> 6 + length (fst e) + length (snd e)"
  by (simp add: length_entry_code)

lemma compute_overlap_Nil [simp]: "compute_overlap [] k = 0"
  by simp

lemma entry_codes_snoc:
  "entry_codes (es @ [e]) = entry_codes es @ [entry_code (first_key_of es) e]"
  by (cases es) (auto simp: entry_codes_def first_key_of_def)

lemma entry_offset_append: "i \<le> length es \<Longrightarrow> entry_offset (es @ [e]) i = entry_offset es i"
  by (simp add: entry_offset_def entry_codes_snoc)

lemma first_key_of_simps [simp]:
  "first_key_of [] = []"
  "first_key_of (e # es) = fst e"
  "first_key_of (es @ [e]) = (if es = [] then fst e else first_key_of es)"
  by (cases es; simp add: first_key_of_def)+

lemma length_block_of [simp]: "length (blk_offsets (block_of es)) = length es"
  by (simp add: block_of_def)

text \<open>The bytes of the \<open>i\<close>-th entry inside the data area.\<close>

lemma entry_codes_nth:
  assumes "i < length es"
  obtains fk where "entry_codes es ! i = entry_code fk (es ! i)"
    and "i = 0 \<longrightarrow> fk = []" and "i \<noteq> 0 \<longrightarrow> fk = first_key_of es"
  using assms by (cases es; cases i) (auto simp: entry_codes_def)

lemma block_data_split:
  assumes "i < length es"
  shows "concat (entry_codes es) =
    concat (take i (entry_codes es)) @ entry_codes es ! i @ concat (drop (Suc i) (entry_codes es))"
  using assms by (metis concat.simps(2) concat_append id_take_nth_drop length_entry_codes)

section \<open>The builder builds it\<close>

text \<open>The builder's state after the entries \<open>es\<close> were accepted.\<close>

definition bb_holds :: "nat \<Rightarrow> entry list \<Rightarrow> BlockBuilder \<Rightarrow> bool" where
  "bb_holds block_size es b \<longleftrightarrow>
     b = \<lparr>bb_offsets = blk_offsets (block_of es), bb_data = blk_data (block_of es),
          bb_block_size = block_size, bb_first_key = first_key_of es\<rparr> \<and> (\<forall>e \<in> set es. fst e \<noteq> [])"

definition bb_fits :: "nat \<Rightarrow> entry list \<Rightarrow> entry \<Rightarrow> bool" where
  "bb_fits block_size es e \<longleftrightarrow> es = [] \<or>
     length (Block_encode (block_of es)) + length (fst e) + length (snd e) + 6 \<le> block_size"

lemma bb_holds_new [inv_intros]: "bb_holds n [] (BlockBuilder_new n)"
  by (simp add: bb_holds_def BlockBuilder_new_def block_of_def entry_codes_def)

lemma bb_holds_is_empty: "bb_holds n es b \<Longrightarrow> BlockBuilder_is_empty b \<longleftrightarrow> es = []"
  by (auto simp: bb_holds_def BlockBuilder_is_empty_def block_of_def)

lemma block_of_snoc:
  "block_of (es @ [e]) =
     \<lparr>blk_data = blk_data (block_of es) @ entry_code (first_key_of es) e,
      blk_offsets = blk_offsets (block_of es) @ [of_nat (length (blk_data (block_of es)))]\<rparr>"
  by (simp add: block_of_def entry_codes_snoc entry_offset_append)
    (simp add: entry_offset_def entry_codes_snoc)

lemma entry_code_puts:
  "data @ entry_code fk e =
     put_u16_be (put_u16_be (put_u16_be data (of_nat (compute_overlap fk (fst e))))
       (of_nat (length (fst e) - compute_overlap fk (fst e))) @ drop (compute_overlap fk (fst e)) (fst e))
       (of_nat (length (snd e))) @ snd e"
proof -
  have *: "put_u16_be buf v = buf @ put_u16_be [] v" for buf v by (rule u16.put_append)
  show ?thesis
    by (subst (1 2 3) *) (simp add: entry_code_def Let_def)
qed

lemma BlockBuilder_add_spec:
  assumes "bb_holds n es b" and "fst e \<noteq> []"
  shows "if bb_fits n es e
    then \<exists>b'. BlockBuilder_add b (fst e) (snd e) = Inr (True, b') \<and> bb_holds n (es @ [e]) b'
    else BlockBuilder_add b (fst e) (snd e) = Inr (False, b)"
proof -
  have fits: "bb_fits n es e \<longleftrightarrow> \<not> (2 + length (bb_offsets b) * 2 + length (bb_data b) + length (fst e) +
      length (snd e) + 2 * 3 > bb_block_size b \<and> \<not> BlockBuilder_is_empty b)"
    using assms bb_holds_is_empty [OF assms(1)]
    by (auto simp: bb_fits_def bb_holds_def length_Block_encode)
  show ?thesis
  proof (cases "bb_fits n es e")
    case True
    have fk: "es \<noteq> [] \<Longrightarrow> first_key_of es \<noteq> []"
      using assms(1) by (cases es) (auto simp: bb_holds_def)
    then have "bb_holds n (es @ [e]) (b\<lparr>bb_offsets := blk_offsets (block_of (es @ [e])),
        bb_data := blk_data (block_of (es @ [e])),
        bb_first_key := (if bb_first_key b = [] then fst e else bb_first_key b)\<rparr>)"
      using assms by (auto simp: bb_holds_def)
    moreover have "BlockBuilder_add b (fst e) (snd e) =
      Inr (True, b\<lparr>bb_offsets := blk_offsets (block_of (es @ [e])),
        bb_data := blk_data (block_of (es @ [e])),
        bb_first_key := (if bb_first_key b = [] then fst e else bb_first_key b)\<rparr>)"
      using assms True fits
      by (auto simp: BlockBuilder_add_def Let_def block_of_snoc entry_code_puts bb_holds_def)
    ultimately show ?thesis using True by simp
  next
    case False
    then show ?thesis using assms fits by (auto simp: BlockBuilder_add_def Let_def)
  qed
qed

lemma BlockBuilder_build_spec:
  "bb_holds n es b \<Longrightarrow> es \<noteq> [] \<Longrightarrow> BlockBuilder_build b = Inr (block_of es)"
  using bb_holds_is_empty [of n es b] by (simp add: BlockBuilder_build_def bb_holds_def)

section \<open>Properties\<close>

lemma Block_decode_num_entries: "Block_decode raw = Inr b \<Longrightarrow> length (blk_offsets b) < 2 ^ 16"
  by (auto simp: Block_decode_def Let_def res_bind_Inr_iff dest!: read_u16_all(1))

text \<open>C31: \<open>Block::decode\<close> accepts exactly the images of \<open>Block::encode\<close> and inverts it: a byte string
  decodes to a block if and only if it is the encoding of that block and the block has fewer than
  \<open>2^16\<close> entries (the width of the entry count in the trailer).\<close>

theorem Block_decode_iff:
  "Block_decode raw = Inr b \<longleftrightarrow> raw = Block_encode b \<and> length (blk_offsets b) < 2 ^ 16"
  using Block_decode_encode [of b] Block_encode_decode [of raw b] Block_decode_num_entries [of raw b] by auto

lemma entry_offset_end: "entry_offset (es @ [e]) (length es) = length (blk_data (block_of es))"
  by (simp add: entry_offset_def entry_codes_snoc block_of_def)

lemma wf_block_snoc:
  assumes "es = [] \<or> wf_block es" and "bb_fits n es e" and "wf_entry e" and "n \<le> 2 ^ 16"
  shows "wf_block (es @ [e])"
proof -
  have "length (Block_encode (block_of es)) + 6 \<le> n" if "es \<noteq> []"
    using assms(2) that by (auto simp: bb_fits_def)
  then have "length (es @ [e]) < 2 ^ 16" "length (blk_data (block_of es)) < 2 ^ 16"
    using assms(4) by (cases "es = []"; force simp: length_Block_encode block_of_def entry_codes_def)+
  moreover have "entry_offset (es @ [e]) i < 2 ^ 16" if "i < length (es @ [e])" for i
  proof (cases "i = length es")
    case True
    then show ?thesis using \<open>length (blk_data (block_of es)) < 2 ^ 16\<close> by (simp add: entry_offset_end)
  next
    case False
    then show ?thesis using that assms(1) by (auto simp: entry_offset_append wf_block_def)
  qed
  ultimately show ?thesis using assms(1,3) by (auto simp: wf_block_def)
qed

lemma wf_block_single: "wf_entry e \<Longrightarrow> wf_block [e]"
  by (simp add: wf_block_def entry_offset_def)

text \<open>The client's loop around \<open>BlockBuilder::add\<close>: entries are added until one is refused; the rest
  is handed back.\<close>

fun BlockBuilder_fill :: "BlockBuilder \<Rightarrow> entry list \<Rightarrow> (BlockBuilder \<times> entry list) res" where
  "BlockBuilder_fill b [] = Inr (b, [])"
| "BlockBuilder_fill b ((k, v) # es) =
     res_bind (BlockBuilder_add b k v) (\<lambda>(added, b').
       if added then BlockBuilder_fill b' es else Inr (b', (k, v) # es))"

definition block_bounded :: "nat \<Rightarrow> entry list \<Rightarrow> bool" where
  "block_bounded n es \<longleftrightarrow> es = [] \<or>
     wf_block es \<and> (length es = 1 \<or> length (Block_encode (block_of es)) \<le> n + 2)"

lemma wf_entry_key: "wf_entry e \<Longrightarrow> fst e \<noteq> []"
  by (simp add: wf_entry_def)

lemma block_bounded_snoc:
  assumes "bb_fits n es e" and "block_bounded n es" and "wf_entry e" and "n \<le> 2 ^ 16"
  shows "block_bounded n (es @ [e])"
  using assms length_entry_code_le [of "first_key_of es" e] wf_block_snoc [of es n e]
  by (auto simp: block_bounded_def bb_fits_def block_of_snoc length_Block_encode)

lemma BlockBuilder_fill_spec:
  assumes "bb_holds n es b" and "\<forall>e \<in> set xs. wf_entry e" and "block_bounded n es" and "n \<le> 2 ^ 16"
  shows "\<exists>b' ys zs. BlockBuilder_fill b xs = Inr (b', zs) \<and> xs = ys @ zs \<and> bb_holds n (es @ ys) b' \<and>
    block_bounded n (es @ ys) \<and> (es = [] \<and> xs \<noteq> [] \<longrightarrow> ys \<noteq> [])"
  using assms
proof (induction xs arbitrary: es b)
  case Nil
  then show ?case by auto
next
  case (Cons x xs)
  obtain k v where x: "x = (k, v)" by (cases x)
  show ?case
  proof (cases "bb_fits n es x")
    case True
    with BlockBuilder_add_spec [OF Cons.prems(1), of x] Cons.prems(2) wf_entry_key [of x] obtain b1 where
      b1: "BlockBuilder_add b k v = Inr (True, b1)" "bb_holds n (es @ [x]) b1" by (auto simp: x)
    from Cons.IH [OF b1(2) _ block_bounded_snoc [OF True Cons.prems(3)]] Cons.prems(2,4) obtain b' ys zs where
      "BlockBuilder_fill b1 xs = Inr (b', zs)" "xs = ys @ zs" "bb_holds n ((es @ [x]) @ ys) b'"
      "block_bounded n ((es @ [x]) @ ys)" by auto
    with b1(1) show ?thesis by (intro exI [of _ b'] exI [of _ "x # ys"] exI [of _ zs]) (simp add: x)
  next
    case False
    then have "es \<noteq> []" by (auto simp: bb_fits_def)
    moreover from False BlockBuilder_add_spec [OF Cons.prems(1), of x] Cons.prems(2) wf_entry_key [of x]
    have "BlockBuilder_add b k v = Inr (False, b)" by (simp add: x)
    ultimately show ?thesis using Cons.prems(1,3)
      by (intro exI [of _ b] exI [of _ "[]"] exI [of _ "x # xs"]) (simp add: x)
  qed
qed

end
