(* ===== verification/Block_Iterator.thy ===== *)
theory Block_Iterator
  imports Block Storage_Iterator
begin

text \<open>
  \<open>src/block/iterator.cpp\<close>: the iterator over one block. The shared pointer to the block is an
  optional block (\<open>None\<close> for the null pointer). Reads through raw pointers are checked.

  The theory shows that on \<open>block_of es\<close> the iterator decodes entry \<open>i\<close> to \<open>es ! i\<close>, that it
  satisfies the iterator contract, and that the binary search of \<open>seek_to_key\<close> stops at the
  first entry whose key is not below the target.
\<close>

section \<open>The iterator\<close>

record BlockIterator =
  bi_block :: "Block option"
  bi_key :: bytes
  bi_value_start :: nat
  bi_value_len :: nat
  bi_idx :: nat
  bi_first_key :: bytes

definition BlockIterator_default :: BlockIterator where
  "BlockIterator_default =
     \<lparr>bi_block = None, bi_key = [], bi_value_start = 0, bi_value_len = 0, bi_idx = 0, bi_first_key = []\<rparr>"

definition BlockIterator_new :: "Block option \<Rightarrow> BlockIterator res" where
  "BlockIterator_new block =
     (let it = BlockIterator_default\<lparr>bi_block := block\<rparr> in
      case block of
        None \<Rightarrow> Inr it
      | Some blk \<Rightarrow>
          if blk_offsets blk = [] then Inr it
          else
            res_bind (read_u16_be (blk_data blk) 0) (\<lambda>overlap.
            res_bind (read_u16_be (blk_data blk) 2) (\<lambda>key_len.
            res_bind (sub_bytes (blk_data blk) 4 (unat key_len)) (\<lambda>fk.
            Inr (it\<lparr>bi_first_key := KeyVec_append (KeyVec_clear (bi_first_key it)) fk\<rparr>)))))"

definition BlockIterator_is_valid :: "BlockIterator \<Rightarrow> bool" where
  "BlockIterator_is_valid it = (bi_key it \<noteq> [])"

definition BlockIterator_key :: "BlockIterator \<Rightarrow> bytes res" where
  "BlockIterator_key it =
     res_bind (assert_res ''!key_.is_empty()'' (bi_key it \<noteq> [])) (\<lambda>_. Inr (bi_key it))"

definition BlockIterator_value :: "BlockIterator \<Rightarrow> bytes res" where
  "BlockIterator_value it =
     res_bind (assert_res ''!key_.is_empty()'' (bi_key it \<noteq> [])) (\<lambda>_.
     case bi_block it of
       None \<Rightarrow> Inl (OutOfRange ''null block'')
     | Some blk \<Rightarrow> sub_bytes (blk_data blk) (bi_value_start it) (bi_value_len it))"

definition BlockIterator_seek_to_offset :: "BlockIterator \<Rightarrow> Block \<Rightarrow> BlockIterator res" where
  "BlockIterator_seek_to_offset it blk =
     (if bi_idx it < length (blk_offsets blk) then
        let offset = unat (blk_offsets blk ! bi_idx it) in
        res_bind (read_u16_be (blk_data blk) offset) (\<lambda>overlap_len.
        res_bind (read_u16_be (blk_data blk) (offset + 2)) (\<lambda>key_len.
        let ptr = offset + 4 in
        res_bind (sub_bytes (bi_first_key it) 0 (unat overlap_len)) (\<lambda>prefix.
        res_bind (sub_bytes (blk_data blk) ptr (unat key_len)) (\<lambda>rest.
        let key = KeyVec_append (KeyVec_append (KeyVec_clear (bi_key it)) prefix) rest;
            ptr = ptr + unat key_len in
        res_bind (read_u16_be (blk_data blk) ptr) (\<lambda>val_len.
        Inr (it\<lparr>bi_key := key, bi_value_start := ptr + 2, bi_value_len := unat val_len\<rparr>))))))
      else Inl (OutOfRange ''offsets''))"

definition BlockIterator_seek_to :: "BlockIterator \<Rightarrow> nat \<Rightarrow> BlockIterator res" where
  "BlockIterator_seek_to it idx =
     (case bi_block it of
        None \<Rightarrow> Inr (it\<lparr>bi_key := KeyVec_clear (bi_key it), bi_value_start := 0, bi_value_len := 0\<rparr>)
      | Some blk \<Rightarrow>
          if idx \<ge> length (blk_offsets blk)
          then Inr (it\<lparr>bi_key := KeyVec_clear (bi_key it), bi_value_start := 0, bi_value_len := 0\<rparr>)
          else BlockIterator_seek_to_offset (it\<lparr>bi_idx := idx\<rparr>) blk)"

definition BlockIterator_next :: "BlockIterator \<Rightarrow> BlockIterator res" where
  "BlockIterator_next it =
     (let it = it\<lparr>bi_idx := bi_idx it + 1\<rparr> in BlockIterator_seek_to it (bi_idx it))"

definition BlockIterator_seek_to_first :: "BlockIterator \<Rightarrow> BlockIterator res" where
  "BlockIterator_seek_to_first it = BlockIterator_seek_to it 0"

text \<open>The loop of \<open>seek_to_key\<close>, with its variables \<open>low\<close> and \<open>high\<close>.\<close>

function BlockIterator_search :: "BlockIterator \<Rightarrow> bytes \<Rightarrow> nat \<Rightarrow> nat \<Rightarrow> BlockIterator res" where
  "BlockIterator_search it target low high =
     (if low < high then
        let mid = low + (high - low) div 2 in
        res_bind (BlockIterator_seek_to it mid) (\<lambda>it.
        res_bind (assert_res ''is_valid()'' (BlockIterator_is_valid it)) (\<lambda>_.
        res_bind (BlockIterator_key it) (\<lambda>k.
        let cmp = KeySlice_compare k target in
        if cmp < 0 then BlockIterator_search it target (mid + 1) high
        else if cmp > 0 then BlockIterator_search it target low mid
        else Inr it)))
      else BlockIterator_seek_to it low)"
  by pat_completeness auto
termination
  by (relation "measure (\<lambda>(it, target, low, high). high - low)") auto

declare BlockIterator_search.simps [simp del]

definition BlockIterator_seek_to_key :: "BlockIterator \<Rightarrow> bytes \<Rightarrow> BlockIterator res" where
  "BlockIterator_seek_to_key it target =
     (case bi_block it of
        None \<Rightarrow> Inr it
      | Some blk \<Rightarrow> BlockIterator_search it target 0 (length (blk_offsets blk)))"

definition BlockIterator_create_and_seek_to_first :: "Block option \<Rightarrow> BlockIterator res" where
  "BlockIterator_create_and_seek_to_first block =
     res_bind (BlockIterator_new block) BlockIterator_seek_to_first"

definition BlockIterator_create_and_seek_to_key :: "Block option \<Rightarrow> bytes \<Rightarrow> BlockIterator res" where
  "BlockIterator_create_and_seek_to_key block target =
     res_bind (BlockIterator_new block) (\<lambda>it. BlockIterator_seek_to_key it target)"

definition BlockIterator_ops :: "('s, BlockIterator) iter_ops" where
  "BlockIterator_ops =
     \<lparr>it_key = BlockIterator_key, it_value = BlockIterator_value,
      it_valid = BlockIterator_is_valid, it_next = (\<lambda>it. m_lift (BlockIterator_next it))\<rparr>"

section \<open>Decoding one entry\<close>

text \<open>An iterator over the block of \<open>es\<close>, positioned anywhere.\<close>

definition bi_over :: "entry list \<Rightarrow> BlockIterator \<Rightarrow> bool" where
  "bi_over es it \<longleftrightarrow> wf_block es \<and> bi_block it = Some (block_of es) \<and> bi_first_key it = first_key_of es"

text \<open>It stands on entry \<open>i\<close>.\<close>

definition bi_at :: "entry list \<Rightarrow> nat \<Rightarrow> BlockIterator \<Rightarrow> bool" where
  "bi_at es i it \<longleftrightarrow> bi_over es it \<and> i < length es \<and> bi_idx it = i \<and> bi_key it = fst (es ! i) \<and>
     sub_bytes (blk_data (block_of es)) (bi_value_start it) (bi_value_len it) = Inr (snd (es ! i))"

definition bi_end :: "entry list \<Rightarrow> BlockIterator \<Rightarrow> bool" where
  "bi_end es it \<longleftrightarrow> bi_over es it \<and> bi_key it = []"

lemma wf_block_entry: "wf_block es \<Longrightarrow> i < length es \<Longrightarrow> wf_entry (es ! i)"
  by (simp add: wf_block_def)

text \<open>The five fields of an encoded entry, read back one by one.\<close>

lemma entry_code_fields:
  assumes wf: "wf_entry e" and data: "data = pre @ entry_code fk e @ post" and off: "length pre = off"
  defines "ov \<equiv> compute_overlap fk (fst e)"
  shows "read_u16_be data off = Inr (of_nat ov)"
    and "read_u16_be data (off + 2) = Inr (of_nat (length (fst e) - ov))"
    and "sub_bytes data (off + 4) (length (fst e) - ov) = Inr (drop ov (fst e))"
    and "read_u16_be data (off + 4 + (length (fst e) - ov)) = Inr (of_nat (length (snd e)))"
    and "sub_bytes data (off + 4 + (length (fst e) - ov) + 2) (length (snd e)) = Inr (snd e)"
proof -
  let ?a = "put_u16_be [] (of_nat ov)" and ?b = "put_u16_be [] (of_nat (length (fst e) - ov))"
  let ?c = "drop ov (fst e)" and ?d = "put_u16_be [] (of_nat (length (snd e)))"
  have d1: "data = pre @ ?a @ (?b @ ?c @ ?d @ snd e @ post)"
    and d2: "data = (pre @ ?a) @ ?b @ (?c @ ?d @ snd e @ post)"
    and d3: "data = (pre @ ?a @ ?b) @ ?c @ (?d @ snd e @ post)"
    and d4: "data = (pre @ ?a @ ?b @ ?c) @ ?d @ (snd e @ post)"
    and d5: "data = (pre @ ?a @ ?b @ ?c @ ?d) @ snd e @ post"
    by (simp_all add: data entry_code_def Let_def ov_def)
  show "read_u16_be data off = Inr (of_nat ov)"
    by (subst d1) (rule u16.rd_at [OF off])
  show "read_u16_be data (off + 2) = Inr (of_nat (length (fst e) - ov))"
    by (subst d2) (rule u16.rd_at, simp add: off)
  show "sub_bytes data (off + 4) (length (fst e) - ov) = Inr (drop ov (fst e))"
    by (subst d3) (rule sub_bytes_append, simp_all add: off)
  show "read_u16_be data (off + 4 + (length (fst e) - ov)) = Inr (of_nat (length (snd e)))"
    by (subst d4) (rule u16.rd_at, simp add: off)
  show "sub_bytes data (off + 4 + (length (fst e) - ov) + 2) (length (snd e)) = Inr (snd e)"
    by (subst d5) (rule sub_bytes_append, simp_all add: off)
qed

lemma BlockIterator_seek_to_entry:
  assumes over: "bi_over es it" and i: "i < length es"
  obtains it' where "BlockIterator_seek_to it i = Inr it'" and "bi_at es i it'"
proof -
  let ?blk = "block_of es" and ?e = "es ! i" and ?off = "entry_offset es i"
  from over have wfb: "wf_block es" by (simp add: bi_over_def)
  then have wf: "wf_entry ?e" using i by (rule wf_block_entry)
  from i obtain fk where code: "entry_codes es ! i = entry_code fk ?e"
    and fk: "i = 0 \<longrightarrow> fk = []" "i \<noteq> 0 \<longrightarrow> fk = first_key_of es"
    by (rule entry_codes_nth)
  let ?ov = "compute_overlap fk (fst ?e)"
  have data: "blk_data ?blk = concat (take i (entry_codes es)) @ entry_code fk ?e @
      concat (drop (Suc i) (entry_codes es))"
    using block_data_split [OF i] code by (simp add: block_of_def)
  have off: "length (concat (take i (entry_codes es))) = ?off" by (simp add: entry_offset_def)
  note fields = entry_code_fields [OF wf data off]
  have offset: "unat (blk_offsets ?blk ! i) = ?off"
    using wfb i by (simp add: block_of_def wf_block_def)
  have lens: "?ov < 65536" "length (fst ?e) - ?ov < 65536" "length (snd ?e) < 65536"
    using wf compute_overlap_le [of fk "fst ?e"] by (auto simp: wf_entry_def)
  note small = lens [THEN unat_of_nat_narrow(1)]
  have prefix: "sub_bytes (first_key_of es) 0 ?ov = Inr (take ?ov (fst ?e))"
    using fk compute_overlap_le_first [of fk "fst ?e"] take_compute_overlap [of fk "fst ?e"]
    by (cases "i = 0") (simp_all add: sub_bytes_def)
  have key: "take ?ov (fst ?e) @ drop ?ov (fst ?e) = fst ?e" by simp
  let ?it' = "it\<lparr>bi_idx := i, bi_key := fst ?e,
     bi_value_start := ?off + 4 + (length (fst ?e) - ?ov) + 2, bi_value_len := length (snd ?e)\<rparr>"
  have "BlockIterator_seek_to it i = Inr ?it'"
    using over i fields prefix
    by (simp add: BlockIterator_seek_to_def BlockIterator_seek_to_offset_def bi_over_def Let_def
        offset small add.assoc)
  moreover have "bi_at es i ?it'"
    using over i fields(5) by (simp add: bi_at_def bi_over_def)
  ultimately show thesis by (rule that)
qed

lemma BlockIterator_seek_to_end:
  assumes "bi_over es it" and "length es \<le> i"
  obtains it' where "BlockIterator_seek_to it i = Inr it'" and "bi_end es it'"
  using assms by (auto simp: BlockIterator_seek_to_def bi_over_def bi_end_def intro: that)

lemma BlockIterator_new_over:
  assumes "wf_block es"
  obtains it where "BlockIterator_new (Some (block_of es)) = Inr it" and "bi_over es it"
proof -
  from assms obtain e r where es: "es = e # r" by (cases es) (auto simp: wf_block_def)
  have wf: "wf_entry e" using assms es by (simp add: wf_block_def)
  have data: "blk_data (block_of es) = [] @ entry_code [] e @ concat (drop 1 (entry_codes es))"
    using es by (simp add: block_of_def entry_codes_def)
  have ne: "blk_offsets (block_of es) \<noteq> []"
    using es length_block_of [of es] by (metis length_0_conv list.discI)
  show thesis
  proof (rule that)
    show "BlockIterator_new (Some (block_of es)) =
        Inr (BlockIterator_default\<lparr>bi_block := Some (block_of es), bi_first_key := fst e\<rparr>)"
      using entry_code_fields(1-3) [OF wf data refl, unfolded list.size(3) add_0] ne wf
      by (simp add: BlockIterator_new_def Let_def wf_entry_def BlockIterator_default_def)
    show "bi_over es (BlockIterator_default\<lparr>bi_block := Some (block_of es), bi_first_key := fst e\<rparr>)"
      using assms es by (simp add: bi_over_def)
  qed
qed

section \<open>The iterator contract\<close>

definition bi_abs :: "BlockIterator \<Rightarrow> entry list \<Rightarrow> bool" where
  "bi_abs it xs \<longleftrightarrow> (\<exists>es i. bi_at es i it \<and> xs = drop i es) \<or> (\<exists>es. bi_end es it \<and> xs = [])"

lemma bi_at_abs: "bi_at es i it \<Longrightarrow> bi_abs it (drop i es)"
  by (auto simp: bi_abs_def)

lemma bi_end_abs: "bi_end es it \<Longrightarrow> bi_abs it []"
  by (auto simp: bi_abs_def)

lemma bi_abs_Cons: "bi_abs it (x # xs) \<longleftrightarrow> (\<exists>es i. bi_at es i it \<and> x # xs = drop i es)"
  by (auto simp: bi_abs_def)

lemma bi_at_key: "bi_at es i it \<Longrightarrow> bi_key it \<noteq> []"
  using wf_block_entry [of es i] by (auto simp: bi_at_def bi_over_def wf_entry_def)

lemma bi_at_next:
  assumes "bi_at es i it"
  shows "\<exists>it'. BlockIterator_next it = Inr it' \<and>
    (if Suc i < length es then bi_at es (Suc i) it' else bi_end es it')"
proof -
  let ?it = "it\<lparr>bi_idx := Suc i\<rparr>"
  have over: "bi_over es ?it" and idx: "bi_idx it = i"
    using assms by (auto simp: bi_at_def bi_over_def)
  have "BlockIterator_next it = BlockIterator_seek_to ?it (Suc i)"
    by (simp add: BlockIterator_next_def idx Let_def)
  then show ?thesis
    using BlockIterator_seek_to_entry [OF over, of "Suc i"] BlockIterator_seek_to_end [OF over, of "Suc i"]
    by (metis not_less)
qed

interpretation block_iter: storage_iterator BlockIterator_ops sinv bi_abs for sinv :: "'s \<Rightarrow> bool"
proof unfold_locales
  fix it xs assume "bi_abs it xs"
  then show "it_valid BlockIterator_ops it = (xs \<noteq> [])"
    by (auto simp: bi_abs_def BlockIterator_ops_def BlockIterator_is_valid_def bi_end_def bi_at_key)
      (simp add: bi_at_def)
next
  fix it x xs assume "bi_abs it (x # xs)"
  then obtain es i where at: "bi_at es i it" and d: "x # xs = drop i es" by (auto simp: bi_abs_Cons)
  note hd = drop_Cons_nth [OF d]
  show "it_key BlockIterator_ops it = Inr (fst x)"
    using at hd bi_at_key [OF at] by (simp add: BlockIterator_ops_def BlockIterator_key_def bi_at_def)
  show "it_value BlockIterator_ops it = Inr (snd x)"
    using at hd bi_at_key [OF at]
    by (simp add: BlockIterator_ops_def BlockIterator_value_def bi_at_def bi_over_def)
  show "ok sinv (it_next BlockIterator_ops it) (\<lambda>it'. bi_abs it' xs)"
  proof -
    obtain it' where n: "BlockIterator_next it = Inr it'"
      "if Suc i < length es then bi_at es (Suc i) it' else bi_end es it'"
      using bi_at_next [OF at] by blast
    then have "bi_abs it' xs"
      using hd by (auto simp: bi_end_abs dest: bi_at_abs split: if_splits)
    with n show ?thesis by (auto simp: BlockIterator_ops_def intro: ok_lift)
  qed
qed

section \<open>Seeking\<close>

text \<open>The first entry not below the target. The binary search keeps every entry before \<open>low\<close>
  below the target and every entry from \<open>high\<close> on not below it.\<close>

lemma BlockIterator_search_step:
  assumes "bi_over es it" and "low < high" and "high \<le> length es"
  defines "mid \<equiv> low + (high - low) div 2"
  obtains it' where "bi_at es mid it'"
    and "BlockIterator_search it target low high =
      (if fst (es ! mid) < target then BlockIterator_search it' target (mid + 1) high
       else if target < fst (es ! mid) then BlockIterator_search it' target low mid
       else Inr it')"
proof -
  have "mid < length es" using assms by auto
  then obtain it' where seek: "BlockIterator_seek_to it mid = Inr it'" and at: "bi_at es mid it'"
    by (rule BlockIterator_seek_to_entry [OF assms(1)])
  have key: "bi_key it' = fst (es ! mid)" "fst (es ! mid) \<noteq> []"
    using at bi_at_key [OF at] by (simp_all add: bi_at_def)
  have "KeySlice_compare k target > 0 \<longleftrightarrow> target < k" for k
    using KeySlice_compare_sign [of k target] by auto
  then show thesis
    using at seek key assms(2) KeySlice_compare_sign
    by (intro that [of it'])
      (auto simp: BlockIterator_search.simps [of it target low high] mid_def [symmetric] Let_def
        BlockIterator_is_valid_def BlockIterator_key_def)
qed

lemma BlockIterator_search_spec:
  assumes "bi_over es it" and "sorted_entries es" and "low \<le> high" and "high \<le> length es"
    and "\<forall>i < low. fst (es ! i) < target"
    and "\<forall>i. high \<le> i \<longrightarrow> i < length es \<longrightarrow> target \<le> fst (es ! i)"
  shows "\<exists>it'. BlockIterator_search it target low high = Inr it' \<and>
    bi_abs it' (dropWhile (\<lambda>e. fst e < target) es)"
  using assms
proof (induction "high - low" arbitrary: it low high rule: less_induct)
  case less
  have lt: "i < j \<Longrightarrow> j < length es \<Longrightarrow> fst (es ! i) < fst (es ! j)" for i j
    using less.prems(2) by (simp add: sorted_wrt_iff_nth_less)
  show ?case
  proof (cases "low < high")
    case False
    then have d: "dropWhile (\<lambda>e. fst e < target) es = drop low es"
      by (intro dropWhile_drop_nth) (use less.prems in auto)
    obtain it' where "BlockIterator_seek_to it low = Inr it'"
      and "bi_at es low it' \<or> bi_end es it' \<and> drop low es = []"
      by (metis less.prems(1) BlockIterator_seek_to_entry BlockIterator_seek_to_end drop_all not_less)
    then show ?thesis
      using d False by (auto simp: BlockIterator_search.simps [of it target low high] bi_abs_def)
  next
    case True
    define mid where "mid = low + (high - low) div 2"
    have mid: "low \<le> mid" "mid < high" "mid < length es" using True less.prems(4) by (auto simp: mid_def)
    obtain it' where at: "bi_at es mid it'" and step: "BlockIterator_search it target low high =
        (if fst (es ! mid) < target then BlockIterator_search it' target (mid + 1) high
         else if target < fst (es ! mid) then BlockIterator_search it' target low mid else Inr it')"
      using BlockIterator_search_step [OF less.prems(1) True less.prems(4), of target] mid_def by metis
    have over: "bi_over es it'" using at by (simp add: bi_at_def)
    have below: "\<forall>i < mid + 1. fst (es ! i) < target" if "fst (es ! mid) < target"
      using that mid(3) by (auto simp: less_Suc_eq intro: order.strict_trans [OF lt])
    have above: "\<forall>i. mid \<le> i \<longrightarrow> i < length es \<longrightarrow> target \<le> fst (es ! i)" if "target < fst (es ! mid)"
      using that by (auto simp: le_less intro: order.strict_trans [OF _ lt])
    consider "fst (es ! mid) < target" | "target < fst (es ! mid)" | "fst (es ! mid) = target" by fastforce
    then show ?thesis
    proof cases
      case 1
      then show ?thesis
        using less.hyps [of high "mid + 1" it'] over below less.prems mid by (simp add: step)
    next
      case 2
      then have "\<not> fst (es ! mid) < target" by simp
      then show ?thesis
        using 2 less.hyps [of mid low it'] over above less.prems mid by (simp add: step)
    next
      case 3
      then have "dropWhile (\<lambda>e. fst e < target) es = drop mid es"
        by (intro dropWhile_drop_nth) (use lt mid in auto)
      then show ?thesis using 3 at bi_at_abs by (simp add: step)
    qed
  qed
qed

lemma BlockIterator_seek_to_key_spec:
  assumes "bi_over es it" and "sorted_entries es"
  shows "\<exists>it'. BlockIterator_seek_to_key it target = Inr it' \<and>
    bi_abs it' (dropWhile (\<lambda>e. fst e < target) es)"
  using BlockIterator_search_spec [OF assms, of 0 "length es" target] assms(1)
  by (auto simp: BlockIterator_seek_to_key_def bi_over_def)

lemma BlockIterator_create_and_seek_to_key_spec:
  assumes "wf_block es" and "sorted_entries es"
  shows "\<exists>it. BlockIterator_create_and_seek_to_key (Some (block_of es)) target = Inr it \<and>
    bi_abs it (dropWhile (\<lambda>e. fst e < target) es)"
  using BlockIterator_new_over [OF assms(1)] BlockIterator_seek_to_key_spec [OF _ assms(2)]
  by (metis BlockIterator_create_and_seek_to_key_def res_bind_simps(2))

lemma BlockIterator_create_and_seek_to_first_spec:
  assumes "wf_block es"
  shows "\<exists>it. BlockIterator_create_and_seek_to_first (Some (block_of es)) = Inr it \<and> bi_abs it es"
proof -
  have "0 < length es" using assms by (auto simp: wf_block_def)
  moreover obtain it where it: "BlockIterator_new (Some (block_of es)) = Inr it" "bi_over es it"
    by (rule BlockIterator_new_over [OF assms])
  ultimately obtain it' where "BlockIterator_seek_to it 0 = Inr it'" "bi_at es 0 it'"
    by (metis BlockIterator_seek_to_entry)
  with it show ?thesis
    using bi_at_abs [of es 0 it']
    by (simp add: BlockIterator_create_and_seek_to_first_def BlockIterator_seek_to_first_def)
qed

section \<open>Properties\<close>

text \<open>Draining an iterator without shared state.\<close>

lemma block_drain: "bi_abs it xs \<Longrightarrow> drain BlockIterator_ops it () = Some (Inr xs, ())"
  using okD [OF block_iter.drain_ok [of it xs "\<lambda>_. True"], of "()"] by auto

lemma BlockBuilder_fill_new:
  assumes "\<forall>e \<in> set xs. wf_entry e" and "n \<le> 2 ^ 16" and "xs \<noteq> []"
  obtains b ys zs where "BlockBuilder_fill (BlockBuilder_new n) xs = Inr (b, zs)" and "xs = ys @ zs" and "ys \<noteq> []"
    and "BlockBuilder_build b = Inr (block_of ys)" and "wf_block ys"
    and "length ys = 1 \<or> length (Block_encode (block_of ys)) \<le> n + 2"
proof -
  from BlockBuilder_fill_spec [OF bb_holds_new assms(1) _ assms(2)] assms(3)
  obtain b ys zs where 1: "BlockBuilder_fill (BlockBuilder_new n) xs = Inr (b, zs)" "xs = ys @ zs"
    "bb_holds n ys b" "block_bounded n ys" "ys \<noteq> []" by (auto simp: block_bounded_def)
  then show ?thesis using BlockBuilder_build_spec [OF 1(3,5)] by (auto simp: block_bounded_def intro: that)
qed

text \<open>C32: entries put into a block come back out of it. Of a list of entries with non-empty keys and
  16-bit lengths the builder accepts a non-empty prefix; the block it builds survives encoding and
  decoding, iterating over it yields exactly that prefix, in order, with every key restored from
  its prefix-compressed form, and the encoded block exceeds the configured size by at most two
  bytes unless it holds a single entry.\<close>

theorem block_build_iterate:
  assumes "\<forall>e \<in> set xs. wf_entry e" and "xs \<noteq> []" and "n \<le> 2 ^ 16"
  shows "\<exists>b ys zs blk it. BlockBuilder_fill (BlockBuilder_new n) xs = Inr (b, zs) \<and> xs = ys @ zs \<and> ys \<noteq> [] \<and>
    BlockBuilder_build b = Inr blk \<and> (length ys = 1 \<or> length (Block_encode blk) \<le> n + 2) \<and>
    Block_decode (Block_encode blk) = Inr blk \<and>
    BlockIterator_create_and_seek_to_first (Some blk) = Inr it \<and>
    drain BlockIterator_ops it () = Some (Inr ys, ())"
proof -
  from BlockBuilder_fill_new [OF assms(1,3,2)] obtain b ys zs where
    1: "BlockBuilder_fill (BlockBuilder_new n) xs = Inr (b, zs)" "xs = ys @ zs" "ys \<noteq> []"
    "BlockBuilder_build b = Inr (block_of ys)" "wf_block ys"
    "length ys = 1 \<or> length (Block_encode (block_of ys)) \<le> n + 2" by blast
  from BlockIterator_create_and_seek_to_first_spec [OF 1(5)] obtain it where
    "BlockIterator_create_and_seek_to_first (Some (block_of ys)) = Inr it" "bi_abs it ys" by blast
  moreover have "Block_decode (Block_encode (block_of ys)) = Inr (block_of ys)"
    using 1(5) by (intro Block_decode_encode) (simp add: wf_block_def)
  ultimately show ?thesis using 1 block_drain [of it ys] by blast
qed

theorem block_build_iterate_witness:
  "\<exists>b ys zs blk it. BlockBuilder_fill (BlockBuilder_new 16) [([1, 2], [7]), ([1, 3], [])] = Inr (b, zs) \<and>
    [([1, 2], [7]), ([1, 3], [])] = ys @ zs \<and> ys \<noteq> [] \<and>
    BlockBuilder_build b = Inr blk \<and> (length ys = 1 \<or> length (Block_encode blk) \<le> 16 + 2) \<and>
    Block_decode (Block_encode blk) = Inr blk \<and>
    BlockIterator_create_and_seek_to_first (Some blk) = Inr it \<and>
    drain BlockIterator_ops it () = Some (Inr ys, ())"
  using block_build_iterate [of "[([1, 2], [7]), ([1, 3], [])]" 16] by (simp add: wf_entry_def)

text \<open>\<open>BlockIterator::seek_to_key\<close> (a binary search over the offsets) positions the iterator at
  the first entry whose key is not below the target: it then yields exactly the entries of the
  sorted block from there on.\<close>

theorem block_seek_to_key:
  assumes "\<forall>e \<in> set es. wf_entry e" and "sorted_entries es" and "n \<le> 2 ^ 16" and "es \<noteq> []"
    and "BlockBuilder_fill (BlockBuilder_new n) es = Inr (b, [])" and "BlockBuilder_build b = Inr blk"
  shows "\<exists>it. BlockIterator_create_and_seek_to_key (Some blk) target = Inr it \<and>
    drain BlockIterator_ops it () = Some (Inr (dropWhile (\<lambda>e. fst e < target) es), ())"
proof -
  obtain b' ys zs where "BlockBuilder_fill (BlockBuilder_new n) es = Inr (b', zs)" "es = ys @ zs"
    "BlockBuilder_build b' = Inr (block_of ys)" "wf_block ys"
    using BlockBuilder_fill_new [OF assms(1,3,4)] by blast
  then have "wf_block es" "blk = block_of es" using assms(5,6) by simp_all
  with BlockIterator_create_and_seek_to_key_spec [OF _ assms(2), of target] block_drain show ?thesis by blast
qed

definition example_block :: "entry list" where
  "example_block = [([1], [7]), ([1, 3], []), ([2], [8, 8])]"

theorem block_seek_to_key_witness:
  "\<exists>b blk it. BlockBuilder_fill (BlockBuilder_new 64) example_block = Inr (b, []) \<and>
    BlockBuilder_build b = Inr blk \<and>
    BlockIterator_create_and_seek_to_key (Some blk) [1, 2] = Inr it \<and>
    drain BlockIterator_ops it () = Some (Inr [([1, 3], []), ([2], [8, 8])], ())"
proof -
  have wf: "\<forall>e \<in> set example_block. wf_entry e" "sorted_entries example_block" "example_block \<noteq> []"
    by (auto simp: example_block_def wf_entry_def)
  have "case BlockBuilder_fill (BlockBuilder_new 64) example_block of Inr (b, r) \<Rightarrow> r = [] | Inl _ \<Rightarrow> False"
    by code_simp
  then obtain b where b: "BlockBuilder_fill (BlockBuilder_new 64) example_block = Inr (b, [])"
    by (auto split: sum.splits)
  with BlockBuilder_fill_new [of example_block 64] wf obtain blk where blk: "BlockBuilder_build b = Inr blk" by auto
  show ?thesis using block_seek_to_key [OF wf(1,2) _ wf(3) b blk, of "[1, 2]"] b blk
    by (auto simp: example_block_def)
qed

lemma sub_bytes_0: "sub_bytes xs 0 0 = Inr []"
  by (simp add: sub_bytes_def)

text \<open>C40: lengths in a block are 16 bits wide and the builder does not check them. A value of
  \<open>2^16\<close> bytes is accepted, and the block then yields its key with the empty value, which the
  storage engine reads as a deletion.\<close>

theorem oversized_value_lost:
  assumes "k \<noteq> []" and "length k < 2 ^ 16" and "length v = 2 ^ 16"
  shows "\<exists>b blk it. BlockBuilder_add (BlockBuilder_new n) k v = Inr (True, b) \<and>
    BlockBuilder_build b = Inr blk \<and> BlockIterator_create_and_seek_to_first (Some blk) = Inr it \<and>
    BlockIterator_key it = Inr k \<and> BlockIterator_value it = Inr []"
proof -
  define blk where "blk = \<lparr>blk_data = entry_code [] (k, []) @ v, blk_offsets = [0]\<rparr>"
  have wf: "wf_entry (k, [])" using assms by (simp add: wf_entry_def)
  have data: "entry_code [] (k, []) @ v = [] @ entry_code [] (k, []) @ v" by simp
  note f = entry_code_fields [OF wf data, of 0, unfolded add_0 fst_conv snd_conv compute_overlap_Nil diff_zero drop_0]
  define b where "b = \<lparr>bb_offsets = [0], bb_data = entry_code [] (k, []) @ v, bb_block_size = n, bb_first_key = k\<rparr>"
  have "BlockBuilder_add (BlockBuilder_new n) k v = Inr (True, b)"
    using assms by (simp add: BlockBuilder_add_def BlockBuilder_new_def BlockBuilder_is_empty_def Let_def
        entry_code_def b_def put_u16_be_def)
  moreover have "BlockBuilder_build b = Inr blk"
    by (simp add: BlockBuilder_build_def BlockBuilder_is_empty_def b_def blk_def)
  moreover obtain it where "BlockIterator_create_and_seek_to_first (Some blk) = Inr it"
    and "bi_key it = k" and "bi_block it = Some blk" and "bi_value_len it = 0"
    and "bi_value_start it = 6 + length k"
    using assms f f(2) [unfolded numeral_2_eq_2] by (simp add: BlockIterator_create_and_seek_to_first_def BlockIterator_new_def blk_def
        BlockIterator_seek_to_first_def BlockIterator_seek_to_def BlockIterator_seek_to_offset_def
        BlockIterator_default_def Let_def sub_bytes_0)
  ultimately show ?thesis using assms
    by (auto simp: BlockIterator_key_def BlockIterator_value_def blk_def sub_bytes_def length_entry_code)
qed

theorem oversized_value_lost_witness:
  "\<exists>b blk it. BlockBuilder_add (BlockBuilder_new 4096) [1] (replicate (2 ^ 16) 7) = Inr (True, b) \<and>
    BlockBuilder_build b = Inr blk \<and> BlockIterator_create_and_seek_to_first (Some blk) = Inr it \<and>
    BlockIterator_key it = Inr [1] \<and> BlockIterator_value it = Inr []"
  by (rule oversized_value_lost) simp_all

end
