(* ===== verification/Bloom.thy ===== *)
theory Bloom
  imports Endian Complex_Main
begin

text \<open>
  The Bloom filter of a table (\<open>src/table/bloom.cpp\<close>). \<open>Fingerprint32\<close> of farmhash is third-party
  code; the filter works on the hashes it is given. Arithmetic on \<open>double\<close> is exact here, on
  \<open>real\<close>; the filter itself is bits and 32-bit words as in the code.

  The main fact is that the filter has no false negatives: every hash it was built from may be
  contained.
\<close>

unbundle bit_operations_syntax

record Bloom =
  bl_filter :: bytes
  bl_k :: byte

text \<open>With no entries the quotient is \<open>0 / 0\<close>, and converting it to \<open>size_t\<close> is undefined.\<close>

definition Bloom_bloom_bits_per_key :: "nat \<Rightarrow> real \<Rightarrow> nat res" where
  "Bloom_bloom_bits_per_key entries false_positive_rate =
     (let size = - (real entries * ln false_positive_rate) / (0.6931471805599453 * 0.6931471805599453) in
      if entries = 0 then Inl (OutOfRange ''bloom_bits_per_key'')
      else Inr (nat \<lceil>size / real entries\<rceil>))"

definition Bloom_delta :: "u32 \<Rightarrow> u32" where
  "Bloom_delta h = push_bit 15 h OR drop_bit 17 h"

text \<open>\<open>flt[bit_pos / 8] |= (1 << (bit_pos % 8))\<close> and the test of the same bit.\<close>

definition Bloom_set_bit :: "bytes \<Rightarrow> nat \<Rightarrow> bytes" where
  "Bloom_set_bit flt bit_pos =
     flt[bit_pos div 8 := (flt ! (bit_pos div 8)) OR push_bit (bit_pos mod 8) 1]"

definition Bloom_test_bit :: "bytes \<Rightarrow> nat \<Rightarrow> bool" where
  "Bloom_test_bit flt bit_pos \<longleftrightarrow> (flt ! (bit_pos div 8)) AND push_bit (bit_pos mod 8) 1 \<noteq> 0"

fun Bloom_add_hash :: "nat \<Rightarrow> u32 \<Rightarrow> u32 \<Rightarrow> nat \<Rightarrow> bytes \<Rightarrow> bytes" where
  "Bloom_add_hash 0 h delta nbits flt = flt"
| "Bloom_add_hash (Suc i) h delta nbits flt =
     Bloom_add_hash i (h + delta) delta nbits (Bloom_set_bit flt (unat h mod nbits))"

definition Bloom_build_from_key_hashes :: "u32 list \<Rightarrow> nat \<Rightarrow> Bloom" where
  "Bloom_build_from_key_hashes hashes bits_per_key =
     (let k = bits_per_key * 69 div 100;
          k = min (max k 1) 30;
          nbits = max (length hashes * bits_per_key) 64;
          nbytes = (nbits + 7) div 8;
          nbits = nbytes * 8;
          flt = fold (\<lambda>h flt. Bloom_add_hash k h (Bloom_delta h) nbits flt) hashes (replicate nbytes 0)
      in \<lparr>bl_filter = flt, bl_k = of_nat k\<rparr>)"

fun Bloom_probe :: "nat \<Rightarrow> u32 \<Rightarrow> u32 \<Rightarrow> nat \<Rightarrow> bytes \<Rightarrow> bool" where
  "Bloom_probe 0 h delta nbits flt = True"
| "Bloom_probe (Suc i) h delta nbits flt =
     (if \<not> Bloom_test_bit flt (unat h mod nbits) then False
      else Bloom_probe i (h + delta) delta nbits flt)"

definition Bloom_may_contain :: "Bloom \<Rightarrow> u32 \<Rightarrow> bool" where
  "Bloom_may_contain b h =
     (if bl_k b > 30 then True
      else
        let nbits = length (bl_filter b) * 8 in
        if nbits = 0 then True
        else Bloom_probe (unat (bl_k b)) h (Bloom_delta h) nbits (bl_filter b))"

definition Bloom_encode :: "zlib_crc32 \<Rightarrow> Bloom \<Rightarrow> bytes \<Rightarrow> bytes" where
  "Bloom_encode crc32 b buf =
     (let offset = length buf;
          buf = buf @ bl_filter b;
          buf = buf @ [bl_k b];
          checksum = crc32_hash crc32 (drop offset buf)
      in put_u32_be buf checksum)"

definition Bloom_decode :: "zlib_crc32 \<Rightarrow> bytes \<Rightarrow> Bloom res" where
  "Bloom_decode crc32 raw =
     res_bind (assert_res ''len >= 5'' (5 \<le> length raw)) (\<lambda>_.
     res_bind (read_u32_be raw (length raw - 4)) (\<lambda>expected_checksum.
     let actual_checksum = crc32_hash crc32 (take (length raw - 4) raw) in
     res_bind (assert_res ''expected_checksum == actual_checksum'' (expected_checksum = actual_checksum)) (\<lambda>_.
     Inr \<lparr>bl_filter = take (length raw - 5) raw, bl_k = raw ! (length raw - 5)\<rparr>)))"

section \<open>No false negatives\<close>

text \<open>The bits of the flt as a set.\<close>

definition bloom_bits :: "bytes \<Rightarrow> nat set" where
  "bloom_bits f = {p. p < 8 * length f \<and> bit (f ! (p div 8)) (p mod 8)}"

lemma bloom_bits_zero [simp]: "bloom_bits (replicate n 0) = {}"
  by (auto simp: bloom_bits_def)

lemma Bloom_test_bit_iff: "p < 8 * length f \<Longrightarrow> Bloom_test_bit f p \<longleftrightarrow> p \<in> bloom_bits f"
  by (simp add: Bloom_test_bit_def bloom_bits_def bit_iff_and_push_bit_not_eq_0)

lemma length_Bloom_set_bit [simp]: "length (Bloom_set_bit f p) = length f"
  by (simp add: Bloom_set_bit_def)

lemma bloom_bits_set_bit:
  assumes "p < 8 * length f"
  shows "bloom_bits (Bloom_set_bit f p) = insert p (bloom_bits f)"
proof -
  have "bit (Bloom_set_bit f p ! (q div 8)) (q mod 8) \<longleftrightarrow> q = p \<or> bit (f ! (q div 8)) (q mod 8)"
    if "q < 8 * length f" for q
  proof (cases "q div 8 = p div 8")
    case True
    then have "q = p \<longleftrightarrow> q mod 8 = p mod 8" by (metis mult_div_mod_eq)
    moreover have "p div 8 < length f" using assms by simp
    ultimately show ?thesis using True by (auto simp: Bloom_set_bit_def bit_simps)
  next
    case False
    then show ?thesis by (auto simp: Bloom_set_bit_def)
  qed
  then show ?thesis using assms by (auto simp: bloom_bits_def)
qed

text \<open>The positions a hash is mapped to.\<close>

fun bloom_positions :: "nat \<Rightarrow> u32 \<Rightarrow> u32 \<Rightarrow> nat \<Rightarrow> nat set" where
  "bloom_positions 0 h delta nbits = {}"
| "bloom_positions (Suc i) h delta nbits = insert (unat h mod nbits) (bloom_positions i (h + delta) delta nbits)"

lemma Bloom_add_hash_bits:
  assumes "8 * length f = nbits" and "0 < nbits"
  shows "length (Bloom_add_hash i h d nbits f) = length f \<and>
    bloom_bits (Bloom_add_hash i h d nbits f) = bloom_positions i h d nbits \<union> bloom_bits f"
  using assms
proof (induction i arbitrary: h f)
  case (Suc i)
  have "unat h mod nbits < 8 * length f" using Suc.prems by (metis mod_less_divisor)
  with Suc show ?case by (simp add: bloom_bits_set_bit)
qed simp

lemma fold_add_hash_bits:
  assumes "8 * length f = nbits" and "0 < nbits"
  shows "length (fold (\<lambda>h f. Bloom_add_hash k h (Bloom_delta h) nbits f) hs f) = length f \<and>
    bloom_bits (fold (\<lambda>h f. Bloom_add_hash k h (Bloom_delta h) nbits f) hs f) =
      (\<Union>h \<in> set hs. bloom_positions k h (Bloom_delta h) nbits) \<union> bloom_bits f"
  using assms
proof (induction hs arbitrary: f)
  case (Cons h hs)
  let ?f = "Bloom_add_hash k h (Bloom_delta h) nbits f"
  have "length ?f = length f \<and> bloom_bits ?f = bloom_positions k h (Bloom_delta h) nbits \<union> bloom_bits f"
    using Bloom_add_hash_bits [OF Cons.prems] .
  with Cons.IH [of ?f] Cons.prems show ?case by (simp add: Un_ac)
qed simp

lemma Bloom_probe_iff:
  assumes "8 * length f = nbits" and "0 < nbits"
  shows "Bloom_probe i h d nbits f \<longleftrightarrow> bloom_positions i h d nbits \<subseteq> bloom_bits f"
proof (induction i arbitrary: h)
  case (Suc i)
  have "unat h mod nbits < 8 * length f" using assms by (metis mod_less_divisor)
  with Suc show ?case by (simp add: Bloom_test_bit_iff)
qed simp

text \<open>What the filter answers: whether all positions of the hash are taken.\<close>

lemma Bloom_may_contain_build:
  fixes hs bits
  defines "k \<equiv> min (max (bits * 69 div 100) 1) 30"
    and "nbits \<equiv> (max (length hs * bits) 64 + 7) div 8 * 8"
  shows "Bloom_may_contain (Bloom_build_from_key_hashes hs bits) h \<longleftrightarrow>
    bloom_positions k h (Bloom_delta h) nbits \<subseteq> (\<Union>h \<in> set hs. bloom_positions k h (Bloom_delta h) nbits)"
proof -
  let ?n = "nbits div 8"
  have n: "nbits = 8 * ?n" "nbits = ?n * 8" "0 < nbits" by (auto simp: nbits_def)
  have k: "unat (of_nat k :: byte) = k" "\<not> (30 :: byte) < of_nat k"
    by (auto simp: k_def unat_of_nat take_bit_nat_eq_self word_less_nat_alt)
  let ?f = "fold (\<lambda>h f. Bloom_add_hash k h (Bloom_delta h) nbits f) hs (replicate ?n 0)"
  have f: "length ?f = ?n" "bloom_bits ?f = (\<Union>h \<in> set hs. bloom_positions k h (Bloom_delta h) nbits)"
    using fold_add_hash_bits [of "replicate ?n 0" nbits k hs] n(1,3) by simp_all
  have "Bloom_build_from_key_hashes hs bits = \<lparr>bl_filter = ?f, bl_k = of_nat k\<rparr>"
    by (simp add: Bloom_build_from_key_hashes_def Let_def k_def nbits_def)
  then show ?thesis
    using Bloom_probe_iff [of ?f nbits k h "Bloom_delta h"] n f k
    by (simp add: Bloom_may_contain_def Let_def del: fold_simps)
qed

lemma Bloom_no_false_negative:
  "h \<in> set hs \<Longrightarrow> Bloom_may_contain (Bloom_build_from_key_hashes hs bits) h"
  unfolding Bloom_may_contain_build by blast

section \<open>The size of the filter\<close>

text \<open>The false positive rate \<open>0.01\<close> of the table builder needs ten bits per key.\<close>

lemma ln_100_bounds: "4.325 < ln (100 :: real)" "ln (100 :: real) < 4.8"
proof -
  have "exp (4.325 / 32 :: real) \<le> 1 + 4.325 / 32 + (4.325 / 32)\<^sup>2"
    by (rule exp_bound) simp_all
  then have "exp (4.325 / 32 :: real) ^ 32 \<le> (1 + 4.325 / 32 + (4.325 / 32)\<^sup>2) ^ 32"
    by (rule power_mono) simp
  also have "\<dots> < 100" by (simp add: power_divide power2_eq_square)
  finally have "exp (4.325 :: real) < 100" using exp_of_nat_mult [of 32 "4.325 / 32 :: real"] by simp
  then have "ln (exp 4.325) < ln (100 :: real)" by (subst ln_less_cancel_iff) simp_all
  then show "4.325 < ln (100 :: real)" by simp
  have "1 + 4.8 / 16 + (4.8 / 16)\<^sup>2 / 2 \<le> exp (4.8 / 16 :: real)"
    by (rule exp_lower_Taylor_quadratic) simp
  then have le: "(1 + 4.8 / 16 + (4.8 / 16)\<^sup>2 / 2) ^ 16 \<le> exp (4.8 / 16 :: real) ^ 16"
    by (rule power_mono) simp
  have "100 < (1 + 4.8 / 16 + (4.8 / 16)\<^sup>2 / 2 :: real) ^ 16"
    by (simp add: power_divide power2_eq_square)
  from less_le_trans [OF this le] have "100 < exp (4.8 :: real)" using exp_of_nat_mult [of 16 "4.8 / 16 :: real"] by simp
  then have "ln (100 :: real) < ln (exp 4.8)" by (subst ln_less_cancel_iff) simp_all
  then show "ln (100 :: real) < 4.8" by simp
qed

lemma Bloom_bits_per_key_default:
  assumes "0 < n"
  shows "Bloom_bloom_bits_per_key n 0.01 = Inr 10"
proof -
  let ?q = "ln 100 / (0.6931471805599453 * 0.6931471805599453) :: real"
  have "ln (0.01 :: real) = - ln 100" using ln_inverse [of "100 :: real"] by (simp add: inverse_eq_divide)
  then have "- (real n * ln 0.01) / (0.6931471805599453 * 0.6931471805599453) / real n = ?q"
    using assms by simp
  moreover have "9 < ?q" "?q \<le> 10" using ln_100_bounds by (simp_all add: field_simps)
  then have "\<lceil>?q\<rceil> = 10" by (intro ceiling_unique) simp_all
  ultimately have "nat \<lceil>- (real n * ln 0.01) / (0.6931471805599453 * 0.6931471805599453) / real n\<rceil> = 10"
    by (simp only: nat_numeral)
  then show ?thesis unfolding Bloom_bloom_bits_per_key_def Let_def using assms by (simp only: if_False) simp
qed

text \<open>At this rate the computation needs no logarithm, so that building tables can be evaluated.\<close>

definition Bloom_default_bits :: "nat \<Rightarrow> nat res" where
  "Bloom_default_bits entries = (if entries = 0 then Inl (OutOfRange ''bloom_bits_per_key'') else Inr 10)"

lemma Bloom_default_bits: "Bloom_bloom_bits_per_key n 0.01 = Bloom_default_bits n"
  using Bloom_bits_per_key_default [of n] by (auto simp: Bloom_default_bits_def Bloom_bloom_bits_per_key_def)

section \<open>Serialisation\<close>

lemma Bloom_encode_eq:
  "Bloom_encode crc32 b buf =
     buf @ bl_filter b @ [bl_k b] @ put_u32_be [] (crc32_hash crc32 (bl_filter b @ [bl_k b]))"
  by (simp add: Bloom_encode_def Let_def u32.put_append [of "buf @ _"])

lemma Bloom_decode_encode: "Bloom_decode crc32 (Bloom_encode crc32 b []) = Inr b"
proof -
  let ?body = "bl_filter b @ [bl_k b]"
  let ?c = "put_u32_be [] (crc32_hash crc32 ?body)"
  have raw: "Bloom_encode crc32 b [] = ?body @ ?c @ []" by (simp add: Bloom_encode_eq)
  have len: "length (?body @ ?c @ []) = length (bl_filter b) + 5" by simp
  have "read_u32_be (?body @ ?c @ []) (length (?body @ ?c @ []) - 4) = Inr (crc32_hash crc32 ?body)"
    by (rule u32.rd_at) (simp add: len)
  then show ?thesis
    unfolding raw Bloom_decode_def Let_def by (simp add: nth_append)
qed

lemma Bloom_encode_decode:
  assumes "Bloom_decode crc32 raw = Inr b"
  shows "Bloom_encode crc32 b [] = raw"
proof -
  from assms have len: "5 \<le> length raw"
    and c: "read_u32_be raw (length raw - 4) = Inr (crc32_hash crc32 (take (length raw - 4) raw))"
    and b: "b = \<lparr>bl_filter = take (length raw - 5) raw, bl_k = raw ! (length raw - 5)\<rparr>"
    by (auto simp: Bloom_decode_def res_bind_Inr_iff Let_def)
  have "take (length raw - 5) raw @ [raw ! (length raw - 5)] = take (Suc (length raw - 5)) raw"
    using len by (simp add: take_Suc_conv_app_nth)
  also have "Suc (length raw - 5) = length raw - 4" using len by simp
  finally have body: "bl_filter b @ [bl_k b] = take (length raw - 4) raw" by (simp add: b)
  have "raw = take (length raw - 4) raw @ drop (length raw - 4) raw" by simp
  also have "drop (length raw - 4) raw = put_u32_be [] (crc32_hash crc32 (take (length raw - 4) raw))"
    using u32.rd_inverse [OF c] len by simp
  finally have "raw = (bl_filter b @ [bl_k b]) @ put_u32_be [] (crc32_hash crc32 (bl_filter b @ [bl_k b]))"
    unfolding body .
  then show ?thesis by (simp add: Bloom_encode_eq)
qed

section \<open>Properties\<close>

text \<open>C33: no false negatives. Every hash the filter was built from is reported as possibly present,
  also after the filter went through its on-disk encoding.\<close>

theorem Bloom_no_false_negatives_on_disk:
  "\<exists>b. Bloom_decode crc32 (Bloom_encode crc32 (Bloom_build_from_key_hashes hs bits) []) = Inr b \<and>
     (\<forall>h \<in> set hs. Bloom_may_contain b h)"
  by (simp add: Bloom_decode_encode Bloom_no_false_negative)

theorem Bloom_no_false_negatives_on_disk_witness:
  "\<exists>b. Bloom_decode example_crc32 (Bloom_encode example_crc32 (Bloom_build_from_key_hashes [3, 0xFFFFFFFF] 10) []) = Inr b \<and>
     Bloom_may_contain b 3 \<and> Bloom_may_contain b 0xFFFFFFFF"
  using Bloom_no_false_negatives_on_disk [of example_crc32 "[3, 0xFFFFFFFF]" 10] by simp

text \<open>\<open>Bloom::decode\<close> accepts exactly the strings \<open>Bloom::encode\<close> produces, and inverts it; a string
  with a wrong checksum or with fewer than five bytes is refused.\<close>

theorem Bloom_decode_iff: "Bloom_decode crc32 raw = Inr b \<longleftrightarrow> raw = Bloom_encode crc32 b []"
  using Bloom_decode_encode [of crc32 b] Bloom_encode_decode [of crc32 raw b] by auto

text \<open>At the false positive rate \<open>0.01\<close> the table builder asks for, the filter has ten bits per
  key whatever the number of keys, and so six probes and a size of at least ten bits per key.\<close>

theorem Bloom_default_size:
  assumes "hs \<noteq> []" and "Bloom_bloom_bits_per_key (length hs) 0.01 = Inr bits"
  shows "bits = 10 \<and> bl_k (Bloom_build_from_key_hashes hs bits) = 6 \<and>
    10 * length hs \<le> 8 * length (bl_filter (Bloom_build_from_key_hashes hs bits))"
proof -
  have "bits = 10" using assms Bloom_bits_per_key_default [of "length hs"] by simp
  moreover have "length (bl_filter (Bloom_build_from_key_hashes hs 10)) = (max (length hs * 10) 64 + 7) div 8"
    using fold_add_hash_bits [of "replicate ((max (length hs * 10) 64 + 7) div 8) 0"
        "(max (length hs * 10) 64 + 7) div 8 * 8" 6 hs]
    by (simp add: Bloom_build_from_key_hashes_def Let_def)
  moreover have "bl_k (Bloom_build_from_key_hashes hs 10) = 6"
    by (simp add: Bloom_build_from_key_hashes_def Let_def)
  ultimately show ?thesis by simp
qed

theorem Bloom_default_size_witness:
  "Bloom_bloom_bits_per_key (length [1, 2, 3 :: u32]) 0.01 = Inr 10 \<and>
   bl_k (Bloom_build_from_key_hashes [1, 2, 3] 10) = 6 \<and>
   10 * length [1, 2, 3 :: u32] \<le> 8 * length (bl_filter (Bloom_build_from_key_hashes [1, 2, 3] 10))"
  using Bloom_default_size [of "[1, 2, 3]" 10] Bloom_bits_per_key_default [of "Suc (Suc (Suc 0))"] by simp

end
