(* ===== verification/Block_Cache.thy ===== *)
theory Block_Cache
  imports Block
begin

text \<open>
  The LRU cache of decoded blocks (\<open>include/mini_lsm/block_cache.h\<close>, \<open>src/block_cache.cpp\<close>).

  \<open>std::list\<close> nodes have an identity that the map points to and that \<open>splice\<close> keeps. The model
  has the nodes in a store \<open>bc_node\<close> by address, the list as the addresses in order, and the
  \<open>unordered_map\<close> as the association list from keys to addresses. A null \<open>shared_ptr\<close> is \<open>None\<close>;
  the mutex makes every operation atomic.

  \<open>bc_lru\<close> reads the cache as a list of entries, most recently used first, and the operations
  are shown to be \<open>lru_get\<close> and \<open>lru_insert\<close> on it.
\<close>

type_synonym cache_key = "nat \<times> nat"

record BlockCache =
  bc_capacity :: nat
  bc_list :: "nat list"
  bc_node :: "nat \<Rightarrow> (cache_key \<times> Block) option"
  bc_map :: "(cache_key \<times> nat) list"
  bc_fresh :: nat

definition BlockCache_new :: "nat \<Rightarrow> BlockCache" where
  "BlockCache_new capacity =
     \<lparr>bc_capacity = capacity, bc_list = [], bc_node = Map.empty, bc_map = [], bc_fresh = 0\<rparr>"

text \<open>\<open>list_.splice(list_.begin(), list_, it)\<close> moves one node to the front.\<close>

definition list_splice_front :: "nat \<Rightarrow> nat list \<Rightarrow> nat list" where
  "list_splice_front a l = a # remove1 a l"

definition BlockCache_get :: "nat \<Rightarrow> nat \<Rightarrow> BlockCache \<Rightarrow> Block option \<times> BlockCache" where
  "BlockCache_get sst_id block_idx c =
     (let key = (sst_id, block_idx) in
      case map_of (bc_map c) key of
        None \<Rightarrow> (None, c)
      | Some it \<Rightarrow>
          (map_option snd (bc_node c it), c\<lparr>bc_list := list_splice_front it (bc_list c)\<rparr>))"

definition BlockCache_insert :: "nat \<Rightarrow> nat \<Rightarrow> Block option \<Rightarrow> BlockCache \<Rightarrow> BlockCache" where
  "BlockCache_insert sst_id block_idx block c =
     (case block of
        None \<Rightarrow> c
      | Some blk \<Rightarrow>
          if bc_capacity c = 0 then c
          else
            let key = (sst_id, block_idx) in
            case map_of (bc_map c) key of
              Some it \<Rightarrow>
                c\<lparr>bc_node := (bc_node c)(it \<mapsto> (key, blk)), bc_list := list_splice_front it (bc_list c)\<rparr>
            | None \<Rightarrow>
                let c = (if bc_capacity c \<le> length (bc_map c) then
                           let a = last (bc_list c) in
                           case bc_node c a of
                             None \<Rightarrow> c
                           | Some e \<Rightarrow>
                               c\<lparr>bc_map := filter (\<lambda>p. fst p \<noteq> fst e) (bc_map c),
                                 bc_list := butlast (bc_list c),
                                 bc_node := (bc_node c)(a := None)\<rparr>
                         else c);
                    new = bc_fresh c
                in c\<lparr>bc_list := new # bc_list c, bc_node := (bc_node c)(new \<mapsto> (key, blk)),
                     bc_map := (key, new) # bc_map c, bc_fresh := new + 1\<rparr>)"

definition BlockCache_try_get_with :: "nat \<Rightarrow> nat \<Rightarrow> Block res \<Rightarrow> (BlockCache, Block) m" where
  "BlockCache_try_get_with sst_id block_idx loader = (\<lambda>c.
     case BlockCache_get sst_id block_idx c of
       (Some blk, c) \<Rightarrow> Some (Inr blk, c)
     | (None, c) \<Rightarrow>
         (case loader of
            Inl e \<Rightarrow> Some (Inl e, c)
          | Inr blk \<Rightarrow> Some (Inr blk, BlockCache_insert sst_id block_idx (Some blk) c)))"

definition BlockCache_size :: "BlockCache \<Rightarrow> nat" where
  "BlockCache_size c = length (bc_map c)"

section \<open>The list of entries\<close>

definition bc_lru :: "BlockCache \<Rightarrow> (cache_key \<times> Block) list" where
  "bc_lru c = map (\<lambda>a. the (bc_node c a)) (bc_list c)"

text \<open>List, store and map agree.\<close>

definition bc_wf :: "BlockCache \<Rightarrow> bool" where
  "bc_wf c \<longleftrightarrow> distinct (bc_list c) \<and> set (bc_list c) \<subseteq> dom (bc_node c) \<and> (\<forall>a \<in> set (bc_list c). a < bc_fresh c) \<and>
     distinct (map fst (bc_lru c)) \<and> distinct (map fst (bc_map c)) \<and>
     set (bc_map c) = (\<lambda>a. (fst (the (bc_node c a)), a)) ` set (bc_list c) \<and>
     length (bc_list c) \<le> bc_capacity c"

definition lru_get :: "'k \<Rightarrow> ('k \<times> 'v) list \<Rightarrow> 'v option \<times> ('k \<times> 'v) list" where
  "lru_get k L = (case map_of L k of
     None \<Rightarrow> (None, L) | Some v \<Rightarrow> (Some v, (k, v) # filter (\<lambda>p. fst p \<noteq> k) L))"

definition lru_insert :: "nat \<Rightarrow> 'k \<Rightarrow> 'v \<Rightarrow> ('k \<times> 'v) list \<Rightarrow> ('k \<times> 'v) list" where
  "lru_insert cap k v L =
     (if cap = 0 then L
      else if k \<in> fst ` set L then (k, v) # filter (\<lambda>p. fst p \<noteq> k) L
      else (k, v) # (if cap \<le> length L then butlast L else L))"

lemma length_bc_lru: "length (bc_lru c) = length (bc_list c)"
  by (simp add: bc_lru_def)

lemma bc_wf_new [inv_intros]: "bc_wf (BlockCache_new n)"
  by (simp add: bc_wf_def BlockCache_new_def bc_lru_def)

lemma bc_wf_length: "bc_wf c \<Longrightarrow> length (bc_map c) = length (bc_list c)"
proof -
  assume wf: "bc_wf c"
  have "length (bc_map c) = card (set (bc_map c))"
    using wf by (metis bc_wf_def distinct_card distinct_map)
  also have "\<dots> = card (set (bc_list c))"
    using wf unfolding bc_wf_def by (auto intro!: card_image inj_onI)
  also have "\<dots> = length (bc_list c)" using wf by (simp add: bc_wf_def distinct_card)
  finally show ?thesis .
qed

text \<open>Looking a key up in the map finds its node.\<close>

lemma bc_map_Some:
  assumes "bc_wf c"
  shows "map_of (bc_map c) k = Some a \<longleftrightarrow> a \<in> set (bc_list c) \<and> fst (the (bc_node c a)) = k"
proof -
  have "map_of (bc_map c) k = Some a \<longleftrightarrow> (k, a) \<in> set (bc_map c)"
    using assms by (simp add: bc_wf_def)
  then show ?thesis using assms by (auto simp: bc_wf_def)
qed

lemma bc_lru_entry:
  assumes "bc_wf c" and "a \<in> set (bc_list c)"
  shows "map_of (bc_lru c) (fst (the (bc_node c a))) = Some (snd (the (bc_node c a)))"
  using assms by (auto simp: bc_wf_def bc_lru_def intro!: map_of_is_SomeI)

lemma bc_map_None:
  assumes "bc_wf c"
  shows "map_of (bc_map c) k = None \<longleftrightarrow> k \<notin> fst ` set (bc_lru c)"
proof -
  have "fst ` set (bc_map c) = fst ` set (bc_lru c)"
    using assms by (simp add: bc_wf_def bc_lru_def image_image)
  then show ?thesis by (simp add: map_of_eq_None_iff)
qed

lemma remove1_lru:
  assumes "distinct L" and "inj_on (\<lambda>a. fst (g a)) (set L)" and "a \<in> set L"
  shows "map g (remove1 a L) = filter (\<lambda>p. fst p \<noteq> fst (g a)) (map g L)"
proof -
  have "map g (remove1 a L) = map g (filter (\<lambda>b. b \<noteq> a) L)"
    using assms(1) by (simp add: distinct_remove1_removeAll removeAll_filter_not_eq) (metis)
  also have "filter (\<lambda>b. b \<noteq> a) L = filter (\<lambda>b. fst (g b) \<noteq> fst (g a)) L"
    using assms(2,3) by (intro filter_cong) (auto dest: inj_onD)
  finally show ?thesis by (simp add: filter_map comp_def)
qed

lemma bc_inj: "bc_wf c \<Longrightarrow> inj_on (\<lambda>a. fst (the (bc_node c a))) (set (bc_list c))"
  by (simp add: bc_wf_def bc_lru_def distinct_map inj_on_def comp_def)

text \<open>Moving a node to the front.\<close>

lemma bc_splice:
  assumes wf: "bc_wf c" and a: "a \<in> set (bc_list c)" and n: "fst n = fst (the (bc_node c a))"
  defines "c' \<equiv> c\<lparr>bc_node := (bc_node c)(a \<mapsto> n), bc_list := list_splice_front a (bc_list c)\<rparr>"
  shows "bc_wf c'" and "bc_lru c' = n # filter (\<lambda>p. fst p \<noteq> fst n) (bc_lru c)"
proof -
  have d: "distinct (bc_list c)" using wf by (simp add: bc_wf_def)
  have same: "map (\<lambda>b. the (((bc_node c)(a \<mapsto> n)) b)) (remove1 a (bc_list c)) =
      map (\<lambda>b. the (bc_node c b)) (remove1 a (bc_list c))"
    using d by (intro map_cong) auto
  then show lru: "bc_lru c' = n # filter (\<lambda>p. fst p \<noteq> fst n) (bc_lru c)"
    using remove1_lru [OF d bc_inj [OF wf] a] n
    by (simp add: c'_def bc_lru_def list_splice_front_def)
  have "(\<lambda>b. (fst (the (((bc_node c)(a \<mapsto> n)) b)), b)) ` set (bc_list c) =
      (\<lambda>b. (fst (the (bc_node c b)), b)) ` set (bc_list c)"
    using n by (intro image_cong) auto
  moreover have "set (list_splice_front a (bc_list c)) = set (bc_list c)" "distinct (list_splice_front a (bc_list c))"
    "length (list_splice_front a (bc_list c)) = length (bc_list c)"
    using d a by (auto simp: list_splice_front_def length_remove1 distinct_remove1 intro: Suc_pred length_pos_if_in_set)
  moreover have "distinct (map fst (bc_lru c'))"
    unfolding lru using wf by (auto simp: bc_wf_def distinct_map_filter)
  ultimately show "bc_wf c'"
    using wf unfolding bc_wf_def by (simp add: c'_def subset_insertI2)
qed

lemma BlockCache_get_refines:
  assumes "bc_wf c" and "BlockCache_get s i c = (r, c')"
  shows "bc_wf c'" and "lru_get (s, i) (bc_lru c) = (r, bc_lru c')" and "bc_capacity c' = bc_capacity c"
proof -
  have "bc_wf c' \<and> lru_get (s, i) (bc_lru c) = (r, bc_lru c') \<and> bc_capacity c' = bc_capacity c"
  proof (cases "map_of (bc_map c) (s, i)")
    case None
    then have "map_of (bc_lru c) (s, i) = None" using bc_map_None [OF assms(1)] by (simp add: map_of_eq_None_iff)
    with None show ?thesis using assms by (simp add: BlockCache_get_def lru_get_def)
  next
    case (Some a)
    then have a: "a \<in> set (bc_list c)" "fst (the (bc_node c a)) = (s, i)"
      using bc_map_Some [OF assms(1)] by auto
    then obtain b where n: "bc_node c a = Some ((s, i), b)"
      using assms(1) by (cases "bc_node c a") (auto simp: bc_wf_def)
    have c': "c' = c\<lparr>bc_node := (bc_node c)(a \<mapsto> ((s, i), b)), bc_list := list_splice_front a (bc_list c)\<rparr>"
      "r = Some b"
      using assms(2) Some n by (auto simp: BlockCache_get_def fun_upd_idem)
    have "map_of (bc_lru c) (s, i) = Some b" using bc_lru_entry [OF assms(1) a(1)] n by simp
    then show ?thesis
      using bc_splice [OF assms(1) a(1), of "((s, i), b)"] a(2) c' by (simp add: lru_get_def)
  qed
  then show "bc_wf c'" "lru_get (s, i) (bc_lru c) = (r, bc_lru c')" "bc_capacity c' = bc_capacity c"
    by simp_all
qed

text \<open>Evicting the last node, and adding a fresh one.\<close>

lemma bc_evict:
  assumes wf: "bc_wf c" and ne: "bc_list c \<noteq> []"
  defines "a \<equiv> last (bc_list c)"
  defines "c' \<equiv> c\<lparr>bc_map := filter (\<lambda>p. fst p \<noteq> fst (the (bc_node c a))) (bc_map c),
    bc_list := butlast (bc_list c), bc_node := (bc_node c)(a := None)\<rparr>"
  shows "bc_wf c'" and "bc_lru c' = butlast (bc_lru c)"
proof -
  have L: "bc_list c = butlast (bc_list c) @ [a]" using ne by (simp add: a_def)
  have d: "distinct (bc_list c)" using wf by (simp add: bc_wf_def)
  then have na: "a \<notin> set (butlast (bc_list c))" using L by (metis distinct_append list.set_intros(1) disjoint_insert(2) inf_commute list.simps(15))
  have "map (\<lambda>b. the (((bc_node c)(a := None)) b)) (butlast (bc_list c)) = map (\<lambda>b. the (bc_node c b)) (butlast (bc_list c))"
    using na by (intro map_cong) auto
  then show lru: "bc_lru c' = butlast (bc_lru c)" by (simp add: c'_def bc_lru_def map_butlast)
  have inj: "fst (the (bc_node c b)) \<noteq> fst (the (bc_node c a))" if "b \<in> set (butlast (bc_list c))" for b
  proof
    assume "fst (the (bc_node c b)) = fst (the (bc_node c a))"
    with bc_inj [OF wf] have "b = a" by (rule inj_onD) (use that L ne in \<open>auto simp: a_def dest: in_set_butlastD\<close>)
    with that na show False by simp
  qed
  have "set (filter (\<lambda>p. fst p \<noteq> fst (the (bc_node c a))) (bc_map c)) =
      {p \<in> (\<lambda>b. (fst (the (bc_node c b)), b)) ` set (bc_list c). fst p \<noteq> fst (the (bc_node c a))}"
    using wf by (auto simp: bc_wf_def)
  also have "\<dots> = (\<lambda>b. (fst (the (bc_node c b)), b)) ` set (butlast (bc_list c))"
    using inj by (subst L) auto
  also have "\<dots> = (\<lambda>b. (fst (the (((bc_node c)(a := None)) b)), b)) ` set (butlast (bc_list c))"
    using na by (intro image_cong) auto
  finally have "set (bc_map c') = (\<lambda>b. (fst (the (bc_node c' b)), b)) ` set (bc_list c')" by (simp add: c'_def)
  moreover have "distinct (map fst (bc_lru c'))"
    unfolding lru using wf distinct_butlast [of "map fst (bc_lru c)"] by (simp add: bc_wf_def map_butlast)
  ultimately show "bc_wf c'"
    using wf na unfolding bc_wf_def
    by (auto simp: c'_def distinct_butlast distinct_map_filter dest: in_set_butlastD)
qed

lemma bc_add:
  assumes wf: "bc_wf c" and new: "fst n \<notin> fst ` set (bc_lru c)" and cap: "length (bc_list c) < bc_capacity c"
  defines "c' \<equiv> c\<lparr>bc_list := bc_fresh c # bc_list c, bc_node := (bc_node c)(bc_fresh c \<mapsto> n),
    bc_map := (fst n, bc_fresh c) # bc_map c, bc_fresh := bc_fresh c + 1\<rparr>"
  shows "bc_wf c'" and "bc_lru c' = n # bc_lru c"
proof -
  have fresh: "bc_fresh c \<notin> set (bc_list c)" using wf by (auto simp: bc_wf_def)
  have "map (\<lambda>b. the (((bc_node c)(bc_fresh c \<mapsto> n)) b)) (bc_list c) = map (\<lambda>b. the (bc_node c b)) (bc_list c)"
    using fresh by (intro map_cong) auto
  then show lru: "bc_lru c' = n # bc_lru c" by (simp add: c'_def bc_lru_def)
  have "(\<lambda>b. (fst (the (((bc_node c)(bc_fresh c \<mapsto> n)) b)), b)) ` set (bc_list c) =
      (\<lambda>b. (fst (the (bc_node c b)), b)) ` set (bc_list c)"
    using fresh by (intro image_cong) auto
  then have "set (bc_map c') = (\<lambda>b. (fst (the (bc_node c' b)), b)) ` set (bc_list c')"
    using wf by (simp add: c'_def bc_wf_def)
  moreover have "distinct (map fst (bc_lru c'))" unfolding lru using wf new by (simp add: bc_wf_def)
  moreover have "fst n \<notin> fst ` set (bc_map c)"
    using bc_map_None [OF wf, of "fst n"] new by (simp add: map_of_eq_None_iff)
  ultimately show "bc_wf c'"
    using wf fresh cap unfolding bc_wf_def by (auto simp: c'_def)
qed

lemma BlockCache_insert_refines:
  assumes wf: "bc_wf c"
  shows "bc_wf (BlockCache_insert s i (Some b) c)"
    and "bc_lru (BlockCache_insert s i (Some b) c) = lru_insert (bc_capacity c) (s, i) b (bc_lru c)"
    and "bc_capacity (BlockCache_insert s i (Some b) c) = bc_capacity c"
proof -
  let ?c = "BlockCache_insert s i (Some b) c"
  have "bc_wf ?c \<and> bc_lru ?c = lru_insert (bc_capacity c) (s, i) b (bc_lru c) \<and> bc_capacity ?c = bc_capacity c"
  proof (cases "bc_capacity c = 0")
    case True
    then show ?thesis using wf by (simp add: BlockCache_insert_def lru_insert_def)
  next
    case cap: False
    show ?thesis
    proof (cases "map_of (bc_map c) (s, i)")
      case (Some a)
      then have a: "a \<in> set (bc_list c)" "fst (the (bc_node c a)) = (s, i)"
        using bc_map_Some [OF wf] by auto
      have "(s, i) \<in> fst ` set (bc_lru c)" using bc_map_None [OF wf, of "(s, i)"] Some by auto
      then show ?thesis
        using bc_splice [OF wf a(1), of "((s, i), b)"] a(2) cap Some
        by (simp add: BlockCache_insert_def lru_insert_def)
    next
      case None
      then have new: "(s, i) \<notin> fst ` set (bc_lru c)" using bc_map_None [OF wf] by blast
      show ?thesis
      proof (cases "bc_capacity c \<le> length (bc_map c)")
        case False
        then show ?thesis
          using bc_add [OF wf, of "((s, i), b)"] new cap None bc_wf_length [OF wf]
          by (simp add: BlockCache_insert_def lru_insert_def length_bc_lru Let_def)
      next
        case True
        then have ne: "bc_list c \<noteq> []" using cap bc_wf_length [OF wf] by auto
        define a where "a = last (bc_list c)"
        obtain e where e: "bc_node c a = Some e"
          using wf ne last_in_set [OF ne] unfolding bc_wf_def a_def by blast
        define c1 where "c1 = c\<lparr>bc_map := filter (\<lambda>p. fst p \<noteq> fst e) (bc_map c),
            bc_list := butlast (bc_list c), bc_node := (bc_node c)(a := None)\<rparr>"
        have c1: "bc_wf c1" "bc_lru c1 = butlast (bc_lru c)"
          using bc_evict [OF wf ne] e by (simp_all add: c1_def a_def [symmetric])
        have cap1: "bc_capacity c1 = bc_capacity c" by (simp add: c1_def)
        have "length (bc_list c) \<le> bc_capacity c" using wf by (simp add: bc_wf_def)
        then have "length (bc_list c1) < bc_capacity c1" using ne cap by (simp add: c1_def)
        moreover have "fst ((s, i), b) \<notin> fst ` set (bc_lru c1)" using new c1(2) by (auto dest: in_set_butlastD)
        ultimately show ?thesis
          using bc_add [OF c1(1), of "((s, i), b)"] c1(2) new cap None True e bc_wf_length [OF wf] cap1
          by (simp add: BlockCache_insert_def lru_insert_def Let_def a_def [symmetric] c1_def [symmetric] length_bc_lru)
      qed
    qed
  qed
  then show "bc_wf ?c" "bc_lru ?c = lru_insert (bc_capacity c) (s, i) b (bc_lru c)" "bc_capacity ?c = bc_capacity c"
    by simp_all
qed

section \<open>Coherence\<close>

text \<open>Every cached block is the block of its table: \<open>blk\<close> says what the tables hold.\<close>

definition cache_sound :: "(cache_key \<Rightarrow> Block option) \<Rightarrow> BlockCache \<Rightarrow> bool" where
  "cache_sound blk c \<longleftrightarrow> bc_wf c \<and> (\<forall>(k, b) \<in> set (bc_lru c). blk k = Some b)"

lemma set_lru_get: "lru_get k L = (r, L') \<Longrightarrow> distinct (map fst L) \<Longrightarrow> set L' = set L"
  by (force simp: lru_get_def split: option.splits dest: map_of_SomeD eq_key_imp_eq_value)

lemma lru_get_Some: "lru_get k L = (Some v, L') \<Longrightarrow> (k, v) \<in> set L"
  by (auto simp: lru_get_def split: option.splits dest: map_of_SomeD)

lemma set_lru_insert: "set (lru_insert cap k v L) \<subseteq> insert (k, v) (set L)"
  by (auto simp: lru_insert_def dest: in_set_butlastD)

lemma cache_sound_new [inv_intros]: "cache_sound blk (BlockCache_new n)"
  using bc_wf_new by (simp add: cache_sound_def bc_lru_def BlockCache_new_def)

text \<open>Whatever the cache holds, a lookup returns the block of the table, and keeps coherence.\<close>

lemma try_get_with_ok [ok_rules]:
  assumes "blk (s, i) = Some b" and "loader = Inr b"
  shows "ok (cache_sound blk) (BlockCache_try_get_with s i loader) (\<lambda>r. r = b)"
  unfolding ok_def
proof (intro allI impI)
  fix c assume c: "cache_sound blk c"
  obtain r c1 where get: "BlockCache_get s i c = (r, c1)" by fastforce
  have wf: "bc_wf c" using c by (simp add: cache_sound_def)
  note ref = BlockCache_get_refines [OF wf get]
  have "set (bc_lru c1) = set (bc_lru c)" using set_lru_get [OF ref(2)] wf by (simp add: bc_wf_def)
  then have c1: "cache_sound blk c1" using c ref(1) by (simp add: cache_sound_def)
  show "\<exists>x s'. BlockCache_try_get_with s i loader c = Some (Inr x, s') \<and> cache_sound blk s' \<and> x = b"
  proof (cases r)
    case (Some b')
    then have "blk (s, i) = Some b'" using lru_get_Some ref(2) c by (fastforce simp: cache_sound_def)
    then show ?thesis using Some get c1 assms by (simp add: BlockCache_try_get_with_def)
  next
    case None
    have "cache_sound blk (BlockCache_insert s i (Some b) c1)"
      using BlockCache_insert_refines [OF ref(1), of s i b] c1 assms(1)
        set_lru_insert [of "bc_capacity c1" "(s, i)" b "bc_lru c1"]
      by (auto simp: cache_sound_def)
    then show ?thesis using None get assms by (simp add: BlockCache_try_get_with_def)
  qed
qed

section \<open>Runs of the cache\<close>

text \<open>A sequence of lookups and insertions, on the cache and on the specification of an LRU list of
  bounded length; the results of the lookups are collected.\<close>

datatype cache_op = CacheGet cache_key | CacheInsert cache_key Block

fun cache_run :: "cache_op list \<Rightarrow> BlockCache \<Rightarrow> Block option list \<times> BlockCache" where
  "cache_run [] c = ([], c)"
| "cache_run (CacheGet k # ops) c =
     (case BlockCache_get (fst k) (snd k) c of (r, c) \<Rightarrow> apfst ((#) r) (cache_run ops c))"
| "cache_run (CacheInsert k b # ops) c = cache_run ops (BlockCache_insert (fst k) (snd k) (Some b) c)"

fun lru_run :: "nat \<Rightarrow> cache_op list \<Rightarrow> (cache_key \<times> Block) list \<Rightarrow> Block option list \<times> (cache_key \<times> Block) list" where
  "lru_run cap [] L = ([], L)"
| "lru_run cap (CacheGet k # ops) L = (case lru_get k L of (r, L) \<Rightarrow> apfst ((#) r) (lru_run cap ops L))"
| "lru_run cap (CacheInsert k b # ops) L = lru_run cap ops (lru_insert cap k b L)"

lemma cache_run_refines:
  assumes "bc_wf c" and "cache_run ops c = (rs, c')"
  shows "bc_wf c' \<and> lru_run (bc_capacity c) ops (bc_lru c) = (rs, bc_lru c') \<and> bc_capacity c' = bc_capacity c"
  using assms
proof (induction ops c arbitrary: rs c' rule: cache_run.induct)
  case (2 k ops c)
  obtain r d where g: "BlockCache_get (fst k) (snd k) c = (r, d)" by (cases "BlockCache_get (fst k) (snd k) c")
  obtain qs d' where q: "cache_run ops d = (qs, d')" by (cases "cache_run ops d")
  note R = BlockCache_get_refines [OF 2(2) g]
  show ?case using 2(1) [OF g [symmetric] R(1) q] R(2,3) 2(3) g q by auto
next
  case (3 k b ops c)
  note R = BlockCache_insert_refines [OF 3(2), of "fst k" "snd k" b]
  have run: "cache_run ops (BlockCache_insert (fst k) (snd k) (Some b) c) = (rs, c')" using 3(3) by simp
  show ?case using 3(1) [OF R(1) run] R(2,3) by simp
qed simp

section \<open>Properties\<close>

text \<open>C35: the block cache, with its linked list, node handles and hash map, behaves as a least
  recently used list: every sequence of lookups and insertions on a new cache gives the results the
  specification gives, the cache then lists the same blocks in the same order of use, and it never
  holds more than its capacity.\<close>

theorem BlockCache_is_lru:
  assumes "cache_run ops (BlockCache_new n) = (rs, c)"
  shows "lru_run n ops [] = (rs, bc_lru c) \<and> BlockCache_size c \<le> n \<and> BlockCache_size c = length (bc_lru c)"
proof -
  have "bc_capacity (BlockCache_new n) = n" "bc_lru (BlockCache_new n) = []"
    by (simp_all add: BlockCache_new_def bc_lru_def)
  then have "bc_wf c" "bc_capacity c = n" "lru_run n ops [] = (rs, bc_lru c)"
    using cache_run_refines [OF bc_wf_new assms] by simp_all
  then show ?thesis by (simp add: BlockCache_size_def bc_wf_length length_bc_lru) (simp add: bc_wf_def)
qed

definition example_blocks :: "Block \<times> Block" where
  "example_blocks = (\<lparr>blk_data = [1], blk_offsets = []\<rparr>, \<lparr>blk_data = [2], blk_offsets = []\<rparr>)"

theorem BlockCache_is_lru_witness:
  "\<exists>rs c. cache_run [CacheInsert (1, 0) (fst example_blocks), CacheInsert (1, 1) (snd example_blocks), CacheGet (1, 0)]
       (BlockCache_new 1) = (rs, c) \<and>
     lru_run 1 [CacheInsert (1, 0) (fst example_blocks), CacheInsert (1, 1) (snd example_blocks), CacheGet (1, 0)] [] =
       (rs, bc_lru c) \<and> BlockCache_size c \<le> 1"
  using BlockCache_is_lru [of _ 1] by (metis surj_pair)

text \<open>Caching is transparent. If loading a block yields \<open>b\<close>, then \<open>try_get_with\<close> returns \<open>b\<close>
  whether or not it is cached, in every cache that holds only correct blocks, and leaves such a
  cache; if the loader fails on a miss, the error is passed on and nothing is inserted.\<close>

theorem try_get_with_transparent:
  assumes "cache_sound blk c" and "\<And>b. loader = Inr b \<Longrightarrow> blk (s, i) = Some b"
  shows "\<exists>c' r. BlockCache_try_get_with s i loader c = Some (r, c') \<and> cache_sound blk c' \<and>
    (case loader of Inr b \<Rightarrow> r = Inr b
     | Inl e \<Rightarrow> (\<exists>b. blk (s, i) = Some b \<and> r = Inr b) \<or> r = Inl e \<and> c' = c)"
proof (cases loader)
  case (Inr b)
  with assms(2) have "blk (s, i) = Some b" by simp
  from okD [OF try_get_with_ok [of blk s i b loader, OF this Inr] assms(1)] Inr show ?thesis by auto
next
  case (Inl e)
  obtain r d where g: "BlockCache_get s i c = (r, d)" by (cases "BlockCache_get s i c")
  have wf: "bc_wf c" using assms(1) by (simp add: cache_sound_def)
  note R = BlockCache_get_refines [OF wf g]
  have "set (bc_lru d) = set (bc_lru c)" using set_lru_get [OF R(2)] wf by (simp add: bc_wf_def)
  then have d: "cache_sound blk d" using assms(1) R(1) by (simp add: cache_sound_def)
  show ?thesis
  proof (cases r)
    case None
    then have "d = c" using g by (auto simp: BlockCache_get_def Let_def bc_map_Some [OF wf] split: option.splits)
        (use wf in \<open>auto simp: bc_wf_def\<close>)
    then show ?thesis using g None Inl d by (simp add: BlockCache_try_get_with_def)
  next
    case (Some b)
    then have "blk (s, i) = Some b" using lru_get_Some [of "(s, i)" "bc_lru c" b] R(2) assms(1)
      by (auto simp: cache_sound_def)
    then show ?thesis using g Some Inl d by (simp add: BlockCache_try_get_with_def)
  qed
qed

theorem try_get_with_transparent_witness:
  "\<exists>c' r. BlockCache_try_get_with 1 0 (Inr (fst example_blocks)) (BlockCache_new 4) = Some (r, c') \<and>
     cache_sound (\<lambda>k. Some (fst example_blocks)) c' \<and> r = Inr (fst example_blocks)"
  using try_get_with_transparent [OF cache_sound_new, of "Inr (fst example_blocks)" "\<lambda>k. Some (fst example_blocks)" 1 0 4]
  by auto

end
