(* ===== verification/Table.thy ===== *)
theory Table
  imports Block_Iterator Bloom Block_Cache Files
begin

text \<open>
  Sorted string tables (\<open>include/mini_lsm/table.h\<close>, \<open>src/table/builder.cpp\<close>): the block index,
  opening a table file, reading a block, and the builder.

  The functions of the third-party libraries are the record \<open>ext\<close>: zlib's \<open>crc32\<close>, farmhash's
  \<open>Fingerprint32\<close> and snappy, which is absent in a build without \<open>MINI_LSM_SNAPPY\<close>. Only one law is
  ever assumed of them: uncompressing what was compressed gives it back.

  Offsets in the file format are 32 bits wide and lengths 16 bits; the arithmetic on them is done
  on words of the width the code uses. What the definitions compute is in \<open>Table_Format\<close>.
\<close>

section \<open>Third-party code\<close>

record snappy =
  sn_Compress :: "bytes \<Rightarrow> bytes"
  sn_Uncompress :: "bytes \<Rightarrow> bytes option"

record ext =
  ext_crc32 :: zlib_crc32
  ext_Fingerprint32 :: "bytes \<Rightarrow> u32"
  ext_snappy :: "snappy option"

definition snappy_inverts :: "ext \<Rightarrow> bool" where
  "snappy_inverts X \<longleftrightarrow> (case ext_snappy X of
     None \<Rightarrow> True | Some sn \<Rightarrow> (\<forall>d. sn_Uncompress sn (sn_Compress sn d) = Some d))"

definition farmhash_fingerprint32 :: "ext \<Rightarrow> bytes \<Rightarrow> u32" where
  "farmhash_fingerprint32 X key = ext_Fingerprint32 X key"

section \<open>The block index\<close>

record BlockMeta =
  bm_offset :: nat
  bm_first_key :: bytes
  bm_last_key :: bytes

definition BlockMeta_put :: "BlockMeta \<Rightarrow> bytes \<Rightarrow> bytes" where
  "BlockMeta_put m buf =
     (let buf = put_u32_be buf (of_nat (bm_offset m));
          buf = put_u16_be buf (of_nat (length (bm_first_key m)));
          buf = buf @ bm_first_key m;
          buf = put_u16_be buf (of_nat (length (bm_last_key m)))
      in buf @ bm_last_key m)"

definition BlockMeta_encode_block_meta :: "zlib_crc32 \<Rightarrow> BlockMeta list \<Rightarrow> bytes \<Rightarrow> bytes" where
  "BlockMeta_encode_block_meta crc32 meta buf =
     (let orig_len = length buf;
          buf = put_u32_be buf (of_nat (length meta));
          buf = fold BlockMeta_put meta buf;
          checksum = crc32_hash crc32 (drop (orig_len + 4) buf)
      in put_u32_be buf checksum)"

text \<open>The loop that decodes \<open>num\<close> records from \<open>ptr\<close> on.\<close>

fun BlockMeta_decode_loop :: "bytes \<Rightarrow> nat \<Rightarrow> nat \<Rightarrow> BlockMeta list res" where
  "BlockMeta_decode_loop raw ptr 0 = Inr []"
| "BlockMeta_decode_loop raw ptr (Suc n) =
     res_bind (read_u32_be raw ptr) (\<lambda>off.
     res_bind (read_u16_be raw (ptr + 4)) (\<lambda>fk_len.
     res_bind (sub_bytes raw (ptr + 6) (unat fk_len)) (\<lambda>fk.
     res_bind (read_u16_be raw (ptr + 6 + unat fk_len)) (\<lambda>lk_len.
     res_bind (sub_bytes raw (ptr + 8 + unat fk_len) (unat lk_len)) (\<lambda>lk.
     res_bind (BlockMeta_decode_loop raw (ptr + 8 + unat fk_len + unat lk_len) n) (\<lambda>meta.
     Inr (\<lparr>bm_offset = unat off, bm_first_key = fk, bm_last_key = lk\<rparr> # meta)))))))"

definition BlockMeta_decode_block_meta :: "zlib_crc32 \<Rightarrow> bytes \<Rightarrow> BlockMeta list res" where
  "BlockMeta_decode_block_meta crc32 raw =
     res_bind (assert_res ''len >= 8'' (8 \<le> length raw)) (\<lambda>_.
     res_bind (read_u32_be raw 0) (\<lambda>num.
     res_bind (read_u32_be raw (length raw - 4)) (\<lambda>expected_checksum.
     res_bind (sub_bytes raw 4 (length raw - 8)) (\<lambda>body.
     if expected_checksum \<noteq> crc32_hash crc32 body then Inl (Throw ''meta checksum mismatched'')
     else BlockMeta_decode_loop raw 4 (unat num)))))"

section \<open>The table\<close>

record SsTable =
  st_id :: nat
  st_file :: FileObject
  st_first_key :: bytes
  st_last_key :: bytes
  st_block_meta :: "BlockMeta list"
  st_block_meta_offset :: nat
  st_block_cache :: bool
  st_bloom :: "Bloom option"
  st_max_ts :: nat

definition SsTable_num_blocks :: "SsTable \<Rightarrow> nat" where
  "SsTable_num_blocks t = length (st_block_meta t)"

definition SsTable_table_size :: "SsTable \<Rightarrow> nat" where
  "SsTable_table_size t = FileObject_size (st_file t)"

text \<open>\<open>file_len - 4 - bloom_offset\<close> is computed in 64 bits, \<open>bloom_offset - 4 - block_meta_offset\<close>
  in 32 bits.\<close>

definition SsTable_open :: "ext \<Rightarrow> nat \<Rightarrow> bool \<Rightarrow> FileObject \<Rightarrow> SsTable res" where
  "SsTable_open X sst_id block_cache file =
     (let file_len = of_nat (FileObject_size file) :: u64 in
      res_bind (FileObject_read file (unat (file_len - 4)) 4) (\<lambda>raw_bloom_offset.
      res_bind (read_u32_be raw_bloom_offset 0) (\<lambda>bloom_offset.
      res_bind (FileObject_read file (unat bloom_offset) (unat (file_len - 4 - ucast bloom_offset))) (\<lambda>raw_bloom.
      res_bind (Bloom_decode (ext_crc32 X) raw_bloom) (\<lambda>bloom.
      res_bind (FileObject_read file (unat (bloom_offset - 4)) 4) (\<lambda>raw_meta_offset.
      res_bind (read_u32_be raw_meta_offset 0) (\<lambda>block_meta_offset.
      res_bind (FileObject_read file (unat block_meta_offset) (unat (bloom_offset - 4 - block_meta_offset)))
        (\<lambda>raw_meta.
      res_bind (BlockMeta_decode_block_meta (ext_crc32 X) raw_meta) (\<lambda>block_meta.
      if block_meta = [] then Inl (OutOfRange ''block_meta.front()'')
      else Inr \<lparr>st_id = sst_id, st_file = file, st_first_key = bm_first_key (hd block_meta),
             st_last_key = bm_last_key (last block_meta), st_block_meta = block_meta,
             st_block_meta_offset = unat block_meta_offset, st_block_cache = block_cache,
             st_bloom = Some bloom, st_max_ts = 0\<rparr>)))))))))"

definition SsTable_read_block :: "ext \<Rightarrow> SsTable \<Rightarrow> nat \<Rightarrow> Block res" where
  "SsTable_read_block X t block_idx =
     res_bind (assert_res ''block_idx < block_meta.size()'' (block_idx < length (st_block_meta t))) (\<lambda>_.
     let offset = of_nat (bm_offset (st_block_meta t ! block_idx)) :: u64;
         offset_end = of_nat (if block_idx + 1 < length (st_block_meta t)
           then bm_offset (st_block_meta t ! (block_idx + 1)) else st_block_meta_offset t) :: u64;
         block_len_with_flag = offset_end - offset - 4 in
     res_bind (FileObject_read (st_file t) (unat offset) (unat (offset_end - offset))) (\<lambda>data_with_chksum.
     res_bind (read_u32_be data_with_chksum (unat block_len_with_flag)) (\<lambda>expected_checksum.
     res_bind (sub_bytes data_with_chksum 0 (unat block_len_with_flag)) (\<lambda>body.
     if expected_checksum \<noteq> crc32_hash (ext_crc32 X) body then Inl (Throw ''block checksum mismatched'')
     else
       res_bind (sub_bytes data_with_chksum 0 1) (\<lambda>flag.
       let payload = sub_bytes data_with_chksum 1 (unat (block_len_with_flag - 1)) in
       if flag = [0x00] then res_bind payload Block_decode
       else if flag = [0x01] then
         (case ext_snappy X of
            Some sn \<Rightarrow>
              res_bind payload (\<lambda>compressed.
              case sn_Uncompress sn compressed of
                None \<Rightarrow> Inl (Throw ''failed to uncompress snappy block'')
              | Some uncompressed \<Rightarrow> Block_decode uncompressed)
          | None \<Rightarrow> Inl (Throw ''block was compressed with Snappy, but Snappy support is not enabled in this build''))
       else Inl (Throw (''unknown compression flag: '' @ decimal (unat (hd flag)))))))))"

definition SsTable_read_block_cached :: "ext \<Rightarrow> SsTable \<Rightarrow> nat \<Rightarrow> (BlockCache, Block) m" where
  "SsTable_read_block_cached X t block_idx =
     (if st_block_cache t
      then BlockCache_try_get_with (st_id t) block_idx (SsTable_read_block X t block_idx)
      else m_lift (SsTable_read_block X t block_idx))"

text \<open>\<open>std::upper_bound\<close> on a range in which \<open>key < first_key\<close> is false first and then true.\<close>

definition SsTable_find_block_idx :: "SsTable \<Rightarrow> bytes \<Rightarrow> nat" where
  "SsTable_find_block_idx t key =
     (let idx = length (takeWhile (\<lambda>m. \<not> KeySlice_lt key (bm_first_key m)) (st_block_meta t))
      in if idx > 0 then idx - 1 else 0)"

section \<open>The builder\<close>

datatype CompressionType = NoCompression | Snappy

record SsTableBuilder =
  sb_builder :: BlockBuilder
  sb_first_key :: bytes
  sb_last_key :: bytes
  sb_data :: bytes
  sb_meta :: "BlockMeta list"
  sb_block_size :: nat
  sb_compression :: CompressionType
  sb_key_hashes :: "u32 list"

definition SsTableBuilder_new :: "nat \<Rightarrow> CompressionType \<Rightarrow> SsTableBuilder" where
  "SsTableBuilder_new block_size compression =
     \<lparr>sb_builder = BlockBuilder_new block_size, sb_first_key = [], sb_last_key = [], sb_data = [],
      sb_meta = [], sb_block_size = block_size, sb_compression = compression, sb_key_hashes = []\<rparr>"

definition SsTableBuilder_set_compression :: "CompressionType \<Rightarrow> SsTableBuilder \<Rightarrow> SsTableBuilder" where
  "SsTableBuilder_set_compression compression b = b\<lparr>sb_compression := compression\<rparr>"

text \<open>What the block becomes in the file: the flag and the bytes behind it. The keys are moved out of
  the builder, which leaves them empty.\<close>

definition SsTableBuilder_compress :: "ext \<Rightarrow> CompressionType \<Rightarrow> bytes \<Rightarrow> byte \<times> bytes" where
  "SsTableBuilder_compress X compression block_data =
     (case ext_snappy X of
        Some sn \<Rightarrow> if compression = Snappy then (0x01, sn_Compress sn block_data) else (0x00, block_data)
      | None \<Rightarrow> (0x00, block_data))"

definition SsTableBuilder_finish_block :: "ext \<Rightarrow> SsTableBuilder \<Rightarrow> SsTableBuilder res" where
  "SsTableBuilder_finish_block X b =
     (if BlockBuilder_is_empty (sb_builder b) then Inr b
      else
        res_bind (BlockBuilder_build (sb_builder b)) (\<lambda>blk.
        case SsTableBuilder_compress X (sb_compression b) (Block_encode blk) of (flag_byte, block_data) \<Rightarrow>
        let meta = sb_meta b @ [\<lparr>bm_offset = length (sb_data b), bm_first_key = sb_first_key b,
                bm_last_key = sb_last_key b\<rparr>];
            data = sb_data b @ [flag_byte];
            data = data @ block_data;
            checksum = crc32_hash (ext_crc32 X) (drop (length data - length block_data - 1) data);
            data = put_u32_be data checksum
        in Inr (b\<lparr>sb_builder := BlockBuilder_new (sb_block_size b), sb_first_key := [], sb_last_key := [],
             sb_meta := meta, sb_data := data\<rparr>)))"

definition SsTableBuilder_add :: "ext \<Rightarrow> SsTableBuilder \<Rightarrow> bytes \<Rightarrow> bytes \<Rightarrow> SsTableBuilder res" where
  "SsTableBuilder_add X b key val =
     (let b = (if sb_first_key b = [] then b\<lparr>sb_first_key := key\<rparr> else b);
          b = b\<lparr>sb_key_hashes := sb_key_hashes b @ [farmhash_fingerprint32 X key]\<rparr> in
      res_bind (BlockBuilder_add (sb_builder b) key val) (\<lambda>(added, builder).
      let b = b\<lparr>sb_builder := builder\<rparr> in
      if added then Inr (b\<lparr>sb_last_key := key\<rparr>)
      else
        res_bind (SsTableBuilder_finish_block X b) (\<lambda>b.
        res_bind (BlockBuilder_add (sb_builder b) key val) (\<lambda>(added, builder).
        res_bind (assert_res ''added'' added) (\<lambda>_.
        Inr (b\<lparr>sb_builder := builder, sb_first_key := key, sb_last_key := key\<rparr>))))))"

definition SsTableBuilder_estimated_size :: "SsTableBuilder \<Rightarrow> nat" where
  "SsTableBuilder_estimated_size b = length (sb_data b)"

definition SsTableBuilder_is_empty :: "SsTableBuilder \<Rightarrow> bool" where
  "SsTableBuilder_is_empty b = (sb_meta b = [] \<and> BlockBuilder_is_empty (sb_builder b))"

text \<open>The bytes \<open>build\<close> writes.\<close>

definition SsTableBuilder_file :: "ext \<Rightarrow> SsTableBuilder \<Rightarrow> bytes res" where
  "SsTableBuilder_file X b =
     res_bind (SsTableBuilder_finish_block X b) (\<lambda>b.
     let buf = sb_data b;
         meta_offset = length buf;
         buf = BlockMeta_encode_block_meta (ext_crc32 X) (sb_meta b) buf;
         buf = put_u32_be buf (of_nat meta_offset) in
     res_bind (Bloom_bloom_bits_per_key (length (sb_key_hashes b)) 0.01) (\<lambda>bits_per_key.
     let bloom = Bloom_build_from_key_hashes (sb_key_hashes b) bits_per_key;
         bloom_offset = length buf;
         buf = Bloom_encode (ext_crc32 X) bloom buf
     in Inr (put_u32_be buf (of_nat bloom_offset))))"

lemmas SsTableBuilder_file_code [code] = SsTableBuilder_file_def [unfolded Bloom_default_bits]

definition SsTableBuilder_build ::
  "ext \<Rightarrow> io \<Rightarrow> SsTableBuilder \<Rightarrow> nat \<Rightarrow> bool \<Rightarrow> string \<Rightarrow> (fs, SsTable) m" where
  "SsTableBuilder_build X io b sst_id block_cache path =
     m_bind (m_lift (SsTableBuilder_file X b)) (\<lambda>buf.
     m_bind (FileObject_create io path buf) (\<lambda>file.
     m_lift (SsTable_open X sst_id block_cache file)))"

definition SsTableBuilder_build_for_test ::
  "ext \<Rightarrow> io \<Rightarrow> SsTableBuilder \<Rightarrow> string \<Rightarrow> (fs, SsTable) m" where
  "SsTableBuilder_build_for_test X io b path = SsTableBuilder_build X io b 0 False path"

end
