(* ===== verification/Table_Format.thy ===== *)
theory Table_Format
  imports Table
begin

text \<open>
  The format of a table file. \<open>table_image\<close> is the file for a list of blocks. The lemmas show that
  the builder writes it, that \<open>SsTable::open\<close> accepts it and that \<open>SsTable::read_block\<close> reads it
  back, block by block, through the cache or not.
\<close>

section \<open>The format of a table file\<close>

definition block_image :: "ext \<Rightarrow> CompressionType \<Rightarrow> entry list \<Rightarrow> bytes" where
  "block_image X cm es =
     (case SsTableBuilder_compress X cm (Block_encode (block_of es)) of (flag, d) \<Rightarrow>
        flag # d @ put_u32_be [] (crc32_hash (ext_crc32 X) (flag # d)))"

definition data_image :: "ext \<Rightarrow> CompressionType \<Rightarrow> entry list list \<Rightarrow> bytes" where
  "data_image X cm runs = concat (map (block_image X cm) runs)"

definition run_meta :: "ext \<Rightarrow> CompressionType \<Rightarrow> entry list list \<Rightarrow> nat \<Rightarrow> BlockMeta" where
  "run_meta X cm runs i =
     \<lparr>bm_offset = length (data_image X cm (take i runs)), bm_first_key = fst (hd (runs ! i)),
      bm_last_key = fst (last (runs ! i))\<rparr>"

definition index_of :: "ext \<Rightarrow> CompressionType \<Rightarrow> entry list list \<Rightarrow> BlockMeta list" where
  "index_of X cm runs = map (run_meta X cm runs) [0..<length runs]"

definition bloom_of :: "ext \<Rightarrow> entry list list \<Rightarrow> Bloom" where
  "bloom_of X runs =
     Bloom_build_from_key_hashes (map (\<lambda>e. farmhash_fingerprint32 X (fst e)) (concat runs)) 10"

definition meta_code :: "BlockMeta \<Rightarrow> bytes" where
  "meta_code m = put_u32_be [] (of_nat (bm_offset m)) @ put_u16_be [] (of_nat (length (bm_first_key m))) @
     bm_first_key m @ put_u16_be [] (of_nat (length (bm_last_key m))) @ bm_last_key m"

definition index_image :: "ext \<Rightarrow> BlockMeta list \<Rightarrow> bytes" where
  "index_image X ms = put_u32_be [] (of_nat (length ms)) @ concat (map meta_code ms) @
     put_u32_be [] (crc32_hash (ext_crc32 X) (concat (map meta_code ms)))"

definition table_image :: "ext \<Rightarrow> CompressionType \<Rightarrow> entry list list \<Rightarrow> bytes" where
  "table_image X cm runs =
     (let data = data_image X cm runs; idx = index_image X (index_of X cm runs) in
      data @ idx @ put_u32_be [] (of_nat (length data)) @
      Bloom_encode (ext_crc32 X) (bloom_of X runs) [] @
      put_u32_be [] (of_nat (length data + length idx + 4)))"

text \<open>The blocks of a table file the format can express.\<close>

definition wf_runs :: "ext \<Rightarrow> CompressionType \<Rightarrow> entry list list \<Rightarrow> bool" where
  "wf_runs X cm runs \<longleftrightarrow> runs \<noteq> [] \<and> (\<forall>r \<in> set runs. wf_block r) \<and>
     length (table_image X cm runs) < 2 ^ 32"

section \<open>The block index\<close>

lemma BlockMeta_put_eq: "BlockMeta_put m buf = buf @ meta_code m"
proof -
  have "put_u16_be (put_u16_be (put_u32_be buf a @ []) b @ k) c = buf @ put_u32_be [] a @ put_u16_be [] b @ k @ put_u16_be [] c"
    for a b c k
    by (subst u16.put_append, subst (2) u16.put_append, subst u32.put_append) simp
  then show ?thesis by (simp add: BlockMeta_put_def meta_code_def Let_def)
qed

lemma fold_BlockMeta_put: "fold BlockMeta_put ms buf = buf @ concat (map meta_code ms)"
  by (induction ms arbitrary: buf) (simp_all add: BlockMeta_put_eq)

lemma encode_block_meta_eq: "BlockMeta_encode_block_meta (ext_crc32 X) ms buf = buf @ index_image X ms"
proof -
  let ?n = "put_u32_be [] (of_nat (length ms))" and ?body = "concat (map meta_code ms)"
  have 1: "fold BlockMeta_put ms (put_u32_be buf (of_nat (length ms))) = (buf @ ?n) @ ?body"
    by (simp only: fold_BlockMeta_put u32.put_append [of buf])
  have "length (buf @ ?n) = length buf + 4" by simp
  then have 2: "drop (length buf + 4) ((buf @ ?n) @ ?body) = ?body"
    by (metis append_eq_conv_conj)
  show ?thesis
    unfolding BlockMeta_encode_block_meta_def Let_def 1 2
    by (subst u32.put_append) (simp add: index_image_def)
qed

definition wf_meta :: "BlockMeta \<Rightarrow> bool" where
  "wf_meta m \<longleftrightarrow> bm_offset m < 2 ^ 32 \<and> length (bm_first_key m) < 2 ^ 16 \<and> length (bm_last_key m) < 2 ^ 16"

lemma length_meta_code: "length (meta_code m) = 8 + length (bm_first_key m) + length (bm_last_key m)"
  by (simp add: meta_code_def)

lemma BlockMeta_decode_loop_image:
  assumes "\<forall>m \<in> set ms. wf_meta m"
  shows "BlockMeta_decode_loop (pre @ concat (map meta_code ms) @ post) (length pre) (length ms) = Inr ms"
  using assms
proof (induction ms arbitrary: pre)
  case (Cons m ms)
  let ?raw = "pre @ concat (map meta_code (m # ms)) @ post" and ?p = "length pre"
  let ?tl = "concat (map meta_code ms) @ post"
  let ?o = "put_u32_be [] (of_nat (bm_offset m))" and ?f = "put_u16_be [] (of_nat (length (bm_first_key m)))"
    and ?l = "put_u16_be [] (of_nat (length (bm_last_key m)))"
  have wf: "unat (of_nat (bm_offset m) :: u32) = bm_offset m"
    "unat (of_nat (length (bm_first_key m)) :: u16) = length (bm_first_key m)"
    "unat (of_nat (length (bm_last_key m)) :: u16) = length (bm_last_key m)"
    using Cons.prems by (simp_all add: wf_meta_def)
  have raw: "?raw = pre @ ?o @ (?f @ bm_first_key m @ ?l @ bm_last_key m @ ?tl)"
    "?raw = (pre @ ?o) @ ?f @ (bm_first_key m @ ?l @ bm_last_key m @ ?tl)"
    "?raw = (pre @ ?o @ ?f) @ bm_first_key m @ (?l @ bm_last_key m @ ?tl)"
    "?raw = (pre @ ?o @ ?f @ bm_first_key m) @ ?l @ (bm_last_key m @ ?tl)"
    "?raw = (pre @ ?o @ ?f @ bm_first_key m @ ?l) @ bm_last_key m @ ?tl"
    "?raw = (pre @ meta_code m) @ ?tl"
    by (simp_all add: meta_code_def)
  have "read_u32_be ?raw ?p = Inr (of_nat (bm_offset m))"
    unfolding raw(1) by (rule u32.rd_at) simp
  moreover have "read_u16_be ?raw (?p + 4) = Inr (of_nat (length (bm_first_key m)))"
    unfolding raw(2) by (rule u16.rd_at) simp
  moreover have "sub_bytes ?raw (?p + 6) (length (bm_first_key m)) = Inr (bm_first_key m)"
    unfolding raw(3) by (rule sub_bytes_append) simp_all
  moreover have "read_u16_be ?raw (?p + 6 + length (bm_first_key m)) = Inr (of_nat (length (bm_last_key m)))"
    unfolding raw(4) by (rule u16.rd_at) simp
  moreover have "sub_bytes ?raw (?p + 8 + length (bm_first_key m)) (length (bm_last_key m)) = Inr (bm_last_key m)"
    unfolding raw(5) by (rule sub_bytes_append) simp_all
  moreover have "BlockMeta_decode_loop ?raw (?p + 8 + length (bm_first_key m) + length (bm_last_key m)) (length ms) = Inr ms"
    unfolding raw(6) using Cons.IH [of "pre @ meta_code m"] Cons.prems by (simp add: length_meta_code add.assoc)
  ultimately show ?case
    unfolding list.size(4) add_Suc_right add_0_right BlockMeta_decode_loop.simps
    by (simp only: res_bind_simps wf) simp
qed simp

lemma decode_index_image:
  assumes "\<forall>m \<in> set ms. wf_meta m" and "length ms < 2 ^ 32"
  shows "BlockMeta_decode_block_meta (ext_crc32 X) (index_image X ms) = Inr ms"
proof -
  let ?n = "put_u32_be [] (of_nat (length ms))" and ?body = "concat (map meta_code ms)"
  let ?c = "put_u32_be [] (crc32_hash (ext_crc32 X) ?body)" and ?raw = "index_image X ms"
  have raw: "?raw = [] @ ?n @ (?body @ ?c)" "?raw = (?n @ ?body) @ ?c @ []" "?raw = ?n @ ?body @ ?c"
    by (simp_all add: index_image_def)
  have len: "length ?raw = length ?body + 8" by (simp add: index_image_def)
  have "read_u32_be ?raw 0 = Inr (of_nat (length ms))"
    unfolding raw(1) by (rule u32.rd_at) simp
  moreover have "read_u32_be ?raw (length ?raw - 4) = Inr (crc32_hash (ext_crc32 X) ?body)"
    unfolding len unfolding raw(2) by (rule u32.rd_at) simp
  moreover have "sub_bytes ?raw 4 (length ?raw - 8) = Inr ?body"
    unfolding len unfolding raw(3) by (rule sub_bytes_append) simp_all
  moreover have "BlockMeta_decode_loop ?raw 4 (length ms) = Inr ms"
    using BlockMeta_decode_loop_image [OF assms(1), of ?n ?c] by (simp add: raw(3))
  moreover have "unat (of_nat (length ms) :: u32) = length ms" using assms(2) by simp
  moreover have "8 \<le> length ?raw" by (simp add: len)
  ultimately show ?thesis
    unfolding BlockMeta_decode_block_meta_def by simp
qed

section \<open>Opening a table\<close>

lemma unat_diff_u64: "b \<le> a \<Longrightarrow> a < 2 ^ 64 \<Longrightarrow> unat (of_nat a - of_nat b :: u64) = a - b"
  using unat_of_nat_narrow(3) [of "a - b"] by (simp add: of_nat_diff)

lemma ucast_of_nat_u64: "n < 2 ^ 32 \<Longrightarrow> (ucast (of_nat n :: u32) :: u64) = of_nat n"
  by (simp add: unsigned_of_nat take_bit_nat_eq_self)

text \<open>The table the reader sees.\<close>

definition table_of :: "ext \<Rightarrow> CompressionType \<Rightarrow> nat \<Rightarrow> bool \<Rightarrow> entry list list \<Rightarrow> SsTable" where
  "table_of X cm sst_id cached runs =
     \<lparr>st_id = sst_id, st_file = \<lparr>fo_content = table_image X cm runs\<rparr>,
      st_first_key = fst (hd (hd runs)), st_last_key = fst (last (last runs)),
      st_block_meta = index_of X cm runs, st_block_meta_offset = length (data_image X cm runs),
      st_block_cache = cached, st_bloom = Some (bloom_of X runs), st_max_ts = 0\<rparr>"

lemma length_index_of [simp]: "length (index_of X cm runs) = length runs"
  by (simp add: index_of_def)

lemma length_data_take: "length (data_image X cm (take i runs)) \<le> length (data_image X cm runs)"
proof -
  have "data_image X cm runs = data_image X cm (take i runs) @ data_image X cm (drop i runs)"
    by (simp add: data_image_def concat_append [symmetric] map_append [symmetric] del: concat_append map_append)
  then show ?thesis by simp
qed

lemma length_table_image:
  "length (table_image X cm runs) = length (data_image X cm runs) + length (index_image X (index_of X cm runs)) +
     4 + length (Bloom_encode (ext_crc32 X) (bloom_of X runs) []) + 4"
  by (simp add: table_image_def Let_def)

lemma length_index_image: "length ms + 8 \<le> length (index_image X ms)"
proof -
  have "length ms \<le> length (concat (map meta_code ms))"
    by (induction ms) (auto simp: length_meta_code)
  then show ?thesis by (simp add: index_image_def)
qed

lemma wf_runs_lengths:
  assumes "wf_runs X cm runs"
  shows "length (data_image X cm runs) + length (index_image X (index_of X cm runs)) + 4 < 2 ^ 32"
    and "length runs < 2 ^ 32"
  using assms length_index_image [of "index_of X cm runs" X] unfolding wf_runs_def length_table_image by auto

lemma wf_block_keys: "wf_block r \<Longrightarrow> length (fst (hd r)) < 2 ^ 16 \<and> length (fst (last r)) < 2 ^ 16"
  by (cases r) (auto simp: wf_block_def wf_entry_def)

lemma wf_meta_index:
  assumes "wf_runs X cm runs" and "m \<in> set (index_of X cm runs)"
  shows "wf_meta m"
proof -
  from assms(2) obtain i where i: "i < length runs" "m = run_meta X cm runs i" by (auto simp: index_of_def)
  have "wf_block (runs ! i)" using assms(1) i(1) by (simp add: wf_runs_def)
  moreover have "length (data_image X cm (take i runs)) < 2 ^ 32"
    using length_data_take [of X cm i runs] wf_runs_lengths(1) [OF assms(1)] by linarith
  ultimately show ?thesis using i(2) wf_block_keys [of "runs ! i"] by (simp add: wf_meta_def run_meta_def)
qed

lemma index_of_ends:
  assumes "runs \<noteq> []"
  shows "bm_first_key (hd (index_of X cm runs)) = fst (hd (hd runs))"
    and "bm_last_key (last (index_of X cm runs)) = fst (last (last runs))"
  using assms by (simp_all add: index_of_def hd_map last_map run_meta_def hd_conv_nth last_conv_nth)

lemma SsTable_open_image:
  assumes wf: "wf_runs X cm runs"
  shows "SsTable_open X sst_id cached \<lparr>fo_content = table_image X cm runs\<rparr> = Inr (table_of X cm sst_id cached runs)"
proof -
  define D I B where defs: "D = data_image X cm runs" "I = index_image X (index_of X cm runs)"
    "B = Bloom_encode (ext_crc32 X) (bloom_of X runs) []"
  let ?M = "put_u32_be [] (of_nat (length D))" and ?O = "put_u32_be [] (of_nat (length D + length I + 4))"
  define T where "T = table_image X cm runs"
  let ?file = "\<lparr>fo_content = T\<rparr>"
  have T: "T = (D @ I @ ?M @ B) @ ?O @ []" "T = (D @ I @ ?M) @ B @ ?O" "T = (D @ I) @ ?M @ (B @ ?O)" "T = D @ I @ (?M @ B @ ?O)"
    by (simp_all add: T_def table_image_def defs Let_def)
  have len: "length T = length D + length I + length B + 8" using T(4) by simp
  have small: "length T < 2 ^ 32" using wf by (simp add: wf_runs_def T_def)
  have u: "unat (of_nat (length T) - 4 :: u64) = length T - 4"
    "unat (of_nat (length T) - 4 - ucast (of_nat (length D + length I + 4) :: u32) :: u64) = length B"
    "unat (of_nat (length D + length I + 4) - 4 :: u32) = length D + length I"
    "unat (of_nat (length D + length I + 4) - 4 - of_nat (length D) :: u32) = length I"
    "unat (of_nat (length D + length I + 4) :: u32) = length D + length I + 4"
    "unat (of_nat (length D) :: u32) = length D"
  proof -
    show "unat (of_nat (length T) - 4 :: u64) = length T - 4"
      using unat_diff_u64 [of 4 "length T"] len small by simp
    have "of_nat (length T) - 4 - of_nat (length D + length I + 4) = (of_nat (length T) - of_nat (length D + length I + 8) :: u64)"
      by simp
    then show "unat (of_nat (length T) - 4 - ucast (of_nat (length D + length I + 4) :: u32) :: u64) = length B"
      using unat_diff_u64 [of "length D + length I + 8" "length T"] len small
      by (subst ucast_of_nat_u64) simp_all
    show "unat (of_nat (length D + length I + 4) - 4 :: u32) = length D + length I"
      using unat_of_nat_narrow(2) [of "length D + length I"] len small by simp
    show "unat (of_nat (length D + length I + 4) - 4 - of_nat (length D) :: u32) = length I"
      using unat_of_nat_narrow(2) [of "length I"] len small by simp
    show "unat (of_nat (length D + length I + 4) :: u32) = length D + length I + 4" "unat (of_nat (length D) :: u32) = length D"
      using len small by (intro unat_of_nat_narrow(2); simp)+
  qed
  have "FileObject_read ?file (length T - 4) 4 = Inr ?O"
    by (rule FileObject_read_append [of _ "D @ I @ ?M @ B" _ "[]"]) (use T(1) len in simp_all)
  moreover have "FileObject_read ?file (length D + length I + 4) (length B) = Inr B"
    by (rule FileObject_read_append [of _ "D @ I @ ?M"]) (use T(2) in simp_all)
  moreover have "FileObject_read ?file (length D + length I) 4 = Inr ?M"
    by (rule FileObject_read_append [of _ "D @ I"]) (use T(3) in simp_all)
  moreover have "FileObject_read ?file (length D) (length I) = Inr I"
    by (rule FileObject_read_append [of _ D]) (use T(4) in simp_all)
  moreover have "read_u32_be (put_u32_be [] v) 0 = Inr v" for v by (rule u32.rd_put)
  moreover have "Bloom_decode (ext_crc32 X) B = Inr (bloom_of X runs)" by (simp add: defs Bloom_decode_encode)
  moreover have "BlockMeta_decode_block_meta (ext_crc32 X) I = Inr (index_of X cm runs)"
    unfolding defs using wf_meta_index [OF wf] wf_runs_lengths(2) [OF wf] by (intro decode_index_image) simp_all
  moreover have ne: "index_of X cm runs \<noteq> []" "runs \<noteq> []" using wf by (auto simp: wf_runs_def index_of_def)
  ultimately show ?thesis
    unfolding SsTable_open_def Let_def T_def [symmetric] FileObject_size_def FileObject.simps
    by (simp only: u res_bind_simps if_False simp_thms)
      (simp add: table_of_def T_def defs index_of_ends ne(2))
qed

section \<open>Reading a block\<close>

lemma data_image_split:
  assumes "i < length runs"
  shows "data_image X cm runs =
    data_image X cm (take i runs) @ block_image X cm (runs ! i) @ data_image X cm (drop (Suc i) runs)"
proof -
  have "data_image X cm runs = data_image X cm (take i runs @ runs ! i # drop (Suc i) runs)"
    by (simp only: id_take_nth_drop [OF assms, symmetric])
  then show ?thesis by (simp add: data_image_def)
qed

lemma data_image_Suc:
  "i < length runs \<Longrightarrow> data_image X cm (take (Suc i) runs) = data_image X cm (take i runs) @ block_image X cm (runs ! i)"
  by (simp add: data_image_def take_Suc_conv_app_nth)

text \<open>What the reader makes of the bytes of one block.\<close>

lemma uncompress_block:
  assumes "snappy_inverts X" and "SsTableBuilder_compress X cm d = (flag, d')"
  shows "(flag = 0x00 \<and> d' = d) \<or>
    (flag = 0x01 \<and> (\<exists>sn. ext_snappy X = Some sn \<and> sn_Uncompress sn d' = Some d))"
  using assms by (auto simp: SsTableBuilder_compress_def snappy_inverts_def split: option.splits if_splits)

lemma SsTable_read_block_image:
  assumes wf: "wf_runs X cm runs" and sn: "snappy_inverts X" and i: "i < length runs"
  shows "SsTable_read_block X (table_of X cm sst_id cached runs) i = Inr (block_of (runs ! i))"
proof -
  obtain flag d where c: "SsTableBuilder_compress X cm (Block_encode (block_of (runs ! i))) = (flag, d)"
    by fastforce
  let ?c = "put_u32_be [] (crc32_hash (ext_crc32 X) (flag # d))" and ?n = "Suc (length d)"
  let ?pre = "data_image X cm (take i runs)" and ?img = "block_image X cm (runs ! i)"
  have img: "?img = (flag # d) @ ?c @ []" "?img = [] @ (flag # d) @ ?c" "?img = [] @ [flag] @ (d @ ?c)"
    "?img = [flag] @ d @ ?c" "length ?img = ?n + 4"
    using c by (simp_all add: block_image_def)
  obtain rest where T: "table_image X cm runs = ?pre @ ?img @ rest"
    using data_image_split [OF i, of X cm] by (simp add: table_image_def Let_def)
  have small: "length ?pre + length ?img < 2 ^ 32" using wf T by (simp add: wf_runs_def)
  have start: "bm_offset (index_of X cm runs ! i) = length ?pre" using i by (simp add: index_of_def run_meta_def)
  have stop: "(if i + 1 < length runs then bm_offset (index_of X cm runs ! (i + 1)) else length (data_image X cm runs))
      = length ?pre + length ?img"
  proof (cases "i + 1 < length runs")
    case True
    then show ?thesis using i data_image_Suc [OF i, of X cm] by (simp add: index_of_def run_meta_def)
  next
    case False
    then show ?thesis using i data_image_split [OF i, of X cm] by (simp add: data_image_def)
  qed
  have u: "unat (of_nat (length ?pre) :: u64) = length ?pre"
    "unat (of_nat (length ?pre + length ?img) - of_nat (length ?pre) :: u64) = length ?img"
    "unat (of_nat (length ?pre + length ?img) - of_nat (length ?pre) - 4 :: u64) = ?n"
    "unat (of_nat (length ?pre + length ?img) - of_nat (length ?pre) - 4 - 1 :: u64) = length d"
    using small unat_of_nat_narrow(3) [of "length ?pre"] unat_of_nat_narrow(3) [of "length ?img"]
      unat_of_nat_narrow(3) [of ?n] unat_of_nat_narrow(3) [of "length d"]
    by (simp_all add: img(5))
  have "FileObject_read \<lparr>fo_content = table_image X cm runs\<rparr> (length ?pre) (length ?img) = Inr ?img"
    by (rule FileObject_read_append [of _ ?pre]) (simp_all add: T)
  moreover have "read_u32_be ?img ?n = Inr (crc32_hash (ext_crc32 X) (flag # d))"
    unfolding img(1) by (rule u32.rd_at) simp
  moreover have "sub_bytes ?img 0 ?n = Inr (flag # d)"
    unfolding img(2) by (rule sub_bytes_append) simp_all
  moreover have "sub_bytes ?img 0 1 = Inr [flag]"
    unfolding img(3) by (rule sub_bytes_append) simp_all
  moreover have "sub_bytes ?img 1 (length d) = Inr d"
    unfolding img(4) by (rule sub_bytes_append) simp_all
  moreover have "Block_decode (Block_encode (block_of (runs ! i))) = Inr (block_of (runs ! i))"
    using wf i by (intro Block_decode_encode) (simp add: wf_runs_def wf_block_def)
  moreover have len: "(i < length (index_of X cm runs)) = True" using i by simp
  ultimately show ?thesis
    unfolding SsTable_read_block_def table_of_def SsTable.simps Let_def length_index_of start stop
    using uncompress_block [OF sn c] i
    by (simp only: u res_bind_simps assert_res_simps simp_thms if_False if_True len) auto
qed

text \<open>The blocks of a family of tables; a cache coherent with them serves every read.\<close>

definition blocks_of :: "(nat \<Rightarrow> entry list list option) \<Rightarrow> cache_key \<Rightarrow> Block option" where
  "blocks_of tables k = (case tables (fst k) of
     None \<Rightarrow> None | Some runs \<Rightarrow> if snd k < length runs then Some (block_of (runs ! snd k)) else None)"

lemma SsTable_read_block_cached_image:
  assumes "wf_runs X cm runs" and "snappy_inverts X" and "i < length runs"
    and "cached \<Longrightarrow> tables sst_id = Some runs"
  shows "ok (cache_sound (blocks_of tables)) (SsTable_read_block_cached X (table_of X cm sst_id cached runs) i)
    (\<lambda>b. b = block_of (runs ! i))"
proof -
  note rd = SsTable_read_block_image [OF assms(1-3), of sst_id cached]
  have "st_block_cache (table_of X cm sst_id cached runs) = cached" "st_id (table_of X cm sst_id cached runs) = sst_id"
    by (simp_all add: table_of_def)
  then show ?thesis
    unfolding SsTable_read_block_cached_def rd
    using assms(3,4) by (auto simp: blocks_of_def intro!: ok_lift try_get_with_ok)
qed

section \<open>Building a table\<close>

definition last_key_of :: "entry list \<Rightarrow> bytes" where
  "last_key_of es = (if es = [] then [] else fst (last es))"

text \<open>A builder that has finished the blocks \<open>runs\<close> and collects the block \<open>es\<close>.\<close>

definition sb_holds ::
  "ext \<Rightarrow> nat \<Rightarrow> CompressionType \<Rightarrow> entry list list \<Rightarrow> entry list \<Rightarrow> SsTableBuilder \<Rightarrow> bool" where
  "sb_holds X n cm runs es b \<longleftrightarrow>
     bb_holds n es (sb_builder b) \<and> sb_first_key b = first_key_of es \<and> sb_last_key b = last_key_of es \<and>
     sb_data b = data_image X cm runs \<and> sb_meta b = index_of X cm runs \<and> sb_block_size b = n \<and>
     sb_compression b = cm \<and>
     sb_key_hashes b = map (\<lambda>e. farmhash_fingerprint32 X (fst e)) (concat runs @ es)"

lemma sb_holds_new [inv_intros]: "sb_holds X n cm [] [] (SsTableBuilder_new n cm)"
  by (simp add: sb_holds_def SsTableBuilder_new_def bb_holds_new last_key_of_def data_image_def index_of_def)

lemma index_of_snoc:
  "es \<noteq> [] \<Longrightarrow> index_of X cm (runs @ [es]) = index_of X cm runs @
     [\<lparr>bm_offset = length (data_image X cm runs), bm_first_key = first_key_of es, bm_last_key = last_key_of es\<rparr>]"
  by (cases es) (auto simp: index_of_def run_meta_def last_key_of_def nth_append)

lemma finish_block_spec:
  assumes "sb_holds X n cm runs es b" and "es \<noteq> []"
  shows "\<exists>b'. SsTableBuilder_finish_block X b = Inr b' \<and> sb_holds X n cm (runs @ [es]) [] b'"
proof -
  obtain flag d where c: "SsTableBuilder_compress X cm (Block_encode (block_of es)) = (flag, d)" by fastforce
  have bb: "bb_holds n es (sb_builder b)" using assms(1) by (simp add: sb_holds_def)
  have "drop (length (xs @ [flag] @ d) - length d - 1) (xs @ [flag] @ d) = flag # d" for xs by simp
  then have "put_u32_be ((sb_data b @ [flag]) @ d) (crc32_hash (ext_crc32 X)
      (drop (length ((sb_data b @ [flag]) @ d) - length d - 1) ((sb_data b @ [flag]) @ d))) = data_image X cm (runs @ [es])"
    using assms(1) c by (subst u32.put_append) (simp add: sb_holds_def data_image_def block_image_def)
  then show ?thesis
    using assms c BlockBuilder_build_spec [OF bb assms(2)] bb_holds_is_empty [OF bb] bb_holds_new [of n]
    by (simp add: SsTableBuilder_finish_block_def Let_def sb_holds_def index_of_snoc last_key_of_def)
qed

text \<open>The collected hashes play no part in finishing a block.\<close>

lemma finish_block_hashes:
  "SsTableBuilder_finish_block X (c\<lparr>sb_key_hashes := hs\<rparr>) =
     res_bind (SsTableBuilder_finish_block X c) (\<lambda>c. Inr (c\<lparr>sb_key_hashes := hs\<rparr>))"
  by (cases "BlockBuilder_build (sb_builder c)")
    (auto simp: SsTableBuilder_finish_block_def Let_def split: prod.splits)

lemma SsTableBuilder_add_spec:
  assumes h: "sb_holds X n cm runs es b" and k: "fst e \<noteq> []"
  shows "\<exists>b'. SsTableBuilder_add X b (fst e) (snd e) = Inr b' \<and>
    (if bb_fits n es e then sb_holds X n cm runs (es @ [e]) b' else sb_holds X n cm (runs @ [es]) [e] b')"
proof -
  define b0 where "b0 = (if sb_first_key b = [] then b\<lparr>sb_first_key := fst e\<rparr> else b)"
  define b1 where "b1 = b0\<lparr>sb_key_hashes := sb_key_hashes b0 @ [farmhash_fingerprint32 X (fst e)]\<rparr>"
  have b1_eq: "b1 = (if sb_first_key b = [] then b\<lparr>sb_first_key := fst e\<rparr> else b)
     \<lparr>sb_key_hashes := sb_key_hashes b @ [farmhash_fingerprint32 X (fst e)]\<rparr>"
    by (simp add: b1_def b0_def)
  have bb: "bb_holds n es (sb_builder b)" "bb_holds n es (sb_builder b1)"
    using h by (simp_all add: sb_holds_def b1_eq)
  have fk: "es \<noteq> [] \<Longrightarrow> first_key_of es \<noteq> []" using bb(1) by (cases es) (auto simp: bb_holds_def)
  have add: "SsTableBuilder_add X b (fst e) (snd e) =
      res_bind (BlockBuilder_add (sb_builder b1) (fst e) (snd e)) (\<lambda>(added, builder).
        let b = b1\<lparr>sb_builder := builder\<rparr> in
        if added then Inr (b\<lparr>sb_last_key := fst e\<rparr>)
        else res_bind (SsTableBuilder_finish_block X b) (\<lambda>b.
          res_bind (BlockBuilder_add (sb_builder b) (fst e) (snd e)) (\<lambda>(added, builder).
          res_bind (assert_res ''added'' added) (\<lambda>_.
          Inr (b\<lparr>sb_builder := builder, sb_first_key := fst e, sb_last_key := fst e\<rparr>)))))"
    unfolding b1_def b0_def SsTableBuilder_add_def Let_def ..
  show ?thesis
  proof (cases "bb_fits n es e")
    case True
    then obtain bb' where "BlockBuilder_add (sb_builder b1) (fst e) (snd e) = Inr (True, bb')" "bb_holds n (es @ [e]) bb'"
      using BlockBuilder_add_spec [OF bb(2) k] by auto
    then show ?thesis
      using True h fk by (auto simp: add sb_holds_def b1_eq last_key_of_def)
  next
    case False
    then have ne: "es \<noteq> []" by (auto simp: bb_fits_def)
    have same: "BlockBuilder_add (sb_builder b1) (fst e) (snd e) = Inr (False, sb_builder b1)"
      using False BlockBuilder_add_spec [OF bb(2) k] by simp
    define c1 where "c1 = b1\<lparr>sb_builder := sb_builder b1, sb_key_hashes := sb_key_hashes b\<rparr>"
    have "sb_holds X n cm runs es c1"
      using h fk [OF ne] by (simp add: sb_holds_def b1_eq c1_def)
    then obtain b2 where b2: "SsTableBuilder_finish_block X c1 = Inr b2"
      "sb_holds X n cm (runs @ [es]) [] b2" using finish_block_spec [OF _ ne] by blast
    define b3 where "b3 = b2\<lparr>sb_key_hashes := sb_key_hashes b @ [farmhash_fingerprint32 X (fst e)]\<rparr>"
    have "b1\<lparr>sb_builder := sb_builder b1\<rparr> =
        c1\<lparr>sb_key_hashes := sb_key_hashes b @ [farmhash_fingerprint32 X (fst e)]\<rparr>"
      by (simp add: b1_eq c1_def)
    then have fin: "SsTableBuilder_finish_block X (b1\<lparr>sb_builder := sb_builder b1\<rparr>) = Inr b3"
      using b2(1) finish_block_hashes [of X _ c1] by (simp only: res_bind_simps b3_def)
    have "bb_holds n [] (sb_builder b3)" using b2(2) by (simp add: sb_holds_def b3_def)
    then obtain bb' where bb': "BlockBuilder_add (sb_builder b3) (fst e) (snd e) = Inr (True, bb')" "bb_holds n [e] bb'"
      using BlockBuilder_add_spec [of n "[]" "sb_builder b3" e] k by (auto simp: bb_fits_def)
    have "SsTableBuilder_add X b (fst e) (snd e) =
        Inr (b3\<lparr>sb_builder := bb', sb_first_key := fst e, sb_last_key := fst e\<rparr>)"
      unfolding add same Let_def using fin bb'(1) by simp
    moreover have "sb_holds X n cm (runs @ [es]) [e] (b3\<lparr>sb_builder := bb', sb_first_key := fst e, sb_last_key := fst e\<rparr>)"
      using b2(2) bb'(2) h by (simp add: sb_holds_def b3_def last_key_of_def)
    ultimately show ?thesis using False by simp
  qed
qed

subsection \<open>Adding many entries\<close>

text \<open>The loop of every writer of tables.\<close>

fun SsTableBuilder_add_all :: "ext \<Rightarrow> SsTableBuilder \<Rightarrow> entry list \<Rightarrow> SsTableBuilder res" where
  "SsTableBuilder_add_all X b [] = Inr b"
| "SsTableBuilder_add_all X b ((k, v) # es) =
     res_bind (SsTableBuilder_add X b k v) (\<lambda>b. SsTableBuilder_add_all X b es)"

text \<open>Blocks that the builder lets grow stay within what 16-bit offsets can express.\<close>

definition sb_collects :: "ext \<Rightarrow> nat \<Rightarrow> CompressionType \<Rightarrow> entry list \<Rightarrow> SsTableBuilder \<Rightarrow> bool" where
  "sb_collects X n cm es b \<longleftrightarrow> (\<exists>runs cur. sb_holds X n cm runs cur b \<and> concat runs @ cur = es \<and>
     (\<forall>r \<in> set runs. wf_block r) \<and> (cur = [] \<and> runs = [] \<or> wf_block cur))"

lemma sb_collects_new [inv_intros]: "sb_collects X n cm [] (SsTableBuilder_new n cm)"
  unfolding sb_collects_def using sb_holds_new [of X n cm] by force

lemma sb_collects_add:
  assumes h: "sb_collects X n cm es b" and e: "wf_entry e" and n: "n \<le> 2 ^ 16"
  shows "\<exists>b'. SsTableBuilder_add X b (fst e) (snd e) = Inr b' \<and> sb_collects X n cm (es @ [e]) b'"
proof -
  from h obtain runs cur where b: "sb_holds X n cm runs cur b" "concat runs @ cur = es"
    "\<forall>r \<in> set runs. wf_block r" "cur = [] \<and> runs = [] \<or> wf_block cur"
    by (auto simp: sb_collects_def)
  obtain b' where b': "SsTableBuilder_add X b (fst e) (snd e) = Inr b'"
    "if bb_fits n cur e then sb_holds X n cm runs (cur @ [e]) b' else sb_holds X n cm (runs @ [cur]) [e] b'"
    using SsTableBuilder_add_spec [OF b(1), of e] e by (auto simp: wf_entry_def)
  have "sb_collects X n cm (es @ [e]) b'"
  proof (cases "bb_fits n cur e")
    case True
    then have "wf_block (cur @ [e])" using b(4) e n by (intro wf_block_snoc) auto
    then show ?thesis
      unfolding sb_collects_def using b'(2) True b
      by (intro exI [of _ runs] exI [of _ "cur @ [e]"]) auto
  next
    case False
    then have "wf_block cur" using b(4) by (auto simp: bb_fits_def)
    then show ?thesis
      unfolding sb_collects_def using b'(2) False b wf_block_single [OF e]
      by (intro exI [of _ "runs @ [cur]"] exI [of _ "[e]"]) auto
  qed
  with b'(1) show ?thesis by blast
qed

lemma sb_collects_add_all:
  assumes "sb_collects X n cm es b" and "\<forall>e \<in> set es'. wf_entry e" and "n \<le> 2 ^ 16"
  shows "\<exists>b'. SsTableBuilder_add_all X b es' = Inr b' \<and> sb_collects X n cm (es @ es') b'"
  using assms(1,2)
proof (induction es' arbitrary: es b)
  case (Cons e es')
  obtain k v where e: "e = (k, v)" by (cases e)
  obtain b1 where b1: "SsTableBuilder_add X b k v = Inr b1" "sb_collects X n cm (es @ [e]) b1"
    using sb_collects_add [OF Cons.prems(1), of e] Cons.prems(2) assms(3) e by auto
  from Cons.IH [OF b1(2)] Cons.prems(2) show ?case using b1(1) e by auto
qed simp

subsection \<open>The finished file\<close>

lemma SsTableBuilder_file_holds:
  assumes "sb_holds X n cm runs cur b" and "cur \<noteq> []"
  shows "SsTableBuilder_file X b = Inr (table_image X cm (runs @ [cur]))"
proof -
  obtain b' where b': "SsTableBuilder_finish_block X b = Inr b'" "sb_holds X n cm (runs @ [cur]) [] b'"
    using finish_block_spec [OF assms] by blast
  have hs: "sb_key_hashes b' = map (\<lambda>e. farmhash_fingerprint32 X (fst e)) (concat (runs @ [cur]))"
    using b'(2) by (simp add: sb_holds_def)
  have "0 < length (sb_key_hashes b')" using assms(2) by (simp add: hs)
  then have "Bloom_bloom_bits_per_key (length (sb_key_hashes b')) 0.01 = Inr 10"
    by (rule Bloom_bits_per_key_default)
  moreover have "Bloom_build_from_key_hashes (sb_key_hashes b') 10 = bloom_of X (runs @ [cur])"
    by (simp only: bloom_of_def hs)
  moreover have "sb_data b' = data_image X cm (runs @ [cur])" "sb_meta b' = index_of X cm (runs @ [cur])"
    using b'(2) by (simp_all add: sb_holds_def)
  ultimately have "SsTableBuilder_file X b =
    (let D = data_image X cm (runs @ [cur]); I = index_image X (index_of X cm (runs @ [cur]));
         buf = put_u32_be (D @ I) (of_nat (length D))
     in Inr (put_u32_be (Bloom_encode (ext_crc32 X) (bloom_of X (runs @ [cur])) buf) (of_nat (length buf))))"
    unfolding SsTableBuilder_file_def b'(1) Let_def res_bind_simps encode_block_meta_eq by (simp only: res_bind_simps)
  also have "\<dots> = Inr (table_image X cm (runs @ [cur]))"
    unfolding Let_def table_image_def Bloom_encode_eq [of _ _ "put_u32_be _ _"] Bloom_encode_eq [of _ _ "[]"]
    by (subst u32.put_append, subst (1) u32.put_append) (simp add: add.assoc u32.put_append [of "_ @ _"])
  finally show ?thesis .
qed

lemma SsTableBuilder_file_image:
  assumes "sb_collects X n cm es b" and "es \<noteq> []"
  shows "\<exists>runs. SsTableBuilder_file X b = Inr (table_image X cm runs) \<and> concat runs = es \<and> runs \<noteq> [] \<and>
    (\<forall>r \<in> set runs. wf_block r)"
proof -
  from assms obtain runs cur where b: "sb_holds X n cm runs cur b" "concat runs @ cur = es"
    "\<forall>r \<in> set runs. wf_block r" "wf_block cur"
    by (auto simp: sb_collects_def)
  then have "SsTableBuilder_file X b = Inr (table_image X cm (runs @ [cur]))"
    by (intro SsTableBuilder_file_holds) (simp_all add: wf_block_def)
  then show ?thesis using b by (intro exI [of _ "runs @ [cur]"]) auto
qed

text \<open>The bytes of a builder, written to a file and opened.\<close>

lemma SsTableBuilder_build_image:
  assumes "SsTableBuilder_file X b = Inr (table_image X cm runs)" and "wf_runs X cm runs" and "io_works io"
  shows "SsTableBuilder_build X io b sst_id cached path files =
    Some (Inr (table_of X cm sst_id cached runs), files(path \<mapsto> table_image X cm runs))"
  using assms FileObject_create_ok [OF assms(3)] SsTable_open_image [OF assms(2)]
  by (simp add: SsTableBuilder_build_def m_bind_def)

text \<open>From entries to an open table: the whole way through the builder and the file.\<close>

lemma SsTableBuilder_build_ok:
  assumes "sb_collects X n cm es b" and "es \<noteq> []" and io: "io_works io"
    and small: "\<And>d. SsTableBuilder_file X b = Inr d \<Longrightarrow> length d < 2 ^ 32"
  shows "\<exists>runs. SsTableBuilder_build X io b sst_id cached path files =
      Some (Inr (table_of X cm sst_id cached runs), files(path \<mapsto> table_image X cm runs)) \<and>
    wf_runs X cm runs \<and> concat runs = es"
proof -
  obtain runs where r: "SsTableBuilder_file X b = Inr (table_image X cm runs)" "concat runs = es" "runs \<noteq> []"
    "\<forall>r \<in> set runs. wf_block r"
    using SsTableBuilder_file_image [OF assms(1,2)] by blast
  have wf: "wf_runs X cm runs" using r small by (simp add: wf_runs_def)
  then show ?thesis using r SsTableBuilder_build_image [OF r(1) wf io] by blast
qed

section \<open>Size of an uncompressed table\<close>

definition entries_bound :: "entry list \<Rightarrow> nat" where
  "entries_bound es = sum_list (map (\<lambda>e. 32 + 3 * length (fst e) + length (snd e)) es)"

lemma entries_bound_simps [simp]:
  "entries_bound [] = 0"
  "entries_bound (e # es) = 32 + 3 * length (fst e) + length (snd e) + entries_bound es"
  "entries_bound (es @ es') = entries_bound es + entries_bound es'"
  by (simp_all add: entries_bound_def)

definition codes_bound :: "entry list \<Rightarrow> nat" where
  "codes_bound es = sum_list (map (\<lambda>e. 6 + length (fst e) + length (snd e)) es)"

lemma length_entry_codes_bound: "length (concat (entry_codes es)) \<le> codes_bound es"
proof (induction es rule: rev_induct)
  case (snoc e es)
  then show ?case using length_entry_code_le [of "first_key_of es" e] by (simp add: entry_codes_snoc codes_bound_def)
qed (simp add: entry_codes_def)

lemma codes_entries_bound:
  "es \<noteq> [] \<Longrightarrow> codes_bound es + 2 * length es + 22 + 2 * length es + length (fst (hd es)) + length (fst (last es)) \<le> entries_bound es"
proof (induction es rule: rev_nonempty_induct)
  case (single e)
  then show ?case by (simp add: codes_bound_def)
next
  case (snoc e es)
  then show ?case by (simp add: codes_bound_def)
qed

lemma length_run_bound:
  assumes "wf_block r"
  shows "length (block_image X NoCompression r) + 8 + length (fst (hd r)) + length (fst (last r)) + 2 * length r
    \<le> entries_bound r"
proof -
  have "SsTableBuilder_compress X NoCompression d = (0, d)" for d
    by (simp add: SsTableBuilder_compress_def split: option.split)
  then have "length (block_image X NoCompression r) = 5 + length (Block_encode (block_of r))"
    by (simp add: block_image_def u32.length_put)
  then show ?thesis
    using length_entry_codes_bound [of r] codes_entries_bound [of r] assms
    by (simp add: length_Block_encode block_of_def wf_block_def)
qed

lemma length_data_index_bound:
  assumes "\<forall>r \<in> set runs. wf_block r"
  shows "length (data_image X NoCompression runs) + length (concat (map meta_code (index_of X NoCompression runs))) +
    2 * length (concat runs) \<le> entries_bound (concat runs)"
  using assms
proof (induction runs rule: rev_induct)
  case (snoc r runs)
  then have r: "r \<noteq> []" by (simp add: wf_block_def)
  then have "first_key_of r = fst (hd r)" "last_key_of r = fst (last r)"
    by (cases r; simp add: last_key_of_def)+
  then show ?case using snoc length_run_bound [of r X] r
    by (simp add: index_of_snoc data_image_def length_meta_code)
qed (simp add: index_of_def data_image_def)

lemma length_bloom_of: "length (bl_filter (bloom_of X runs)) \<le> 2 * length (concat runs) + 9"
proof -
  define hs where "hs = map (\<lambda>e. farmhash_fingerprint32 X (fst e)) (concat runs)"
  have "length (bl_filter (Bloom_build_from_key_hashes hs 10)) = (max (length hs * 10) 64 + 7) div 8"
    using fold_add_hash_bits [of "replicate ((max (length hs * 10) 64 + 7) div 8) 0"
        "(max (length hs * 10) 64 + 7) div 8 * 8" 6 hs]
    by (simp add: Bloom_build_from_key_hashes_def Let_def)
  then show ?thesis unfolding bloom_of_def hs_def [symmetric] by (simp add: hs_def)
qed

lemma table_image_bound:
  assumes "\<forall>r \<in> set runs. wf_block r"
  shows "length (table_image X NoCompression runs) \<le> 30 + entries_bound (concat runs)"
  using length_data_index_bound [OF assms, of X] length_bloom_of [of X runs]
  by (simp add: length_table_image index_image_def Bloom_encode_eq u32.length_put)

lemma SsTableBuilder_file_bound:
  assumes "sb_collects X n NoCompression es b" and "es \<noteq> []" and "30 + entries_bound es < 2 ^ 32"
    and "SsTableBuilder_file X b = Inr d"
  shows "length d < 2 ^ 32"
  using SsTableBuilder_file_image [OF assms(1,2)] assms(3,4) table_image_bound [of _ X] by fastforce

section \<open>Properties\<close>

lemma unat_plus_exact:
  fixes a b :: u64
  assumes "unat a + unat b < 2 ^ 64"
  shows "unat (a + b) = unat a + unat b"
  using assms by (simp add: unat_word_ariths)

text \<open>A table for concrete examples: two blocks, a checksum and a hash function that are easy to
  compute, no compression library.\<close>

definition example_ext :: ext where
  "example_ext = \<lparr>ext_crc32 = example_crc32, ext_Fingerprint32 = (\<lambda>k. fold (\<lambda>b h. 31 * h + ucast b) k 5), ext_snappy = None\<rparr>"

definition example_runs :: "entry list list" where
  "example_runs = [[([1], [7]), ([1, 3], [])], [([2], [8, 8])]]"

definition example_table :: SsTable where
  "example_table = table_of example_ext NoCompression 7 True example_runs"

lemma example_wf_blocks: "\<forall>r \<in> set example_runs. wf_block r"
  by (auto simp: example_runs_def intro!: wf_block_snoc [of "[([1], [7])]" 64 "([1, 3], [])", simplified] wf_block_single)
    (simp_all add: wf_entry_def bb_fits_def length_Block_encode block_of_def entry_codes_def entry_code_def u16.length_put Let_def)

lemma example_wf_runs: "wf_runs example_ext NoCompression example_runs"
  using example_wf_blocks table_image_bound [OF example_wf_blocks, of example_ext]
  by (simp add: wf_runs_def) (simp add: example_runs_def)

lemma example_snappy_inverts: "snappy_inverts example_ext"
  by (simp add: snappy_inverts_def example_ext_def)

text \<open>C38: a block is returned only if it is intact. When \<open>read_block\<close> succeeds, the bytes it read are
  a flag byte, a payload and the checksum of both, and the payload, decompressed if the flag says
  so, is the encoding of the block returned.\<close>

theorem SsTable_read_block_intact:
  assumes "SsTable_read_block X t i = Inr b"
  shows "\<exists>flag payload off len. FileObject_read (st_file t) off len =
      Inr (flag # payload @ put_u32_be [] (crc32_hash (ext_crc32 X) (flag # payload))) \<and>
    off = bm_offset (st_block_meta t ! i) mod 2 ^ 64 \<and> i < length (st_block_meta t) \<and>
    (flag = 0 \<and> payload = Block_encode b \<or>
     flag = 1 \<and> (\<exists>sn. ext_snappy X = Some sn \<and> sn_Uncompress sn payload = Some (Block_encode b)))"
proof -
  define offset where "offset = (of_nat (bm_offset (st_block_meta t ! i)) :: u64)"
  define n where "n = (of_nat (if i + 1 < length (st_block_meta t) then bm_offset (st_block_meta t ! (i + 1))
      else st_block_meta_offset t) - offset :: u64)"
  from assms obtain raw sum body flag payload where
    i: "i < length (st_block_meta t)" and raw: "FileObject_read (st_file t) (unat offset) (unat n) = Inr raw"
    and sum: "read_u32_be raw (unat (n - 4)) = Inr sum" and body: "sub_bytes raw 0 (unat (n - 4)) = Inr body"
    and crc: "sum = crc32_hash (ext_crc32 X) body" and flag: "sub_bytes raw 0 1 = Inr flag"
    and payload: "sub_bytes raw 1 (unat (n - 4 - 1)) = Inr payload"
    and blk: "flag = [0x00] \<and> Block_decode payload = Inr b \<or>
      flag = [0x01] \<and> (\<exists>sn d. ext_snappy X = Some sn \<and> sn_Uncompress sn payload = Some d \<and> Block_decode d = Inr b)"
    unfolding SsTable_read_block_def Let_def offset_def n_def
    by (auto simp: res_bind_Inr_iff split: if_split_asm option.split_asm)
  have len: "length raw = unat n"
    using raw flag by (auto simp: FileObject_read_def sub_bytes_def split: if_split_asm)
  have m4: "unat (n - 4) + 4 = unat n"
    using u32.rd_inverse [OF sum] len unat_plus_exact [of "n - 4" 4] unsigned_less [where 'a = nat, of n] by simp
  have m1: "unat (n - 4 - 1) + 1 = unat (n - 4)"
    using payload len unat_plus_exact [of "n - 4 - 1" 1] unsigned_less [where 'a = nat, of n] by (simp add: sub_bytes_Inr_iff)
  obtain f rest where raw_Cons: "raw = f # rest" using flag by (cases raw) (auto simp: sub_bytes_Inr_iff)
  have fl: "flag = [f]" using flag by (simp add: sub_bytes_Inr_iff raw_Cons)
  have "payload = take (unat (n - 4 - 1)) rest" using payload by (simp add: sub_bytes_Inr_iff raw_Cons)
  moreover have "body = take (unat (n - 4 - 1) + 1) raw" using body m1 by (simp add: sub_bytes_Inr_iff)
  ultimately have fb: "f # payload = body" by (simp add: raw_Cons)
  have "raw = body @ put_u32_be [] sum"
    using u32.rd_inverse [OF sum] body len m4 append_take_drop_id [of "unat (n - 4)" raw] by (simp add: sub_bytes_Inr_iff)
  then have "FileObject_read (st_file t) (unat offset) (unat n) =
      Inr (f # payload @ put_u32_be [] (crc32_hash (ext_crc32 X) (f # payload)))"
    using raw crc fb by simp
  moreover have "unat offset = bm_offset (st_block_meta t ! i) mod 2 ^ 64"
    by (simp add: offset_def unat_of_nat)
  moreover have "f = 0 \<and> payload = Block_encode b \<or>
     f = 1 \<and> (\<exists>sn. ext_snappy X = Some sn \<and> sn_Uncompress sn payload = Some (Block_encode b))"
    using blk fl by (auto split: if_split_asm option.split_asm dest!: Block_encode_decode)
  ultimately show ?thesis using i by blast
qed

theorem SsTable_read_block_intact_witness:
  "\<exists>b flag payload off len. SsTable_read_block example_ext example_table 1 = Inr b \<and>
    FileObject_read (st_file example_table) off len =
      Inr (flag # payload @ put_u32_be [] (crc32_hash (ext_crc32 example_ext) (flag # payload))) \<and>
    flag = 0 \<and> payload = Block_encode b"
proof -
  have "SsTable_read_block example_ext example_table 1 = Inr (block_of (example_runs ! 1))"
    unfolding example_table_def
    by (rule SsTable_read_block_image [OF example_wf_runs example_snappy_inverts]) (simp add: example_runs_def)
  from this SsTable_read_block_intact [OF this] show ?thesis by (auto simp: example_ext_def)
qed

text \<open>The block index survives its encoding. \<open>decode_block_meta\<close> applied to what
  \<open>encode_block_meta\<close> appends returns the same entries, for offsets below \<open>2^32\<close> and keys shorter
  than \<open>2^16\<close> bytes; a body whose checksum does not match is refused with an exception.\<close>

theorem BlockMeta_roundtrip:
  assumes "\<forall>m \<in> set ms. wf_meta m" and "length ms < 2 ^ 32"
  shows "BlockMeta_decode_block_meta crc32 (BlockMeta_encode_block_meta crc32 ms []) = Inr ms"
  using decode_index_image [OF assms, of "\<lparr>ext_crc32 = crc32, ext_Fingerprint32 = \<lambda>_. 0, ext_snappy = None\<rparr>"]
    encode_block_meta_eq [of "\<lparr>ext_crc32 = crc32, ext_Fingerprint32 = \<lambda>_. 0, ext_snappy = None\<rparr>" ms "[]"]
  by simp

theorem BlockMeta_roundtrip_witness:
  "BlockMeta_decode_block_meta example_crc32 (BlockMeta_encode_block_meta example_crc32
     [\<lparr>bm_offset = 0, bm_first_key = [1], bm_last_key = [1, 2]\<rparr>, \<lparr>bm_offset = 300, bm_first_key = [3], bm_last_key = [3]\<rparr>] []) =
   Inr [\<lparr>bm_offset = 0, bm_first_key = [1], bm_last_key = [1, 2]\<rparr>, \<lparr>bm_offset = 300, bm_first_key = [3], bm_last_key = [3]\<rparr>]"
  by (rule BlockMeta_roundtrip) (simp_all add: wf_meta_def)

end
