(* ===== verification/Table_Iterator.thy ===== *)
theory Table_Iterator
  imports Table_Format Merge_Iterator
begin

text \<open>
  The iterator over one table (\<open>src/table/iterator.cpp\<close>). It reads blocks through the shared block
  cache, so its operations run on the state \<open>BlockCache\<close>; a null \<open>shared_ptr<SsTable>\<close> is \<open>None\<close>.

  It keeps the iterator contract relative to any coherent cache: what it delivers are the entries
  of the table, from the start or from a key on.
\<close>

section \<open>The iterator\<close>

record SsTableIterator =
  sti_table :: "SsTable option"
  sti_blk_iter :: BlockIterator
  sti_blk_idx :: nat

definition SsTableIterator_default :: SsTableIterator where
  "SsTableIterator_default =
     \<lparr>sti_table = None, sti_blk_iter = BlockIterator_default, sti_blk_idx = 0\<rparr>"

definition SsTableIterator_is_valid :: "SsTableIterator \<Rightarrow> bool" where
  "SsTableIterator_is_valid it = BlockIterator_is_valid (sti_blk_iter it)"

definition SsTableIterator_key :: "SsTableIterator \<Rightarrow> bytes res" where
  "SsTableIterator_key it =
     res_bind (assert_res ''is_valid()'' (SsTableIterator_is_valid it)) (\<lambda>_. BlockIterator_key (sti_blk_iter it))"

definition SsTableIterator_value :: "SsTableIterator \<Rightarrow> bytes res" where
  "SsTableIterator_value it =
     res_bind (assert_res ''is_valid()'' (SsTableIterator_is_valid it)) (\<lambda>_. BlockIterator_value (sti_blk_iter it))"

text \<open>Load block \<open>idx\<close> of \<open>t\<close> and stand on its first entry.\<close>

definition SsTableIterator_load :: "ext \<Rightarrow> SsTableIterator \<Rightarrow> SsTable \<Rightarrow> nat \<Rightarrow> (BlockCache, SsTableIterator) m" where
  "SsTableIterator_load X it t idx =
     m_bind (SsTable_read_block_cached X t idx) (\<lambda>blk.
     m_bind (m_lift (BlockIterator_create_and_seek_to_first (Some blk))) (\<lambda>blk_iter.
     m_return (it\<lparr>sti_blk_iter := blk_iter\<rparr>)))"

definition SsTableIterator_seek_to_first :: "ext \<Rightarrow> SsTableIterator \<Rightarrow> (BlockCache, SsTableIterator) m" where
  "SsTableIterator_seek_to_first X it =
     (case sti_table it of
        None \<Rightarrow> m_return (it\<lparr>sti_blk_iter := BlockIterator_default\<rparr>)
      | Some t \<Rightarrow>
          if SsTable_num_blocks t = 0 then m_return (it\<lparr>sti_blk_iter := BlockIterator_default\<rparr>)
          else SsTableIterator_load X (it\<lparr>sti_blk_idx := 0\<rparr>) t 0)"

definition SsTableIterator_seek_to_idx :: "ext \<Rightarrow> SsTableIterator \<Rightarrow> nat \<Rightarrow> (BlockCache, SsTableIterator) m" where
  "SsTableIterator_seek_to_idx X it idx =
     (case sti_table it of
        None \<Rightarrow> m_return (it\<lparr>sti_blk_iter := BlockIterator_default\<rparr>)
      | Some t \<Rightarrow>
          if idx \<ge> SsTable_num_blocks t then m_return (it\<lparr>sti_blk_iter := BlockIterator_default\<rparr>)
          else SsTableIterator_load X (it\<lparr>sti_blk_idx := idx\<rparr>) t idx)"

definition SsTableIterator_seek_to_key :: "ext \<Rightarrow> SsTableIterator \<Rightarrow> bytes \<Rightarrow> (BlockCache, SsTableIterator) m" where
  "SsTableIterator_seek_to_key X it key =
     (case sti_table it of
        None \<Rightarrow> m_return (it\<lparr>sti_blk_iter := BlockIterator_default\<rparr>)
      | Some t \<Rightarrow>
          if SsTable_num_blocks t = 0 then m_return (it\<lparr>sti_blk_iter := BlockIterator_default\<rparr>)
          else
            let it = it\<lparr>sti_blk_idx := SsTable_find_block_idx t key\<rparr> in
            m_bind (SsTable_read_block_cached X t (sti_blk_idx it)) (\<lambda>blk.
            m_bind (m_lift (BlockIterator_create_and_seek_to_key (Some blk) key)) (\<lambda>blk_iter.
            let it = it\<lparr>sti_blk_iter := blk_iter\<rparr> in
            if \<not> BlockIterator_is_valid blk_iter then
              let it = it\<lparr>sti_blk_idx := sti_blk_idx it + 1\<rparr> in
              if sti_blk_idx it < SsTable_num_blocks t then SsTableIterator_load X it t (sti_blk_idx it)
              else m_return it
            else m_return it)))"

definition SsTableIterator_next :: "ext \<Rightarrow> SsTableIterator \<Rightarrow> (BlockCache, SsTableIterator) m" where
  "SsTableIterator_next X it =
     m_bind (m_lift (BlockIterator_next (sti_blk_iter it))) (\<lambda>blk_iter.
     let it = it\<lparr>sti_blk_iter := blk_iter\<rparr> in
     if \<not> BlockIterator_is_valid blk_iter then
       let it = it\<lparr>sti_blk_idx := sti_blk_idx it + 1\<rparr> in
       (case sti_table it of
          None \<Rightarrow> m_lift (Inl (OutOfRange ''table_''))
        | Some t \<Rightarrow>
            if sti_blk_idx it < SsTable_num_blocks t then SsTableIterator_seek_to_idx X it (sti_blk_idx it)
            else m_return it)
     else m_return it)"

definition SsTableIterator_create_and_seek_to_first ::
  "ext \<Rightarrow> SsTable option \<Rightarrow> (BlockCache, SsTableIterator) m" where
  "SsTableIterator_create_and_seek_to_first X table =
     SsTableIterator_seek_to_first X (SsTableIterator_default\<lparr>sti_table := table\<rparr>)"

definition SsTableIterator_create_and_seek_to_key ::
  "ext \<Rightarrow> SsTable option \<Rightarrow> bytes \<Rightarrow> (BlockCache, SsTableIterator) m" where
  "SsTableIterator_create_and_seek_to_key X table key =
     SsTableIterator_seek_to_key X (SsTableIterator_default\<lparr>sti_table := table\<rparr>) key"

definition SsTableIterator_ops :: "ext \<Rightarrow> (BlockCache, SsTableIterator) iter_ops" where
  "SsTableIterator_ops X =
     \<lparr>it_key = SsTableIterator_key, it_value = SsTableIterator_value,
      it_valid = SsTableIterator_is_valid, it_next = SsTableIterator_next X\<rparr>"

section \<open>Tables and their contents\<close>

text \<open>\<open>world\<close>: the third-party functions, and for every table identifier the blocks of its table. A
  cached block of table \<open>i\<close> is one of \<open>tables i\<close>.\<close>

definition sst_holds :: "ext \<Rightarrow> (nat \<Rightarrow> entry list list option) \<Rightarrow> SsTable \<Rightarrow> entry list list \<Rightarrow> bool" where
  "sst_holds X tables t runs \<longleftrightarrow> snappy_inverts X \<and>
     (\<exists>cm cached. t = table_of X cm (st_id t) cached runs \<and> wf_runs X cm runs \<and>
        (cached \<longrightarrow> tables (st_id t) = Some runs)) \<and> sorted_entries (concat runs)"

lemma sst_holds_block:
  "sst_holds X tables t runs \<Longrightarrow> i < length runs \<Longrightarrow>
   ok (cache_sound (blocks_of tables)) (SsTable_read_block_cached X t i) (\<lambda>b. b = block_of (runs ! i))"
  unfolding sst_holds_def using SsTable_read_block_cached_image by metis

lemma num_blocks_table_of: "SsTable_num_blocks (table_of X cm sst_id cached runs) = length runs"
  by (simp add: SsTable_num_blocks_def table_of_def)

lemma sst_holds_num_blocks: "sst_holds X tables t runs \<Longrightarrow> SsTable_num_blocks t = length runs"
  unfolding sst_holds_def using num_blocks_table_of by metis

lemma sst_holds_wf: "sst_holds X tables t runs \<Longrightarrow> i < length runs \<Longrightarrow> wf_block (runs ! i) \<and> runs ! i \<noteq> []"
  by (auto simp: sst_holds_def wf_runs_def wf_block_def)

lemma sst_holds_sorted_run:
  assumes "sst_holds X tables t runs" and "i < length runs"
  shows "sorted_entries (runs ! i)" and "sorted_entries (runs ! i @ concat (drop (Suc i) runs))"
  using assms concat_split [OF assms(2)] by (auto simp: sst_holds_def sorted_wrt_append)

section \<open>The contract\<close>

definition sti_abs :: "ext \<Rightarrow> (nat \<Rightarrow> entry list list option) \<Rightarrow> SsTableIterator \<Rightarrow> entry list \<Rightarrow> bool" where
  "sti_abs X tables it xs \<longleftrightarrow> sorted_entries xs \<and>
     (\<exists>t runs r. sti_table it = Some t \<and> sst_holds X tables t runs \<and> bi_abs (sti_blk_iter it) r \<and>
        (if r = [] then xs = [] else sti_blk_idx it < length runs \<and> xs = r @ concat (drop (Suc (sti_blk_idx it)) runs)))"

lemma SsTableIterator_load_ok:
  assumes t: "sti_table it = Some t" "sst_holds X tables t runs" and i: "sti_blk_idx it = i" "i < length runs"
  shows "ok (cache_sound (blocks_of tables)) (SsTableIterator_load X it t i)
    (\<lambda>it'. sti_abs X tables it' (runs ! i @ concat (drop (Suc i) runs)))"
  unfolding SsTableIterator_load_def
proof (rule ok_bind [OF sst_holds_block [OF t(2) i(2)]])
  fix blk assume blk: "blk = block_of (runs ! i)"
  obtain bi where bi: "BlockIterator_create_and_seek_to_first (Some blk) = Inr bi" "bi_abs bi (runs ! i)"
    using BlockIterator_create_and_seek_to_first_spec sst_holds_wf [OF t(2) i(2)] blk by blast
  have "sti_abs X tables (it\<lparr>sti_blk_iter := bi\<rparr>) (runs ! i @ concat (drop (Suc i) runs))"
    unfolding sti_abs_def using t i bi(2) sst_holds_wf [OF t(2) i(2)] sst_holds_sorted_run(2) [OF t(2) i(2)]
    by (intro conjI exI [of _ t] exI [of _ runs] exI [of _ "runs ! i"]) auto
  then show "ok (cache_sound (blocks_of tables)) (m_bind (m_lift (BlockIterator_create_and_seek_to_first (Some blk)))
      (\<lambda>blk_iter. m_return (it\<lparr>sti_blk_iter := blk_iter\<rparr>)))
    (\<lambda>it'. sti_abs X tables it' (runs ! i @ concat (drop (Suc i) runs)))"
    using bi(1) by (simp add: ok_return)
qed

lemma bi_abs_ops:
  "bi_abs b r \<Longrightarrow> BlockIterator_is_valid b \<longleftrightarrow> r \<noteq> []"
  "bi_abs b (x # r) \<Longrightarrow> BlockIterator_key b = Inr (fst x)"
  "bi_abs b (x # r) \<Longrightarrow> BlockIterator_value b = Inr (snd x)"
  using block_iter.valid_iff [of b r] block_iter.key_hd [of b x r] block_iter.value_hd [of b x r]
  by (simp_all add: BlockIterator_ops_def)

lemma bi_abs_next:
  assumes "bi_abs b (x # r)"
  obtains b' where "BlockIterator_next b = Inr b'" and "bi_abs b' r"
  using block_iter.next_tl [OF assms, of "\<lambda>_ :: unit. True"]
  by (auto simp: BlockIterator_ops_def ok_def intro: that)

interpretation sst_iter: sorted_iterator "SsTableIterator_ops X" "cache_sound (blocks_of tables)" "sti_abs X tables"
  for X tables
proof unfold_locales
  fix it xs assume "sti_abs X tables it xs"
  then show "it_valid (SsTableIterator_ops X) it = (xs \<noteq> [])"
    by (auto simp: sti_abs_def SsTableIterator_ops_def SsTableIterator_is_valid_def bi_abs_ops(1) split: if_splits)
next
  fix it x xs assume a: "sti_abs X tables it (x # xs)"
  then obtain t runs r where t: "sti_table it = Some t" "sst_holds X tables t runs" and b: "bi_abs (sti_blk_iter it) (x # r)"
    and i: "sti_blk_idx it < length runs" and xs: "xs = r @ concat (drop (Suc (sti_blk_idx it)) runs)"
    by (auto simp: sti_abs_def Cons_eq_append_conv split: if_splits)
  have s: "sorted_entries xs" using a by (simp add: sti_abs_def)
  show "it_key (SsTableIterator_ops X) it = Inr (fst x)" "it_value (SsTableIterator_ops X) it = Inr (snd x)"
    using b bi_abs_ops(1) [OF b] by (simp_all add: SsTableIterator_ops_def SsTableIterator_key_def
        SsTableIterator_value_def SsTableIterator_is_valid_def bi_abs_ops)
  obtain b' where b': "BlockIterator_next (sti_blk_iter it) = Inr b'" "bi_abs b' r" by (rule bi_abs_next [OF b])
  let ?it = "it\<lparr>sti_blk_iter := b'\<rparr>" and ?j = "Suc (sti_blk_idx it)"
  show "ok (cache_sound (blocks_of tables)) (it_next (SsTableIterator_ops X) it) (\<lambda>it'. sti_abs X tables it' xs)"
  proof (cases "r = []")
    case False
    then have "sti_abs X tables ?it xs"
      unfolding sti_abs_def using s t b'(2) i xs by (intro conjI exI [of _ t] exI [of _ runs] exI [of _ r]) auto
    then show ?thesis
      using False b' by (simp add: SsTableIterator_ops_def SsTableIterator_next_def Let_def bi_abs_ops(1) ok_return)
  next
    case r: True
    show ?thesis
    proof (cases "?j < length runs")
      case True
      have "ok (cache_sound (blocks_of tables)) (SsTableIterator_load X (?it\<lparr>sti_blk_idx := ?j\<rparr>) t ?j)
        (\<lambda>it'. sti_abs X tables it' xs)"
        using SsTableIterator_load_ok [of "?it\<lparr>sti_blk_idx := ?j\<rparr>" t X tables runs ?j] t True r xs drop_Suc_concat [OF True]
        by simp
      then show ?thesis
        using True r b' t sst_holds_num_blocks [OF t(2)]
        by (simp add: SsTableIterator_ops_def SsTableIterator_next_def SsTableIterator_seek_to_idx_def Let_def bi_abs_ops(1))
    next
      case False
      then have "xs = []" using r xs by simp
      then have "sti_abs X tables (?it\<lparr>sti_blk_idx := ?j\<rparr>) xs"
        unfolding sti_abs_def using t b'(2) r by (intro conjI exI [of _ t] exI [of _ runs] exI [of _ r]) auto
      then show ?thesis
        using False r b' t sst_holds_num_blocks [OF t(2)]
        by (simp add: SsTableIterator_ops_def SsTableIterator_next_def Let_def bi_abs_ops(1) ok_return)
    qed
  qed
next
  fix it xs assume "sti_abs X tables it xs"
  then show "sorted_entries xs" by (simp add: sti_abs_def)
qed

interpretation sst_merge: merge_over "SsTableIterator_ops X" "cache_sound (blocks_of tables)" "sti_abs X tables"
  for X tables
  by unfold_locales

section \<open>Seeking\<close>

lemma SsTableIterator_create_and_seek_to_first_ok:
  assumes "sst_holds X tables t runs"
  shows "ok (cache_sound (blocks_of tables)) (SsTableIterator_create_and_seek_to_first X (Some t))
    (\<lambda>it. sti_abs X tables it (concat runs))"
proof -
  have "0 < length runs" using assms by (auto simp: sst_holds_def wf_runs_def)
  then show ?thesis
    using SsTableIterator_load_ok [of "SsTableIterator_default\<lparr>sti_table := Some t, sti_blk_idx := 0\<rparr>" t X tables runs 0]
      assms sst_holds_num_blocks [OF assms] concat_split [of 0 runs]
    by (simp add: SsTableIterator_create_and_seek_to_first_def SsTableIterator_seek_to_first_def)
qed

text \<open>The block index finds the only block in which the key can start.\<close>

lemma takeWhile_index_of:
  "length (takeWhile (\<lambda>m. P (bm_first_key m)) (index_of X cm runs)) = length (takeWhile (\<lambda>r. P (fst (hd r))) runs)"
proof -
  have "map bm_first_key (index_of X cm runs) = map (\<lambda>r. fst (hd r)) runs"
    by (rule nth_equalityI) (simp_all add: index_of_def run_meta_def)
  then have "takeWhile P (map bm_first_key (index_of X cm runs)) = takeWhile P (map (\<lambda>r. fst (hd r)) runs)"
    by (rule arg_cong)
  from arg_cong [OF this, of length] show ?thesis by (simp add: takeWhile_map comp_def)
qed

lemma find_block_split:
  fixes key :: bytes
  assumes h: "sst_holds X tables t runs"
  defines "i \<equiv> SsTable_find_block_idx t key"
  shows "i < length runs"
    and "dropWhile (\<lambda>e. fst e < key) (concat runs) =
      dropWhile (\<lambda>e. fst e < key) (runs ! i) @ concat (drop (Suc i) runs)"
proof -
  obtain cm cached where t: "t = table_of X cm (st_id t) cached runs" using h by (auto simp: sst_holds_def)
  have "st_block_meta t = index_of X cm runs" by (subst t) (simp add: table_of_def)
  then have i: "i = length (takeWhile (\<lambda>r. fst (hd r) \<le> key) runs) - 1"
    using takeWhile_index_of [of "\<lambda>k. k \<le> key" X cm runs]
    by (simp add: i_def SsTable_find_block_idx_def Let_def not_less)
  have "sorted_entries (concat runs)" "\<forall>r \<in> set runs. r \<noteq> []" "runs \<noteq> []"
    using h by (auto simp: sst_holds_def wf_runs_def wf_block_def)
  from partition_point_split [OF this, of key] show "i < length runs"
    and "dropWhile (\<lambda>e. fst e < key) (concat runs) =
      dropWhile (\<lambda>e. fst e < key) (runs ! i) @ concat (drop (Suc i) runs)"
    unfolding i by simp_all
qed

text \<open>After the block iterator is placed in block \<open>i\<close>: if that block has nothing left, the next one is loaded.\<close>

abbreviation seek_settle :: "ext \<Rightarrow> SsTableIterator \<Rightarrow> SsTable \<Rightarrow> nat \<Rightarrow> nat \<Rightarrow> BlockIterator \<Rightarrow> (BlockCache, SsTableIterator) m" where
  "seek_settle X it t n i bi \<equiv>
     (if \<not> BlockIterator_is_valid bi then
        if Suc i < n
        then SsTableIterator_load X (it\<lparr>sti_blk_iter := bi, sti_blk_idx := Suc i\<rparr>) t (Suc i)
        else m_return (it\<lparr>sti_blk_iter := bi, sti_blk_idx := Suc i\<rparr>)
      else m_return (it\<lparr>sti_blk_iter := bi\<rparr>))"

lemma seek_settle_ok:
  assumes h: "sst_holds X tables t runs" and i: "i < length runs" and r: "bi_abs bi r" and all: "all = r @ concat (drop (Suc i) runs)"
    and s: "sorted_entries all" and it: "it = SsTableIterator_default\<lparr>sti_table := Some t, sti_blk_idx := i\<rparr>"
  shows "ok (cache_sound (blocks_of tables)) (seek_settle X it t (length runs) i bi) (\<lambda>it. sti_abs X tables it all)"
proof (cases "r = []")
  case False
  then have "sti_abs X tables (it\<lparr>sti_blk_iter := bi\<rparr>) all"
    unfolding sti_abs_def it using s h r i all by (intro conjI exI [of _ t] exI [of _ runs] exI [of _ r]) auto
  then show ?thesis using False r by (simp add: bi_abs_ops(1) ok_return)
next
  case e: True
  show ?thesis
  proof (cases "Suc i < length runs")
    case True
    have all': "all = runs ! Suc i @ concat (drop (Suc (Suc i)) runs)" unfolding all e drop_Suc_concat [OF True] by simp
    show ?thesis
      unfolding all'
      using SsTableIterator_load_ok [of "it\<lparr>sti_blk_iter := bi, sti_blk_idx := Suc i\<rparr>" t X tables runs "Suc i"] h e r True it by (simp add: bi_abs_ops(1))
  next
    case False
    then have all': "all = []" unfolding all e by simp
    have "sti_abs X tables (it\<lparr>sti_blk_iter := bi, sti_blk_idx := Suc i\<rparr>) all"
      unfolding sti_abs_def all' it using h r [unfolded e] by (intro conjI exI [of _ t] exI [of _ runs] exI [of _ "[]"]) auto
    then show ?thesis using False e r by (simp add: bi_abs_ops(1) ok_return)
  qed
qed

lemma SsTableIterator_create_and_seek_to_key_ok:
  assumes h: "sst_holds X tables t runs"
  shows "ok (cache_sound (blocks_of tables)) (SsTableIterator_create_and_seek_to_key X (Some t) key)
    (\<lambda>it. sti_abs X tables it (dropWhile (\<lambda>e. fst e < key) (concat runs)))"
proof -
  define i where "i = SsTable_find_block_idx t key"
  note f = find_block_split [OF h, of key, folded i_def]
  let ?r = "dropWhile (\<lambda>e. fst e < key) (runs ! i)" and ?all = "dropWhile (\<lambda>e. fst e < key) (concat runs)"
  let ?it = "SsTableIterator_default\<lparr>sti_table := Some t, sti_blk_idx := i\<rparr>"
  have n: "SsTable_num_blocks t = length runs" by (rule sst_holds_num_blocks [OF h])
  have s: "sorted_entries ?all" using h by (simp add: sst_holds_def dropWhile_eq_drop sorted_entries_drop)
  have "ok (cache_sound (blocks_of tables)) (m_bind (SsTable_read_block_cached X t i) (\<lambda>blk.
      m_bind (m_lift (BlockIterator_create_and_seek_to_key (Some blk) key)) (seek_settle X ?it t (length runs) i))) (\<lambda>it. sti_abs X tables it ?all)"
  proof (rule ok_bind [OF sst_holds_block [OF h f(1)]])
    fix blk assume "blk = block_of (runs ! i)"
    then obtain bi where "BlockIterator_create_and_seek_to_key (Some blk) key = Inr bi" "bi_abs bi ?r"
      using BlockIterator_create_and_seek_to_key_spec sst_holds_wf [OF h f(1)] sst_holds_sorted_run(1) [OF h f(1)] by blast
    with seek_settle_ok [OF h f(1) _ f(2) s refl, of bi] show "ok (cache_sound (blocks_of tables))
      (m_bind (m_lift (BlockIterator_create_and_seek_to_key (Some blk) key)) (seek_settle X ?it t (length runs) i)) (\<lambda>it. sti_abs X tables it ?all)" by simp
  qed
  moreover have "SsTable_num_blocks t \<noteq> 0" using f(1) n by auto
  ultimately show ?thesis
    by (simp add: SsTableIterator_create_and_seek_to_key_def SsTableIterator_seek_to_key_def Let_def
        i_def [symmetric] n cong: if_cong)
qed

text \<open>A table that holds the given entries, in whatever blocks, and its key range.\<close>

definition sst_entries :: "ext \<Rightarrow> (nat \<Rightarrow> entry list list option) \<Rightarrow> SsTable \<Rightarrow> entry list \<Rightarrow> bool" where
  "sst_entries X tables t es \<longleftrightarrow> (\<exists>runs. sst_holds X tables t runs \<and> es = concat runs)"

lemma sst_entries_keys:
  assumes "sst_entries X tables t es"
  shows "es \<noteq> []" "st_first_key t = fst (hd es)" "st_last_key t = fst (last es)" "sorted_entries es"
proof -
  obtain runs cm cached where t: "t = table_of X cm (st_id t) cached runs" "es = concat runs" "sorted_entries es"
    and wf: "wf_runs X cm runs"
    using assms by (auto simp: sst_entries_def sst_holds_def)
  have ne: "runs \<noteq> []" "hd runs \<noteq> []" "last runs \<noteq> []"
    using wf by (auto simp: wf_runs_def wf_block_def)
  show "es \<noteq> []" using ne t(2) by (cases runs) auto
  show "st_first_key t = fst (hd es)"
    using ne by (subst t(1), simp add: table_of_def t(2)) (cases runs; simp add: hd_append)
  show "st_last_key t = fst (last es)"
    using ne by (subst t(1), simp add: table_of_def t(2)) (cases runs rule: rev_cases; simp)
  show "sorted_entries es" by (rule t(3))
qed

section \<open>Properties\<close>

text \<open>The file a builder writes for the entries is shorter than 4 GiB, the reach of its 32-bit
  offsets.\<close>

definition file_small :: "ext \<Rightarrow> nat \<Rightarrow> CompressionType \<Rightarrow> entry list \<Rightarrow> bool" where
  "file_small X n cm es \<longleftrightarrow> (\<forall>b d. SsTableBuilder_add_all X (SsTableBuilder_new n cm) es = Inr b \<longrightarrow>
     SsTableBuilder_file X b = Inr d \<longrightarrow> length d < 2 ^ 32)"

text \<open>Building a table from entries in key order and opening it.\<close>

lemma SsTable_build_holds:
  assumes "es \<noteq> []" and "\<forall>e \<in> set es. wf_entry e" and "sorted_entries es" and "n \<le> 2 ^ 16"
    and "io_works io" and "snappy_inverts X"
    and small: "file_small X n cm es"
  shows "\<exists>b t runs d. SsTableBuilder_add_all X (SsTableBuilder_new n cm) es = Inr b \<and>
    SsTableBuilder_build X io b sst_id cached path files = Some (Inr t, files(path \<mapsto> d)) \<and>
    SsTable_open X sst_id cached \<lparr>fo_content = d\<rparr> = Inr t \<and>
    sst_holds X [sst_id \<mapsto> runs] t runs \<and> concat runs = es \<and> t = table_of X cm sst_id cached runs"
proof -
  from sb_collects_add_all [OF sb_collects_new assms(2,4), of X cm] obtain b where
    b: "SsTableBuilder_add_all X (SsTableBuilder_new n cm) es = Inr b" "sb_collects X n cm es b" by auto
  from SsTableBuilder_build_ok [OF b(2) assms(1,5) small [unfolded file_small_def, rule_format, OF b(1)], of sst_id cached path files] obtain runs where
    r: "SsTableBuilder_build X io b sst_id cached path files =
      Some (Inr (table_of X cm sst_id cached runs), files(path \<mapsto> table_image X cm runs))"
    "wf_runs X cm runs" "concat runs = es" by blast
  moreover have "sst_holds X [sst_id \<mapsto> runs] (table_of X cm sst_id cached runs) runs"
    unfolding sst_holds_def using r(2,3) assms(3,6)
    by (auto simp: table_of_def intro!: exI [of _ cm] exI [of _ cached])
  ultimately show ?thesis using b(1) SsTable_open_image [OF r(2), of sst_id cached] by blast
qed

text \<open>Iterating over a table from the start, or from a key, to the end.\<close>

lemma sst_drain_first:
  assumes "sst_holds X tables t runs"
  shows "ok (cache_sound (blocks_of tables)) (m_bind (SsTableIterator_create_and_seek_to_first X (Some t))
    (drain (SsTableIterator_ops X))) (\<lambda>xs. xs = concat runs)"
  by (rule ok_bind [OF SsTableIterator_create_and_seek_to_first_ok [OF assms]]) (rule sst_iter.drain_ok)

lemma sst_drain_key:
  assumes "sst_holds X tables t runs"
  shows "ok (cache_sound (blocks_of tables)) (m_bind (SsTableIterator_create_and_seek_to_key X (Some t) key)
    (drain (SsTableIterator_ops X))) (\<lambda>xs. xs = dropWhile (\<lambda>e. fst e < key) (concat runs))"
  by (rule ok_bind [OF SsTableIterator_create_and_seek_to_key_ok [OF assms]]) (rule sst_iter.drain_ok)

text \<open>C29: a table holds what was put into it. Entries added in key order to an \<open>SsTableBuilder\<close> and built
  into a file, with or without compression, are opened again as the same table; its key range is
  that of the entries; iterating over it, through a block cache of any capacity, delivers exactly
  the entries in order, and after \<open>seek_to_key\<close> exactly those from the key on. The file must be
  shorter than 4 GiB, the reach of its 32-bit offsets.\<close>

theorem SsTable_build_iterate:
  assumes "es \<noteq> []" and "\<forall>e \<in> set es. wf_entry e" and "sorted_entries es" and "n \<le> 2 ^ 16"
    and "io_works io" and "snappy_inverts X"
    and "file_small X n cm es"
  shows "\<exists>b t d c1 c2. SsTableBuilder_add_all X (SsTableBuilder_new n cm) es = Inr b \<and>
    SsTableBuilder_build X io b sst_id cached path files = Some (Inr t, files(path \<mapsto> d)) \<and>
    SsTable_open X sst_id cached \<lparr>fo_content = d\<rparr> = Inr t \<and>
    st_first_key t = fst (hd es) \<and> st_last_key t = fst (last es) \<and>
    m_bind (SsTableIterator_create_and_seek_to_first X (Some t)) (drain (SsTableIterator_ops X)) (BlockCache_new cap) =
      Some (Inr es, c1) \<and>
    m_bind (SsTableIterator_create_and_seek_to_key X (Some t) key) (drain (SsTableIterator_ops X)) (BlockCache_new cap) =
      Some (Inr (dropWhile (\<lambda>e. fst e < key) es), c2)"
proof -
  from SsTable_build_holds [OF assms, where sst_id = sst_id and cached = cached and path = path and files = files] obtain b t runs d where
    1: "SsTableBuilder_add_all X (SsTableBuilder_new n cm) es = Inr b"
    "SsTableBuilder_build X io b sst_id cached path files = Some (Inr t, files(path \<mapsto> d))"
    "SsTable_open X sst_id cached \<lparr>fo_content = d\<rparr> = Inr t"
    and h: "sst_holds X [sst_id \<mapsto> runs] t runs" and es: "concat runs = es"
    and t: "t = table_of X cm sst_id cached runs" by blast
  have keys: "st_first_key t = fst (hd es)" "st_last_key t = fst (last es)"
    using sst_entries_keys [of X _ t es] h es by (auto simp: sst_entries_def)
  obtain c1 where c1: "m_bind (SsTableIterator_create_and_seek_to_first X (Some t)) (drain (SsTableIterator_ops X))
      (BlockCache_new cap) = Some (Inr es, c1)"
    using okD [OF sst_drain_first [OF h] cache_sound_new [of _ cap]] es by blast
  obtain c2 where "m_bind (SsTableIterator_create_and_seek_to_key X (Some t) key) (drain (SsTableIterator_ops X))
      (BlockCache_new cap) = Some (Inr (dropWhile (\<lambda>e. fst e < key) es), c2)"
    using okD [OF sst_drain_key [OF h] cache_sound_new [of _ cap], of key] es by blast
  with 1 keys c1 show ?thesis by blast
qed

lemma file_small_uncompressed:
  assumes "es \<noteq> []" and "\<forall>e \<in> set es. wf_entry e" and "n \<le> 2 ^ 16" and "30 + entries_bound es < 2 ^ 32"
  shows "file_small X n NoCompression es"
  using sb_collects_add_all [OF sb_collects_new assms(2,3), of X NoCompression]
    SsTableBuilder_file_bound [OF _ assms(1,4)] unfolding file_small_def by fastforce

theorem SsTable_build_iterate_witness:
  "\<exists>b t d c1 c2. SsTableBuilder_add_all example_ext (SsTableBuilder_new 16 NoCompression) example_block = Inr b \<and>
    SsTableBuilder_build example_ext example_io b 5 True ''5.sst'' Map.empty = Some (Inr t, Map.empty(''5.sst'' \<mapsto> d)) \<and>
    SsTable_open example_ext 5 True \<lparr>fo_content = d\<rparr> = Inr t \<and>
    st_first_key t = fst (hd example_block) \<and> st_last_key t = fst (last example_block) \<and>
    m_bind (SsTableIterator_create_and_seek_to_first example_ext (Some t)) (drain (SsTableIterator_ops example_ext))
      (BlockCache_new 1) = Some (Inr example_block, c1) \<and>
    m_bind (SsTableIterator_create_and_seek_to_key example_ext (Some t) [1, 2]) (drain (SsTableIterator_ops example_ext))
      (BlockCache_new 1) = Some (Inr (dropWhile (\<lambda>e. fst e < [1, 2]) example_block), c2)"
proof -
  have wf: "example_block \<noteq> []" "\<forall>e \<in> set example_block. wf_entry e" "sorted_entries example_block"
    "30 + entries_bound example_block < 2 ^ 32"
    by (auto simp: example_block_def wf_entry_def)
  show ?thesis
    by (rule SsTable_build_iterate [OF wf(1,2,3) _ example_io_works example_snappy_inverts
          file_small_uncompressed [OF wf(1,2) _ wf(4)]]) simp_all
qed

text \<open>The example table, opened through a cache.\<close>

lemma example_sst_holds: "sst_holds example_ext [7 \<mapsto> example_runs] example_table example_runs"
proof -
  have "sorted_entries (concat example_runs)" by (auto simp: example_runs_def)
  then show ?thesis unfolding sst_holds_def example_table_def
    using example_wf_runs example_snappy_inverts by (auto simp: table_of_def intro!: exI [of _ NoCompression] exI [of _ True])
qed

end
