(* ===== verification/Concat_Iterator.thy ===== *)
theory Concat_Iterator
  imports Table_Iterator Two_Merge_Iterator Lsm_Iterator
begin

text \<open>
  The iterator over a sorted run of tables with disjoint key ranges (\<open>SstConcatIterator\<close> of
  \<open>include/mini_lsm/iterators.h\<close>, \<open>src/iterators/concat_iterator.cpp\<close>). Only one table is open at
  a time.
\<close>

section \<open>The iterator\<close>

record SstConcatIterator =
  sc_current :: "SsTableIterator option"
  sc_next_sst_idx :: nat
  sc_sstables :: "SsTable list"

definition SstConcatIterator_check_sst_valid :: "SsTable list \<Rightarrow> unit res" where
  "SstConcatIterator_check_sst_valid sstables =
     res_bind (assert_res ''first_key <= last_key''
       (list_all (\<lambda>t. KeySlice_le (st_first_key t) (st_last_key t)) sstables)) (\<lambda>_.
     assert_res ''last_key < first_key''
       (list_all (\<lambda>i. KeySlice_lt (st_last_key (sstables ! i)) (st_first_key (sstables ! (i + 1))))
          [0..<length sstables - 1]))"

definition SstConcatIterator_exhausted :: "SstConcatIterator \<Rightarrow> bool" where
  "SstConcatIterator_exhausted it =
     (case sc_current it of None \<Rightarrow> False | Some cur \<Rightarrow> \<not> SsTableIterator_is_valid cur)"

definition SstConcatIterator_advance :: "ext \<Rightarrow> SstConcatIterator \<Rightarrow> (BlockCache, SstConcatIterator) m" where
  "SstConcatIterator_advance X it =
     (if sc_next_sst_idx it \<ge> length (sc_sstables it) then m_return (it\<lparr>sc_current := None\<rparr>)
      else
        m_bind (SsTableIterator_create_and_seek_to_first X (Some (sc_sstables it ! sc_next_sst_idx it))) (\<lambda>cur.
        m_return (it\<lparr>sc_current := Some cur, sc_next_sst_idx := sc_next_sst_idx it + 1\<rparr>)))"

definition SstConcatIterator_move_until_valid :: "ext \<Rightarrow> SstConcatIterator \<Rightarrow> (BlockCache, SstConcatIterator) m" where
  "SstConcatIterator_move_until_valid X it =
     m_while (\<lambda>it. m_return (SstConcatIterator_exhausted it)) (SstConcatIterator_advance X) it"

definition SstConcatIterator_create_and_seek_to_first ::
  "ext \<Rightarrow> SsTable list \<Rightarrow> (BlockCache, SstConcatIterator) m" where
  "SstConcatIterator_create_and_seek_to_first X sstables =
     m_bind (m_lift (SstConcatIterator_check_sst_valid sstables)) (\<lambda>_.
     if sstables = [] then m_return \<lparr>sc_current = None, sc_next_sst_idx = 0, sc_sstables = sstables\<rparr>
     else
       m_bind (SsTableIterator_create_and_seek_to_first X (Some (sstables ! 0))) (\<lambda>cur.
       SstConcatIterator_move_until_valid X
         \<lparr>sc_current = Some cur, sc_next_sst_idx = 1, sc_sstables = sstables\<rparr>))"

text \<open>The partition point: the number of leading tables that do not start above the key.\<close>

fun SstConcatIterator_part :: "SsTable list \<Rightarrow> bytes \<Rightarrow> nat" where
  "SstConcatIterator_part [] key = 0"
| "SstConcatIterator_part (t # ts) key =
     (if KeySlice_le (st_first_key t) key then Suc (SstConcatIterator_part ts key) else 0)"

definition SstConcatIterator_create_and_seek_to_key ::
  "ext \<Rightarrow> SsTable list \<Rightarrow> bytes \<Rightarrow> (BlockCache, SstConcatIterator) m" where
  "SstConcatIterator_create_and_seek_to_key X sstables key =
     m_bind (m_lift (SstConcatIterator_check_sst_valid sstables)) (\<lambda>_.
     let part = SstConcatIterator_part sstables key;
         idx = (if part > 0 then part - 1 else 0) in
     if idx \<ge> length sstables
     then m_return \<lparr>sc_current = None, sc_next_sst_idx = length sstables, sc_sstables = sstables\<rparr>
     else
       m_bind (SsTableIterator_create_and_seek_to_key X (Some (sstables ! idx)) key) (\<lambda>cur.
       SstConcatIterator_move_until_valid X
         \<lparr>sc_current = Some cur, sc_next_sst_idx = idx + 1, sc_sstables = sstables\<rparr>))"

definition SstConcatIterator_is_valid :: "SstConcatIterator \<Rightarrow> bool" where
  "SstConcatIterator_is_valid it =
     (case sc_current it of None \<Rightarrow> False | Some cur \<Rightarrow> SsTableIterator_is_valid cur)"

definition SstConcatIterator_current :: "SstConcatIterator \<Rightarrow> SsTableIterator res" where
  "SstConcatIterator_current it =
     res_bind (assert_res ''is_valid()'' (SstConcatIterator_is_valid it)) (\<lambda>_.
     case sc_current it of None \<Rightarrow> Inl (OutOfRange ''current_'') | Some cur \<Rightarrow> Inr cur)"

definition SstConcatIterator_key :: "SstConcatIterator \<Rightarrow> bytes res" where
  "SstConcatIterator_key it = res_bind (SstConcatIterator_current it) SsTableIterator_key"

definition SstConcatIterator_value :: "SstConcatIterator \<Rightarrow> bytes res" where
  "SstConcatIterator_value it = res_bind (SstConcatIterator_current it) SsTableIterator_value"

definition SstConcatIterator_next :: "ext \<Rightarrow> SstConcatIterator \<Rightarrow> (BlockCache, SstConcatIterator) m" where
  "SstConcatIterator_next X it =
     m_bind (m_lift (SstConcatIterator_current it)) (\<lambda>cur.
     m_bind (SsTableIterator_next X cur) (\<lambda>cur.
     SstConcatIterator_move_until_valid X (it\<lparr>sc_current := Some cur\<rparr>)))"

definition SstConcatIterator_ops :: "ext \<Rightarrow> (BlockCache, SstConcatIterator) iter_ops" where
  "SstConcatIterator_ops X =
     \<lparr>it_key = SstConcatIterator_key, it_value = SstConcatIterator_value,
      it_valid = SstConcatIterator_is_valid, it_next = SstConcatIterator_next X\<rparr>"

section \<open>A sorted run of tables\<close>

text \<open>\<open>level_holds\<close>: the tables hold the entries \<open>ess\<close>, which are in order one after the other.\<close>

definition level_holds :: "ext \<Rightarrow> (nat \<Rightarrow> entry list list option) \<Rightarrow> SsTable list \<Rightarrow> entry list list \<Rightarrow> bool" where
  "level_holds X tables ts ess \<longleftrightarrow> list_all2 (sst_entries X tables) ts ess \<and> sorted_entries (concat ess)"

lemma sst_entries_first_ok:
  "sst_entries X tables t es \<Longrightarrow>
   ok (cache_sound (blocks_of tables)) (SsTableIterator_create_and_seek_to_first X (Some t)) (\<lambda>it. sti_abs X tables it es)"
  unfolding sst_entries_def using SsTableIterator_create_and_seek_to_first_ok by blast

lemma sst_entries_key_ok:
  "sst_entries X tables t es \<Longrightarrow>
   ok (cache_sound (blocks_of tables)) (SsTableIterator_create_and_seek_to_key X (Some t) key)
     (\<lambda>it. sti_abs X tables it (dropWhile (\<lambda>e. fst e < key) es))"
  unfolding sst_entries_def using SsTableIterator_create_and_seek_to_key_ok by blast

lemma level_holds_nth: "level_holds X tables ts ess \<Longrightarrow> i < length ess \<Longrightarrow> sst_entries X tables (ts ! i) (ess ! i)"
  by (auto simp: level_holds_def list_all2_conv_all_nth)

lemma level_holds_length: "level_holds X tables ts ess \<Longrightarrow> length ts = length ess"
  by (auto simp: level_holds_def list_all2_lengthD)

text \<open>What \<open>check_sst_valid\<close> lets through starts with ever larger keys.\<close>

lemma check_sst_valid_increasing:
  assumes "SstConcatIterator_check_sst_valid ts = Inr ()"
  shows "sorted_wrt (\<lambda>t u. st_first_key t < st_first_key u) ts"
proof -
  have range: "st_first_key t \<le> st_last_key t" if "t \<in> set ts" for t
    using assms that by (auto simp: SstConcatIterator_check_sst_valid_def assert_res_def list_all_iff split: if_splits)
  have "st_last_key (ts ! i) < st_first_key (ts ! Suc i)" if "Suc i < length ts" for i
    using assms that by (auto simp: SstConcatIterator_check_sst_valid_def assert_res_def list_all_iff split: if_splits)
  then have "\<forall>i. Suc i < length ts \<longrightarrow> st_first_key (ts ! i) < st_first_key (ts ! Suc i)"
    using range by (meson Suc_lessD le_less_trans nth_mem)
  moreover have "transp (\<lambda>t u. st_first_key t < st_first_key u)" by (rule transpI) (rule less_trans)
  ultimately show ?thesis by (subst sorted_wrt_iff_nth_Suc_transp) simp_all
qed

lemma check_sst_valid_cases: "SstConcatIterator_check_sst_valid ts = Inr () \<or> (\<exists>w. SstConcatIterator_check_sst_valid ts = Inl (AssertFailed w))"
  by (simp add: SstConcatIterator_check_sst_valid_def assert_res_def)

text \<open>The assertions of \<open>check_sst_valid\<close> hold for such a run.\<close>

lemma sorted_first_last:
  fixes es :: "('k::linorder \<times> 'v) list"
  assumes "sorted_entries es" and "es \<noteq> []"
  shows "fst (hd es) \<le> fst (last es)"
  using assms by (cases es) (auto simp: less_imp_le)

lemma check_sst_valid_ok:
  assumes h: "level_holds X tables ts ess"
  shows "SstConcatIterator_check_sst_valid ts = Inr ()"
proof -
  have "KeySlice_le (st_first_key (ts ! i)) (st_last_key (ts ! i))" if "i < length ts" for i
    using level_holds_nth [OF h, of i] sst_entries_keys [of X tables "ts ! i" "ess ! i"] that level_holds_length [OF h]
      sorted_first_last [of "ess ! i"] by simp
  then have 1: "list_all (\<lambda>t. KeySlice_le (st_first_key t) (st_last_key t)) ts"
    by (auto simp: list_all_length)
  have 2: "KeySlice_lt (st_last_key (ts ! i)) (st_first_key (ts ! (i + 1)))" if i: "i < length ts - 1" for i
  proof -
    have l: "i < length ess" "Suc i < length ess" using i level_holds_length [OF h] by auto
    note k = sst_entries_keys [OF level_holds_nth [OF h l(1)]] sst_entries_keys [OF level_holds_nth [OF h l(2)]]
    have "sorted_entries (concat (take i ess) @ ess ! i @ ess ! Suc i @ concat (drop (Suc (Suc i)) ess))"
      using h concat_split [OF l(1)] drop_Suc_concat [OF l(2)] by (simp add: level_holds_def)
    moreover have "last (ess ! i) \<in> set (ess ! i)" "hd (ess ! Suc i) \<in> set (ess ! Suc i)" using k by simp_all
    ultimately have "fst (last (ess ! i)) < fst (hd (ess ! Suc i))"
      by (auto simp: sorted_wrt_append simp del: set_concat)
    then show ?thesis using k by simp
  qed
  show ?thesis using 1 2 by (simp add: SstConcatIterator_check_sst_valid_def list_all_iff)
qed

section \<open>The contract\<close>

definition sc_at :: "ext \<Rightarrow> (nat \<Rightarrow> entry list list option) \<Rightarrow> SstConcatIterator \<Rightarrow>
    entry list list \<Rightarrow> entry list option \<times> nat \<Rightarrow> bool" where
  "sc_at X tables it ess g \<longleftrightarrow> level_holds X tables (sc_sstables it) ess \<and> sc_next_sst_idx it = snd g \<and>
     (case fst g of
        None \<Rightarrow> sc_current it = None
      | Some ys \<Rightarrow> \<exists>cur. sc_current it = Some cur \<and> sti_abs X tables cur ys)"

definition sc_contents :: "entry list list \<Rightarrow> entry list option \<times> nat \<Rightarrow> entry list" where
  "sc_contents ess g = (case fst g of None \<Rightarrow> [] | Some ys \<Rightarrow> ys @ concat (drop (snd g) ess))"

definition sc_abs :: "ext \<Rightarrow> (nat \<Rightarrow> entry list list option) \<Rightarrow> SstConcatIterator \<Rightarrow> entry list \<Rightarrow> bool" where
  "sc_abs X tables it xs \<longleftrightarrow> sorted_entries xs \<and>
     (\<exists>ess g. sc_at X tables it ess g \<and> xs = sc_contents ess g \<and> fst g \<noteq> Some [])"

lemma sc_advance_ok:
  assumes "sc_at X tables it ess (Some [], n)"
  shows "ok (cache_sound (blocks_of tables)) (SstConcatIterator_advance X it)
    (\<lambda>it'. \<exists>g'. sc_at X tables it' ess g' \<and> sc_contents ess g' = sc_contents ess (Some [], n) \<and>
       (length ess - snd g') + (case fst g' of None \<Rightarrow> 0 | _ \<Rightarrow> 1) < (length ess - n) + 1)"
proof -
  have l: "level_holds X tables (sc_sstables it) ess" and n: "sc_next_sst_idx it = n"
    using assms by (auto simp: sc_at_def)
  note len = level_holds_length [OF l]
  show ?thesis
  proof (cases "n < length ess")
    case False
    then have "sc_at X tables (it\<lparr>sc_current := None\<rparr>) ess (None, n)" "sc_contents ess (Some [], n) = []"
      using l n by (auto simp: sc_at_def sc_contents_def)
    moreover have "SstConcatIterator_advance X it = m_return (it\<lparr>sc_current := None\<rparr>)"
      using False n len by (simp add: SstConcatIterator_advance_def)
    moreover have "sc_contents ess (None, n) = []" by (simp add: sc_contents_def)
    ultimately show ?thesis
      by (simp only:) (rule ok_return, rule exI [of _ "(None, n)"], simp)
  next
    case True
    have "ok (cache_sound (blocks_of tables))
      (m_bind (SsTableIterator_create_and_seek_to_first X (Some (sc_sstables it ! n))) (\<lambda>cur.
        m_return (it\<lparr>sc_current := Some cur, sc_next_sst_idx := n + 1\<rparr>)))
      (\<lambda>it'. sc_at X tables it' ess (Some (ess ! n), Suc n))"
      by (rule ok_bind [OF sst_entries_first_ok [OF level_holds_nth [OF l True]]])
        (use l in \<open>auto simp: sc_at_def intro!: ok_return\<close>)
    moreover have "sc_contents ess (Some (ess ! n), Suc n) = sc_contents ess (Some [], n)"
      using drop_Suc_concat [OF True] by (simp add: sc_contents_def)
    moreover have "length ess - Suc n + 1 < length ess - n + 1" using True by simp
    moreover have "SstConcatIterator_advance X it =
      m_bind (SsTableIterator_create_and_seek_to_first X (Some (sc_sstables it ! n))) (\<lambda>cur.
        m_return (it\<lparr>sc_current := Some cur, sc_next_sst_idx := n + 1\<rparr>))"
      using True n len by (simp add: SstConcatIterator_advance_def)
    ultimately show ?thesis
      by (simp only:) (rule ok_weaken, assumption, rule exI [of _ "(Some (ess ! n), Suc n)"], simp)
  qed
qed

lemma sc_move_until_valid_ok:
  assumes "sc_at X tables it ess g" and "sorted_entries (sc_contents ess g)"
  shows "ok (cache_sound (blocks_of tables)) (SstConcatIterator_move_until_valid X it)
    (\<lambda>it'. sc_abs X tables it' (sc_contents ess g))"
proof -
  let ?J = "\<lambda>it g'. sc_at X tables it ess g' \<and> sc_contents ess g' = sc_contents ess g"
  let ?f = "\<lambda>g'. (length ess - snd g') + (case fst g' of None \<Rightarrow> 0 | _ \<Rightarrow> 1)"
  have "ok (cache_sound (blocks_of tables))
      (m_while (\<lambda>it. m_return (SstConcatIterator_exhausted it)) (SstConcatIterator_advance X) it)
      (\<lambda>it'. \<exists>g'. ?J it' g' \<and> \<not> fst g' = Some [])"
  proof (rule ok_while [where f = ?f])
    fix it g' assume J: "?J it g'"
    have "SstConcatIterator_exhausted it = (fst g' = Some [])"
      using J sst_iter.valid_iff
      by (fastforce simp: sc_at_def SstConcatIterator_exhausted_def SsTableIterator_ops_def split: option.splits)
    then show "ok (cache_sound (blocks_of tables)) (m_return (SstConcatIterator_exhausted it)) (\<lambda>t. t = (fst g' = Some []))"
      by (auto intro: ok_return)
    assume "fst g' = Some []"
    then obtain n where g': "g' = (Some [], n)" by (cases g') auto
    with J have "sc_at X tables it ess (Some [], n)" by simp
    from sc_advance_ok [OF this]
    show "ok (cache_sound (blocks_of tables)) (SstConcatIterator_advance X it) (\<lambda>x'. \<exists>g''. ?J x' g'' \<and> ?f g'' < ?f g')"
      by (rule ok_weaken) (use J g' in auto)
  qed (use assms in simp)
  then show ?thesis
    unfolding SstConcatIterator_move_until_valid_def
    by (rule ok_weaken) (use assms(2) in \<open>unfold sc_abs_def, metis\<close>)
qed

interpretation concat_iter: sorted_iterator "SstConcatIterator_ops X" "cache_sound (blocks_of tables)" "sc_abs X tables"
  for X tables
proof unfold_locales
  fix it xs assume "sc_abs X tables it xs"
  then show "it_valid (SstConcatIterator_ops X) it = (xs \<noteq> [])"
    using sst_iter.valid_iff
    by (fastforce simp: sc_abs_def sc_at_def sc_contents_def SstConcatIterator_ops_def SstConcatIterator_is_valid_def
        SsTableIterator_ops_def split: option.splits)
next
  fix it x xs assume a: "sc_abs X tables it (x # xs)"
  then obtain ess g where g: "sc_at X tables it ess g" "x # xs = sc_contents ess g" "fst g \<noteq> Some []"
    by (auto simp: sc_abs_def)
  then obtain ys n where gs: "g = (Some (x # ys), n)" "xs = ys @ concat (drop n ess)"
    by (cases g) (auto simp: sc_contents_def Cons_eq_append_conv split: option.splits)
  with g(1) obtain cur where cur: "sc_current it = Some cur" "sti_abs X tables cur (x # ys)"
    and rest: "level_holds X tables (sc_sstables it) ess" "sc_next_sst_idx it = n"
    by (auto simp: sc_at_def)
  have ops: "SsTableIterator_is_valid cur" "SsTableIterator_key cur = Inr (fst x)" "SsTableIterator_value cur = Inr (snd x)"
    using sst_iter.valid_Cons [OF cur(2)] sst_iter.key_hd [OF cur(2)] sst_iter.value_hd [OF cur(2)]
    by (simp_all add: SsTableIterator_ops_def)
  have c: "SstConcatIterator_current it = Inr cur"
    using cur(1) ops(1) by (simp add: SstConcatIterator_current_def SstConcatIterator_is_valid_def)
  show "it_key (SstConcatIterator_ops X) it = Inr (fst x)" "it_value (SstConcatIterator_ops X) it = Inr (snd x)"
    using c ops by (simp_all add: SstConcatIterator_ops_def SstConcatIterator_key_def SstConcatIterator_value_def)
  have "ok (cache_sound (blocks_of tables)) (m_bind (SsTableIterator_next X cur)
      (\<lambda>cur. SstConcatIterator_move_until_valid X (it\<lparr>sc_current := Some cur\<rparr>))) (\<lambda>it'. sc_abs X tables it' xs)"
  proof (rule ok_bind)
    show "ok (cache_sound (blocks_of tables)) (SsTableIterator_next X cur) (\<lambda>cur'. sti_abs X tables cur' ys)"
      using sst_iter.next_tl [OF cur(2)] by (simp add: SsTableIterator_ops_def)
    fix cur' assume "sti_abs X tables cur' ys"
    then have "sc_at X tables (it\<lparr>sc_current := Some cur'\<rparr>) ess (Some ys, n)" using rest by (simp add: sc_at_def)
    moreover have "sc_contents ess (Some ys, n) = xs" by (simp add: sc_contents_def gs(2))
    moreover have "sorted_entries xs" using a by (simp add: sc_abs_def)
    ultimately show "ok (cache_sound (blocks_of tables)) (SstConcatIterator_move_until_valid X (it\<lparr>sc_current := Some cur'\<rparr>))
        (\<lambda>it'. sc_abs X tables it' xs)"
      using sc_move_until_valid_ok by metis
  qed
  then show "ok (cache_sound (blocks_of tables)) (it_next (SstConcatIterator_ops X) it) (\<lambda>it'. sc_abs X tables it' xs)"
    using c by (simp add: SstConcatIterator_ops_def SstConcatIterator_next_def)
next
  fix it xs assume "sc_abs X tables it xs"
  then show "sorted_entries xs" by (simp add: sc_abs_def)
qed

interpretation concat_merge: merge_over "SstConcatIterator_ops X" "cache_sound (blocks_of tables)" "sc_abs X tables"
  for X tables
  by unfold_locales

section \<open>Seeking\<close>

lemma sc_abs_empty: "sorted_entries [] \<Longrightarrow> level_holds X tables ts ess \<Longrightarrow>
  sc_abs X tables \<lparr>sc_current = None, sc_next_sst_idx = n, sc_sstables = ts\<rparr> []"
  unfolding sc_abs_def by (intro conjI exI [of _ ess] exI [of _ "(None, n)"]) (auto simp: sc_at_def sc_contents_def)

lemma SstConcatIterator_create_and_seek_to_first_ok:
  assumes h: "level_holds X tables ts ess"
  shows "ok (cache_sound (blocks_of tables)) (SstConcatIterator_create_and_seek_to_first X ts)
    (\<lambda>it. sc_abs X tables it (concat ess))"
proof (cases "ts = []")
  case True
  then have "ess = []" using level_holds_length [OF h] by simp
  then show ?thesis
    using True sc_abs_empty [OF _ h] check_sst_valid_ok [OF h]
    by (simp add: SstConcatIterator_create_and_seek_to_first_def)
next
  case False
  then have l: "0 < length ess" using level_holds_length [OF h] by (cases ess) auto
  have "ok (cache_sound (blocks_of tables)) (m_bind (SsTableIterator_create_and_seek_to_first X (Some (ts ! 0)))
      (\<lambda>cur. SstConcatIterator_move_until_valid X \<lparr>sc_current = Some cur, sc_next_sst_idx = 1, sc_sstables = ts\<rparr>))
      (\<lambda>it. sc_abs X tables it (concat ess))"
  proof (rule ok_bind [OF sst_entries_first_ok [OF level_holds_nth [OF h l]]])
    fix cur assume "sti_abs X tables cur (ess ! 0)"
    then have "sc_at X tables \<lparr>sc_current = Some cur, sc_next_sst_idx = 1, sc_sstables = ts\<rparr> ess (Some (ess ! 0), 1)"
      using h by (simp add: sc_at_def)
    moreover have "sc_contents ess (Some (ess ! 0), 1) = concat ess"
      using concat_split [OF l] by (simp add: sc_contents_def)
    moreover have "sorted_entries (concat ess)" using h by (simp add: level_holds_def)
    ultimately show "ok (cache_sound (blocks_of tables)) (SstConcatIterator_move_until_valid X
        \<lparr>sc_current = Some cur, sc_next_sst_idx = 1, sc_sstables = ts\<rparr>) (\<lambda>it. sc_abs X tables it (concat ess))"
      using sc_move_until_valid_ok by metis
  qed
  then show ?thesis
    using False check_sst_valid_ok [OF h] by (simp add: SstConcatIterator_create_and_seek_to_first_def)
qed

lemma SstConcatIterator_part_eq:
  assumes "list_all2 (sst_entries X tables) ts ess"
  shows "SstConcatIterator_part ts key = length (takeWhile (\<lambda>es. fst (hd es) \<le> key) ess)"
  using assms
  by (induction ts ess rule: list_all2_induct) (auto simp: sst_entries_keys(2))

lemma SstConcatIterator_create_and_seek_to_key_ok:
  assumes h: "level_holds X tables ts ess"
  shows "ok (cache_sound (blocks_of tables)) (SstConcatIterator_create_and_seek_to_key X ts key)
    (\<lambda>it. sc_abs X tables it (dropWhile (\<lambda>e. fst e < key) (concat ess)))"
proof (cases "ts = []")
  case True
  then have "ess = []" using level_holds_length [OF h] by simp
  then show ?thesis
    using True sc_abs_empty [OF _ h] check_sst_valid_ok [OF h]
    by (simp add: SstConcatIterator_create_and_seek_to_key_def)
next
  case False
  define idx where "idx = SstConcatIterator_part ts key - 1"
  have s: "sorted_entries (concat ess)" and all: "list_all2 (sst_entries X tables) ts ess"
    using h by (simp_all add: level_holds_def)
  have ne: "\<forall>es \<in> set ess. es \<noteq> []" "ess \<noteq> []"
    using all False by (auto simp: list_all2_conv_all_nth in_set_conv_nth dest!: sst_entries_keys(1))
  have p: "idx < length ess" "dropWhile (\<lambda>e. fst e < key) (concat ess) =
      dropWhile (\<lambda>e. fst e < key) (ess ! idx) @ concat (drop (Suc idx) ess)"
    using partition_point_split [OF s ne, of key] SstConcatIterator_part_eq [OF all, of key]
    by (simp_all add: idx_def)
  have "ok (cache_sound (blocks_of tables)) (m_bind (SsTableIterator_create_and_seek_to_key X (Some (ts ! idx)) key)
      (\<lambda>cur. SstConcatIterator_move_until_valid X \<lparr>sc_current = Some cur, sc_next_sst_idx = idx + 1, sc_sstables = ts\<rparr>))
      (\<lambda>it. sc_abs X tables it (dropWhile (\<lambda>e. fst e < key) (concat ess)))"
  proof (rule ok_bind [OF sst_entries_key_ok [OF level_holds_nth [OF h p(1)]]])
    let ?ys = "dropWhile (\<lambda>e. fst e < key) (ess ! idx)"
    fix cur assume "sti_abs X tables cur ?ys"
    then have "sc_at X tables \<lparr>sc_current = Some cur, sc_next_sst_idx = idx + 1, sc_sstables = ts\<rparr> ess (Some ?ys, Suc idx)"
      using h by (simp add: sc_at_def)
    moreover have c: "sc_contents ess (Some ?ys, Suc idx) = dropWhile (\<lambda>e. fst e < key) (concat ess)"
      by (simp add: sc_contents_def p(2))
    moreover have "sorted_entries (dropWhile (\<lambda>e. fst e < key) (concat ess))"
      using s by (simp add: dropWhile_eq_drop sorted_entries_drop)
    ultimately show "ok (cache_sound (blocks_of tables)) (SstConcatIterator_move_until_valid X
        \<lparr>sc_current = Some cur, sc_next_sst_idx = idx + 1, sc_sstables = ts\<rparr>)
        (\<lambda>it. sc_abs X tables it (dropWhile (\<lambda>e. fst e < key) (concat ess)))"
      using sc_move_until_valid_ok by metis
  qed
  moreover have "(if SstConcatIterator_part ts key > 0 then SstConcatIterator_part ts key - 1 else 0) = idx"
    by (simp add: idx_def)
  ultimately show ?thesis
    using check_sst_valid_ok [OF h] p(1) level_holds_length [OF h]
    by (simp add: SstConcatIterator_create_and_seek_to_key_def Let_def)
qed

section \<open>Properties\<close>

text \<open>An iterator over a sorted run of tables behaves as one sorted sequence: positioned at a key,
  it yields exactly the entries of all tables from that key on, in order, crossing table boundaries
  and skipping tables that end before the key; its sanity check of the tables never fails.\<close>

theorem SstConcatIterator_seek_drain:
  assumes "level_holds X tables ts ess" and "cache_sound (blocks_of tables) c"
  shows "\<exists>c'. m_bind (SstConcatIterator_create_and_seek_to_key X ts key) (drain (SstConcatIterator_ops X)) c =
      Some (Inr (dropWhile (\<lambda>e. fst e < key) (concat ess)), c') \<and> cache_sound (blocks_of tables) c'"
proof -
  have "ok (cache_sound (blocks_of tables)) (m_bind (SstConcatIterator_create_and_seek_to_key X ts key)
      (drain (SstConcatIterator_ops X))) (\<lambda>xs. xs = dropWhile (\<lambda>e. fst e < key) (concat ess))"
    by (rule ok_bind [OF SstConcatIterator_create_and_seek_to_key_ok [OF assms(1)]]) (rule concat_iter.drain_ok)
  from okD [OF this assms(2)] show ?thesis by blast
qed

lemma example_level_holds: "level_holds example_ext [7 \<mapsto> example_runs] [example_table] [concat example_runs]"
proof -
  have "sst_entries example_ext [7 \<mapsto> example_runs] example_table (concat example_runs)"
    using example_sst_holds by (auto simp: sst_entries_def)
  then show ?thesis using sst_entries_keys(4) by (auto simp: level_holds_def)
qed

theorem SstConcatIterator_seek_drain_witness:
  "\<exists>c'. m_bind (SstConcatIterator_create_and_seek_to_key example_ext [example_table] [1, 2])
      (drain (SstConcatIterator_ops example_ext)) (BlockCache_new 3) =
    Some (Inr [([1, 3], []), ([2], [8, 8])], c')"
  using SstConcatIterator_seek_drain [OF example_level_holds cache_sound_new, of "[1, 2]" 3]
  by (auto simp: example_runs_def)

end
