(* ===== verification/Lsm_Read.thy ===== *)
theory Lsm_Read
  imports Mem_Table Concat_Iterator
begin

text \<open>
  The state of the store and its read path: \<open>LsmStorageState\<close>, \<open>LsmStorageInner::get\<close> and
  \<open>LsmStorageInner::scan\<close> (\<open>include/mini_lsm/lsm_storage.h\<close>, \<open>src/lsm_storage.cpp\<close>).

  Reading takes the state as it is under the shared lock, so both operations are functions of it,
  running on the block cache. \<open>lsm_runs\<close> lists the sorted runs of a state, newest first; the map
  the store stands for looks a key up in the first run that has it. \<open>get\<close> and \<open>scan\<close> are shown to
  return what that map says, tombstones hidden.
\<close>

section \<open>The state\<close>

record LsmStorageState =
  ls_memtable :: MemTable
  ls_imm_memtables :: "MemTable list"
  ls_l0_sstables :: "nat list"
  ls_levels :: "(nat \<times> nat list) list"
  ls_sstables :: "nat \<Rightarrow> SsTable option"

text \<open>The loop that looks tables up by identifier and keeps those that pass a test.\<close>

fun lookup_ssts :: "LsmStorageState \<Rightarrow> (SsTable \<Rightarrow> bool) \<Rightarrow> nat list \<Rightarrow> SsTable list" where
  "lookup_ssts st keep [] = []"
| "lookup_ssts st keep (i # ids) =
     (case ls_sstables st i of
        None \<Rightarrow> lookup_ssts st keep ids
      | Some t \<Rightarrow> if keep t then t # lookup_ssts st keep ids else lookup_ssts st keep ids)"

section \<open>Point lookups\<close>

definition keep_table :: "ext \<Rightarrow> bytes \<Rightarrow> SsTable \<Rightarrow> bool" where
  "keep_table X k table =
     (if KeySlice_ge k (st_first_key table) \<and> KeySlice_le k (st_last_key table) then
        (case st_bloom table of
           Some bloom \<Rightarrow> Bloom_may_contain bloom (farmhash_fingerprint32 X k)
         | None \<Rightarrow> True)
      else False)"

text \<open>Memtables answer first; \<open>None\<close> where none of them knows the key.\<close>

fun get_from_memtables :: "bytes \<Rightarrow> MemTable list \<Rightarrow> bytes option" where
  "get_from_memtables key [] = None"
| "get_from_memtables key (m # ms) =
     (case MemTable_get key m of Some v \<Rightarrow> Some v | None \<Rightarrow> get_from_memtables key ms)"

text \<open>One iterator per table, or per level, and the merge of them.\<close>

definition l0_merge ::
  "ext \<Rightarrow> (SsTable \<Rightarrow> (BlockCache, SsTableIterator) m) \<Rightarrow> SsTable list \<Rightarrow> (BlockCache, SsTableIterator MergeIterator) m" where
  "l0_merge X create_iter ssts =
     m_bind (m_map create_iter ssts) (\<lambda>iters. m_lift (MergeIterator_create (SsTableIterator_ops X) iters))"

definition level_merge ::
  "ext \<Rightarrow> (SsTable list \<Rightarrow> (BlockCache, SstConcatIterator) m) \<Rightarrow> SsTable list list \<Rightarrow>
   (BlockCache, SstConcatIterator MergeIterator) m" where
  "level_merge X create_iter levels =
     m_bind (m_map create_iter levels) (\<lambda>iters. m_lift (MergeIterator_create (SstConcatIterator_ops X) iters))"

abbreviation get_iter_ops where
  "get_iter_ops X \<equiv> TwoMergeIterator_ops (MergeIterator_ops (SsTableIterator_ops X))
     (MergeIterator_ops (SstConcatIterator_ops X))"

definition get_iter ::
  "ext \<Rightarrow> LsmStorageState \<Rightarrow> bytes \<Rightarrow>
   (BlockCache, (SsTableIterator MergeIterator, SstConcatIterator MergeIterator) TwoMergeIterator) m" where
  "get_iter X st key =
     m_bind (l0_merge X (\<lambda>t. SsTableIterator_create_and_seek_to_key X (Some t) key)
       (lookup_ssts st (keep_table X key) (ls_l0_sstables st))) (\<lambda>l0.
     m_bind (level_merge X (\<lambda>level_ssts. SstConcatIterator_create_and_seek_to_key X level_ssts key)
       (map (\<lambda>(_, ids). lookup_ssts st (keep_table X key) ids) (ls_levels st))) (\<lambda>levels.
     TwoMergeIterator_create (MergeIterator_ops (SsTableIterator_ops X)) (MergeIterator_ops (SstConcatIterator_ops X))
       l0 levels))"

definition LsmStorageInner_get :: "ext \<Rightarrow> LsmStorageState \<Rightarrow> bytes \<Rightarrow> (BlockCache, bytes) m" where
  "LsmStorageInner_get X st key =
     (case get_from_memtables key (ls_memtable st # ls_imm_memtables st) of
        Some v \<Rightarrow> if v = [] then m_return [] else m_return v
      | None \<Rightarrow>
          m_bind (get_iter X st key) (\<lambda>iter.
          if it_valid (get_iter_ops X) iter then
            m_bind (m_lift (it_key (get_iter_ops X) iter)) (\<lambda>k.
            if KeySlice_eq k key then
              m_bind (m_lift (it_value (get_iter_ops X) iter)) (\<lambda>v.
              if v \<noteq> [] then m_return v else m_return [])
            else m_return [])
          else m_return []))"

section \<open>Range scans\<close>

definition range_overlap :: "Bound \<Rightarrow> Bound \<Rightarrow> bytes \<Rightarrow> bytes \<Rightarrow> bool" where
  "range_overlap l u first_key last_key =
     (if (case l of Included k \<Rightarrow> KeySlice_gt k last_key | _ \<Rightarrow> False) then False
      else if (case l of Excluded k \<Rightarrow> KeySlice_ge k last_key | _ \<Rightarrow> False) then False
      else if (case u of Included k \<Rightarrow> KeySlice_lt k first_key | _ \<Rightarrow> False) then False
      else if (case u of Excluded k \<Rightarrow> KeySlice_le k first_key | _ \<Rightarrow> False) then False
      else True)"

text \<open>\<open>seek\<close> to the lower bound; after an excluded bound, step over the key itself.\<close>

definition seek_lower ::
  "('s, 'i) iter_ops \<Rightarrow> (bytes \<Rightarrow> ('s, 'i) m) \<Rightarrow> ('s, 'i) m \<Rightarrow> Bound \<Rightarrow> ('s, 'i) m" where
  "seek_lower I seek_to_key seek_to_first lower =
     (case lower of
        Included k \<Rightarrow> seek_to_key k
      | Excluded k \<Rightarrow>
          m_bind (seek_to_key k) (\<lambda>iter.
          if it_valid I iter then
            m_bind (m_lift (it_key I iter)) (\<lambda>ik. if KeySlice_eq ik k then it_next I iter else m_return iter)
          else m_return iter)
      | Unbounded \<Rightarrow> seek_to_first)"

definition scan_table :: "ext \<Rightarrow> Bound \<Rightarrow> SsTable \<Rightarrow> (BlockCache, SsTableIterator) m" where
  "scan_table X lower table =
     seek_lower (SsTableIterator_ops X) (SsTableIterator_create_and_seek_to_key X (Some table))
       (SsTableIterator_create_and_seek_to_first X (Some table)) lower"

definition scan_level :: "ext \<Rightarrow> Bound \<Rightarrow> SsTable list \<Rightarrow> (BlockCache, SstConcatIterator) m" where
  "scan_level X lower level_ssts =
     (if level_ssts \<noteq> [] then
        seek_lower (SstConcatIterator_ops X) (SstConcatIterator_create_and_seek_to_key X level_ssts)
          (SstConcatIterator_create_and_seek_to_first X level_ssts) lower
      else m_return \<lparr>sc_current = None, sc_next_sst_idx = 0, sc_sstables = []\<rparr>)"

abbreviation scan_mem_ops where
  "scan_mem_ops X \<equiv> TwoMergeIterator_ops (MergeIterator_ops MemTableIterator_ops) (MergeIterator_ops (SsTableIterator_ops X))"

abbreviation scan_iter_ops where
  "scan_iter_ops X \<equiv> TwoMergeIterator_ops (scan_mem_ops X) (MergeIterator_ops (SstConcatIterator_ops X))"

type_synonym scan_iter =
  "((MemTableIterator MergeIterator, SsTableIterator MergeIterator) TwoMergeIterator,
    SstConcatIterator MergeIterator) TwoMergeIterator"

definition LsmStorageInner_scan ::
  "ext \<Rightarrow> LsmStorageState \<Rightarrow> Bound \<Rightarrow> Bound \<Rightarrow> (BlockCache, scan_iter LsmIterator FusedIterator) m" where
  "LsmStorageInner_scan X snapshot lower upper =
     (let overlaps = (\<lambda>t. range_overlap lower upper (st_first_key t) (st_last_key t));
          memtable_iters = map (MemTable_scan lower upper) (ls_memtable snapshot # ls_imm_memtables snapshot) in
      m_bind (m_lift (MergeIterator_create (MemTableIterator_ops :: (BlockCache, MemTableIterator) iter_ops) memtable_iters)) (\<lambda>memtable_iter.
      m_bind (l0_merge X (scan_table X lower) (lookup_ssts snapshot overlaps (ls_l0_sstables snapshot))) (\<lambda>l0_iter.
      m_bind (level_merge X (scan_level X lower)
        (map (\<lambda>(_, ids). lookup_ssts snapshot overlaps ids) (ls_levels snapshot))) (\<lambda>level_iter.
      m_bind (TwoMergeIterator_create (MergeIterator_ops MemTableIterator_ops) (MergeIterator_ops (SsTableIterator_ops X))
        memtable_iter l0_iter) (\<lambda>two_merge_1.
      m_bind (TwoMergeIterator_create (scan_mem_ops X) (MergeIterator_ops (SstConcatIterator_ops X))
        two_merge_1 level_iter) (\<lambda>two_merge_2.
      m_bind (LsmIterator_create (scan_iter_ops X) (Some two_merge_2) upper) (\<lambda>lsm_iter.
      m_return (FusedIterator_create (Some lsm_iter)))))))))"

section \<open>What a state holds\<close>

text \<open>The contents of the tables behind a list of identifiers.\<close>

definition ids_hold :: "ext \<Rightarrow> (nat \<Rightarrow> entry list list option) \<Rightarrow> LsmStorageState \<Rightarrow> nat list \<Rightarrow> entry list list \<Rightarrow> bool" where
  "ids_hold X tables st ids ess \<longleftrightarrow>
     list_all2 (\<lambda>i es. \<exists>t. ls_sstables st i = Some t \<and> sst_entries X tables t es) ids ess"

record contents =
  co_mems :: "entry list list"
  co_l0 :: "entry list list"
  co_levels :: "entry list list list"

definition st_holds :: "ext \<Rightarrow> (nat \<Rightarrow> entry list list option) \<Rightarrow> LsmStorageState \<Rightarrow> contents \<Rightarrow> bool" where
  "st_holds X tables st co \<longleftrightarrow>
     co_mems co = map mt_map (ls_memtable st # ls_imm_memtables st) \<and>
     (\<forall>m \<in> set (ls_memtable st # ls_imm_memtables st). mt_wf m) \<and>
     ids_hold X tables st (ls_l0_sstables st) (co_l0 co) \<and>
     list_all2 (\<lambda>(_, ids) ess. ids_hold X tables st ids ess \<and> sorted_entries (concat ess)) (ls_levels st) (co_levels co)"

text \<open>The sorted runs, newest first, and the map they stand for.\<close>

definition lsm_runs :: "contents \<Rightarrow> entry list list" where
  "lsm_runs co = co_mems co @ co_l0 co @ map concat (co_levels co)"

definition lsm_view :: "contents \<Rightarrow> bytes \<Rightarrow> bytes option" where
  "lsm_view co = map_of (merge_runs (lsm_runs co))"

interpretation get_merge: two_merge "MergeIterator_ops (SsTableIterator_ops X)" "MergeIterator_ops (SstConcatIterator_ops X)"
  "cache_sound (blocks_of tables)" "mi_abs (sti_abs X tables)" "mi_abs (sc_abs X tables)" for X tables
  by unfold_locales

interpretation scan_mem: two_merge "MergeIterator_ops MemTableIterator_ops" "MergeIterator_ops (SsTableIterator_ops X)"
  "cache_sound (blocks_of tables)" "mi_abs mti_abs" "mi_abs (sti_abs X tables)" for X tables
  by unfold_locales

interpretation scan_merge: two_merge "scan_mem_ops X" "MergeIterator_ops (SstConcatIterator_ops X)"
  "cache_sound (blocks_of tables)" "tm_abs (mi_abs mti_abs) (mi_abs (sti_abs X tables))" "mi_abs (sc_abs X tables)" for X tables
  by unfold_locales

abbreviation scan_abs where
  "scan_abs X tables \<equiv> tm_abs (tm_abs (mi_abs mti_abs) (mi_abs (sti_abs X tables))) (mi_abs (sc_abs X tables))"

interpretation scan_lsm: lsm_over "scan_iter_ops X" "cache_sound (blocks_of tables)" "scan_abs X tables" for X tables
  by unfold_locales

interpretation scan_fused: fused_over "LsmIterator_ops (scan_iter_ops X)" "cache_sound (blocks_of tables)"
  "li_abs (scan_abs X tables)" for X tables
  by unfold_locales

section \<open>Leaving out what does not matter\<close>

text \<open>Two lists of runs that have the same entries for the keys in \<open>P\<close>, up to runs without such keys.\<close>

definition runs_eq :: "(bytes \<Rightarrow> bool) \<Rightarrow> entry list list \<Rightarrow> entry list list \<Rightarrow> bool" where
  "runs_eq P xss yss \<longleftrightarrow>
     filter (\<lambda>xs. xs \<noteq> []) (map (filter (\<lambda>e. P (fst e))) xss) =
     filter (\<lambda>xs. xs \<noteq> []) (map (filter (\<lambda>e. P (fst e))) yss)"

lemma runs_eq_merge:
  assumes "runs_eq P xss yss" and "\<And>xs. xs \<in> set (xss @ yss) \<Longrightarrow> sorted_entries xs"
  shows "filter (\<lambda>e. P (fst e)) (merge_runs xss) = filter (\<lambda>e. P (fst e)) (merge_runs yss)"
proof -
  have "filter (\<lambda>e. P (fst e)) (merge_runs zss) =
      merge_runs (filter (\<lambda>xs. xs \<noteq> []) (map (filter (\<lambda>e. P (fst e))) zss))" if "set zss \<subseteq> set (xss @ yss)" for zss
    using that assms(2) by (subst merge_runs_filter) (auto intro!: filter_merge_runs)
  from this [of xss] this [of yss] show ?thesis using assms(1) by (simp add: runs_eq_def)
qed

lemma runs_eq_refl [simp]: "runs_eq P xss xss"
  by (simp add: runs_eq_def)

lemma runs_eq_trans: "runs_eq P xss yss \<Longrightarrow> runs_eq P yss zss \<Longrightarrow> runs_eq P xss zss"
  by (simp add: runs_eq_def)

lemma runs_eq_append: "runs_eq P xss yss \<Longrightarrow> runs_eq P us vs \<Longrightarrow> runs_eq P (xss @ us) (yss @ vs)"
  by (simp add: runs_eq_def)

lemma runs_eq_map:
  "(\<And>xs. xs \<in> set xss \<Longrightarrow> filter (\<lambda>e. P (fst e)) (f xs) = filter (\<lambda>e. P (fst e)) xs) \<Longrightarrow> runs_eq P (map f xss) xss"
  unfolding runs_eq_def by (simp add: comp_def cong: map_cong)

lemma runs_eq_concat:
  assumes "runs_eq P xss yss"
  shows "filter (\<lambda>e. P (fst e)) (concat xss) = filter (\<lambda>e. P (fst e)) (concat yss)"
proof -
  have "filter (\<lambda>e. P (fst e)) (concat zss) = concat (filter (\<lambda>xs. xs \<noteq> []) (map (filter (\<lambda>e. P (fst e))) zss))"
    for zss :: "entry list list" by (induction zss) auto
  then show ?thesis using assms by (simp add: runs_eq_def)
qed

lemma runs_eq_list_all2:
  "list_all2 (\<lambda>xs ys. filter (\<lambda>e. P (fst e)) xs = filter (\<lambda>e. P (fst e)) ys) xss yss \<Longrightarrow> runs_eq P xss yss"
  by (induction xss yss rule: list_all2_induct) (auto simp: runs_eq_def)

lemma subseq_sorted_concat:
  fixes ess :: "('k::linorder \<times> 'v) list list"
  assumes "subseq ess' ess" and "sorted_entries (concat ess)"
  shows "sorted_entries (concat ess')" and "set ess' \<subseteq> set ess"
proof -
  show sub: "set ess' \<subseteq> set ess" using assms(1) by (rule subseq_subset)
  show "sorted_entries (concat ess')"
    using assms
  proof (induction ess' ess rule: list_emb.induct)
    case (list_emb_Cons2 es es' xs ys)
    then have "set xs \<subseteq> set ys" by (auto dest: subseq_subset)
    with list_emb_Cons2 show ?case by (fastforce simp: sorted_wrt_append)
  qed (auto simp: sorted_wrt_append)
qed

text \<open>A table that fails the test \<open>keep\<close> has no key in \<open>P\<close>.\<close>

definition skips_only :: "ext \<Rightarrow> (nat \<Rightarrow> entry list list option) \<Rightarrow> (bytes \<Rightarrow> bool) \<Rightarrow> (SsTable \<Rightarrow> bool) \<Rightarrow> bool" where
  "skips_only X tables P keep \<longleftrightarrow>
     (\<forall>t es. sst_entries X tables t es \<longrightarrow> \<not> keep t \<longrightarrow> filter (\<lambda>e. P (fst e)) es = [])"

lemma ids_hold_lookup:
  assumes "ids_hold X tables st ids ess" and irrelevant: "skips_only X tables P keep"
  shows "\<exists>ess'. list_all2 (sst_entries X tables) (lookup_ssts st keep ids) ess' \<and> subseq ess' ess \<and> runs_eq P ess' ess"
  using assms(1) unfolding ids_hold_def
proof (induction ids ess rule: list_all2_induct)
  case (Cons i ids es ess)
  then obtain t ess' where t: "ls_sstables st i = Some t" "sst_entries X tables t es"
    and ess': "list_all2 (sst_entries X tables) (lookup_ssts st keep ids) ess'" "subseq ess' ess" "runs_eq P ess' ess"
    by blast
  show ?case
  proof (cases "keep t")
    case True
    then show ?thesis using t ess' by (intro exI [of _ "es # ess'"]) (auto simp: runs_eq_def)
  next
    case False
    then show ?thesis using t ess' irrelevant by (intro exI [of _ ess']) (auto simp: runs_eq_def skips_only_def)
  qed
qed simp

section \<open>Merging the tables\<close>

text \<open>What is common to both readers: the iterators over the tables that were kept deliver, for the keys
  in \<open>P\<close>, what all tables hold; and all they deliver satisfies \<open>A\<close>.\<close>

definition narrows :: "(bytes \<Rightarrow> bool) \<Rightarrow> (bytes \<Rightarrow> bool) \<Rightarrow> (entry list \<Rightarrow> entry list) \<Rightarrow> bool" where
  "narrows P A g \<longleftrightarrow> (\<forall>es. sorted_entries es \<longrightarrow> sorted_entries (g es) \<and> (\<forall>e \<in> set (g es). A (fst e)) \<and>
     filter (\<lambda>e. P (fst e)) (g es) = filter (\<lambda>e. P (fst e)) es)"

definition good_runs :: "(bytes \<Rightarrow> bool) \<Rightarrow> entry list list \<Rightarrow> bool" where
  "good_runs A xss \<longleftrightarrow> (\<forall>xs \<in> set xss. sorted_entries xs \<and> (\<forall>e \<in> set xs. A (fst e)))"

lemma l0_merge_ok:
  assumes h: "ids_hold X tables st ids ess"
    and keep: "skips_only X tables P keep"
    and it: "\<And>t es. sst_entries X tables t es \<Longrightarrow>
      ok (cache_sound (blocks_of tables)) (create_iter t) (\<lambda>it. sti_abs X tables it (g es))"
    and g: "narrows P A g"
  shows "ok (cache_sound (blocks_of tables)) (l0_merge X create_iter (lookup_ssts st keep ids))
    (\<lambda>mi. \<exists>xss. mi_abs (sti_abs X tables) mi (merge_runs xss) \<and> good_runs A xss \<and> runs_eq P xss ess)"
proof -
  obtain l0 where l0: "list_all2 (sst_entries X tables) (lookup_ssts st keep ids) l0" "runs_eq P l0 ess"
    using ids_hold_lookup [OF h keep] by auto
  have sorted: "sorted_entries es" if "es \<in> set l0" for es
    using that l0(1) by (auto simp: list_all2_conv_all_nth in_set_conv_nth dest!: sst_entries_keys(4))
  have "list_all2 (\<lambda>t xs. ok (cache_sound (blocks_of tables)) (create_iter t) (\<lambda>it. sti_abs X tables it xs))
      (lookup_ssts st keep ids) (map g l0)"
    using l0(1) it by (simp add: list_all2_conv_all_nth)
  from ok_map [OF this] show ?thesis
    unfolding l0_merge_def
  proof (rule ok_bind)
    fix its assume "list_all2 (sti_abs X tables) its (map g l0)"
    then obtain mi where mi: "MergeIterator_create (SsTableIterator_ops X) its = Inr mi"
      "mi_abs (sti_abs X tables) mi (merge_runs (map g l0))" using sst_merge.create_ok by blast
    have "runs_eq P (map g l0) ess"
      by (rule runs_eq_trans [OF runs_eq_map l0(2)]) (use g sorted in \<open>simp add: narrows_def\<close>)
    moreover have "good_runs A (map g l0)" using g sorted by (auto simp: good_runs_def narrows_def)
    ultimately show "ok (cache_sound (blocks_of tables)) (m_lift (MergeIterator_create (SsTableIterator_ops X) its))
      (\<lambda>mi. \<exists>xss. mi_abs (sti_abs X tables) mi (merge_runs xss) \<and> good_runs A xss \<and> runs_eq P xss ess)"
      using mi by (intro ok_lift) auto
  qed
qed

lemma level_lookup:
  assumes "ids_hold X tables st ids ess" and "sorted_entries (concat ess)"
    and "skips_only X tables P keep"
  shows "\<exists>ess'. level_holds X tables (lookup_ssts st keep ids) ess' \<and>
    filter (\<lambda>e. P (fst e)) (concat ess') = filter (\<lambda>e. P (fst e)) (concat ess)"
proof -
  obtain ess' where "list_all2 (sst_entries X tables) (lookup_ssts st keep ids) ess'" "subseq ess' ess" "runs_eq P ess' ess"
    using ids_hold_lookup [OF assms(1,3)] by auto
  then show ?thesis
    using subseq_sorted_concat(1) [of ess' ess] assms(2) runs_eq_concat by (auto simp: level_holds_def)
qed

lemma level_merge_ok:
  assumes h: "list_all2 (\<lambda>(_, ids) ess. ids_hold X tables st ids ess \<and> sorted_entries (concat ess)) levels lvs"
    and keep: "skips_only X tables P keep"
    and it: "\<And>ts ess. level_holds X tables ts ess \<Longrightarrow>
      ok (cache_sound (blocks_of tables)) (create_iter ts) (\<lambda>it. sc_abs X tables it (g (concat ess)))"
    and g: "narrows P A g"
  shows "ok (cache_sound (blocks_of tables)) (level_merge X create_iter (map (\<lambda>(_, ids). lookup_ssts st keep ids) levels))
    (\<lambda>mi. \<exists>xss. mi_abs (sc_abs X tables) mi (merge_runs xss) \<and> good_runs A xss \<and> runs_eq P xss (map concat lvs))"
proof -
  let ?R = "\<lambda>lv ess'. level_holds X tables (lookup_ssts st keep (snd lv)) ess'"
  let ?S = "\<lambda>ess' ess. filter (\<lambda>e. P (fst e)) (concat ess') = filter (\<lambda>e. P (fst e)) (concat ess)"
  have "list_all2 (\<lambda>lv ess. \<exists>ess'. ?R lv ess' \<and> ?S ess' ess) levels lvs"
    using h by (rule list.rel_mono_strong) (use level_lookup [OF _ _ keep] in auto)
  then obtain ks where R: "list_all2 ?R levels ks" and S: "list_all2 ?S ks lvs"
    using list_all2_split [of ?R ?S] by blast
  have sorted: "sorted_entries (concat ess)" if "ess \<in> set ks" for ess
    using that R by (auto simp: list_all2_conv_all_nth in_set_conv_nth level_holds_def)
  have "list_all2 (\<lambda>ts xs. ok (cache_sound (blocks_of tables)) (create_iter ts) (\<lambda>it. sc_abs X tables it xs))
      (map (\<lambda>(_, ids). lookup_ssts st keep ids) levels) (map (\<lambda>ess. g (concat ess)) ks)"
    using R it by (simp add: list_all2_conv_all_nth case_prod_beta)
  from ok_map [OF this] show ?thesis
    unfolding level_merge_def
  proof (rule ok_bind)
    fix its assume "list_all2 (sc_abs X tables) its (map (\<lambda>ess. g (concat ess)) ks)"
    then obtain mi where mi: "MergeIterator_create (SstConcatIterator_ops X) its = Inr mi"
      "mi_abs (sc_abs X tables) mi (merge_runs (map (\<lambda>ess. g (concat ess)) ks))" using concat_merge.create_ok by blast
    have "runs_eq P (map (\<lambda>ess. g (concat ess)) ks) (map concat lvs)"
      using S g sorted by (intro runs_eq_list_all2) (auto simp: list_all2_conv_all_nth narrows_def)
    moreover have "good_runs A (map (\<lambda>ess. g (concat ess)) ks)" using g sorted by (auto simp: good_runs_def narrows_def)
    ultimately show "ok (cache_sound (blocks_of tables)) (m_lift (MergeIterator_create (SstConcatIterator_ops X) its))
      (\<lambda>mi. \<exists>xss. mi_abs (sc_abs X tables) mi (merge_runs xss) \<and> good_runs A xss \<and> runs_eq P xss (map concat lvs))"
      using mi by (intro ok_lift) auto
  qed
qed

section \<open>Point lookups return the newest value\<close>

text \<open>A table that is skipped does not have the key.\<close>

lemma keep_table_skips: "skips_only X tables (\<lambda>k. k = key) (keep_table X key)"
  unfolding skips_only_def
proof (intro allI impI, rule ccontr)
  fix t es assume assms: "sst_entries X tables t es" "\<not> keep_table X key t"
  assume "filter (\<lambda>e. fst e = key) es \<noteq> []"
  then obtain v where e: "(key, v) \<in> set es" by (auto simp: filter_empty_conv)
  note k = sst_entries_keys [OF assms(1)]
  have "fst (hd es) \<le> key" "key \<le> fst (last es)" using sorted_entries_bounds [OF k(4) e] by simp_all
  moreover obtain cm cached runs where t: "t = table_of X cm (st_id t) cached runs" "es = concat runs"
    using assms(1) by (auto simp: sst_entries_def sst_holds_def)
  have "farmhash_fingerprint32 X key \<in> set (map (\<lambda>e. farmhash_fingerprint32 X (fst e)) (concat runs))"
    using e t(2) by force
  then have "Bloom_may_contain (bloom_of X runs) (farmhash_fingerprint32 X key)"
    unfolding bloom_of_def by (rule Bloom_no_false_negative)
  moreover have "st_bloom t = Some (bloom_of X runs)" by (subst t(1)) (simp add: table_of_def)
  ultimately show False using assms(2) k(2,3) by (simp add: keep_table_def)
qed

lemma narrows_key: "narrows (\<lambda>k. k = key) (\<lambda>k. key \<le> k) (dropWhile (\<lambda>e. fst e < key))"
  unfolding narrows_def
proof (intro allI impI)
  fix es :: "entry list" assume s: "sorted_entries es"
  have "dropWhile (\<lambda>e. fst e < key) es = filter (\<lambda>e. \<not> fst e < key) es"
    using s by (rule dropWhile_sorted_entries) auto
  then show "sorted_entries (dropWhile (\<lambda>e. fst e < key) es) \<and> (\<forall>e \<in> set (dropWhile (\<lambda>e. fst e < key) es). key \<le> fst e) \<and>
      filter (\<lambda>e. fst e = key) (dropWhile (\<lambda>e. fst e < key) es) = filter (\<lambda>e. fst e = key) es"
    using s by (auto simp: sorted_entries_filter intro: filter_cong)
qed

lemma get_iter_ok:
  assumes h: "st_holds X tables st co"
  shows "ok (cache_sound (blocks_of tables)) (get_iter X st key)
    (\<lambda>it. \<exists>xss. tm_abs (mi_abs (sti_abs X tables)) (mi_abs (sc_abs X tables)) it (merge_runs xss) \<and>
       good_runs (\<lambda>k. key \<le> k) xss \<and> runs_eq (\<lambda>k. k = key) xss (co_l0 co @ map concat (co_levels co)))"
proof -
  have l0: "ok (cache_sound (blocks_of tables)) (l0_merge X (\<lambda>t. SsTableIterator_create_and_seek_to_key X (Some t) key)
      (lookup_ssts st (keep_table X key) (ls_l0_sstables st)))
    (\<lambda>mi. \<exists>xss. mi_abs (sti_abs X tables) mi (merge_runs xss) \<and> good_runs (\<lambda>k. key \<le> k) xss \<and>
      runs_eq (\<lambda>k. k = key) xss (co_l0 co))"
    by (rule l0_merge_ok [OF _ keep_table_skips _ narrows_key]) (use h sst_entries_key_ok in \<open>auto simp: st_holds_def\<close>)
  have levels: "ok (cache_sound (blocks_of tables))
      (level_merge X (\<lambda>level_ssts. SstConcatIterator_create_and_seek_to_key X level_ssts key)
       (map (\<lambda>(_, ids). lookup_ssts st (keep_table X key) ids) (ls_levels st)))
    (\<lambda>mi. \<exists>xss. mi_abs (sc_abs X tables) mi (merge_runs xss) \<and> good_runs (\<lambda>k. key \<le> k) xss \<and>
      runs_eq (\<lambda>k. k = key) xss (map concat (co_levels co)))"
    by (rule level_merge_ok [OF _ keep_table_skips _ narrows_key])
      (use h SstConcatIterator_create_and_seek_to_key_ok in \<open>auto simp: st_holds_def\<close>)
  show ?thesis
    unfolding get_iter_def
  proof (rule ok_bind [OF l0], elim exE conjE, rule ok_bind [OF levels], elim exE conjE)
    fix mi xss mi2 yss
    assume xss: "mi_abs (sti_abs X tables) mi (merge_runs xss)" "good_runs (\<lambda>k. key \<le> k) xss"
      "runs_eq (\<lambda>k. k = key) xss (co_l0 co)"
      and yss: "mi_abs (sc_abs X tables) mi2 (merge_runs yss)" "good_runs (\<lambda>k. key \<le> k) yss"
      "runs_eq (\<lambda>k. k = key) yss (map concat (co_levels co))"
    have "merge2 (merge_runs xss) (merge_runs yss) = merge_runs (xss @ yss)"
      using xss(2) yss(2) by (intro merge2_merge_runs) (auto simp: good_runs_def)
    note m = this
    have "good_runs (\<lambda>k. key \<le> k) (xss @ yss)" using xss(2) yss(2) by (auto simp: good_runs_def)
    moreover have "runs_eq (\<lambda>k. k = key) (xss @ yss) (co_l0 co @ map concat (co_levels co))"
      using xss(3) yss(3) by (rule runs_eq_append)
    ultimately show "ok (cache_sound (blocks_of tables))
        (TwoMergeIterator_create (MergeIterator_ops (SsTableIterator_ops X)) (MergeIterator_ops (SstConcatIterator_ops X)) mi mi2)
        (\<lambda>it. \<exists>xss. tm_abs (mi_abs (sti_abs X tables)) (mi_abs (sc_abs X tables)) it (merge_runs xss) \<and>
          good_runs (\<lambda>k. key \<le> k) xss \<and> runs_eq (\<lambda>k. k = key) xss (co_l0 co @ map concat (co_levels co)))"
      by (intro ok_weaken [OF get_merge.create_ok [OF xss(1) yss(1)]] exI [of _ "xss @ yss"]) (simp add: m)
  qed
qed

text \<open>Looking up the head of the merge is looking the key up in the map.\<close>

lemma map_of_filter_key: "map_of (filter (\<lambda>e. fst e = key) xs) key = map_of xs key"
  by (induction xs) auto

lemma map_of_head:
  "sorted_entries xs \<Longrightarrow> \<forall>e \<in> set xs. key \<le> fst e \<Longrightarrow>
   map_of xs key = (case xs of [] \<Rightarrow> None | x # _ \<Rightarrow> if fst x = key then Some (snd x) else None)"
  by (cases xs) (auto simp: map_of_eq_None_iff)

lemma map_of_merge_runs_append:
  assumes "\<And>xs. xs \<in> set (xss @ yss) \<Longrightarrow> sorted_entries xs"
  shows "map_of (merge_runs (xss @ yss)) = map_of (merge_runs yss) ++ map_of (merge_runs xss)"
proof -
  have "sorted_entries (merge_runs xss)" "sorted_entries (merge_runs yss)"
    using assms by (auto intro: sorted_merge_runs)
  then have "map_of (merge2 (merge_runs xss) (merge_runs yss)) = map_of (merge_runs yss) ++ map_of (merge_runs xss)"
    by (rule map_of_merge2)
  then show ?thesis by (simp only: merge2_merge_runs [OF assms])
qed

lemma get_from_memtables_view:
  "\<forall>m \<in> set ms. mt_wf m \<Longrightarrow> get_from_memtables key ms = map_of (merge_runs (map mt_map ms)) key"
proof (induction ms)
  case (Cons m ms)
  then have "sorted_entries (mt_map m)" "sorted_entries (merge_runs (map mt_map ms))"
    by (auto simp: mt_wf_def intro!: sorted_merge_runs)
  with Cons show ?case
    by (simp add: map_of_merge2 MemTable_get_view mt_view_def map_add_def cong: option.case_cong)
qed simp

lemma st_holds_sorted:
  assumes "st_holds X tables st co" and "xs \<in> set (lsm_runs co)"
  shows "sorted_entries xs"
  using assms sst_entries_keys(4)
  by (auto simp: st_holds_def lsm_runs_def mt_wf_def ids_hold_def list_all2_conv_all_nth in_set_conv_nth case_prod_beta)

text \<open>What \<open>get\<close> reads off the iterator over the tables.\<close>

abbreviation get_from_iter :: "ext \<Rightarrow> bytes \<Rightarrow>
    (SsTableIterator MergeIterator, SstConcatIterator MergeIterator) TwoMergeIterator \<Rightarrow> (BlockCache, bytes) m" where
  "get_from_iter X key iter \<equiv>
     (if it_valid (get_iter_ops X) iter then
        m_bind (m_lift (it_key (get_iter_ops X) iter)) (\<lambda>k.
        if KeySlice_eq k key then
          m_bind (m_lift (it_value (get_iter_ops X) iter)) (\<lambda>v.
          if v \<noteq> [] then m_return v else m_return [])
        else m_return [])
      else m_return [])"

lemma get_from_iter_ok:
  assumes it: "tm_abs (mi_abs (sti_abs X tables)) (mi_abs (sc_abs X tables)) iter (merge_runs xss)"
    and good: "good_runs (\<lambda>k. key \<le> k) xss" and eq: "runs_eq (\<lambda>k. k = key) xss rest" and sorted: "\<forall>xs \<in> set rest. sorted_entries xs"
  shows "ok (cache_sound (blocks_of tables)) (get_from_iter X key iter) (\<lambda>r. r = (case map_of (merge_runs rest) key of None \<Rightarrow> [] | Some v \<Rightarrow> v))"
proof -
  have s: "sorted_entries (merge_runs xss)" using good by (auto simp: good_runs_def intro: sorted_merge_runs)
  have ge: "\<forall>e \<in> set (merge_runs xss). key \<le> fst e"
    unfolding ball_merge_runs [where P = "\<lambda>k. key \<le> k"] using good by (auto simp: good_runs_def)
  have "filter (\<lambda>e. fst e = key) (merge_runs xss) = filter (\<lambda>e. fst e = key) (merge_runs rest)"
    using eq by (rule runs_eq_merge) (use good sorted in \<open>auto simp: good_runs_def\<close>)
  then have "map_of (merge_runs rest) key = map_of (merge_runs xss) key" using map_of_filter_key [of key] by metis
  then have lookup: "map_of (merge_runs rest) key = (case merge_runs xss of [] \<Rightarrow> None | x # _ \<Rightarrow> if fst x = key then Some (snd x) else None)"
    unfolding map_of_head [OF s ge] .
  show ?thesis
  proof (cases "merge_runs xss")
    case Nil
    then show ?thesis using it get_merge.tm.valid_Nil [of X tables iter] lookup by simp
  next
    case (Cons x r)
    note it' = it [unfolded Cons]
    show ?thesis
      using lookup Cons get_merge.tm.valid_Cons [OF it'] get_merge.tm.key_hd [OF it'] get_merge.tm.value_hd [OF it'] by simp
  qed
qed

lemma LsmStorageInner_get_ok:
  assumes h: "st_holds X tables st co"
  shows "ok (cache_sound (blocks_of tables)) (LsmStorageInner_get X st key)
    (\<lambda>r. r = (case lsm_view co key of None \<Rightarrow> [] | Some v \<Rightarrow> v))"
proof -
  let ?ms = "ls_memtable st # ls_imm_memtables st" and ?rest = "co_l0 co @ map concat (co_levels co)"
  have mems: "get_from_memtables key ?ms = map_of (merge_runs (co_mems co)) key"
    using get_from_memtables_view [of ?ms key] h by (simp add: st_holds_def)
  have sorted: "sorted_entries xs" if "xs \<in> set (co_mems co @ ?rest)" for xs
    using st_holds_sorted [OF h] that by (simp add: lsm_runs_def)
  have view: "lsm_view co key = (case get_from_memtables key ?ms of
      Some v \<Rightarrow> Some v | None \<Rightarrow> map_of (merge_runs ?rest) key)"
    using map_of_merge_runs_append [of "co_mems co" ?rest] sorted
    by (simp add: lsm_view_def lsm_runs_def map_add_def mems del: get_from_memtables.simps)
  show ?thesis
  proof (cases "get_from_memtables key ?ms")
    case (Some v)
    then show ?thesis using view by (auto simp: LsmStorageInner_get_def intro!: ok_return)
  next
    case None
    have "ok (cache_sound (blocks_of tables)) (m_bind (get_iter X st key) (get_from_iter X key))
        (\<lambda>r. r = (case map_of (merge_runs ?rest) key of None \<Rightarrow> [] | Some v \<Rightarrow> v))"
      by (rule ok_bind [OF get_iter_ok [OF h]], elim exE conjE, rule get_from_iter_ok) (use sorted in auto)
    then show ?thesis using None view by (simp add: LsmStorageInner_get_def)
  qed
qed

section \<open>Scans deliver the visible entries in range\<close>

context sorted_iterator
begin

lemma seek_lower_ok:
  assumes key: "\<And>k. ok sinv (seek_to_key k) (\<lambda>it. rep it (dropWhile (\<lambda>e. fst e < k) es))"
    and first: "ok sinv seek_to_first (\<lambda>it. rep it es)" and s: "sorted_entries es"
  shows "ok sinv (seek_lower ops seek_to_key seek_to_first lower) (\<lambda>it. rep it (filter (\<lambda>e. above_lower lower (fst e)) es))"
proof (cases lower)
  case Unbounded
  then show ?thesis using first by (simp add: seek_lower_def)
next
  case (Included k)
  have "dropWhile (\<lambda>e. fst e < k) es = filter (\<lambda>e. \<not> fst e < k) es"
    using s by (rule dropWhile_sorted_entries) auto
  then show ?thesis using key [of k] Included by (simp add: seek_lower_def not_less)
next
  case (Excluded k)
  let ?d = "dropWhile (\<lambda>e. fst e < k) es"
  have d: "?d = filter (\<lambda>e. \<not> fst e < k) es" using s by (rule dropWhile_sorted_entries) auto
  have sd: "sorted_entries ?d" unfolding d using s by (rule sorted_entries_filter)
  have "filter (\<lambda>e. k < fst e) es = filter (\<lambda>e. k < fst e) ?d" unfolding d by (auto intro: filter_cong)
  moreover have "\<forall>e \<in> set ?d. k \<le> fst e" unfolding d by auto
  ultimately have rest: "filter (\<lambda>e. k < fst e) es = (case ?d of [] \<Rightarrow> [] | x # r \<Rightarrow> if fst x = k then r else x # r)"
    using sorted_entries_step_over [OF sd] by simp
  show ?thesis
    unfolding seek_lower_def Excluded Bound.case
  proof (rule ok_bind [OF key [of k]])
    fix it assume it: "rep it ?d"
    show "ok sinv (if it_valid ops it
        then m_bind (m_lift (it_key ops it)) (\<lambda>ik. if KeySlice_eq ik k then it_next ops it else m_return it)
        else m_return it) (\<lambda>it. rep it (filter (\<lambda>e. above_lower (Excluded k) (fst e)) es))"
    proof (cases ?d)
      case Nil
      then have "filter (\<lambda>e. k < fst e) es = []" "rep it []" using rest [unfolded Nil] it [unfolded Nil] by simp_all
      then show ?thesis using valid_Nil by simp
    next
      case (Cons x r)
      then show ?thesis
        using it rest valid_Cons [of it x r] key_hd [of it x r] next_tl [of it x r] by (auto intro: ok_return)
    qed
  qed
qed

end

lemma scan_table_ok:
  assumes "sst_entries X tables t es"
  shows "ok (cache_sound (blocks_of tables)) (scan_table X lower t)
    (\<lambda>it. sti_abs X tables it (filter (\<lambda>e. above_lower lower (fst e)) es))"
  unfolding scan_table_def
  by (rule sst_iter.seek_lower_ok [OF sst_entries_key_ok [OF assms] sst_entries_first_ok [OF assms] sst_entries_keys(4) [OF assms]])

lemma scan_level_ok:
  assumes h: "level_holds X tables ts ess"
  shows "ok (cache_sound (blocks_of tables)) (scan_level X lower ts)
    (\<lambda>it. sc_abs X tables it (filter (\<lambda>e. above_lower lower (fst e)) (concat ess)))"
proof (cases "ts = []")
  case True
  then have "ess = []" using level_holds_length [OF h] by simp
  then show ?thesis using True h sc_abs_empty [of X tables "[]" "[]" 0] by (auto simp: scan_level_def intro!: ok_return)
next
  case False
  have s: "sorted_entries (concat ess)" using h by (simp add: level_holds_def)
  show ?thesis
    using concat_iter.seek_lower_ok [OF SstConcatIterator_create_and_seek_to_key_ok [OF h]
        SstConcatIterator_create_and_seek_to_first_ok [OF h] s] False
    by (simp add: scan_level_def)
qed

lemma range_overlap_skips:
  "skips_only X tables (in_range lower upper) (\<lambda>t. range_overlap lower upper (st_first_key t) (st_last_key t))"
  unfolding skips_only_def
proof (intro allI impI)
  fix t es assume t: "sst_entries X tables t es" and no: "\<not> range_overlap lower upper (st_first_key t) (st_last_key t)"
  note k = sst_entries_keys [OF t]
  have "\<not> in_range lower upper (fst e)" if "e \<in> set es" for e
    using no sorted_entries_bounds [OF k(4) that] k(2,3)
    by (cases lower; cases upper) (auto simp: range_overlap_def in_range_def split: if_splits)
  then show "filter (\<lambda>e. in_range lower upper (fst e)) es = []" by (simp add: filter_empty_conv)
qed

lemma narrows_lower:
  "narrows (in_range lower upper) (above_lower lower) (filter (\<lambda>e. above_lower lower (fst e)))"
  unfolding narrows_def by (auto simp: sorted_entries_filter in_range_def intro: filter_cong)

text \<open>What the whole stack of iterators is made of.\<close>

lemma scan_merge_ok:
  assumes ms: "mi_abs mti_abs m (merge_runs xs)" and l0: "mi_abs (sti_abs X tables) l (merge_runs ys)"
    and lv: "mi_abs (sc_abs X tables) v (merge_runs zs)"
    and good: "good_runs A xs" "good_runs A ys" "good_runs A zs"
  shows "ok (cache_sound (blocks_of tables))
    (m_bind (TwoMergeIterator_create (MergeIterator_ops MemTableIterator_ops) (MergeIterator_ops (SsTableIterator_ops X)) m l) (\<lambda>t1.
     m_bind (TwoMergeIterator_create (scan_mem_ops X) (MergeIterator_ops (SstConcatIterator_ops X)) t1 v) (\<lambda>t2.
     m_bind (LsmIterator_create (scan_iter_ops X) (Some t2) upper) (\<lambda>lsm_iter.
     m_return (FusedIterator_create (Some lsm_iter))))))
    (\<lambda>it. fi_abs (li_abs (scan_abs X tables)) it (visible upper (merge_runs (xs @ ys @ zs))))"
proof -
  have 1: "merge2 (merge_runs xs) (merge_runs ys) = merge_runs (xs @ ys)"
    using good by (intro merge2_merge_runs) (auto simp: good_runs_def)
  have 2: "merge2 (merge_runs (xs @ ys)) (merge_runs zs) = merge_runs ((xs @ ys) @ zs)"
    using good by (intro merge2_merge_runs) (auto simp: good_runs_def)
  show ?thesis
  proof (rule ok_bind [OF scan_mem.create_ok [OF ms l0, unfolded 1]], rule ok_bind [OF scan_merge.create_ok [OF _ lv]],
      assumption, rule ok_bind [OF scan_lsm.create_ok], assumption)
    fix it assume "li_abs (scan_abs X tables) it (visible upper (merge2 (merge_runs (xs @ ys)) (merge_runs zs)))"
    then show "ok (cache_sound (blocks_of tables)) (m_return (FusedIterator_create (Some it)))
        (\<lambda>it. fi_abs (li_abs (scan_abs X tables)) it (visible upper (merge_runs (xs @ ys @ zs))))"
      by (intro ok_return) (simp add: 2 fi_abs_def FusedIterator_create_def)
  qed
qed

lemma visible_in_range:
  assumes good: "good_runs (above_lower lower) xss" and eq: "runs_eq (in_range lower upper) xss yss"
    and s: "\<And>ys. ys \<in> set yss \<Longrightarrow> sorted_entries ys"
  shows "visible upper (merge_runs xss) = filter (\<lambda>e. in_range lower upper (fst e) \<and> snd e \<noteq> []) (merge_runs yss)"
proof -
  have sx: "sorted_entries (merge_runs xss)" using good by (auto simp: good_runs_def intro: sorted_merge_runs)
  have "\<forall>e \<in> set (merge_runs xss). above_lower lower (fst e)"
    unfolding ball_merge_runs [where P = "above_lower lower"] using good by (auto simp: good_runs_def)
  then have "visible upper (merge_runs xss) = filter (\<lambda>e. snd e \<noteq> []) (filter (\<lambda>e. in_range lower upper (fst e)) (merge_runs xss))"
    unfolding visible_sorted_eq [OF sx] by (auto simp: in_range_def intro: filter_cong)
  also have "filter (\<lambda>e. in_range lower upper (fst e)) (merge_runs xss) = filter (\<lambda>e. in_range lower upper (fst e)) (merge_runs yss)"
    using eq by (rule runs_eq_merge) (use good s in \<open>auto simp: good_runs_def\<close>)
  finally show ?thesis by (simp add: conj_commute)
qed

lemma LsmStorageInner_scan_ok:
  assumes h: "st_holds X tables st co"
  shows "ok (cache_sound (blocks_of tables)) (LsmStorageInner_scan X st lower upper)
    (\<lambda>it. fi_abs (li_abs (scan_abs X tables)) it
       (filter (\<lambda>e. in_range lower upper (fst e) \<and> snd e \<noteq> []) (merge_runs (lsm_runs co))))"
proof -
  let ?P = "in_range lower upper" and ?A = "above_lower lower"
  let ?ms = "ls_memtable st # ls_imm_memtables st"
  let ?keep = "\<lambda>t. range_overlap lower upper (st_first_key t) (st_last_key t)"
  define xs where "xs = map (\<lambda>m. filter (\<lambda>e. ?P (fst e)) (mt_map m)) ?ms"
  have wf: "\<forall>m \<in> set ?ms. mt_wf m" using h by (simp add: st_holds_def)
  have "list_all2 mti_abs (map (MemTable_scan lower upper) ?ms) xs"
    unfolding xs_def using wf MemTable_scan_abs by (auto simp: list_all2_conv_all_nth nth_Cons' )
  then obtain m where m: "MergeIterator_create (MemTableIterator_ops :: (BlockCache, MemTableIterator) iter_ops) (map (MemTable_scan lower upper) ?ms) = Inr m"
    "mi_abs mti_abs m (merge_runs xs)"
    using memtable_merge.create_ok by blast
  have gx: "good_runs ?A xs" using wf by (auto simp: good_runs_def xs_def mt_wf_def sorted_entries_filter in_range_def)
  have ex: "runs_eq ?P xs (co_mems co)"
    unfolding xs_def using h by (auto simp: st_holds_def runs_eq_def comp_def)
  have l0: "ok (cache_sound (blocks_of tables)) (l0_merge X (scan_table X lower) (lookup_ssts st ?keep (ls_l0_sstables st)))
    (\<lambda>mi. \<exists>xss. mi_abs (sti_abs X tables) mi (merge_runs xss) \<and> good_runs ?A xss \<and> runs_eq ?P xss (co_l0 co))"
    by (rule l0_merge_ok [OF _ range_overlap_skips _ narrows_lower]) (use h scan_table_ok in \<open>auto simp: st_holds_def\<close>)
  have levels: "ok (cache_sound (blocks_of tables))
      (level_merge X (scan_level X lower) (map (\<lambda>(_, ids). lookup_ssts st ?keep ids) (ls_levels st)))
    (\<lambda>mi. \<exists>xss. mi_abs (sc_abs X tables) mi (merge_runs xss) \<and> good_runs ?A xss \<and> runs_eq ?P xss (map concat (co_levels co)))"
    by (rule level_merge_ok [OF _ range_overlap_skips _ narrows_lower]) (use h scan_level_ok in \<open>auto simp: st_holds_def\<close>)
  show ?thesis
    unfolding LsmStorageInner_scan_def Let_def m(1) m_bind_lift_Inr
  proof (rule ok_bind [OF l0], elim exE conjE, rule ok_bind [OF levels], elim exE conjE)
    fix l ys v zs
    assume ys: "mi_abs (sti_abs X tables) l (merge_runs ys)" "good_runs ?A ys" "runs_eq ?P ys (co_l0 co)"
      and zs: "mi_abs (sc_abs X tables) v (merge_runs zs)" "good_runs ?A zs" "runs_eq ?P zs (map concat (co_levels co))"
    have "runs_eq ?P (xs @ ys @ zs) (lsm_runs co)"
      unfolding lsm_runs_def using ex ys(3) zs(3) by (intro runs_eq_append)
    moreover have "good_runs ?A (xs @ ys @ zs)" using gx ys(2) zs(2) by (auto simp: good_runs_def)
    ultimately have v: "visible upper (merge_runs (xs @ ys @ zs)) =
        filter (\<lambda>e. ?P (fst e) \<and> snd e \<noteq> []) (merge_runs (lsm_runs co))"
      using visible_in_range st_holds_sorted [OF h] by blast
    show "ok (cache_sound (blocks_of tables))
      (m_bind (TwoMergeIterator_create (MergeIterator_ops MemTableIterator_ops) (MergeIterator_ops (SsTableIterator_ops X)) m l) (\<lambda>t1.
       m_bind (TwoMergeIterator_create (scan_mem_ops X) (MergeIterator_ops (SstConcatIterator_ops X)) t1 v) (\<lambda>t2.
       m_bind (LsmIterator_create (scan_iter_ops X) (Some t2) upper) (\<lambda>lsm_iter.
       m_return (FusedIterator_create (Some lsm_iter))))))
      (\<lambda>it. fi_abs (li_abs (scan_abs X tables)) it
         (filter (\<lambda>e. ?P (fst e) \<and> snd e \<noteq> []) (merge_runs (lsm_runs co))))"
      using scan_merge_ok [OF m(2) ys(1) zs(1) gx ys(2) zs(2), of upper] unfolding v .
  qed
qed

section \<open>Properties\<close>

text \<open>What a reader sees: the value in the first run, newest first, that has the key.\<close>

fun newest :: "entry list list \<Rightarrow> bytes \<Rightarrow> bytes option" where
  "newest [] k = None"
| "newest (xs # xss) k = (case map_of xs k of Some v \<Rightarrow> Some v | None \<Rightarrow> newest xss k)"

lemma newest_merge_runs:
  assumes "\<And>xs. xs \<in> set xss \<Longrightarrow> sorted_entries xs"
  shows "map_of (merge_runs xss) = newest xss"
  using assms
proof (induction xss)
  case (Cons xs xss)
  have "map_of (merge_runs [xs]) = map_of xs" using Cons.prems by (simp add: merge_runs_def)
  then show ?case
    using map_of_merge_runs_append [of "[xs]" xss] Cons by (auto simp: map_add_def split: option.split)
qed (auto simp: fun_eq_iff)

lemma lsm_view_newest: "st_holds X tables st co \<Longrightarrow> lsm_view co = newest (lsm_runs co)"
  unfolding lsm_view_def using st_holds_sorted by (intro newest_merge_runs) blast

lemma scan_drain_ok:
  assumes "st_holds X tables st co"
  shows "ok (cache_sound (blocks_of tables)) (m_bind (LsmStorageInner_scan X st lower upper)
      (drain (FusedIterator_ops (LsmIterator_ops (scan_iter_ops X)))))
    (\<lambda>xs. xs = filter (\<lambda>e. in_range lower upper (fst e) \<and> snd e \<noteq> []) (merge_runs (lsm_runs co)))"
  by (rule ok_bind [OF LsmStorageInner_scan_ok [OF assms]]) (rule scan_fused.fused.drain_ok)

text \<open>A storage state for concrete examples: a memtable that overwrites one key and deletes another
  above a level with one table.\<close>

definition example_state :: LsmStorageState where
  "example_state =
     \<lparr>ls_memtable = (MemTable_new 9 None)\<lparr>mt_map := [([1], [5]), ([2], [])]\<rparr>, ls_imm_memtables = [],
      ls_l0_sstables = [], ls_levels = [(1, [7])], ls_sstables = [7 \<mapsto> example_table]\<rparr>"

definition example_contents :: contents where
  "example_contents = \<lparr>co_mems = [[([1], [5]), ([2], [])]], co_l0 = [], co_levels = [[concat example_runs]]\<rparr>"

lemma example_st_holds: "st_holds example_ext [7 \<mapsto> example_runs] example_state example_contents"
proof -
  have "sst_entries example_ext [7 \<mapsto> example_runs] example_table (concat example_runs)"
    using example_sst_holds by (auto simp: sst_entries_def)
  then show ?thesis using sst_entries_keys(4)
    by (auto simp: st_holds_def ids_hold_def example_state_def example_contents_def mt_wf_def)
qed

text \<open>C4: \<open>LsmStorageInner::get\<close> returns the newest value. In a state whose memtables, level-0 tables and
  levels hold the given contents, and for a block cache that holds only correct blocks, \<open>get\<close>
  returns without an error, and its result is the value of the newest run (memtables before level 0
  before the levels) that has the key, or the empty value if none has it; Bloom filters, key ranges
  and the cache never change the answer.\<close>

theorem LsmStorageInner_get_newest:
  assumes "st_holds X tables st co" and "cache_sound (blocks_of tables) c"
  shows "\<exists>c'. LsmStorageInner_get X st key c =
      Some (Inr (case newest (lsm_runs co) key of None \<Rightarrow> [] | Some v \<Rightarrow> v), c') \<and> cache_sound (blocks_of tables) c'"
  using ok_exec [OF LsmStorageInner_get_ok [OF assms(1), of key] assms(2)] by (simp add: lsm_view_newest [OF assms(1)])

theorem LsmStorageInner_get_newest_witness:
  "(\<exists>c'. LsmStorageInner_get example_ext example_state [1] (BlockCache_new 2) = Some (Inr [5], c')) \<and>
   (\<exists>c'. LsmStorageInner_get example_ext example_state [2] (BlockCache_new 2) = Some (Inr [], c'))"
  using LsmStorageInner_get_newest [OF example_st_holds cache_sound_new [of _ 2], of "[1]"]
    LsmStorageInner_get_newest [OF example_st_holds cache_sound_new [of _ 2], of "[2]"]
  by (auto simp: lsm_runs_def example_contents_def)

text \<open>C5: \<open>LsmStorageInner::scan\<close> returns exactly the live entries of the range. Draining the iterator it
  creates ends without an error and yields, in strictly increasing key order, for every key within
  the bounds the newest value if that is not a tombstone, and nothing else.\<close>

theorem LsmStorageInner_scan_live:
  assumes "st_holds X tables st co" and "cache_sound (blocks_of tables) c"
  shows "\<exists>xs c'. m_bind (LsmStorageInner_scan X st lower upper)
      (drain (FusedIterator_ops (LsmIterator_ops (scan_iter_ops X)))) c = Some (Inr xs, c') \<and>
    cache_sound (blocks_of tables) c' \<and> sorted_entries xs \<and>
    map_of xs = (\<lambda>k. if in_range lower upper k
      then (case newest (lsm_runs co) k of None \<Rightarrow> None | Some v \<Rightarrow> if v = [] then None else Some v) else None)"
proof -
  define ms where "ms = merge_runs (lsm_runs co)"
  have ms: "sorted_entries ms" "map_of ms = newest (lsm_runs co)"
    unfolding ms_def using st_holds_sorted [OF assms(1)] newest_merge_runs by (blast intro: sorted_merge_runs)+
  define xs where "xs = filter (\<lambda>e. in_range lower upper (fst e) \<and> snd e \<noteq> []) ms"
  have "map_of xs k = (if in_range lower upper k
      then (case map_of ms k of None \<Rightarrow> None | Some v \<Rightarrow> if v \<noteq> [] then Some v else None) else None)" for k
    unfolding xs_def using ms(1) by (rule map_of_filter_sorted)
  moreover have "sorted_entries xs" unfolding xs_def using ms(1) by (rule sorted_entries_filter)
  moreover obtain c' where "m_bind (LsmStorageInner_scan X st lower upper)
      (drain (FusedIterator_ops (LsmIterator_ops (scan_iter_ops X)))) c = Some (Inr xs, c')"
    "cache_sound (blocks_of tables) c'"
    using ok_exec [OF scan_drain_ok [OF assms(1), of lower upper] assms(2)] unfolding xs_def ms_def by blast
  ultimately show ?thesis unfolding ms(2)
    by (intro exI [of _ xs] exI [of _ c']) (auto simp: fun_eq_iff split: option.split)
qed

theorem LsmStorageInner_scan_live_witness:
  "\<exists>xs c'. m_bind (LsmStorageInner_scan example_ext example_state (Included [1]) (Excluded [3]))
      (drain (FusedIterator_ops (LsmIterator_ops (scan_iter_ops example_ext)))) (BlockCache_new 2) = Some (Inr xs, c') \<and>
    sorted_entries xs \<and> map_of xs [1] = Some [5] \<and> map_of xs [2] = None"
  using LsmStorageInner_scan_live [OF example_st_holds cache_sound_new [of _ 2], of "Included [1]" "Excluded [3]"]
  by (auto simp: lsm_runs_def example_contents_def in_range_def)

text \<open>Reads agree. A point lookup and a scan over exactly that key, in the same state, report the
  same value; a key without a live value is absent from the scan.\<close>

theorem get_agrees_with_scan:
  assumes "st_holds X tables st co" and "cache_sound (blocks_of tables) c"
  shows "\<exists>v c1 c2. LsmStorageInner_get X st key c = Some (Inr v, c1) \<and>
    m_bind (LsmStorageInner_scan X st (Included key) (Included key))
      (drain (FusedIterator_ops (LsmIterator_ops (scan_iter_ops X)))) c =
    Some (Inr (if v = [] then [] else [(key, v)]), c2)"
proof -
  define ms where "ms = merge_runs (lsm_runs co)"
  have ms: "sorted_entries ms"
    unfolding ms_def using st_holds_sorted [OF assms(1)] by (blast intro: sorted_merge_runs)
  have eq: "in_range (Included key) (Included key) k \<longleftrightarrow> k = key" for k by (auto simp: in_range_def)
  have "filter (\<lambda>e. in_range (Included key) (Included key) (fst e) \<and> snd e \<noteq> []) ms =
      (case map_of ms key of None \<Rightarrow> [] | Some v \<Rightarrow> if v \<noteq> [] then [(key, v)] else [])"
    unfolding eq using ms by (rule filter_key_sorted)
  then obtain c2 where "m_bind (LsmStorageInner_scan X st (Included key) (Included key))
      (drain (FusedIterator_ops (LsmIterator_ops (scan_iter_ops X)))) c =
    Some (Inr (case map_of ms key of None \<Rightarrow> [] | Some v \<Rightarrow> if v \<noteq> [] then [(key, v)] else []), c2)"
    using ok_exec [OF scan_drain_ok [OF assms(1), of "Included key" "Included key"] assms(2)] by (auto simp: ms_def)
  moreover obtain c1 where "LsmStorageInner_get X st key c = Some (Inr (case map_of ms key of None \<Rightarrow> [] | Some v \<Rightarrow> v), c1)"
    using ok_exec [OF LsmStorageInner_get_ok [OF assms(1), of key] assms(2)] by (auto simp: ms_def lsm_view_def)
  ultimately show ?thesis by (cases "map_of ms key") auto
qed

theorem get_agrees_with_scan_witness:
  "\<exists>v c1 c2. LsmStorageInner_get example_ext example_state [1, 3] (BlockCache_new 2) = Some (Inr v, c1) \<and>
    m_bind (LsmStorageInner_scan example_ext example_state (Included [1, 3]) (Included [1, 3]))
      (drain (FusedIterator_ops (LsmIterator_ops (scan_iter_ops example_ext)))) (BlockCache_new 2) =
    Some (Inr (if v = [] then [] else [([1, 3], v)]), c2)"
  by (rule get_agrees_with_scan [OF example_st_holds cache_sound_new])

text \<open>Merging memtables. The heap-based \<open>MergeIterator\<close> over scans of several memtables, newest
  first, yields every key of the range once, in order, with the value that looking the tables up
  one after the other would find; older versions are skipped, tombstones are kept.\<close>

theorem MergeIterator_memtables:
  assumes "\<forall>m \<in> set ms. mt_wf m"
  shows "\<exists>mi xs. MergeIterator_create (MemTableIterator_ops :: (unit, MemTableIterator) iter_ops)
      (map (MemTable_scan lower upper) ms) = Inr mi \<and>
    drain (MergeIterator_ops MemTableIterator_ops) mi () = Some (Inr xs, ()) \<and> sorted_entries xs \<and>
    map_of xs = (\<lambda>k. if in_range lower upper k then get_from_memtables k ms else None)"
proof -
  define f where "f = (\<lambda>m :: MemTable. filter (\<lambda>e. in_range lower upper (fst e)) (mt_map m))"
  have "list_all2 mti_abs (map (MemTable_scan lower upper) ms) (map f ms)"
    using assms MemTable_scan_abs by (auto simp: f_def list_all2_conv_all_nth)
  from memtable_merge.create_ok [OF this] obtain mi where
    mi: "MergeIterator_create (MemTableIterator_ops :: (unit, MemTableIterator) iter_ops)
      (map (MemTable_scan lower upper) ms) = Inr mi" "mi_abs mti_abs mi (merge_runs (map f ms))" by blast
  have s: "sorted_entries (mt_map m)" "sorted_entries (f m)" if "m \<in> set ms" for m
    using assms that by (auto simp: mt_wf_def f_def intro: sorted_entries_filter)
  have "merge_runs (map f ms) = filter (\<lambda>e. in_range lower upper (fst e)) (merge_runs (map mt_map ms))"
    unfolding f_def using s(1) by (subst filter_merge_runs) (auto simp: o_def)
  moreover have "drain (MergeIterator_ops MemTableIterator_ops) mi () = Some (Inr (merge_runs (map f ms)), ())"
    using okD [OF memtable_merge.mg.drain_ok [OF mi(2), of "\<lambda>_. True"], of "()"] by auto
  moreover have "sorted_entries (merge_runs (map f ms))" using s(2) by (intro sorted_merge_runs) auto
  moreover have "get_from_memtables k ms = map_of (merge_runs (map mt_map ms)) k" for k
    using assms by (rule get_from_memtables_view)
  ultimately show ?thesis using mi(1) by (auto simp: map_of_filter_fst fun_eq_iff)
qed

theorem MergeIterator_memtables_witness:
  "\<exists>mi xs. MergeIterator_create (MemTableIterator_ops :: (unit, MemTableIterator) iter_ops)
      (map (MemTable_scan Unbounded (Included [7])) [ls_memtable example_state, MemTable_new 1 None]) = Inr mi \<and>
    drain (MergeIterator_ops MemTableIterator_ops) mi () = Some (Inr xs, ()) \<and> sorted_entries xs \<and>
    map_of xs [1] = Some [5]"
  using MergeIterator_memtables [of "[ls_memtable example_state, MemTable_new 1 None]" Unbounded "Included [7]"]
    example_st_holds
  by (auto simp: st_holds_def mt_wf_new MemTable_get_view mt_view_def example_state_def in_range_def)

end
