(* ===== verification/Compact_Task.thy ===== *)
theory Compact_Task
  imports Prelude
begin

text \<open>
  Compaction tasks and their JSON form (\<open>include/mini_lsm/compact.h\<close>, the serialisations at the start
  of \<open>src/compact.cpp\<close>).

  \<open>json\<close> is the value type of the JSON library; \<open>json_at\<close>, \<open>json_contains\<close> and the \<open>json_to_\<close>
  functions are its accessors \<open>at\<close>, \<open>contains\<close> and \<open>get\<close>, which throw on a missing member or a wrong
  type. An object is a map from member names (the library keeps it ordered by name, so that the
  order in which members were given is not part of the value). A \<open>std::variant\<close> of task structs with its tag is one datatype.
\<close>

section \<open>JSON values\<close>

datatype json =
    JNull
  | JBool bool
  | JNum nat
  | JArr "json list"
  | JObj "string \<Rightarrow> json option"

definition json_contains :: "json \<Rightarrow> string \<Rightarrow> bool" where
  "json_contains j k = (case j of JObj ms \<Rightarrow> ms k \<noteq> None | _ \<Rightarrow> False)"

definition json_at :: "json \<Rightarrow> string \<Rightarrow> json res" where
  "json_at j k = (case j of
     JObj ms \<Rightarrow> (case ms k of None \<Rightarrow> Inl (Throw ''out_of_range'') | Some v \<Rightarrow> Inr v)
   | _ \<Rightarrow> Inl (Throw ''type_error''))"

definition json_idx :: "json \<Rightarrow> nat \<Rightarrow> json res" where
  "json_idx j i = (case j of
     JArr xs \<Rightarrow> if i < length xs then Inr (xs ! i) else Inl (Throw ''out_of_range'')
   | _ \<Rightarrow> Inl (Throw ''type_error''))"

definition json_is_null :: "json \<Rightarrow> bool" where
  "json_is_null j = (case j of JNull \<Rightarrow> True | _ \<Rightarrow> False)"

definition json_to_size :: "json \<Rightarrow> nat res" where
  "json_to_size j = (case j of JNum n \<Rightarrow> Inr n | _ \<Rightarrow> Inl (Throw ''type_error''))"

definition json_to_bool :: "json \<Rightarrow> bool res" where
  "json_to_bool j = (case j of JBool b \<Rightarrow> Inr b | _ \<Rightarrow> Inl (Throw ''type_error''))"

definition json_to_sizes :: "json \<Rightarrow> nat list res" where
  "json_to_sizes j = (case j of JArr xs \<Rightarrow> map_res json_to_size xs | _ \<Rightarrow> Inl (Throw ''type_error''))"

text \<open>A vector of integers, and a vector of pairs of an integer and such a vector.\<close>

definition json_sizes :: "nat list \<Rightarrow> json" where
  "json_sizes ids = JArr (map JNum ids)"

definition json_tiers :: "(nat \<times> nat list) list \<Rightarrow> json" where
  "json_tiers tiers = JArr (map (\<lambda>(i, ids). JArr [JNum i, json_sizes ids]) tiers)"

definition json_to_tier :: "json \<Rightarrow> (nat \<times> nat list) res" where
  "json_to_tier j =
     res_bind (json_idx j 0) (\<lambda>a. res_bind (json_to_size a) (\<lambda>i.
     res_bind (json_idx j 1) (\<lambda>b. res_bind (json_to_sizes b) (\<lambda>ids. Inr (i, ids)))))"

definition json_to_tiers :: "json \<Rightarrow> (nat \<times> nat list) list res" where
  "json_to_tiers j = (case j of JArr xs \<Rightarrow> map_res json_to_tier xs | _ \<Rightarrow> Inl (Throw ''type_error''))"

section \<open>Options\<close>

record SimpleLeveledCompactionOptions =
  so_size_ratio_percent :: nat
  so_level0_file_num_compaction_trigger :: nat
  so_max_levels :: nat

record LeveledCompactionOptions =
  lo_level_size_multiplier :: nat
  lo_level0_file_num_compaction_trigger :: nat
  lo_max_levels :: nat
  lo_base_level_size_mb :: nat

record TieredCompactionOptions =
  to_num_tiers :: nat
  to_max_size_amplification_percent :: nat
  to_size_ratio :: nat
  to_min_merge_width :: nat
  to_max_merge_width :: "nat option"

datatype CompactionOptions =
    LeveledOpts LeveledCompactionOptions
  | TieredOpts TieredCompactionOptions
  | SimpleOpts SimpleLeveledCompactionOptions
  | NoCompaction

section \<open>Tasks\<close>

record SimpleLeveledCompactionTask =
  sl_upper_level :: "nat option"
  sl_upper_level_sst_ids :: "nat list"
  sl_lower_level :: nat
  sl_lower_level_sst_ids :: "nat list"
  sl_is_lower_level_bottom_level :: bool

record LeveledCompactionTask =
  lt_upper_level :: "nat option"
  lt_upper_level_sst_ids :: "nat list"
  lt_lower_level :: nat
  lt_lower_level_sst_ids :: "nat list"
  lt_is_lower_level_bottom_level :: bool

record TieredCompactionTask =
  tt_tiers :: "(nat \<times> nat list) list"
  tt_bottom_tier_included :: bool

record ForceFullCompactionTask =
  ff_l0_sstables :: "nat list"
  ff_l1_sstables :: "nat list"

datatype CompactionTask =
    TaskLeveled LeveledCompactionTask
  | TaskTiered TieredCompactionTask
  | TaskSimple SimpleLeveledCompactionTask
  | TaskForceFull ForceFullCompactionTask

definition CompactionTask_compact_to_bottom_level :: "CompactionTask \<Rightarrow> bool" where
  "CompactionTask_compact_to_bottom_level t = (case t of
     TaskForceFull _ \<Rightarrow> True
   | TaskLeveled t \<Rightarrow> lt_is_lower_level_bottom_level t
   | TaskSimple t \<Rightarrow> sl_is_lower_level_bottom_level t
   | TaskTiered t \<Rightarrow> tt_bottom_tier_included t)"

section \<open>Serialisation\<close>

definition SimpleLeveledCompactionTask_to_json :: "SimpleLeveledCompactionTask \<Rightarrow> json" where
  "SimpleLeveledCompactionTask_to_json t = JObj
     [''upper_level'' \<mapsto> (case sl_upper_level t of Some l \<Rightarrow> JNum l | None \<Rightarrow> JNull),
      ''upper_level_sst_ids'' \<mapsto> json_sizes (sl_upper_level_sst_ids t),
      ''lower_level'' \<mapsto> JNum (sl_lower_level t),
      ''lower_level_sst_ids'' \<mapsto> json_sizes (sl_lower_level_sst_ids t),
      ''is_lower_level_bottom_level'' \<mapsto> JBool (sl_is_lower_level_bottom_level t)]"

definition SimpleLeveledCompactionTask_from_json :: "json \<Rightarrow> SimpleLeveledCompactionTask res" where
  "SimpleLeveledCompactionTask_from_json j =
     res_bind (json_at j ''upper_level'') (\<lambda>u.
     res_bind (if json_is_null u then Inr None else res_bind (json_to_size u) (\<lambda>l. Inr (Some l))) (\<lambda>upper_level.
     res_bind (res_bind (json_at j ''upper_level_sst_ids'') json_to_sizes) (\<lambda>upper_level_sst_ids.
     res_bind (res_bind (json_at j ''lower_level'') json_to_size) (\<lambda>lower_level.
     res_bind (res_bind (json_at j ''lower_level_sst_ids'') json_to_sizes) (\<lambda>lower_level_sst_ids.
     res_bind (res_bind (json_at j ''is_lower_level_bottom_level'') json_to_bool) (\<lambda>bottom.
     Inr \<lparr>sl_upper_level = upper_level, sl_upper_level_sst_ids = upper_level_sst_ids, sl_lower_level = lower_level,
        sl_lower_level_sst_ids = lower_level_sst_ids, sl_is_lower_level_bottom_level = bottom\<rparr>))))))"

definition LeveledCompactionTask_to_json :: "LeveledCompactionTask \<Rightarrow> json" where
  "LeveledCompactionTask_to_json t = JObj
     [''upper_level'' \<mapsto> (case lt_upper_level t of Some l \<Rightarrow> JNum l | None \<Rightarrow> JNull),
      ''upper_level_sst_ids'' \<mapsto> json_sizes (lt_upper_level_sst_ids t),
      ''lower_level'' \<mapsto> JNum (lt_lower_level t),
      ''lower_level_sst_ids'' \<mapsto> json_sizes (lt_lower_level_sst_ids t),
      ''is_lower_level_bottom_level'' \<mapsto> JBool (lt_is_lower_level_bottom_level t)]"

definition LeveledCompactionTask_from_json :: "json \<Rightarrow> LeveledCompactionTask res" where
  "LeveledCompactionTask_from_json j =
     res_bind (json_at j ''upper_level'') (\<lambda>u.
     res_bind (if json_is_null u then Inr None else res_bind (json_to_size u) (\<lambda>l. Inr (Some l))) (\<lambda>upper_level.
     res_bind (res_bind (json_at j ''upper_level_sst_ids'') json_to_sizes) (\<lambda>upper_level_sst_ids.
     res_bind (res_bind (json_at j ''lower_level'') json_to_size) (\<lambda>lower_level.
     res_bind (res_bind (json_at j ''lower_level_sst_ids'') json_to_sizes) (\<lambda>lower_level_sst_ids.
     res_bind (res_bind (json_at j ''is_lower_level_bottom_level'') json_to_bool) (\<lambda>bottom.
     Inr \<lparr>lt_upper_level = upper_level, lt_upper_level_sst_ids = upper_level_sst_ids, lt_lower_level = lower_level,
        lt_lower_level_sst_ids = lower_level_sst_ids, lt_is_lower_level_bottom_level = bottom\<rparr>))))))"

definition TieredCompactionTask_to_json :: "TieredCompactionTask \<Rightarrow> json" where
  "TieredCompactionTask_to_json t = JObj
     [''tiers'' \<mapsto> json_tiers (tt_tiers t), ''bottom_tier_included'' \<mapsto> JBool (tt_bottom_tier_included t)]"

definition TieredCompactionTask_from_json :: "json \<Rightarrow> TieredCompactionTask res" where
  "TieredCompactionTask_from_json j =
     res_bind (res_bind (json_at j ''tiers'') json_to_tiers) (\<lambda>tiers.
     res_bind (res_bind (json_at j ''bottom_tier_included'') json_to_bool) (\<lambda>bottom.
     Inr \<lparr>tt_tiers = tiers, tt_bottom_tier_included = bottom\<rparr>))"

definition ForceFullCompactionTask_to_json :: "ForceFullCompactionTask \<Rightarrow> json" where
  "ForceFullCompactionTask_to_json t = JObj
     [''l0_sstables'' \<mapsto> json_sizes (ff_l0_sstables t), ''l1_sstables'' \<mapsto> json_sizes (ff_l1_sstables t)]"

definition ForceFullCompactionTask_from_json :: "json \<Rightarrow> ForceFullCompactionTask res" where
  "ForceFullCompactionTask_from_json j =
     res_bind (res_bind (json_at j ''l0_sstables'') json_to_sizes) (\<lambda>l0.
     res_bind (res_bind (json_at j ''l1_sstables'') json_to_sizes) (\<lambda>l1.
     Inr \<lparr>ff_l0_sstables = l0, ff_l1_sstables = l1\<rparr>))"

definition CompactionTask_to_json :: "CompactionTask \<Rightarrow> json" where
  "CompactionTask_to_json t = (case t of
     TaskSimple t \<Rightarrow> JObj [''Simple'' \<mapsto> SimpleLeveledCompactionTask_to_json t]
   | TaskLeveled t \<Rightarrow> JObj [''Leveled'' \<mapsto> LeveledCompactionTask_to_json t]
   | TaskTiered t \<Rightarrow> JObj [''Tiered'' \<mapsto> TieredCompactionTask_to_json t]
   | TaskForceFull t \<Rightarrow> JObj [''ForceFullCompaction'' \<mapsto> ForceFullCompactionTask_to_json t])"

definition CompactionTask_from_json :: "json \<Rightarrow> CompactionTask res" where
  "CompactionTask_from_json j =
     (if json_contains j ''Simple'' then
        res_bind (res_bind (json_at j ''Simple'') SimpleLeveledCompactionTask_from_json) (\<lambda>t. Inr (TaskSimple t))
      else if json_contains j ''Leveled'' then
        res_bind (res_bind (json_at j ''Leveled'') LeveledCompactionTask_from_json) (\<lambda>t. Inr (TaskLeveled t))
      else if json_contains j ''Tiered'' then
        res_bind (res_bind (json_at j ''Tiered'') TieredCompactionTask_from_json) (\<lambda>t. Inr (TaskTiered t))
      else if json_contains j ''ForceFullCompaction'' then
        res_bind (res_bind (json_at j ''ForceFullCompaction'') ForceFullCompactionTask_from_json)
          (\<lambda>t. Inr (TaskForceFull t))
      else Inl (Throw ''Unknown CompactionTask type in JSON''))"

section \<open>Round trips\<close>

lemma json_at_JObj [simp]:
  "json_at (JObj ms) k = (case ms k of None \<Rightarrow> Inl (Throw ''out_of_range'') | Some v \<Rightarrow> Inr v)"
  "json_contains (JObj ms) k \<longleftrightarrow> ms k \<noteq> None"
  by (simp_all add: json_at_def json_contains_def)

lemma json_scalars [simp]:
  "json_to_size (JNum n) = Inr n" "json_to_bool (JBool b) = Inr b" "json_is_null JNull" "\<not> json_is_null (JNum n)"
  by (simp_all add: json_to_size_def json_to_bool_def json_is_null_def)

lemma json_sizes_inverse [simp]: "json_to_sizes (json_sizes ids) = Inr ids"
proof -
  have "map_res json_to_size (map JNum ids) = Inr ids" by (induction ids) auto
  then show ?thesis by (simp add: json_to_sizes_def json_sizes_def)
qed

lemma json_tiers_inverse [simp]: "json_to_tiers (json_tiers tiers) = Inr tiers"
proof -
  have "map_res json_to_tier (map (\<lambda>(i, ids). JArr [JNum i, json_sizes ids]) tiers) = Inr tiers"
    by (induction tiers) (auto simp: json_to_tier_def json_idx_def)
  then show ?thesis by (simp add: json_to_tiers_def json_tiers_def)
qed

lemma SimpleLeveledCompactionTask_json [simp]:
  "SimpleLeveledCompactionTask_from_json (SimpleLeveledCompactionTask_to_json t) = Inr t"
  by (cases t) (auto simp: SimpleLeveledCompactionTask_from_json_def SimpleLeveledCompactionTask_to_json_def split: option.splits)

lemma LeveledCompactionTask_json [simp]:
  "LeveledCompactionTask_from_json (LeveledCompactionTask_to_json t) = Inr t"
  by (cases t) (auto simp: LeveledCompactionTask_from_json_def LeveledCompactionTask_to_json_def split: option.splits)

lemma TieredCompactionTask_json [simp]:
  "TieredCompactionTask_from_json (TieredCompactionTask_to_json t) = Inr t"
  by (cases t) (auto simp: TieredCompactionTask_from_json_def TieredCompactionTask_to_json_def)

lemma ForceFullCompactionTask_json [simp]:
  "ForceFullCompactionTask_from_json (ForceFullCompactionTask_to_json t) = Inr t"
  by (cases t) (auto simp: ForceFullCompactionTask_from_json_def ForceFullCompactionTask_to_json_def)

lemma CompactionTask_json [simp]: "CompactionTask_from_json (CompactionTask_to_json t) = Inr t"
  by (cases t) (auto simp: CompactionTask_from_json_def CompactionTask_to_json_def)

end
