(* ===== verification/Controllers.thy ===== *)
theory Controllers
  imports Lsm_Read Compact_Task "HOL-Library.AList" Complex_Main
begin

text \<open>
  The compaction strategies: \<open>src/compact/simple_leveled.cpp\<close>, \<open>src/compact/tiered.cpp\<close>,
  \<open>src/compact/leveled.cpp\<close> and the dispatch in \<open>src/compact.cpp\<close> (class \<open>CompactionController\<close>).

  A controller chooses a task from a state (\<open>generate_compaction_task\<close>) and computes the state after
  the task has produced its output tables (\<open>apply_compaction_result\<close>). An index outside a vector
  and a failed assertion are errors. The comparisons of quotients, which the program makes on
  \<open>double\<close>s, are made on real numbers; where the program divides by zero, the infinite or undefined
  value of the quotient is written out.
\<close>

section \<open>Shared vocabulary\<close>

text \<open>The files of a level, counted from 1, and their replacement.\<close>

definition level_files :: "LsmStorageState \<Rightarrow> nat \<Rightarrow> nat list res" where
  "level_files st l =
     (if 1 \<le> l \<and> l \<le> length (ls_levels st) then Inr (snd (ls_levels st ! (l - 1)))
      else Inl (OutOfRange ''levels''))"

definition set_level_files :: "nat \<Rightarrow> nat list \<Rightarrow> LsmStorageState \<Rightarrow> LsmStorageState" where
  "set_level_files l ids st = st\<lparr>ls_levels := (ls_levels st)[l - 1 := (fst (ls_levels st ! (l - 1)), ids)]\<rparr>"

text \<open>The loop that takes the members of a set out of a vector: a member is dropped at its first
  occurrence; what was never met is left in the set.\<close>

fun take_out :: "nat set \<Rightarrow> nat list \<Rightarrow> nat list \<times> nat set" where
  "take_out S [] = ([], S)"
| "take_out S (x # xs) =
     (if x \<in> S then take_out (S - {x}) xs
      else (case take_out S xs of (ys, T) \<Rightarrow> (x # ys, T)))"

text \<open>\<open>std::sort\<close> with a comparison function.\<close>

fun insert_by :: "('a \<Rightarrow> 'a \<Rightarrow> bool) \<Rightarrow> 'a \<Rightarrow> 'a list \<Rightarrow> 'a list" where
  "insert_by lt x [] = [x]"
| "insert_by lt x (y # ys) = (if lt y x then y # insert_by lt x ys else x # y # ys)"

definition sort_by :: "('a \<Rightarrow> 'a \<Rightarrow> bool) \<Rightarrow> 'a list \<Rightarrow> 'a list" where
  "sort_by lt xs = foldr (insert_by lt) xs []"

section \<open>Simple leveled compaction\<close>

definition level_sizes :: "LsmStorageState \<Rightarrow> nat list" where
  "level_sizes st = length (ls_l0_sstables st) # map (\<lambda>(_, files). length files) (ls_levels st)"

fun Simple_ratio_task ::
  "SimpleLeveledCompactionOptions \<Rightarrow> LsmStorageState \<Rightarrow> nat list \<Rightarrow> SimpleLeveledCompactionTask option" where
  "Simple_ratio_task opts st [] = None"
| "Simple_ratio_task opts st (i # is) =
     (let sizes = level_sizes st; lower_level = i + 1 in
      if i \<ge> length sizes \<or> lower_level \<ge> length sizes then Simple_ratio_task opts st is
      else if sizes ! i = 0 then Simple_ratio_task opts st is
      else if real (sizes ! lower_level) / real (sizes ! i) < real (so_size_ratio_percent opts) / 100
      then Some \<lparr>sl_upper_level = Some i, sl_upper_level_sst_ids = snd (ls_levels st ! (i - 1)),
             sl_lower_level = lower_level, sl_lower_level_sst_ids = snd (ls_levels st ! (lower_level - 1)),
             sl_is_lower_level_bottom_level = (lower_level = so_max_levels opts)\<rparr>
      else Simple_ratio_task opts st is)"

definition Simple_generate_compaction_task ::
  "SimpleLeveledCompactionOptions \<Rightarrow> LsmStorageState \<Rightarrow> SimpleLeveledCompactionTask option" where
  "Simple_generate_compaction_task opts st =
     (if so_max_levels opts = 0 then None
      else if length (ls_l0_sstables st) \<ge> so_level0_file_num_compaction_trigger opts
      then Some \<lparr>sl_upper_level = None, sl_upper_level_sst_ids = ls_l0_sstables st, sl_lower_level = 1,
             sl_lower_level_sst_ids = (case ls_levels st of [] \<Rightarrow> [] | (_, ids) # _ \<Rightarrow> ids),
             sl_is_lower_level_bottom_level = (1 = so_max_levels opts)\<rparr>
      else Simple_ratio_task opts st [1..<so_max_levels opts])"

definition Simple_apply_compaction_result ::
  "LsmStorageState \<Rightarrow> SimpleLeveledCompactionTask \<Rightarrow> nat list \<Rightarrow> (LsmStorageState \<times> nat list) res" where
  "Simple_apply_compaction_result snapshot task output =
     res_bind
       (case sl_upper_level task of
          Some upper_level \<Rightarrow>
            res_bind (level_files snapshot upper_level) (\<lambda>files.
            res_bind (assert_res ''upper_level_sst_ids'' (sl_upper_level_sst_ids task = files)) (\<lambda>_.
            Inr (set_level_files upper_level [] snapshot, files)))
        | None \<Rightarrow>
            (case take_out (set (sl_upper_level_sst_ids task)) (ls_l0_sstables snapshot) of (new_l0, rest) \<Rightarrow>
             res_bind (assert_res ''l0_ssts_compacted.empty()'' (rest = {})) (\<lambda>_.
             Inr (snapshot\<lparr>ls_l0_sstables := new_l0\<rparr>, sl_upper_level_sst_ids task))))
       (\<lambda>(new_state, files_to_remove).
          res_bind (level_files new_state (sl_lower_level task)) (\<lambda>files.
          res_bind (assert_res ''lower_level_sst_ids'' (sl_lower_level_sst_ids task = files)) (\<lambda>_.
          Inr (set_level_files (sl_lower_level task) output new_state, files_to_remove @ files))))"

section \<open>Tiered compaction\<close>

text \<open>The tiers before the given one hold \<open>sz\<close> files; the loop over the size ratio.\<close>

fun Tiered_ratio_task ::
  "TieredCompactionOptions \<Rightarrow> (nat \<times> nat list) list \<Rightarrow> nat \<Rightarrow> nat list \<Rightarrow> TieredCompactionTask option" where
  "Tiered_ratio_task opts levels sz [] = None"
| "Tiered_ratio_task opts levels sz (i # is) =
     (let sz = sz + length (snd (levels ! i));
          next_level_size = length (snd (levels ! (i + 1)));
          size_ratio_trigger = (100 + real (to_size_ratio opts)) / 100;
          exceeds = (if sz = 0 then 0 < next_level_size
                     else real next_level_size / real sz > size_ratio_trigger) in
      if exceeds \<and> i + 1 \<ge> to_min_merge_width opts
      then Some \<lparr>tt_tiers = take (i + 1) levels, tt_bottom_tier_included = False\<rparr>
      else Tiered_ratio_task opts levels sz is)"

definition Tiered_generate_compaction_task ::
  "TieredCompactionOptions \<Rightarrow> LsmStorageState \<Rightarrow> TieredCompactionTask option res" where
  "Tiered_generate_compaction_task opts snapshot =
     res_bind (assert_res ''l0_sstables.empty()'' (ls_l0_sstables snapshot = [])) (\<lambda>_.
     let levels = ls_levels snapshot in
     if length levels < to_num_tiers opts then Inr None
     else if levels = [] then Inl (OutOfRange ''levels'')
     else
       let sz = sum_list (map (\<lambda>(_, files). length files) (butlast levels));
           bottom = length (snd (last levels));
           amplified = (if bottom = 0 then 0 < sz
                        else real sz / real bottom * 100 \<ge> real (to_max_size_amplification_percent opts)) in
       if amplified then Inr (Some \<lparr>tt_tiers = levels, tt_bottom_tier_included = True\<rparr>)
       else
         (case Tiered_ratio_task opts levels 0 [0..<length levels - 1] of
            Some task \<Rightarrow> Inr (Some task)
          | None \<Rightarrow>
              let num_tiers_to_take = (case to_max_merge_width opts of
                    None \<Rightarrow> length levels | Some w \<Rightarrow> min (length levels) w)
              in Inr (Some \<lparr>tt_tiers = take num_tiers_to_take levels,
                   tt_bottom_tier_included = (length levels \<ge> num_tiers_to_take)\<rparr>)))"

text \<open>The loop over the tiers: \<open>rm\<close> is the table \<open>tier_to_remove\<close>.\<close>

fun Tiered_apply_loop ::
  "nat list \<Rightarrow> (nat \<times> nat list) list \<Rightarrow> (nat \<times> nat list) list \<Rightarrow> bool \<Rightarrow>
   ((nat \<times> nat list) list \<times> (nat \<times> nat list) list \<times> nat list) res" where
  "Tiered_apply_loop output [] rm new_tier_added = Inr ([], rm, [])"
| "Tiered_apply_loop output ((tier_id, files) # tiers) rm new_tier_added =
     res_bind
       (case map_of rm tier_id of
          Some ids \<Rightarrow>
            res_bind (assert_res ''file changed after issuing compaction task'' (ids = files)) (\<lambda>_.
            Inr ([], AList.delete tier_id rm, ids))
        | None \<Rightarrow> Inr ([(tier_id, files)], rm, []))
       (\<lambda>(kept, rm, removed).
          let add = rm = [] \<and> \<not> new_tier_added;
              new = (if add then [(case output of [] \<Rightarrow> 0 | x # _ \<Rightarrow> x, output)] else []) in
          res_bind (Tiered_apply_loop output tiers rm (new_tier_added \<or> add)) (\<lambda>(levels, rm, removed').
          Inr (kept @ new @ levels, rm, removed @ removed')))"

definition Tiered_apply_compaction_result ::
  "LsmStorageState \<Rightarrow> TieredCompactionTask \<Rightarrow> nat list \<Rightarrow> (LsmStorageState \<times> nat list) res" where
  "Tiered_apply_compaction_result snapshot task output =
     res_bind (assert_res ''l0_sstables.empty()'' (ls_l0_sstables snapshot = [])) (\<lambda>_.
     res_bind (Tiered_apply_loop output (ls_levels snapshot)
         (fold (\<lambda>(x, y) rm. AList.update x y rm) (tt_tiers task) []) False) (\<lambda>(levels, rm, files_to_remove).
     res_bind (assert_res ''some tiers not found'' (rm = [])) (\<lambda>_.
     Inr (snapshot\<lparr>ls_levels := levels\<rparr>, files_to_remove))))"

section \<open>Leveled compaction\<close>

text \<open>The key range of the tables with the given identifiers.\<close>

fun Leveled_key_range ::
  "LsmStorageState \<Rightarrow> nat list \<Rightarrow> (bytes \<times> bytes) option \<Rightarrow> (bytes \<times> bytes) option" where
  "Leveled_key_range st [] rng = rng"
| "Leveled_key_range st (i # ids) rng =
     (case ls_sstables st i of
        None \<Rightarrow> Leveled_key_range st ids rng
      | Some sst \<Rightarrow> Leveled_key_range st ids (case rng of
            None \<Rightarrow> Some (st_first_key sst, st_last_key sst)
          | Some (b, e) \<Rightarrow> Some (if KeySlice_lt (st_first_key sst) b then st_first_key sst else b,
                              if KeySlice_gt (st_last_key sst) e then st_last_key sst else e)))"

definition Leveled_find_overlapping_ssts :: "LsmStorageState \<Rightarrow> nat list \<Rightarrow> nat \<Rightarrow> nat list" where
  "Leveled_find_overlapping_ssts snapshot sst_ids in_level =
     (case Leveled_key_range snapshot sst_ids None of
        None \<Rightarrow> []
      | Some (begin_key, end_key) \<Rightarrow>
          if in_level = 0 \<or> in_level > length (ls_levels snapshot) then []
          else filter (\<lambda>i. case ls_sstables snapshot i of
                   None \<Rightarrow> False
                 | Some sst \<Rightarrow> \<not> (KeySlice_lt (st_last_key sst) begin_key \<or> KeySlice_gt (st_first_key sst) end_key))
                 (snd (ls_levels snapshot ! (in_level - 1))))"

definition Leveled_real_level_size :: "LsmStorageState \<Rightarrow> nat \<Rightarrow> nat list" where
  "Leveled_real_level_size snapshot max_levels =
     map (\<lambda>i. if i < length (ls_levels snapshot)
              then sum_list (map (\<lambda>j. case ls_sstables snapshot j of None \<Rightarrow> 0 | Some sst \<Rightarrow> SsTable_table_size sst)
                     (snd (ls_levels snapshot ! i)))
              else 0) [0..<max_levels]"

text \<open>The loop from the second lowest level upwards: the target sizes and the base level.\<close>

fun Leveled_target_loop :: "nat \<Rightarrow> nat \<Rightarrow> nat \<Rightarrow> nat list \<Rightarrow> nat \<Rightarrow> nat list \<times> nat" where
  "Leveled_target_loop mlt base 0 target base_level = (target, base_level)"
| "Leveled_target_loop mlt base (Suc i) target base_level =
     (let next_level_size = target ! (i + 1);
          this_level_size = next_level_size div mlt;
          target = (if next_level_size > base then target[i := this_level_size] else target);
          base_level = (if target ! i > 0 then i + 1 else base_level)
      in Leveled_target_loop mlt base i target base_level)"

definition Leveled_targets :: "LeveledCompactionOptions \<Rightarrow> nat list \<Rightarrow> (nat list \<times> nat) res" where
  "Leveled_targets opts real_level_size =
     (let n = lo_max_levels opts;
          base_level_size_bytes = (lo_base_level_size_mb opts * 1024 * 1024) mod 2 ^ 64;
          target = replicate n 0 in
      if n = 0 then Inr (target, n)
      else if n > 1 \<and> lo_level_size_multiplier opts = 0 then Inl (OutOfRange ''division by zero'')
      else Inr (Leveled_target_loop (lo_level_size_multiplier opts) base_level_size_bytes (n - 1)
             (target[n - 1 := max (real_level_size ! (n - 1)) base_level_size_bytes]) n))"

definition Leveled_priorities :: "nat list \<Rightarrow> nat list \<Rightarrow> (real \<times> nat) list" where
  "Leveled_priorities real_level_size target_level_size =
     map (\<lambda>l. (real (real_level_size ! l) / real (target_level_size ! l), l + 1))
       (filter (\<lambda>l. target_level_size ! l > 0 \<and> real (real_level_size ! l) / real (target_level_size ! l) > 1)
         [0..<length target_level_size])"

definition Leveled_generate_compaction_task ::
  "LeveledCompactionOptions \<Rightarrow> LsmStorageState \<Rightarrow> LeveledCompactionTask option res" where
  "Leveled_generate_compaction_task opts snapshot =
     (let real_level_size = Leveled_real_level_size snapshot (lo_max_levels opts) in
      res_bind (Leveled_targets opts real_level_size) (\<lambda>(target_level_size, base_level).
      if length (ls_l0_sstables snapshot) \<ge> lo_level0_file_num_compaction_trigger opts
      then Inr (Some \<lparr>lt_upper_level = None, lt_upper_level_sst_ids = ls_l0_sstables snapshot, lt_lower_level = base_level,
             lt_lower_level_sst_ids = Leveled_find_overlapping_ssts snapshot (ls_l0_sstables snapshot) base_level,
             lt_is_lower_level_bottom_level = (base_level = lo_max_levels opts)\<rparr>)
      else
        (case sort_by (\<lambda>a b. if fst a \<noteq> fst b then fst a > fst b else snd a < snd b)
                (Leveled_priorities real_level_size target_level_size) of
           [] \<Rightarrow> Inr None
         | (_, level) # _ \<Rightarrow>
             if level = 0 \<or> level > length (ls_levels snapshot) \<or> snd (ls_levels snapshot ! (level - 1)) = []
             then Inr None
             else
               let selected_sst = min_list (snd (ls_levels snapshot ! (level - 1)))
               in Inr (Some \<lparr>lt_upper_level = Some level, lt_upper_level_sst_ids = [selected_sst], lt_lower_level = level + 1,
                    lt_lower_level_sst_ids = Leveled_find_overlapping_ssts snapshot [selected_sst] (level + 1),
                    lt_is_lower_level_bottom_level = (level + 1 = lo_max_levels opts)\<rparr>))))"

text \<open>The order of the lower level: by first key, by identifier where a table is unknown.\<close>

definition Leveled_sst_less :: "LsmStorageState \<Rightarrow> nat \<Rightarrow> nat \<Rightarrow> bool" where
  "Leveled_sst_less snapshot x y =
     (case (ls_sstables snapshot x, ls_sstables snapshot y) of
        (Some sx, Some sy) \<Rightarrow> KeySlice_lt (st_first_key sx) (st_first_key sy)
      | _ \<Rightarrow> x < y)"

definition Leveled_apply_compaction_result ::
  "LsmStorageState \<Rightarrow> LeveledCompactionTask \<Rightarrow> nat list \<Rightarrow> bool \<Rightarrow> (LsmStorageState \<times> nat list) res" where
  "Leveled_apply_compaction_result snapshot task output in_recovery =
     res_bind
       (case lt_upper_level task of
          Some upper_level \<Rightarrow>
            res_bind (level_files snapshot upper_level) (\<lambda>files.
            case take_out (set (lt_upper_level_sst_ids task)) files of (new_upper, rest) \<Rightarrow>
            res_bind (assert_res ''upper_set.empty()'' (rest = {})) (\<lambda>_.
            Inr (set_level_files upper_level new_upper snapshot)))
        | None \<Rightarrow>
            (case take_out (set (lt_upper_level_sst_ids task)) (ls_l0_sstables snapshot) of (new_l0, rest) \<Rightarrow>
             res_bind (assert_res ''upper_set.empty()'' (rest = {})) (\<lambda>_.
             Inr (snapshot\<lparr>ls_l0_sstables := new_l0\<rparr>))))
       (\<lambda>new_state.
          let files_to_remove = lt_upper_level_sst_ids task @ lt_lower_level_sst_ids task in
          res_bind (level_files new_state (lt_lower_level task)) (\<lambda>files.
          case take_out (set (lt_lower_level_sst_ids task)) files of (kept, rest) \<Rightarrow>
          res_bind (assert_res ''lower_set.empty()'' (rest = {})) (\<lambda>_.
          let new_lower = kept @ output;
              new_lower = (if \<not> in_recovery then sort_by (Leveled_sst_less snapshot) new_lower else new_lower)
          in Inr (set_level_files (lt_lower_level task) new_lower new_state, files_to_remove))))"

section \<open>Dispatch\<close>

datatype CompactionController =
    CtrlLeveled LeveledCompactionOptions
  | CtrlTiered TieredCompactionOptions
  | CtrlSimple SimpleLeveledCompactionOptions
  | CtrlNoCompaction

definition CompactionController_create :: "CompactionOptions \<Rightarrow> CompactionController" where
  "CompactionController_create options = (case options of
     LeveledOpts opts \<Rightarrow> CtrlLeveled opts
   | TieredOpts opts \<Rightarrow> CtrlTiered opts
   | SimpleOpts opts \<Rightarrow> CtrlSimple opts
   | NoCompaction \<Rightarrow> CtrlNoCompaction)"

definition CompactionController_generate_compaction_task ::
  "CompactionController \<Rightarrow> LsmStorageState \<Rightarrow> CompactionTask option res" where
  "CompactionController_generate_compaction_task ctrl snapshot = (case ctrl of
     CtrlLeveled opts \<Rightarrow>
       res_bind (Leveled_generate_compaction_task opts snapshot) (\<lambda>t. Inr (map_option TaskLeveled t))
   | CtrlTiered opts \<Rightarrow>
       res_bind (Tiered_generate_compaction_task opts snapshot) (\<lambda>t. Inr (map_option TaskTiered t))
   | CtrlSimple opts \<Rightarrow> Inr (map_option TaskSimple (Simple_generate_compaction_task opts snapshot))
   | CtrlNoCompaction \<Rightarrow> Inr None)"

definition CompactionController_force_full ::
  "LsmStorageState \<Rightarrow> ForceFullCompactionTask \<Rightarrow> nat list \<Rightarrow> LsmStorageState \<times> nat list" where
  "CompactionController_force_full snapshot fft output =
     (let next_state = snapshot\<lparr>ls_sstables :=
            (\<lambda>i. if i \<in> set (ff_l0_sstables fft) \<union> set (ff_l1_sstables fft) then None else ls_sstables snapshot i)\<rparr>;
          next_state = next_state\<lparr>ls_levels := (case ls_levels next_state of
              [] \<Rightarrow> [(1, output)] | (l, _) # levels \<Rightarrow> (l, output) # levels)\<rparr>
      in (next_state\<lparr>ls_l0_sstables := filter (\<lambda>x. x \<notin> set (ff_l0_sstables fft)) (ls_l0_sstables next_state)\<rparr>,
          ff_l0_sstables fft @ ff_l1_sstables fft))"

text \<open>A task of another kind than the controller makes \<open>std::get\<close> throw.\<close>

definition CompactionController_apply_compaction_result ::
  "CompactionController \<Rightarrow> LsmStorageState \<Rightarrow> CompactionTask \<Rightarrow> nat list \<Rightarrow> bool \<Rightarrow> (LsmStorageState \<times> nat list) res" where
  "CompactionController_apply_compaction_result ctrl snapshot task output in_recovery =
     (case task of
        TaskForceFull fft \<Rightarrow> Inr (CompactionController_force_full snapshot fft output)
      | _ \<Rightarrow>
         (case ctrl of
            CtrlLeveled _ \<Rightarrow>
              (case task of TaskLeveled t \<Rightarrow> Leveled_apply_compaction_result snapshot t output in_recovery
               | _ \<Rightarrow> Inl (Throw ''bad_variant_access''))
          | CtrlTiered _ \<Rightarrow>
              (case task of TaskTiered t \<Rightarrow> Tiered_apply_compaction_result snapshot t output
               | _ \<Rightarrow> Inl (Throw ''bad_variant_access''))
          | CtrlSimple _ \<Rightarrow>
              (case task of TaskSimple t \<Rightarrow> Simple_apply_compaction_result snapshot t output
               | _ \<Rightarrow> Inl (Throw ''bad_variant_access''))
          | CtrlNoCompaction \<Rightarrow> Inl (Throw ''NoCompaction controller cannot apply result'')))"

definition CompactionController_flush_to_l0 :: "CompactionController \<Rightarrow> bool" where
  "CompactionController_flush_to_l0 ctrl = (case ctrl of
     CtrlLeveled _ \<Rightarrow> True | CtrlSimple _ \<Rightarrow> True | CtrlNoCompaction \<Rightarrow> True | CtrlTiered _ \<Rightarrow> False)"

end
