(* ===== verification/Manifest.thy ===== *)
theory Manifest
  imports Compact_Task Endian Files
begin

text \<open>
  The manifest (\<open>include/mini_lsm/manifest.h\<close>, \<open>src/manifest.cpp\<close>): the log of the changes to the set
  of tables. A record is a frame of its length (64 bits), its JSON text and a checksum.

  The JSON library is a parameter: \<open>jl_dump\<close> is \<open>dump()\<close>, \<open>jl_parse\<close> is \<open>parse\<close>, which throws on
  malformed text (\<open>None\<close>). The open file is \<open>man_fd\<close> with the file offset \<open>man_off\<close> the kernel keeps
  for it: \<open>write\<close> puts bytes at the offset and advances it, \<open>pread\<close> leaves it alone. The object
  and the files are the state of the operations that append.
\<close>

section \<open>Records\<close>

datatype ManifestRecord =
    Flush nat
  | NewMemtable nat
  | Compaction CompactionTask "nat list"

definition ManifestRecord_to_json :: "ManifestRecord \<Rightarrow> json" where
  "ManifestRecord_to_json r = (case r of
     Flush sst_id \<Rightarrow> JObj [''Flush'' \<mapsto> JNum sst_id]
   | NewMemtable mem_id \<Rightarrow> JObj [''NewMemtable'' \<mapsto> JNum mem_id]
   | Compaction task output_sst_ids \<Rightarrow>
       JObj [''Compaction'' \<mapsto> JArr [CompactionTask_to_json task, json_sizes output_sst_ids]])"

definition ManifestRecord_from_json :: "json \<Rightarrow> ManifestRecord res" where
  "ManifestRecord_from_json j =
     (if json_contains j ''Flush'' then
        res_bind (res_bind (json_at j ''Flush'') json_to_size) (\<lambda>i. Inr (Flush i))
      else if json_contains j ''NewMemtable'' then
        res_bind (res_bind (json_at j ''NewMemtable'') json_to_size) (\<lambda>i. Inr (NewMemtable i))
      else if json_contains j ''Compaction'' then
        res_bind (json_at j ''Compaction'') (\<lambda>arr.
        res_bind (res_bind (json_idx arr 0) CompactionTask_from_json) (\<lambda>task.
        res_bind (res_bind (json_idx arr 1) json_to_sizes) (\<lambda>ids. Inr (Compaction task ids))))
      else Inl (Throw ''Unknown ManifestRecord type in JSON''))"

section \<open>The file\<close>

record json_lib =
  jl_dump :: "json \<Rightarrow> bytes"
  jl_parse :: "bytes \<Rightarrow> json option"

record Manifest =
  man_path :: string
  man_fd :: bool
  man_off :: nat

definition Manifest_create :: "io \<Rightarrow> string \<Rightarrow> fs \<Rightarrow> Manifest res \<times> fs" where
  "Manifest_create io path files =
     (if \<not> io_open io path then (Inl (Fail ''Failed to create manifest file''), files)
      else (Inr \<lparr>man_path = path, man_fd = True, man_off = 0\<rparr>, files(path \<mapsto> [])))"

text \<open>The place in the buffer that \<open>content.data() + offset + len\<close> points to: an address beyond the buffer wraps around.\<close>

definition ptr_at :: "bytes \<Rightarrow> nat \<Rightarrow> u64 \<Rightarrow> nat" where
  "ptr_at content offset len =
     (if offset + unat len \<le> length content then offset + unat len else unat (of_nat offset + len))"


definition Manifest_read_record :: "zlib_crc32 \<Rightarrow> json_lib \<Rightarrow> bytes \<Rightarrow> nat \<Rightarrow> (nat \<times> ManifestRecord) res" where
  "Manifest_read_record crc32 lib content offset =
     (if length content - offset < 8 then Inl (Fail ''Corrupted manifest: incomplete length header at EOF'')
      else res_bind (read_u64_be content offset) (\<lambda>len.
        let offset = offset + 8 in
        if length content - offset < unat (len + 4)
        then Inl (Fail ''Corrupted manifest: incomplete record payload/checksum at EOF'')
        else
          res_bind (read_u32_be content (ptr_at content offset len)) (\<lambda>expected_checksum.
          res_bind (sub_bytes content offset (unat len)) (\<lambda>json_str.
          if expected_checksum \<noteq> crc32_hash crc32 json_str then Inl (Fail ''Manifest record checksum mismatch'')
          else
            (case jl_parse lib json_str of
               None \<Rightarrow> Inl (Fail ''Failed to parse ManifestRecord JSON'')
             | Some j \<Rightarrow>
                 (case ManifestRecord_from_json j of
                    Inl e \<Rightarrow> Inl (Fail ''Failed to parse ManifestRecord JSON'')
                  | Inr r \<Rightarrow> Inr (offset + unat (len + 4), r)))))))"

lemma Manifest_read_record_advances:
  "Manifest_read_record crc32 lib content offset = Inr (offset', r) \<Longrightarrow> offset < offset'"
  by (auto simp: Manifest_read_record_def Let_def res_bind_def split: if_splits option.split_asm sum.split_asm)

function Manifest_recover_loop ::
  "zlib_crc32 \<Rightarrow> json_lib \<Rightarrow> bytes \<Rightarrow> nat \<Rightarrow> ManifestRecord list \<Rightarrow> ManifestRecord list res" where
  "Manifest_recover_loop crc32 lib content offset records =
     (if offset < length content then
        (case Manifest_read_record crc32 lib content offset of
           Inl e \<Rightarrow> Inl e
         | Inr (offset', r) \<Rightarrow> Manifest_recover_loop crc32 lib content offset' (records @ [r]))
      else Inr records)"
  by pat_completeness auto
termination
  by (relation "measure (\<lambda>(_, _, content, offset, _). length content - offset)")
    (auto dest: Manifest_read_record_advances)

declare Manifest_recover_loop.simps [simp del]

definition Manifest_recover ::
  "zlib_crc32 \<Rightarrow> json_lib \<Rightarrow> io \<Rightarrow> string \<Rightarrow> fs \<Rightarrow> (Manifest \<times> ManifestRecord list) res \<times> fs" where
  "Manifest_recover crc32 lib io path files =
     (if \<not> io_open io path then (Inl (Fail ''Failed to recover manifest file''), files)
      else
        let content = (case files path of None \<Rightarrow> [] | Some d \<Rightarrow> d);
            files = files(path \<mapsto> content) in
        (case Manifest_recover_loop crc32 lib content 0 [] of
           Inl e \<Rightarrow> (Inl e, files)
         | Inr records \<Rightarrow> (Inr (\<lparr>man_path = path, man_fd = True, man_off = 0\<rparr>, records), files)))"

text \<open>\<open>write\<close> at the offset of the descriptor: the bytes replace what the file has there.\<close>

definition pwrite_at :: "bytes \<Rightarrow> nat \<Rightarrow> bytes \<Rightarrow> bytes" where
  "pwrite_at content off data =
     take off content @ replicate (off - length content) 0 @ data @ drop (off + length data) content"

definition Manifest_write_step :: "io \<Rightarrow> bytes \<Rightarrow> nat \<Rightarrow> (Manifest \<times> fs, nat) m" where
  "Manifest_write_step io buf written = (\<lambda>(man, files).
     let rest = drop written buf; ret = io_write io rest in
     if ret \<le> 0 then Some (Inl (Fail ''Failed to write record to manifest file''), man, files)
     else
       let content = (case files (man_path man) of None \<Rightarrow> [] | Some d \<Rightarrow> d) in
       Some (Inr (written + nat ret), man\<lparr>man_off := man_off man + nat ret\<rparr>,
         files(man_path man \<mapsto> pwrite_at content (man_off man) (take (nat ret) rest))))"

definition Manifest_frame :: "zlib_crc32 \<Rightarrow> json_lib \<Rightarrow> ManifestRecord \<Rightarrow> bytes" where
  "Manifest_frame crc32 lib record =
     (let json_str = jl_dump lib (ManifestRecord_to_json record);
          checksum = crc32_hash crc32 json_str;
          buf = put_u64_be [] (of_nat (length json_str));
          buf = buf @ json_str
      in put_u32_be buf checksum)"

definition Manifest_add_record_when_init ::
  "zlib_crc32 \<Rightarrow> json_lib \<Rightarrow> io \<Rightarrow> ManifestRecord \<Rightarrow> (Manifest \<times> fs, unit) m" where
  "Manifest_add_record_when_init crc32 lib io record = (\<lambda>(man, files).
     if \<not> man_fd man then Some (Inl (Fail ''Manifest file descriptor is closed''), man, files)
     else
       let buf = Manifest_frame crc32 lib record in
       m_bind (m_while (\<lambda>written. m_return (written < length buf)) (Manifest_write_step io buf) 0)
         (\<lambda>_. if \<not> io_fsync io then m_lift (Inl (Fail ''Failed to fsync manifest file'')) else m_return ())
         (man, files))"

definition Manifest_add_record ::
  "zlib_crc32 \<Rightarrow> json_lib \<Rightarrow> io \<Rightarrow> ManifestRecord \<Rightarrow> (Manifest \<times> fs, unit) m" where
  "Manifest_add_record crc32 lib io record = Manifest_add_record_when_init crc32 lib io record"

section \<open>Frames\<close>

lemma ManifestRecord_json [simp]: "ManifestRecord_from_json (ManifestRecord_to_json r) = Inr r"
  by (cases r) (simp_all add: ManifestRecord_from_json_def ManifestRecord_to_json_def json_idx_def)

text \<open>The JSON library restores the text of this record, and the text has a length in range.\<close>

definition json_safe :: "json_lib \<Rightarrow> ManifestRecord \<Rightarrow> bool" where
  "json_safe lib r \<longleftrightarrow> (let t = jl_dump lib (ManifestRecord_to_json r) in
     jl_parse lib t = Some (ManifestRecord_to_json r) \<and> length t + 4 < 2 ^ 64)"

lemma Manifest_frame_eq:
  fixes crc32 lib r
  defines "t \<equiv> jl_dump lib (ManifestRecord_to_json r)"
  shows "Manifest_frame crc32 lib r = put_u64_be [] (of_nat (length t)) @ t @ put_u32_be [] (crc32_hash crc32 t)"
  unfolding Manifest_frame_def Let_def t_def [symmetric] by (subst u32.put_append) simp

lemma length_Manifest_frame:
  "length (Manifest_frame crc32 lib r) = 12 + length (jl_dump lib (ManifestRecord_to_json r))"
  by (simp add: Manifest_frame_eq u64.length_put u32.length_put)

lemma unat_add4: "n + 4 < 2 ^ 64 \<Longrightarrow> unat (of_nat n + 4 :: u64) = n + 4"
  using unat_of_nat_narrow(3) [of "n + 4"] by simp

lemma Manifest_read_record_intact:
  assumes "json_safe lib r" and pos: "length pre = off"
  shows "Manifest_read_record crc32 lib (pre @ Manifest_frame crc32 lib r @ post) off =
    Inr (off + length (Manifest_frame crc32 lib r), r)"
proof -
  define t where "t = jl_dump lib (ManifestRecord_to_json r)"
  define L C where "L = put_u64_be [] (of_nat (length t))" and "C = put_u32_be [] (crc32_hash crc32 t)"
  have t: "jl_parse lib t = Some (ManifestRecord_to_json r)" "length t + 4 < 2 ^ 64"
    using assms(1) by (simp_all add: json_safe_def t_def Let_def)
  have len: "length L = 8" "length C = 4" by (simp_all add: L_def C_def u64.length_put u32.length_put)
  have buf: "pre @ Manifest_frame crc32 lib r @ post = pre @ L @ t @ C @ post" (is "?buf = _")
    by (simp add: Manifest_frame_eq t_def L_def C_def)
  have "read_u64_be ?buf off = Inr (of_nat (length t))"
    unfolding buf L_def by (rule u64.rd_at [OF pos])
  moreover have "read_u32_be ?buf (off + 8 + length t) = Inr (crc32_hash crc32 t)"
    using u32.rd_at [of "pre @ L @ t" "off + 8 + length t" "crc32_hash crc32 t" post] pos len
    by (simp add: buf C_def)
  moreover have "sub_bytes ?buf (off + 8) (length t) = Inr t"
    using sub_bytes_append(1) [of "pre @ L" "off + 8" t "length t" "C @ post"] pos len by (simp add: buf)
  moreover have "length ?buf = off + 8 + length t + 4 + length post" using pos len by (simp add: buf)
  moreover have u: "unat (of_nat (length t) :: u64) = length t" "unat (of_nat (length t) + 4 :: u64) = length t + 4"
    using t(2) by (simp_all add: unat_add4)
  moreover have "ptr_at ?buf (off + 8) (of_nat (length t)) = off + 8 + length t"
    using pos len by (simp add: ptr_at_def u buf)
  ultimately show ?thesis using t(1)
    by (simp add: Manifest_read_record_def Let_def length_Manifest_frame t_def [symmetric])
qed

abbreviation Manifest_frames :: "zlib_crc32 \<Rightarrow> json_lib \<Rightarrow> ManifestRecord list \<Rightarrow> bytes" where
  "Manifest_frames crc32 lib rs \<equiv> concat (map (Manifest_frame crc32 lib) rs)"

text \<open>The loop goes through intact frames to what comes behind them.\<close>

lemma Manifest_recover_loop_skip:
  assumes "\<forall>r \<in> set rs. json_safe lib r" and "length pre = off"
  shows "Manifest_recover_loop crc32 lib (pre @ Manifest_frames crc32 lib rs @ post) off acc =
    Manifest_recover_loop crc32 lib (pre @ Manifest_frames crc32 lib rs @ post) (off + length (Manifest_frames crc32 lib rs)) (acc @ rs)"
  using assms
proof (induction rs arbitrary: pre off acc)
  case (Cons r rs)
  let ?buf = "pre @ Manifest_frames crc32 lib (r # rs) @ post"
  have read: "Manifest_read_record crc32 lib ?buf off = Inr (off + length (Manifest_frame crc32 lib r), r)"
    using Manifest_read_record_intact [of lib r pre off] Cons.prems by simp
  have "off < length ?buf" using Cons.prems(2) by (simp add: length_Manifest_frame)
  then have "Manifest_recover_loop crc32 lib ?buf off acc = Manifest_recover_loop crc32 lib ?buf (off + length (Manifest_frame crc32 lib r)) (acc @ [r])"
    using read by (subst Manifest_recover_loop.simps) simp
  also have "\<dots> = Manifest_recover_loop crc32 lib ?buf (off + length (Manifest_frames crc32 lib (r # rs))) (acc @ r # rs)"
    using Cons.IH [of "pre @ Manifest_frame crc32 lib r" "off + length (Manifest_frame crc32 lib r)" "acc @ [r]"] Cons.prems
    by (simp add: add.assoc)
  finally show ?case .
qed simp

lemma Manifest_recover_loop_frames:
  assumes "\<forall>r \<in> set rs. json_safe lib r" and "length pre = off"
  shows "Manifest_recover_loop crc32 lib (pre @ Manifest_frames crc32 lib rs) off acc = Inr (acc @ rs)"
  using Manifest_recover_loop_skip [OF assms, of crc32 "[]" acc] assms(2) by (simp add: Manifest_recover_loop.simps)

section \<open>Appending\<close>

lemma pwrite_at_split:
  assumes "off \<le> length content"
  shows "pwrite_at (pwrite_at content off xs) (off + length xs) ys = pwrite_at content off (xs @ ys)"
  using assms by (simp add: pwrite_at_def ac_simps)

lemma pwrite_at_Nil [simp]: "off \<le> length content \<Longrightarrow> pwrite_at content off [] = content"
  by (simp add: pwrite_at_def)

lemma length_pwrite_at: "off + length xs \<le> length (pwrite_at content off xs)"
  by (simp add: pwrite_at_def)

lemma Manifest_write_loop:
  assumes "io_works io" and "written \<le> length buf" and "files (man_path man) = Some c" and "man_off man \<le> length c"
  shows "m_while (\<lambda>written. m_return (written < length buf)) (Manifest_write_step io buf) written (man, files) =
    Some (Inr (length buf), man\<lparr>man_off := man_off man + (length buf - written)\<rparr>,
      files(man_path man \<mapsto> pwrite_at c (man_off man) (drop written buf)))"
  using assms(2-)
proof (induction "length buf - written" arbitrary: written man files c rule: less_induct)
  case less
  show ?case
  proof (cases "written < length buf")
    case False
    then show ?thesis using less.prems by (subst m_while.simps) (simp add: fun_upd_idem)
  next
    case True
    let ?rest = "drop written buf" and ?n = "nat (io_write io (drop written buf))"
    have "?rest \<noteq> []" using True by simp
    then have "0 < io_write io ?rest \<and> io_write io ?rest \<le> int (length ?rest)"
      using assms(1) unfolding io_works_def by blast
    then have n: "0 < ?n" "?n \<le> length buf - written" "\<not> io_write io ?rest \<le> 0" by auto
    define man' files' where "man' = man\<lparr>man_off := man_off man + ?n\<rparr>"
      and "files' = files(man_path man \<mapsto> pwrite_at c (man_off man) (take ?n ?rest))"
    have len: "length (take ?n ?rest) = ?n" using n(2) by simp
    have step: "Manifest_write_step io buf written (man, files) = Some (Inr (written + ?n), man', files')"
      using n(3) less.prems(2) by (simp add: Manifest_write_step_def Let_def man'_def files'_def)
    have "m_while (\<lambda>written. m_return (written < length buf)) (Manifest_write_step io buf) (written + ?n) (man', files') =
      Some (Inr (length buf), man'\<lparr>man_off := man_off man' + (length buf - (written + ?n))\<rparr>,
        files'(man_path man' \<mapsto> pwrite_at (pwrite_at c (man_off man) (take ?n ?rest)) (man_off man') (drop (written + ?n) buf)))"
      using n less.prems True length_pwrite_at [of "man_off man" "take ?n ?rest" c] len
      by (intro less.hyps) (simp_all add: man'_def files'_def)
    moreover have "pwrite_at (pwrite_at c (man_off man) (take ?n ?rest)) (man_off man + ?n) (drop (written + ?n) buf) =
        pwrite_at c (man_off man) ?rest"
      unfolding drop_drop [symmetric, of ?n written buf, unfolded add.commute [of ?n written]]
      using pwrite_at_split [OF less.prems(3), of "take ?n ?rest" "drop ?n ?rest", unfolded len append_take_drop_id] .
    ultimately show ?thesis using True step n(2)
      by (subst m_while.simps) (simp add: man'_def files'_def)
  qed
qed

lemma Manifest_add_record_ok:
  assumes "io_works io" and "man_fd man" and "files (man_path man) = Some c" and "man_off man \<le> length c"
  shows "Manifest_add_record crc32 lib io r (man, files) =
    Some (Inr (), man\<lparr>man_off := man_off man + length (Manifest_frame crc32 lib r)\<rparr>,
      files(man_path man \<mapsto> pwrite_at c (man_off man) (Manifest_frame crc32 lib r)))"
  using Manifest_write_loop [of io 0 "Manifest_frame crc32 lib r" files man c] assms
  by (simp add: Manifest_add_record_def Manifest_add_record_when_init_def Let_def m_bind_def io_works_def)

text \<open>A manifest whose offset is the end of its file, which holds exactly the given records.\<close>

definition man_holds :: "zlib_crc32 \<Rightarrow> json_lib \<Rightarrow> Manifest \<Rightarrow> fs \<Rightarrow> ManifestRecord list \<Rightarrow> bool" where
  "man_holds crc32 lib man files rs \<longleftrightarrow> man_fd man \<and> files (man_path man) = Some (Manifest_frames crc32 lib rs) \<and>
     man_off man = length (Manifest_frames crc32 lib rs)"

lemma man_holds_add [inv_intros]:
  assumes "io_works io" and "man_holds crc32 lib man files rs"
  shows "\<exists>man' files'. Manifest_add_record crc32 lib io r (man, files) = Some (Inr (), man', files') \<and>
    man_path man' = man_path man \<and> man_holds crc32 lib man' files' (rs @ [r]) \<and> (\<forall>p. p \<noteq> man_path man \<longrightarrow> files' p = files p)"
  using Manifest_add_record_ok [OF assms(1), of man files "Manifest_frames crc32 lib rs" crc32 lib r] assms(2)
  by (auto simp: man_holds_def pwrite_at_def)

fun Manifest_add_all :: "zlib_crc32 \<Rightarrow> json_lib \<Rightarrow> io \<Rightarrow> ManifestRecord list \<Rightarrow> (Manifest \<times> fs, unit) m" where
  "Manifest_add_all crc32 lib io [] = m_return ()"
| "Manifest_add_all crc32 lib io (r # rs) =
     m_bind (Manifest_add_record crc32 lib io r) (\<lambda>_. Manifest_add_all crc32 lib io rs)"

lemma man_holds_add_all:
  assumes "io_works io" and "man_holds crc32 lib man files rs"
  shows "\<exists>man' files'. Manifest_add_all crc32 lib io qs (man, files) = Some (Inr (), man', files') \<and>
    man_path man' = man_path man \<and> man_holds crc32 lib man' files' (rs @ qs)"
  using assms(2)
proof (induction qs arbitrary: man files rs)
  case (Cons q qs)
  from man_holds_add [OF assms(1) Cons.prems, of q] obtain man1 files1 where
    1: "Manifest_add_record crc32 lib io q (man, files) = Some (Inr (), man1, files1)" "man_path man1 = man_path man"
    "man_holds crc32 lib man1 files1 (rs @ [q])" by blast
  from Cons.IH [OF 1(3)] 1(1,2) show ?case by (simp add: m_bind_def)
qed (simp add: m_return_def)

lemma Manifest_recover_frames:
  assumes "io_open io path" and "files path = Some (Manifest_frames crc32 lib rs)" and "\<forall>r \<in> set rs. json_safe lib r"
  shows "Manifest_recover crc32 lib io path files =
    (Inr (\<lparr>man_path = path, man_fd = True, man_off = 0\<rparr>, rs), files)"
  using assms Manifest_recover_loop_frames [OF assms(3), of "[]" 0 crc32 "[]"]
  by (simp add: Manifest_recover_def Let_def fun_upd_idem)

section \<open>Properties\<close>

text \<open>C36: what is recorded is recovered. Records added to a new manifest, in any number and however
  \<open>write\<close> splits them, are returned by \<open>Manifest::recover\<close>, in order and unchanged.\<close>

theorem Manifest_recover_recorded:
  assumes "io_works io" and "\<forall>r \<in> set rs. json_safe lib r"
  shows "\<exists>man0 f0 man1 f1 man2. Manifest_create io path files = (Inr man0, f0) \<and>
    Manifest_add_all crc32 lib io rs (man0, f0) = Some (Inr (), man1, f1) \<and>
    Manifest_recover crc32 lib io path f1 = (Inr (man2, rs), f1)"
proof -
  define man0 f0 where "man0 = \<lparr>man_path = path, man_fd = True, man_off = 0\<rparr>" and "f0 = files(path \<mapsto> [])"
  have 0: "Manifest_create io path files = (Inr man0, f0)" "man_holds crc32 lib man0 f0 []"
    using assms(1) by (simp_all add: Manifest_create_def io_works_def man_holds_def man0_def f0_def)
  from man_holds_add_all [OF assms(1) 0(2), of rs] obtain man1 f1 where
    1: "Manifest_add_all crc32 lib io rs (man0, f0) = Some (Inr (), man1, f1)" "man_path man1 = path"
    "man_holds crc32 lib man1 f1 rs" by (auto simp: man0_def)
  then have "Manifest_recover crc32 lib io path f1 = (Inr (\<lparr>man_path = path, man_fd = True, man_off = 0\<rparr>, rs), f1)"
    using assms by (intro Manifest_recover_frames) (auto simp: man_holds_def io_works_def)
  with 0 1 show ?thesis by blast
qed

text \<open>A library for records of the kinds \<open>Flush\<close> and \<open>NewMemtable\<close> with small identifiers.\<close>

definition example_json :: json_lib where
  "example_json =
     \<lparr>jl_dump = (\<lambda>j. case j of JObj ms \<Rightarrow> (case ms ''Flush'' of Some (JNum n) \<Rightarrow> [0, of_nat n]
          | _ \<Rightarrow> (case ms ''NewMemtable'' of Some (JNum n) \<Rightarrow> [1, of_nat n] | _ \<Rightarrow> [])) | _ \<Rightarrow> []),
      jl_parse = (\<lambda>t. case t of [a, b] \<Rightarrow> Some (JObj [(if a = 0 then ''Flush'' else ''NewMemtable'') \<mapsto> JNum (unat b)])
          | _ \<Rightarrow> None)\<rparr>"

lemma example_json_safe: "json_safe example_json (NewMemtable 3)" "json_safe example_json (NewMemtable 4)"
  "json_safe example_json (Flush 3)"
  by (simp_all add: json_safe_def example_json_def ManifestRecord_to_json_def Let_def)

theorem Manifest_recover_recorded_witness:
  "\<exists>man0 f0 man1 f1 man2. Manifest_create example_io ''MANIFEST'' Map.empty = (Inr man0, f0) \<and>
    Manifest_add_all example_crc32 example_json example_io [NewMemtable 3, Flush 3] (man0, f0) = Some (Inr (), man1, f1) \<and>
    Manifest_recover example_crc32 example_json example_io ''MANIFEST'' f1 = (Inr (man2, [NewMemtable 3, Flush 3]), f1)"
  by (rule Manifest_recover_recorded [OF example_io_works]) (simp add: example_json_safe)

text \<open>\<open>recover\<close> opens the file without \<open>O_APPEND\<close> and reads it with \<open>pread\<close>, so that the descriptor
  it returns stays at offset 0. The first record added after a recovery therefore overwrites the
  beginning of the manifest; with a record of the same length, the next recovery returns the new
  record in the place of the first one, and the count of records has not grown.\<close>

theorem Manifest_add_after_recover_overwrites:
  assumes "io_works io" and "\<forall>q \<in> set (r # q0 # qs). json_safe lib q"
    and "files path = Some (Manifest_frames crc32 lib (q0 # qs))"
    and "length (Manifest_frame crc32 lib r) = length (Manifest_frame crc32 lib q0)"
  shows "\<exists>man1 man2 f2 man3. Manifest_recover crc32 lib io path files = (Inr (man1, q0 # qs), files) \<and>
    Manifest_add_record crc32 lib io r (man1, files) = Some (Inr (), man2, f2) \<and>
    Manifest_recover crc32 lib io path f2 = (Inr (man3, r # qs), f2)"
proof -
  define man1 where "man1 = \<lparr>man_path = path, man_fd = True, man_off = 0\<rparr>"
  have open_ok: "io_open io path" using assms(1) by (simp add: io_works_def)
  have 1: "Manifest_recover crc32 lib io path files = (Inr (man1, q0 # qs), files)"
    using assms(2,3) by (simp add: man1_def Manifest_recover_frames [OF open_ok, of files crc32 lib "q0 # qs", simplified])
  define f2 where "f2 = files(path \<mapsto> Manifest_frames crc32 lib (r # qs))"
  have "pwrite_at (Manifest_frames crc32 lib (q0 # qs)) 0 (Manifest_frame crc32 lib r) = Manifest_frames crc32 lib (r # qs)"
    using assms(4) by (simp add: pwrite_at_def)
  then have 2: "\<exists>man2. Manifest_add_record crc32 lib io r (man1, files) = Some (Inr (), man2, f2)"
    using Manifest_add_record_ok [OF assms(1), of man1 files "Manifest_frames crc32 lib (q0 # qs)" crc32 lib r] assms(3)
    by (simp add: man1_def f2_def)
  have "Manifest_recover crc32 lib io path f2 = (Inr (\<lparr>man_path = path, man_fd = True, man_off = 0\<rparr>, r # qs), f2)"
    using assms(2) by (intro Manifest_recover_frames [OF open_ok]) (simp_all add: f2_def)
  with 1 2 show ?thesis by blast
qed

theorem Manifest_add_after_recover_overwrites_witness:
  "\<exists>files man1 man2 f2 man3.
    Manifest_recover example_crc32 example_json example_io ''MANIFEST'' files = (Inr (man1, [NewMemtable 3, Flush 3]), files) \<and>
    Manifest_add_record example_crc32 example_json example_io (NewMemtable 4) (man1, files) = Some (Inr (), man2, f2) \<and>
    Manifest_recover example_crc32 example_json example_io ''MANIFEST'' f2 = (Inr (man3, [NewMemtable 4, Flush 3]), f2)"
proof -
  have "length (Manifest_frame example_crc32 example_json (NewMemtable 4)) =
      length (Manifest_frame example_crc32 example_json (NewMemtable 3))"
    by (simp add: length_Manifest_frame example_json_def ManifestRecord_to_json_def)
  from Manifest_add_after_recover_overwrites [OF example_io_works _ _ this, of "[Flush 3]"
      "Map.empty(''MANIFEST'' \<mapsto> Manifest_frames example_crc32 example_json [NewMemtable 3, Flush 3])" "''MANIFEST''"]
  show ?thesis by (intro exI [of _ "Map.empty(''MANIFEST'' \<mapsto> Manifest_frames example_crc32 example_json [NewMemtable 3, Flush 3])"])
      (simp add: example_json_safe)
qed




end
