(* ===== verification/Lsm_Engine.thy ===== *)
theory Lsm_Engine
  imports Controllers Manifest
begin

text \<open>
  The storage engine's own state and its write path: \<open>include/mini_lsm/lsm_storage.h\<close> and
  \<open>src/lsm_storage.cpp\<close> (options, construction, file names, \<open>put\<close>, \<open>del\<close>, \<open>sync\<close>, freezing and
  flushing memtables), \<open>trigger_flush\<close> of \<open>src/compact.cpp\<close>.

  The operations run on the engine object and the files. A call of one of them is one step: the
  program holds \<open>state_lock\<close> over a change of the state and installs the new state under the write
  lock, so that readers see the state before or after it. Results that the program ignores are
  ignored here as well (an error of \<open>MemTable::put\<close>, of the WAL or of the manifest).
\<close>

section \<open>Options and state\<close>

record LsmStorageOptions =
  op_block_size :: nat
  op_target_sst_size :: nat
  op_num_memtable_limit :: nat
  op_compaction_options :: CompactionOptions
  op_enable_wal :: bool
  op_serializable :: bool
  op_compression :: CompressionType

definition default_for_week1_test :: LsmStorageOptions where
  "default_for_week1_test =
     \<lparr>op_block_size = 4096, op_target_sst_size = push_bit 20 2, op_num_memtable_limit = 50,
      op_compaction_options = NoCompaction, op_enable_wal = False, op_serializable = False,
      op_compression = NoCompression\<rparr>"

definition default_for_week1_day6_test :: LsmStorageOptions where
  "default_for_week1_day6_test =
     \<lparr>op_block_size = 4096, op_target_sst_size = push_bit 20 2, op_num_memtable_limit = 2,
      op_compaction_options = NoCompaction, op_enable_wal = False, op_serializable = False,
      op_compression = NoCompression\<rparr>"

definition default_for_week2_test :: "CompactionOptions \<Rightarrow> LsmStorageOptions" where
  "default_for_week2_test compaction_options =
     \<lparr>op_block_size = 4096, op_target_sst_size = push_bit 20 1, op_num_memtable_limit = 2,
      op_compaction_options = compaction_options, op_enable_wal = False, op_serializable = False,
      op_compression = NoCompression\<rparr>"

definition LsmStorageState_create :: "LsmStorageOptions \<Rightarrow> LsmStorageState" where
  "LsmStorageState_create options =
     (let levels = (case op_compaction_options options of
            LeveledOpts opts \<Rightarrow> map (\<lambda>l. (l, [])) [1..<lo_max_levels opts + 1]
          | SimpleOpts opts \<Rightarrow> map (\<lambda>l. (l, [])) [1..<so_max_levels opts + 1]
          | TieredOpts _ \<Rightarrow> []
          | NoCompaction \<Rightarrow> [(1, [])])
      in \<lparr>ls_memtable = MemTable_new 0 None, ls_imm_memtables = [], ls_l0_sstables = [], ls_levels = levels,
          ls_sstables = Map.empty\<rparr>)"

record LsmStorageInner =
  in_state :: LsmStorageState
  in_path :: string
  in_block_cache :: BlockCache
  in_next_sst_id :: nat
  in_options :: LsmStorageOptions
  in_compaction_controller :: CompactionController
  in_manifest :: "Manifest option"

definition LsmStorageInner_new :: "LsmStorageOptions \<Rightarrow> string \<Rightarrow> LsmStorageInner" where
  "LsmStorageInner_new opts p =
     \<lparr>in_state = LsmStorageState_create opts, in_path = p, in_block_cache = BlockCache_new (push_bit 20 1),
      in_next_sst_id = 1, in_options = opts,
      in_compaction_controller = CompactionController_create (op_compaction_options opts), in_manifest = None\<rparr>"

section \<open>File names\<close>

text \<open>The conversion \<open>%05zu\<close> and the operator \<open>/\<close> of \<open>std::filesystem::path\<close> with a relative right side.\<close>

definition decimal5 :: "nat \<Rightarrow> string" where
  "decimal5 n = replicate (5 - length (decimal n)) (CHR ''0'') @ decimal n"

definition path_join :: "string \<Rightarrow> string \<Rightarrow> string" where
  "path_join p q = (if p = [] then q else if last p = CHR ''/'' then p @ q else p @ CHR ''/'' # q)"

definition path_of_sst_val :: "LsmStorageInner \<Rightarrow> nat \<Rightarrow> string" where
  "path_of_sst_val inner i = path_join (in_path inner) (decimal5 i @ ''.sst'')"

definition path_of_wal_val :: "LsmStorageInner \<Rightarrow> nat \<Rightarrow> string" where
  "path_of_wal_val inner i = path_join (in_path inner) (decimal5 i @ ''.wal'')"

section \<open>Operations\<close>

text \<open>What the engine is linked against: the external libraries and the system.\<close>

record env =
  ev_ext :: ext
  ev_io :: io
  ev_json :: json_lib

type_synonym engine = "LsmStorageInner \<times> fs"

text \<open>Running a reader on the block cache of the engine.\<close>

definition on_cache :: "(BlockCache, 'a) m \<Rightarrow> (engine, 'a) m" where
  "on_cache p = (\<lambda>(inner, files). case p (in_block_cache inner) of
     None \<Rightarrow> None | Some (r, c) \<Rightarrow> Some (r, inner\<lparr>in_block_cache := c\<rparr>, files))"

text \<open>Running an operation on the files.\<close>

definition on_files :: "(fs, 'a) m \<Rightarrow> (engine, 'a) m" where
  "on_files p = (\<lambda>(inner, files). case p files of
     None \<Rightarrow> None | Some (r, files) \<Rightarrow> Some (r, inner, files))"

text \<open>Changing the engine object.\<close>

definition modify :: "(LsmStorageInner \<Rightarrow> LsmStorageInner) \<Rightarrow> (engine, unit) m" where
  "modify f = (\<lambda>(inner, files). Some (Inr (), f inner, files))"

definition get_inner :: "(engine, LsmStorageInner) m" where
  "get_inner = (\<lambda>(inner, files). Some (Inr inner, inner, files))"

text \<open>\<open>if (manifest) manifest->add_record(...)\<close>, the result of which is not looked at.\<close>

definition record_in_manifest :: "env \<Rightarrow> ManifestRecord \<Rightarrow> (engine, unit) m" where
  "record_in_manifest E r = (\<lambda>(inner, files).
     case in_manifest inner of
       None \<Rightarrow> Some (Inr (), inner, files)
     | Some man \<Rightarrow>
         (case Manifest_add_record (ext_crc32 (ev_ext E)) (ev_json E) (ev_io E) r (man, files) of
            None \<Rightarrow> None
          | Some (_, man, files) \<Rightarrow> Some (Inr (), inner\<lparr>in_manifest := Some man\<rparr>, files)))"

definition next_sst_id_val :: "(engine, nat) m" where
  "next_sst_id_val = (\<lambda>(inner, files).
     Some (Inr (in_next_sst_id inner), inner\<lparr>in_next_sst_id := in_next_sst_id inner + 1\<rparr>, files))"

text \<open>The memtable the engine writes to next: with a log if that is enabled and can be created.\<close>

definition fresh_memtable :: "env \<Rightarrow> nat \<Rightarrow> (engine, MemTable) m" where
  "fresh_memtable E memtable_id = (\<lambda>(inner, files).
     if op_enable_wal (in_options inner) then
       (case MemTable_create_with_wal (ev_io E) memtable_id (path_of_wal_val inner memtable_id) files of
          (Inr t, files) \<Rightarrow> Some (Inr t, inner, files)
        | (Inl _, files) \<Rightarrow> Some (Inr (MemTable_new memtable_id None), inner, files))
     else Some (Inr (MemTable_new memtable_id None), inner, files))"

definition freeze_state :: "MemTable \<Rightarrow> LsmStorageState \<Rightarrow> LsmStorageState" where
  "freeze_state new_memtable st =
     st\<lparr>ls_memtable := new_memtable, ls_imm_memtables := ls_memtable st # ls_imm_memtables st\<rparr>"

definition LsmStorageInner_force_freeze_memtable :: "env \<Rightarrow> (engine, unit) m" where
  "LsmStorageInner_force_freeze_memtable E =
     m_bind next_sst_id_val (\<lambda>memtable_id.
     m_bind (fresh_memtable E memtable_id) (\<lambda>new_memtable.
     m_bind (modify (\<lambda>inner. inner\<lparr>in_state := freeze_state new_memtable (in_state inner)\<rparr>)) (\<lambda>_.
     record_in_manifest E (NewMemtable memtable_id))))"

definition flush_state :: "bool \<Rightarrow> SsTable \<Rightarrow> LsmStorageState \<Rightarrow> LsmStorageState" where
  "flush_state to_l0 sst st =
     (let sst_id = st_id sst;
          st = st\<lparr>ls_imm_memtables := butlast (ls_imm_memtables st)\<rparr>;
          st = (if to_l0 then st\<lparr>ls_l0_sstables := sst_id # ls_l0_sstables st\<rparr>
                else st\<lparr>ls_levels := (sst_id, [sst_id]) # ls_levels st\<rparr>)
      in st\<lparr>ls_sstables := (ls_sstables st)(sst_id \<mapsto> sst)\<rparr>)"

text \<open>\<open>MemTable::flush\<close> into a builder, and the table built from it.\<close>

definition MemTable_flush :: "ext \<Rightarrow> MemTable \<Rightarrow> SsTableBuilder \<Rightarrow> SsTableBuilder res" where
  "MemTable_flush X t builder = SsTableBuilder_add_all X builder (mt_map t)"

text \<open>The frozen table is released at the end; its log, if it has one, is then flushed and closed.\<close>

definition release_memtable :: "MemTable \<Rightarrow> (engine, unit) m" where
  "release_memtable t = (\<lambda>(inner, files).
     Some (Inr (), inner, case mt_wal t of None \<Rightarrow> files | Some wal \<Rightarrow> Wal_destroy wal files))"

definition LsmStorageInner_force_flush_next_imm_memtable :: "env \<Rightarrow> (engine, unit) m" where
  "LsmStorageInner_force_flush_next_imm_memtable E =
     m_bind get_inner (\<lambda>inner.
     if ls_imm_memtables (in_state inner) = [] then m_return ()
     else
       let flush_memtable = last (ls_imm_memtables (in_state inner));
           builder = SsTableBuilder_new (op_block_size (in_options inner)) (op_compression (in_options inner));
           sst_id = mt_id flush_memtable in
       m_bind (m_lift (MemTable_flush (ev_ext E) flush_memtable builder)) (\<lambda>builder.
       m_bind (on_files (SsTableBuilder_build (ev_ext E) (ev_io E) builder sst_id True (path_of_sst_val inner sst_id)))
         (\<lambda>sst.
       m_bind (modify (\<lambda>inner. inner\<lparr>in_state :=
           flush_state (CompactionController_flush_to_l0 (in_compaction_controller inner)) sst (in_state inner)\<rparr>)) (\<lambda>_.
       m_bind (record_in_manifest E (Flush sst_id)) (\<lambda>_.
       release_memtable flush_memtable)))))"

text \<open>\<open>put\<close> inserts under the shared lock, and looks at the size of the memtable; it freezes it after it has given up the lock.\<close>

definition put_insert :: "env \<Rightarrow> bytes \<Rightarrow> bytes \<Rightarrow> (engine, bool) m" where
  "put_insert E key value =
     m_bind (modify (\<lambda>inner. inner\<lparr>in_state := (in_state inner)\<lparr>ls_memtable :=
         snd (MemTable_put (ext_crc32 (ev_ext E)) (ev_io E) key value (ls_memtable (in_state inner)))\<rparr>\<rparr>)) (\<lambda>_.
     m_bind get_inner (\<lambda>inner.
     m_return (mt_approximate_size (ls_memtable (in_state inner)) \<ge> op_target_sst_size (in_options inner))))"

definition LsmStorageInner_put :: "env \<Rightarrow> bytes \<Rightarrow> bytes \<Rightarrow> (engine, unit) m" where
  "LsmStorageInner_put E key value =
     m_bind (put_insert E key value) (\<lambda>full. if full then LsmStorageInner_force_freeze_memtable E else m_return ())"

definition LsmStorageInner_del :: "env \<Rightarrow> bytes \<Rightarrow> (engine, unit) m" where
  "LsmStorageInner_del E key = LsmStorageInner_put E key []"

definition LsmStorageInner_sync :: "env \<Rightarrow> (engine, unit) m" where
  "LsmStorageInner_sync E = (\<lambda>(inner, files).
     case MemTable_sync_wal (ev_io E) (ls_memtable (in_state inner)) files of
       (_, t, files) \<Rightarrow> Some (Inr (), inner\<lparr>in_state := (in_state inner)\<lparr>ls_memtable := t\<rparr>\<rparr>, files))"

definition LsmStorageInner_trigger_flush :: "env \<Rightarrow> (engine, bool) m" where
  "LsmStorageInner_trigger_flush E =
     m_bind get_inner (\<lambda>inner.
     if length (ls_imm_memtables (in_state inner)) \<ge> op_num_memtable_limit (in_options inner)
     then m_bind (LsmStorageInner_force_flush_next_imm_memtable E) (\<lambda>_. m_return True)
     else m_return False)"

definition engine_get :: "env \<Rightarrow> bytes \<Rightarrow> (engine, bytes) m" where
  "engine_get E key = m_bind get_inner (\<lambda>inner. on_cache (LsmStorageInner_get (ev_ext E) (in_state inner) key))"

end
