(* ===== verification/File_Names.thy ===== *)
theory File_Names
  imports Lsm_Engine
begin

text \<open>
  The names of the files of a store: different tables and logs have different files, and none of
  them is the manifest.
\<close>

section \<open>Decimal numbers\<close>

definition digit :: "char \<Rightarrow> nat" where
  "digit c = of_char c - 48"

fun undecimal :: "nat \<Rightarrow> string \<Rightarrow> nat" where
  "undecimal a [] = a"
| "undecimal a (c # cs) = undecimal (10 * a + digit c) cs"

lemma undecimal_append: "undecimal a (xs @ ys) = undecimal (undecimal a xs) ys"
  by (induction xs arbitrary: a) simp_all

lemma digit_nth: "n < 10 \<Longrightarrow> digit (''0123456789'' ! n) = n"
proof -
  assume "n < 10"
  then have "n \<in> {0, 1, 2, 3, 4, 5, 6, 7, 8, 9}" by auto
  then show ?thesis by (auto simp: digit_def)
qed

lemma undecimal_decimal: "undecimal 0 (decimal n) = n"
proof (induction n rule: decimal.induct)
  case (1 n)
  show ?case
  proof (cases "n < 10")
    case True
    then show ?thesis by (subst decimal.simps) (simp add: digit_nth)
  next
    case False
    then have "undecimal 0 (decimal n) = 10 * (n div 10) + n mod 10"
      using 1 by (subst decimal.simps) (simp add: undecimal_append digit_nth)
    then show ?thesis by simp
  qed
qed

lemma undecimal_zeros: "undecimal 0 (replicate n (CHR ''0'')) = 0"
  by (induction n) (simp_all add: digit_def)

lemma decimal5_inj [simp]: "decimal5 i = decimal5 j \<longleftrightarrow> i = j"
proof
  assume "decimal5 i = decimal5 j"
  then have "undecimal 0 (decimal5 i) = undecimal 0 (decimal5 j)" by simp
  then show "i = j" by (simp add: decimal5_def undecimal_append undecimal_zeros undecimal_decimal)
qed simp

section \<open>Paths\<close>

lemma path_join_inj [simp]: "path_join p q = path_join p q' \<longleftrightarrow> q = q'"
  by (simp add: path_join_def)

definition manifest_path :: "string \<Rightarrow> string" where
  "manifest_path p = path_join p ''MANIFEST''"

lemma path_of_inj [simp]:
  "path_of_sst_val inner i = path_of_sst_val inner j \<longleftrightarrow> i = j"
  "path_of_wal_val inner i = path_of_wal_val inner j \<longleftrightarrow> i = j"
  by (simp_all add: path_of_sst_val_def path_of_wal_val_def)

lemma path_of_ne:
  "path_of_sst_val inner i \<noteq> path_of_wal_val inner j"
  "path_of_sst_val inner i \<noteq> manifest_path (in_path inner)"
  "path_of_wal_val inner i \<noteq> manifest_path (in_path inner)"
  by (auto simp: path_of_sst_val_def path_of_wal_val_def manifest_path_def dest: arg_cong [of _ _ last])

text \<open>The files of a store do not collide. Tables and logs with different identifiers have different names, and no
  table or log has the name of the other kind or of the manifest, for identifiers of any length and
  directory names with or without a final slash.\<close>

theorem store_files_distinct:
  "(path_of_sst_val inner i = path_of_sst_val inner j \<longleftrightarrow> i = j) \<and> (path_of_wal_val inner i = path_of_wal_val inner j \<longleftrightarrow> i = j) \<and>
   path_of_sst_val inner i \<noteq> path_of_wal_val inner j \<and> path_of_sst_val inner i \<noteq> manifest_path (in_path inner) \<and>
   path_of_wal_val inner i \<noteq> manifest_path (in_path inner)"
  using path_of_ne by simp

end
