(* ===== verification/Replay.thy ===== *)
theory Replay
  imports Lsm_Engine File_Names
begin

text \<open>
  What a store leaves in its files: replaying the manifest (the loop over the records in
  \<open>LsmStorageInner::open\<close>, \<open>src/lsm_storage.cpp\<close>) and the invariant that ties the records and the
  table files to the state of a running engine. The invariant speaks about engines that created
  their manifest; an engine that recovered it writes over its beginning.
\<close>

section \<open>Replaying the manifest\<close>

text \<open>Replaying one record on the state, the memtables not yet flushed and the largest identifier. The set
  of memtables is a list without duplicates in increasing order, as \<open>std::set\<close> enumerates it.\<close>

definition replay_record ::
  "CompactionController \<Rightarrow> ManifestRecord \<Rightarrow> LsmStorageState \<times> nat list \<times> nat \<Rightarrow> (LsmStorageState \<times> nat list \<times> nat) res" where
  "replay_record ctrl rec = (\<lambda>(st, memtables, next_id).
     case rec of
       Flush sst_id \<Rightarrow>
         let st = (if CompactionController_flush_to_l0 ctrl
                   then st\<lparr>ls_l0_sstables := sst_id # ls_l0_sstables st\<rparr>
                   else st\<lparr>ls_levels := (sst_id, [sst_id]) # ls_levels st\<rparr>)
         in Inr (st, remove1 sst_id memtables, max next_id sst_id)
     | NewMemtable mem_id \<Rightarrow> Inr (st, insort_insert mem_id memtables, max next_id mem_id)
     | Compaction task output \<Rightarrow>
         res_bind (CompactionController_apply_compaction_result ctrl st task output True) (\<lambda>(new_state, _).
         Inr (new_state, memtables, fold (\<lambda>out_id next_id. max next_id out_id) output next_id)))"

fun replay_records ::
  "CompactionController \<Rightarrow> ManifestRecord list \<Rightarrow> LsmStorageState \<times> nat list \<times> nat \<Rightarrow> (LsmStorageState \<times> nat list \<times> nat) res" where
  "replay_records ctrl [] x = Inr x"
| "replay_records ctrl (rec # recs) x = res_bind (replay_record ctrl rec x) (replay_records ctrl recs)"

lemma replay_records_snoc:
  "replay_records ctrl recs x = Inr y \<Longrightarrow> replay_records ctrl (recs @ [rec]) x = replay_record ctrl rec y"
  by (induction recs arbitrary: x) (auto simp: res_bind_def split: sum.splits)

section \<open>The durable part of an engine\<close>

definition all_ids :: "LsmStorageState \<Rightarrow> nat list" where
  "all_ids st = ls_l0_sstables st @ concat (map snd (ls_levels st))"

definition mem_ids :: "LsmStorageState \<Rightarrow> nat set" where
  "mem_ids st = mt_id ` set (ls_memtable st # ls_imm_memtables st)"

text \<open>The state of a new engine with the tables of \<open>st\<close> in place: what replaying yields.\<close>

definition layout :: "LsmStorageOptions \<Rightarrow> LsmStorageState \<Rightarrow> LsmStorageState" where
  "layout opts st = (LsmStorageState_create opts)\<lparr>ls_l0_sstables := ls_l0_sstables st, ls_levels := ls_levels st\<rparr>"

definition on_disk :: "env \<Rightarrow> LsmStorageInner \<Rightarrow> fs \<Rightarrow> SsTable \<Rightarrow> bool" where
  "on_disk E inner files t \<longleftrightarrow> (\<exists>d. files (path_of_sst_val inner (st_id t)) = Some d \<and>
     SsTable_open (ev_ext E) (st_id t) True \<lparr>fo_content = d\<rparr> = Inr t)"

definition tables_on_disk :: "env \<Rightarrow> LsmStorageInner \<Rightarrow> fs \<Rightarrow> bool" where
  "tables_on_disk E inner files \<longleftrightarrow> (\<forall>i \<in> set (all_ids (in_state inner)).
     \<exists>t. ls_sstables (in_state inner) i = Some t \<and> st_id t = i \<and> on_disk E inner files t)"

definition wal_paths :: "LsmStorageInner \<Rightarrow> bool" where
  "wal_paths inner \<longleftrightarrow> (\<forall>t \<in> set (ls_memtable (in_state inner) # ls_imm_memtables (in_state inner)).
     \<forall>wal. mt_wal t = Some wal \<longrightarrow> wal_path wal = path_of_wal_val inner (mt_id t))"

text \<open>With logs enabled, the log of a memtable holds, in its file or in the buffer of the stream, exactly the writes
  that make up the memtable.\<close>

definition loaded :: "nat \<Rightarrow> Wal option \<Rightarrow> entry list \<Rightarrow> MemTable" where
  "loaded i wal es = fold MemTable_load es (MemTable_new i wal)"

definition mt_logged :: "zlib_crc32 \<Rightarrow> string \<Rightarrow> MemTable \<Rightarrow> fs \<Rightarrow> entry list \<Rightarrow> entry list \<Rightarrow> bool" where
  "mt_logged crc32 path t files es bs \<longleftrightarrow> (\<exists>w. mt_wal t = Some w \<and> wal_path w = path \<and> wal_holds crc32 w files es bs \<and>
     (\<forall>e \<in> set (es @ bs). wf_entry e) \<and> t = loaded (mt_id t) (Some w) (es @ bs))"

definition wal_logs :: "env \<Rightarrow> LsmStorageInner \<Rightarrow> fs \<Rightarrow> bool" where
  "wal_logs E inner files \<longleftrightarrow> (op_enable_wal (in_options inner) \<longrightarrow>
     (\<forall>t \<in> set (ls_memtable (in_state inner) # ls_imm_memtables (in_state inner)).
        \<exists>es bs. mt_logged (ext_crc32 (ev_ext E)) (path_of_wal_val inner (mt_id t)) t files es bs))"

definition replayed :: "LsmStorageInner \<Rightarrow> ManifestRecord list \<Rightarrow> bool" where
  "replayed inner recs \<longleftrightarrow> (\<exists>mems m. replay_records (CompactionController_create (op_compaction_options (in_options inner))) recs
       (LsmStorageState_create (in_options inner), [], 1) = Inr (layout (in_options inner) (in_state inner), mems, m) \<and>
     sorted mems \<and> distinct mems \<and> set mems = mem_ids (in_state inner) \<and>
     (\<forall>i \<in> set (all_ids (in_state inner)) \<union> set mems. i \<le> m))"

definition durable :: "env \<Rightarrow> engine \<Rightarrow> bool" where
  "durable E = (\<lambda>(inner, files). \<exists>man recs. in_manifest inner = Some man \<and>
     man_path man = manifest_path (in_path inner) \<and>
     man_holds (ext_crc32 (ev_ext E)) (ev_json E) man files recs \<and>
     replayed inner recs \<and> tables_on_disk E inner files \<and> wal_paths inner \<and> wal_logs E inner files)"

lemma durableD: "durable E (inner, files) \<Longrightarrow> tables_on_disk E inner files" "durable E (inner, files) \<Longrightarrow> wal_paths inner"
  "durable E (inner, files) \<Longrightarrow> wal_logs E inner files"
  by (auto simp: durable_def)

section \<open>What keeps it\<close>

lemma path_of_cong:
  assumes "in_path inner = in_path inner'"
  shows "path_of_sst_val inner = path_of_sst_val inner'" and "path_of_wal_val inner = path_of_wal_val inner'"
  using assms by (simp_all add: path_of_sst_val_def path_of_wal_val_def fun_eq_iff)

lemma path_of_update [simp]:
  "path_of_sst_val (inner\<lparr>in_state := st\<rparr>) = path_of_sst_val inner"
  "path_of_sst_val (inner\<lparr>in_manifest := man\<rparr>) = path_of_sst_val inner"
  "path_of_sst_val (inner\<lparr>in_next_sst_id := n\<rparr>) = path_of_sst_val inner"
  "path_of_sst_val (inner\<lparr>in_block_cache := c\<rparr>) = path_of_sst_val inner"
  "path_of_wal_val (inner\<lparr>in_state := st\<rparr>) = path_of_wal_val inner"
  "path_of_wal_val (inner\<lparr>in_manifest := man\<rparr>) = path_of_wal_val inner"
  "path_of_wal_val (inner\<lparr>in_next_sst_id := n\<rparr>) = path_of_wal_val inner"
  "path_of_wal_val (inner\<lparr>in_block_cache := c\<rparr>) = path_of_wal_val inner"
  by (simp_all add: path_of_sst_val_def path_of_wal_val_def fun_eq_iff)

lemma on_disk_cong:
  "in_path inner = in_path inner' \<Longrightarrow> files (path_of_sst_val inner' (st_id t)) = files' (path_of_sst_val inner' (st_id t)) \<Longrightarrow>
   on_disk E inner files t = on_disk E inner' files' t"
  by (simp add: on_disk_def path_of_cong [of inner inner'])

text \<open>A log depends on its own file only.\<close>

lemma mt_logged_cong: "files path = files' path \<Longrightarrow> mt_logged crc32 path t files es bs = mt_logged crc32 path t files' es bs"
  unfolding mt_logged_def wal_holds_def by auto

lemma loaded_wal: "loaded i wal es = (loaded i wal' es)\<lparr>mt_wal := wal\<rparr>"
proof -
  have load: "MemTable_load e (t\<lparr>mt_wal := wal\<rparr>) = (MemTable_load e t)\<lparr>mt_wal := wal\<rparr>" for e t
    by (cases e) (simp add: MemTable_load_def)
  have "fold MemTable_load es (t\<lparr>mt_wal := wal\<rparr>) = (fold MemTable_load es t)\<lparr>mt_wal := wal\<rparr>" for t
    by (induction es arbitrary: t) (simp_all add: load)
  from this [of "MemTable_new i wal'"] show ?thesis by (simp add: loaded_def MemTable_new_def)
qed

lemma loaded_snoc: "loaded i wal (es @ [(k, v)]) = MemTable_load (k, v) (loaded i wal es)"
  by (simp add: loaded_def)

lemma loaded_fields [simp]: "mt_id (loaded i wal es) = i" "mt_wal (loaded i wal es) = wal" "mt_wf (loaded i wal es)"
  using fold_MemTable_load [OF mt_wf_new, of es i wal] by (simp_all add: loaded_def)

lemma mt_logged_put:
  assumes io: "io_works io" and log: "mt_logged crc32 path t files es bs" and e: "wf_entry (k, v)"
    and put: "MemTable_put crc32 io k v t = (Inr (), t')"
  shows "mt_logged crc32 path t' files es (bs @ [(k, v)])"
proof -
  from log obtain w where w: "mt_wal t = Some w" "wal_path w = path" "wal_holds crc32 w files es bs" "\<forall>e \<in> set (es @ bs). wf_entry e"
    and t: "t = loaded (mt_id t) (Some w) (es @ bs)" by (auto simp: mt_logged_def)
  have "wal_entry (k, v)" using e by (simp add: wal_entry_def wf_entry_def)
  from wal_holds_put [OF io w(3) this] w(2) obtain w' where
    w': "Wal_put crc32 io k v w = (Inr (), w')" "wal_path w' = path" "wal_holds crc32 w' files es (bs @ [(k, v)])" by auto
  have "t' = MemTable_load (k, v) (t\<lparr>mt_wal := Some w'\<rparr>)"
    using put w(1) w'(1) by (simp add: MemTable_put_def Let_def MemTable_load_def)
  also have "t\<lparr>mt_wal := Some w'\<rparr> = loaded (mt_id t) (Some w') (es @ bs)" by (subst t) (rule loaded_wal [symmetric])
  finally have "t' = loaded (mt_id t) (Some w') (es @ bs @ [(k, v)])" using loaded_snoc [of _ _ "es @ bs"] by simp
  then show ?thesis using w w' e by (simp add: mt_logged_def)
qed

lemma mt_logged_sync:
  assumes io: "io_works io" and log: "mt_logged crc32 path t files es bs" and sync: "MemTable_sync_wal io t files = (r, t', files')"
  shows "mt_logged crc32 path t' files' (es @ bs) []" and "\<And>p. p \<noteq> path \<Longrightarrow> files' p = files p" and "r = Inr ()"
proof -
  from log obtain w where w: "mt_wal t = Some w" "wal_path w = path" "wal_holds crc32 w files es bs" "\<forall>e \<in> set (es @ bs). wf_entry e"
    and t: "t = loaded (mt_id t) (Some w) (es @ bs)" by (auto simp: mt_logged_def)
  from wal_holds_sync [OF io w(3)] w(2) obtain w' f where
    w': "Wal_sync io w files = (Inr (), w', f)" "wal_path w' = path" "wal_holds crc32 w' f (es @ bs) []" "\<forall>p. p \<noteq> path \<longrightarrow> f p = files p" by auto
  then have s: "r = Inr ()" "t' = t\<lparr>mt_wal := Some w'\<rparr>" "files' = f" using sync w(1) by (auto simp: MemTable_sync_wal_def)
  have "t\<lparr>mt_wal := Some w'\<rparr> = loaded (mt_id t) (Some w') (es @ bs)" by (subst t) (rule loaded_wal [symmetric])
  then show "mt_logged crc32 path t' files' (es @ bs) []" using w w' s by (simp add: mt_logged_def)
  show "\<And>p. p \<noteq> path \<Longrightarrow> files' p = files p" "r = Inr ()" using w'(4) s by simp_all
qed

lemma mt_logged_create:
  assumes "wal_fp w" and "wal_path w = path" and "wal_buf w = []" and "files path = Some []"
  shows "mt_logged crc32 path (MemTable_new i (Some w)) files [] []"
  using assms by (simp add: mt_logged_def wal_holds_def loaded_def)

lemma wal_logs_frame:
  assumes "wal_logs E inner files" and same: "in_path inner' = in_path inner" "in_options inner' = in_options inner"
    and sub: "set (ls_memtable (in_state inner') # ls_imm_memtables (in_state inner')) \<subseteq>
      set (ls_memtable (in_state inner) # ls_imm_memtables (in_state inner))"
    and files: "\<And>i. i \<in> mem_ids (in_state inner') \<Longrightarrow> files' (path_of_wal_val inner i) = files (path_of_wal_val inner i)"
  shows "wal_logs E inner' files'"
  unfolding wal_logs_def
proof (intro impI ballI)
  fix t assume w: "op_enable_wal (in_options inner')" and t: "t \<in> set (ls_memtable (in_state inner') # ls_imm_memtables (in_state inner'))"
  let ?log = "mt_logged (ext_crc32 (ev_ext E)) (path_of_wal_val inner (mt_id t)) t"
  from assms(1) w t sub have "\<exists>es bs. ?log files es bs" unfolding wal_logs_def same by blast
  moreover have "mt_id t \<in> mem_ids (in_state inner')" using t by (auto simp: mem_ids_def)
  ultimately have "\<exists>es bs. ?log files' es bs"
    using mt_logged_cong [of files' "path_of_wal_val inner (mt_id t)" files] files by simp
  then show "\<exists>es bs. mt_logged (ext_crc32 (ev_ext E)) (path_of_wal_val inner' (mt_id t)) t files' es bs"
    using path_of_cong(2) [OF same(1)] by simp
qed

text \<open>The cache, the counter and the contents of memtables do not matter, nor do files of logs.\<close>

lemma durable_frame:
  assumes "durable E (inner, files)"
    and same: "in_path inner' = in_path inner" "in_manifest inner' = in_manifest inner" "in_options inner' = in_options inner"
    and st: "layout (in_options inner) (in_state inner') = layout (in_options inner) (in_state inner)"
      "ls_sstables (in_state inner') = ls_sstables (in_state inner)" "mem_ids (in_state inner') = mem_ids (in_state inner)"
    and wal: "wal_paths inner'" "wal_logs E inner' files'"
    and files: "\<And>p. p \<notin> range (path_of_wal_val inner) \<Longrightarrow> files' p = files p"
  shows "durable E (inner', files')"
proof -
  have lay: "ls_l0_sstables (in_state inner') = ls_l0_sstables (in_state inner)" "ls_levels (in_state inner') = ls_levels (in_state inner)"
    using arg_cong [OF st(1), of ls_l0_sstables] arg_cong [OF st(1), of ls_levels] by (simp_all add: layout_def)
  have f: "files' (manifest_path (in_path inner)) = files (manifest_path (in_path inner))"
    "files' (path_of_sst_val inner i) = files (path_of_sst_val inner i)" for i
    using files path_of_ne by (metis rangeE)+
  have "replayed inner' recs = replayed inner recs" for recs
    using st lay same by (simp add: replayed_def all_ids_def)
  moreover have "tables_on_disk E inner' files' = tables_on_disk E inner files"
    using st lay f on_disk_cong [of inner' inner files' _ files E] same by (simp add: tables_on_disk_def all_ids_def)
  ultimately show ?thesis using assms(1) wal f same by (auto simp: durable_def man_holds_def)
qed

text \<open>One more record: what it replays is the new layout, and the tables of the new layout are on disk.\<close>

definition recorded :: "env \<Rightarrow> ManifestRecord \<Rightarrow> LsmStorageInner \<Rightarrow> fs \<Rightarrow> Manifest option \<Rightarrow> fs \<Rightarrow> bool" where
  "recorded E r inner files man files' \<longleftrightarrow> (\<forall>man0 recs. in_manifest inner = Some man0 \<longrightarrow>
     man_holds (ext_crc32 (ev_ext E)) (ev_json E) man0 files recs \<longrightarrow>
     (\<exists>man1. man = Some man1 \<and> man_path man1 = man_path man0 \<and>
        man_holds (ext_crc32 (ev_ext E)) (ev_json E) man1 files' (recs @ [r])) \<and>
     (\<forall>p. p \<noteq> man_path man0 \<longrightarrow> files' p = files p))"

lemma durable_record:
  assumes dur: "durable E (inner, files)" and rec: "recorded E r inner' files' man files''"
    and same: "in_path inner' = in_path inner" "in_manifest inner' = in_manifest inner" "in_options inner' = in_options inner"
    and f: "files' (manifest_path (in_path inner)) = files (manifest_path (in_path inner))"
    and replay: "\<And>mems m. sorted mems \<Longrightarrow> distinct mems \<Longrightarrow> set mems = mem_ids (in_state inner) \<Longrightarrow>
      \<forall>i \<in> set (all_ids (in_state inner)) \<union> set mems. i \<le> m \<Longrightarrow>
      \<exists>mems' m'. replay_record (CompactionController_create (op_compaction_options (in_options inner))) r
          (layout (in_options inner) (in_state inner), mems, m) = Inr (layout (in_options inner) (in_state inner'), mems', m') \<and>
        sorted mems' \<and> distinct mems' \<and> set mems' = mem_ids (in_state inner') \<and>
        (\<forall>i \<in> set (all_ids (in_state inner')) \<union> set mems'. i \<le> m')"
    and disk: "tables_on_disk E inner' files'" and wal: "wal_paths inner'" and logs: "wal_logs E inner' files'"
  shows "durable E (inner'\<lparr>in_manifest := man\<rparr>, files'')"
proof -
  let ?mp = "manifest_path (in_path inner)"
  from dur obtain man0 recs where m: "in_manifest inner = Some man0" "man_path man0 = ?mp"
    "man_holds (ext_crc32 (ev_ext E)) (ev_json E) man0 files recs" and rep: "replayed inner recs"
    by (auto simp: durable_def)
  have "man_holds (ext_crc32 (ev_ext E)) (ev_json E) man0 files' recs" using m(2,3) f by (simp add: man_holds_def)
  then obtain man1 where man1: "man = Some man1" "man_path man1 = ?mp"
    "man_holds (ext_crc32 (ev_ext E)) (ev_json E) man1 files'' (recs @ [r])" and f': "\<And>p. p \<noteq> ?mp \<Longrightarrow> files'' p = files' p"
    using rec m(1,2) same(2) unfolding recorded_def by metis
  have "replayed (inner'\<lparr>in_manifest := man\<rparr>) (recs @ [r])"
    using rep replay replay_records_snoc unfolding replayed_def by (auto simp: same(3))
  moreover have "tables_on_disk E (inner'\<lparr>in_manifest := man\<rparr>) files''"
  proof -
    have "files' (path_of_sst_val inner' i) = files'' (path_of_sst_val inner' i)" for i
      using f' path_of_ne(2) [of inner' i] same(1) by simp
    then have "on_disk E (inner'\<lparr>in_manifest := man\<rparr>) files'' t = on_disk E inner' files' t" for t
      by (intro on_disk_cong) simp_all
    then show ?thesis using disk by (simp add: tables_on_disk_def)
  qed
  moreover have "wal_paths (inner'\<lparr>in_manifest := man\<rparr>)"
    using wal path_of_cong(2) [of "inner'\<lparr>in_manifest := man\<rparr>" inner'] by (simp add: wal_paths_def)
  moreover have "wal_logs E (inner'\<lparr>in_manifest := man\<rparr>) files''"
    by (rule wal_logs_frame [OF logs]) (use f' path_of_ne(3) [of inner'] same(1) in simp_all)
  ultimately show ?thesis using man1 same(1) by (auto simp: durable_def)
qed

text \<open>A record changes no other file than the manifest.\<close>

lemma recorded_elsewhere:
  assumes "durable E (inner, files)" and "recorded E r inner' files' man files''" and "in_manifest inner' = in_manifest inner"
    and "files' (manifest_path (in_path inner)) = files (manifest_path (in_path inner))" and "p \<noteq> manifest_path (in_path inner)"
  shows "files'' p = files' p"
proof -
  from assms(1) obtain man0 recs where m: "in_manifest inner = Some man0" "man_path man0 = manifest_path (in_path inner)"
    "man_holds (ext_crc32 (ev_ext E)) (ev_json E) man0 files recs" by (auto simp: durable_def)
  have "man_holds (ext_crc32 (ev_ext E)) (ev_json E) man0 files' recs" using m(2,3) assms(4) by (simp add: man_holds_def)
  then show ?thesis using assms(2,3,5) m(1,2) unfolding recorded_def by metis
qed

section \<open>The steps of an engine\<close>

lemma set_insort_insert' [simp]:
  "sorted xs \<Longrightarrow> sorted (insort_insert x xs)" "distinct xs \<Longrightarrow> distinct (insort_insert x xs)"
  "set (insort_insert x xs) = insert x (set xs)"
  by (simp_all add: sorted_insort_insert distinct_insort_insert set_insort_insert)

lemma durable_freeze:
  assumes dur: "durable E (inner, files)"
    and rec: "recorded E (NewMemtable (mt_id t)) (inner\<lparr>in_next_sst_id := n, in_state := freeze_state t (in_state inner)\<rparr>) files' man files''"
    and files': "\<And>p. p \<noteq> path_of_wal_val inner (mt_id t) \<Longrightarrow> files' p = files p"
    and t: "\<And>wal. mt_wal t = Some wal \<Longrightarrow> wal_path wal = path_of_wal_val inner (mt_id t)" "mt_id t \<notin> mem_ids (in_state inner)"
    and log: "op_enable_wal (in_options inner) \<Longrightarrow> mt_logged (ext_crc32 (ev_ext E)) (path_of_wal_val inner (mt_id t)) t files' [] []"
  shows "durable E (inner\<lparr>in_next_sst_id := n, in_state := freeze_state t (in_state inner), in_manifest := man\<rparr>, files'')"
proof -
  let ?inner = "inner\<lparr>in_next_sst_id := n, in_state := freeze_state t (in_state inner)\<rparr>"
  have files: "files' p = files p" if "p \<notin> range (path_of_wal_val inner)" for p using that files' by blast
  have f: "files' (manifest_path (in_path inner)) = files (manifest_path (in_path inner))"
    "files' (path_of_sst_val inner i) = files (path_of_sst_val inner i)" for i
    using files path_of_ne by (metis rangeE)+
  have lay: "layout opts (freeze_state t (in_state inner)) = layout opts (in_state inner)"
    "all_ids (freeze_state t (in_state inner)) = all_ids (in_state inner)"
    "mem_ids (freeze_state t (in_state inner)) = insert (mt_id t) (mem_ids (in_state inner))"
    "ls_sstables (freeze_state t (in_state inner)) = ls_sstables (in_state inner)" for opts
    by (auto simp: freeze_state_def layout_def all_ids_def mem_ids_def)
  have "durable E (?inner\<lparr>in_manifest := man\<rparr>, files'')"
  proof (rule durable_record [OF dur rec])
    have "on_disk E ?inner files' u = on_disk E inner files u" for u by (rule on_disk_cong) (simp_all add: f)
    then show "tables_on_disk E ?inner files'" using durableD(1) [OF dur] by (simp add: tables_on_disk_def lay)
    show "wal_paths ?inner" using durableD(2) [OF dur] t by (auto simp: wal_paths_def freeze_state_def)
    have "wal_logs E inner files'"
      by (rule wal_logs_frame [OF durableD(3) [OF dur]]) (use files' t(2) path_of_inj(2) [of inner] in \<open>auto, metis\<close>)
    then show "wal_logs E ?inner files'" using log by (auto simp: wal_logs_def freeze_state_def)
  qed (auto simp: f lay replay_record_def le_max_iff_disj)
  then show ?thesis by simp
qed

lemma durable_flush:
  fixes inner sst
  defines "st' \<equiv> flush_state (CompactionController_flush_to_l0 (CompactionController_create (op_compaction_options (in_options inner))))
      sst (in_state inner)"
  assumes dur: "durable E (inner, files)"
    and rec: "recorded E (Flush (st_id sst)) (inner\<lparr>in_state := st'\<rparr>) (files(path_of_sst_val inner (st_id sst) \<mapsto> d)) man files''"
    and imm: "ls_imm_memtables (in_state inner) = ms @ [t]" "mt_id t = st_id sst"
    and dist: "distinct (map mt_id (ls_memtable (in_state inner) # ls_imm_memtables (in_state inner)))"
    and d: "SsTable_open (ev_ext E) (st_id sst) True \<lparr>fo_content = d\<rparr> = Inr sst"
  shows "durable E (inner\<lparr>in_state := st', in_manifest := man\<rparr>, files'')"
proof -
  let ?inner = "inner\<lparr>in_state := st'\<rparr>" and ?files = "files(path_of_sst_val inner (st_id sst) \<mapsto> d)"
  let ?ctrl = "CompactionController_create (op_compaction_options (in_options inner))"
  have minus: "a \<noteq> x \<Longrightarrow> x \<notin> B \<Longrightarrow> insert a B = insert a (insert x B) - {x}" for a x :: nat and B by blast
  have st': "mem_ids st' = mem_ids (in_state inner) - {st_id sst}" "set (all_ids st') = insert (st_id sst) (set (all_ids (in_state inner)))"
    "ls_sstables st' = (ls_sstables (in_state inner))(st_id sst \<mapsto> sst)"
    "ls_memtable st' = ls_memtable (in_state inner)" "ls_imm_memtables st' = ms"
    using dist imm by (simp_all add: st'_def flush_state_def Let_def mem_ids_def all_ids_def minus)
  have "durable E (?inner\<lparr>in_manifest := man\<rparr>, files'')"
  proof (rule durable_record [OF dur rec])
    fix mems m assume m: "sorted mems" "distinct mems" "set mems = mem_ids (in_state inner)"
      "\<forall>i \<in> set (all_ids (in_state inner)) \<union> set mems. i \<le> m"
    have "replay_record ?ctrl (Flush (st_id sst)) (layout (in_options inner) (in_state inner), mems, m) =
        Inr (layout (in_options inner) st', remove1 (st_id sst) mems, max m (st_id sst))"
      by (simp add: replay_record_def Let_def layout_def st'_def flush_state_def)
    then show "\<exists>mems' m'. replay_record ?ctrl (Flush (st_id sst)) (layout (in_options inner) (in_state inner), mems, m) =
        Inr (layout (in_options inner) (in_state ?inner), mems', m') \<and> sorted mems' \<and> distinct mems' \<and>
        set mems' = mem_ids (in_state ?inner) \<and> (\<forall>i \<in> set (all_ids (in_state ?inner)) \<union> set mems'. i \<le> m')"
      using m by (simp add: st' sorted_remove1 set_remove1_eq le_max_iff_disj) blast
  next
    have "on_disk E ?inner ?files sst" using d by (simp add: on_disk_def)
    moreover have "on_disk E ?inner ?files u" if "on_disk E inner files u" "st_id u \<noteq> st_id sst" for u
      using that by (simp add: on_disk_def)
    ultimately show "tables_on_disk E ?inner ?files" using durableD(1) [OF dur] by (auto simp: tables_on_disk_def st')
    show "wal_paths ?inner" using durableD(2) [OF dur] imm by (auto simp: wal_paths_def st')
    show "wal_logs E ?inner ?files"
      by (rule wal_logs_frame [OF durableD(3) [OF dur]]) (use imm path_of_ne(1) [of inner, symmetric] in \<open>auto simp: st'\<close>)
  qed (use path_of_ne(2) [of inner] in \<open>simp_all add: eq_commute\<close>)
  then show ?thesis by simp
qed

text \<open>A compaction, whose output tables are written under fresh identifiers.\<close>

lemma fold_max:
  fixes m :: nat
  shows "m \<le> fold (\<lambda>x m. max m x) xs m" and "x \<in> set xs \<Longrightarrow> x \<le> fold (\<lambda>x m. max m x) xs m"
proof -
  show le: "m \<le> fold (\<lambda>x m. max m x) xs m" for m and xs :: "nat list"
    by (induction xs arbitrary: m) (auto intro: order_trans [OF max.cobounded1])
  show "x \<in> set xs \<Longrightarrow> x \<le> fold (\<lambda>x m. max m x) xs m"
    by (induction xs arbitrary: m) (auto intro: order_trans [OF max.cobounded2 le])
qed

lemma durable_compaction:
  assumes dur: "durable E (inner, files)"
    and rec: "recorded E (Compaction task output) inner' files' man files''"
    and same: "in_path inner' = in_path inner" "in_manifest inner' = in_manifest inner" "in_options inner' = in_options inner"
      "ls_memtable (in_state inner') = ls_memtable (in_state inner)" "ls_imm_memtables (in_state inner') = ls_imm_memtables (in_state inner)"
    and f: "files' (manifest_path (in_path inner)) = files (manifest_path (in_path inner))"
      "\<And>i. files' (path_of_wal_val inner i) = files (path_of_wal_val inner i)"
    and app: "CompactionController_apply_compaction_result (CompactionController_create (op_compaction_options (in_options inner)))
      (layout (in_options inner) (in_state inner)) task output True = Inr (layout (in_options inner) (in_state inner'), rm)"
    and ids: "set (all_ids (in_state inner')) \<subseteq> set (all_ids (in_state inner)) \<union> set output"
    and disk: "tables_on_disk E inner' files'"
  shows "durable E (inner'\<lparr>in_manifest := man\<rparr>, files'')"
proof (rule durable_record [OF dur rec same(1-3) f(1) _ disk])
  show "wal_logs E inner' files'" by (rule wal_logs_frame [OF durableD(3) [OF dur]]) (use same f(2) in simp_all)
  have "path_of_wal_val inner' = path_of_wal_val inner" using same(1) by (rule path_of_cong)
  then show "wal_paths inner'" using durableD(2) [OF dur] by (simp add: wal_paths_def same)
  have mem: "mem_ids (in_state inner') = mem_ids (in_state inner)" by (simp add: mem_ids_def same)
  fix mems m assume m: "sorted mems" "distinct mems" "set mems = mem_ids (in_state inner)"
      "\<forall>i \<in> set (all_ids (in_state inner)) \<union> set mems. i \<le> m"
  let ?m = "fold (\<lambda>out_id next_id. max next_id out_id) output m"
  have "i \<le> ?m" if "i \<in> set (all_ids (in_state inner')) \<union> set mems" for i
    using that ids m(4) fold_max [of m "output"] fold_max(2) [of i "output" m] by (meson UnE UnI1 UnI2 le_trans subsetD)
  then show "\<exists>mems' m'. replay_record (CompactionController_create (op_compaction_options (in_options inner))) (Compaction task output)
      (layout (in_options inner) (in_state inner), mems, m) = Inr (layout (in_options inner) (in_state inner'), mems', m') \<and>
      sorted mems' \<and> distinct mems' \<and> set mems' = mem_ids (in_state inner') \<and>
      (\<forall>i \<in> set (all_ids (in_state inner')) \<union> set mems'. i \<le> m')"
    using m app by (simp add: replay_record_def mem)
qed

text \<open>Removing files of tables that are no longer in use.\<close>

lemma durable_remove:
  assumes "durable E (inner, files)" and "set ids \<inter> set (all_ids (in_state inner)) = {}"
    and files: "\<And>p. p \<notin> path_of_sst_val inner ` set ids \<Longrightarrow> files' p = files p"
  shows "durable E (inner, files')"
proof -
  have m: "files' (manifest_path (in_path inner)) = files (manifest_path (in_path inner))"
    using files path_of_ne(2) by (metis imageE)
  have "files' (path_of_sst_val inner i) = files (path_of_sst_val inner i)" if "i \<in> set (all_ids (in_state inner))" for i
    using that assms(2) by (intro files) auto
  then have "on_disk E inner files' t = on_disk E inner files t" if "st_id t \<in> set (all_ids (in_state inner))" for t
    using that by (simp add: on_disk_def)
  moreover have "wal_logs E inner files'"
    by (rule wal_logs_frame [OF durableD(3) [OF assms(1)]]) (use files path_of_ne(1) [of inner] in \<open>auto simp: eq_commute image_iff\<close>)
  ultimately show ?thesis using assms(1) m by (fastforce simp: durable_def man_holds_def tables_on_disk_def)
qed

end
