(* ===== verification/Table_Size.thy ===== *)
theory Table_Size
  imports Table_Iterator
begin

text \<open>
  Tables that are cut off by size. Compaction closes a builder once the finished blocks reach
  \<open>target_sst_size\<close>; the lemmas here bound the file that results, and show that a builder that is
  fed entry by entry and closed that way produces a table that holds what it was fed.
\<close>

section \<open>The size of a file in terms of its blocks\<close>

lemma length_entry_codes_ge:
  assumes "es \<noteq> []"
  shows "6 * length es \<le> length (concat (entry_codes es))" and "length (fst (hd es)) \<le> length (concat (entry_codes es))"
  using assms
proof (induction es rule: rev_nonempty_induct)
  case (single e)
  { case 1 then show ?case by (simp add: entry_codes_def length_entry_code)
  next case 2 then show ?case by (simp add: entry_codes_def length_entry_code) }
next
  case (snoc e es)
  { case 1 then show ?case using snoc by (simp add: entry_codes_snoc length_entry_code)
  next case 2 then show ?case using snoc by (simp add: entry_codes_snoc) }
qed

lemma length_last_key: "es \<noteq> [] \<Longrightarrow> length (fst (last es)) \<le> 2 * length (concat (entry_codes es))"
proof (induction es rule: rev_nonempty_induct)
  case (snoc e es)
  have "compute_overlap (first_key_of es) (fst e) \<le> length (first_key_of es)"
    by (rule compute_overlap_le_first)
  moreover have "first_key_of es = fst (hd es)" using snoc by (cases es) auto
  ultimately show ?case
    using length_entry_codes_ge(2) [OF snoc(1)] by (simp add: entry_codes_snoc length_entry_code)
next
  case (single e)
  then show ?case using length_entry_codes_ge(2) [of "[e]"] by simp
qed

lemma length_block_image: "length (block_image X NoCompression r) = 7 + length (concat (entry_codes r)) + 2 * length r"
  by (simp add: block_image_def SsTableBuilder_compress_def length_Block_encode block_of_def u32.length_put split: option.split)

lemma length_block_image_le:
  assumes "wf_block r"
  shows "length (block_image X NoCompression r) < 2 ^ 19"
proof -
  obtain es e where r: "r = es @ [e]" using assms by (cases r rule: rev_cases) (auto simp: wf_block_def)
  have e: "length (fst e) < 2 ^ 16" "length (snd e) < 2 ^ 16" and l: "length r < 2 ^ 16"
    using assms r by (auto simp: wf_block_def wf_entry_def)
  have "entry_offset r (length es) < 2 ^ 16" using assms r by (simp add: wf_block_def)
  then have "length (concat (entry_codes es)) < 2 ^ 16" by (simp add: entry_offset_def r entry_codes_snoc)
  then show ?thesis
    using length_entry_code_le [of "first_key_of es" e] e l unfolding length_block_image r
    by (simp add: entry_codes_snoc)
qed

lemma length_index_le:
  assumes "\<forall>r \<in> set runs. wf_block r"
  shows "length (concat (map meta_code (index_of X NoCompression runs))) + 2 * length (concat runs)
    \<le> 6 * length (data_image X NoCompression runs)"
  using assms
proof (induction runs rule: rev_induct)
  case (snoc r runs)
  then have r: "r \<noteq> []" by (simp add: wf_block_def)
  then have "first_key_of r = fst (hd r)" "last_key_of r = fst (last r)" by (cases r; simp add: last_key_of_def)+
  then show ?case using snoc length_entry_codes_ge [OF r] length_last_key [OF r] r
    by (simp add: index_of_snoc data_image_def length_meta_code length_block_image)
qed (simp add: index_of_def data_image_def)

lemma table_image_data_bound:
  assumes "\<forall>r \<in> set runs. wf_block r"
  shows "length (table_image X NoCompression runs) \<le> 30 + 7 * length (data_image X NoCompression runs)"
  using length_index_le [OF assms, of X] length_bloom_of [of X runs]
  by (simp add: length_table_image index_image_def Bloom_encode_eq u32.length_put)

section \<open>Cutting off\<close>

text \<open>Up to two blocks after the finished ones that are below the target still fit into a file.\<close>

definition cut_small :: "ext \<Rightarrow> CompressionType \<Rightarrow> nat \<Rightarrow> bool" where
  "cut_small X cm n \<longleftrightarrow> (\<forall>runs tail. (\<forall>r \<in> set (runs @ tail). wf_block r) \<longrightarrow> length tail \<le> 2 \<longrightarrow>
     runs = [] \<or> length (data_image X cm runs) < n \<longrightarrow> length (table_image X cm (runs @ tail)) < 2 ^ 32)"

lemma cut_smallD:
  "cut_small X cm n \<Longrightarrow> \<forall>r \<in> set (runs @ tail). wf_block r \<Longrightarrow> length tail \<le> 2 \<Longrightarrow>
   runs = [] \<or> length (data_image X cm runs) < n \<Longrightarrow> length (table_image X cm (runs @ tail)) < 2 ^ 32"
  unfolding cut_small_def by blast

lemma cut_small_uncompressed:
  assumes "n \<le> 2 ^ 26"
  shows "cut_small X NoCompression n"
  unfolding cut_small_def
proof (intro allI impI)
  fix runs tail
  assume wf: "\<forall>r \<in> set (runs @ tail). wf_block r" and tail: "length tail \<le> (2 :: nat)"
    and runs: "runs = [] \<or> length (data_image X NoCompression runs) < n"
  have "length (data_image X NoCompression tail) \<le> length tail * 2 ^ 19"
    using wf by (induction tail) (use length_block_image_le [of _ X] in \<open>fastforce simp: data_image_def\<close>)+
  then have "length (data_image X NoCompression tail) \<le> 2 * 2 ^ 19"
    using tail by (meson le_trans mult_le_mono1)
  moreover have "length (data_image X NoCompression runs) \<le> 2 ^ 26" using runs assms by (auto simp: data_image_def)
  ultimately have "length (data_image X NoCompression (runs @ tail)) \<le> 2 ^ 26 + 2 * 2 ^ 19" by (simp add: data_image_def)
  then show "length (table_image X NoCompression (runs @ tail)) < 2 ^ 32"
    using table_image_data_bound [OF wf, of X] by simp
qed

text \<open>A builder between two entries, below the target, and right after an entry.\<close>

definition sb_open :: "ext \<Rightarrow> nat \<Rightarrow> CompressionType \<Rightarrow> nat \<Rightarrow> entry list \<Rightarrow> SsTableBuilder \<Rightarrow> bool" where
  "sb_open X n cm target es b \<longleftrightarrow> (\<exists>runs cur. sb_holds X n cm runs cur b \<and> concat runs @ cur = es \<and>
     (\<forall>r \<in> set runs. wf_block r) \<and> (cur = [] \<and> runs = [] \<or> wf_block cur) \<and>
     (runs = [] \<or> length (data_image X cm runs) < target))"

definition sb_full :: "ext \<Rightarrow> nat \<Rightarrow> CompressionType \<Rightarrow> entry list \<Rightarrow> SsTableBuilder \<Rightarrow> bool" where
  "sb_full X n cm es b \<longleftrightarrow> (\<exists>runs cur. sb_holds X n cm runs cur b \<and> concat runs @ cur = es \<and> cur \<noteq> [] \<and>
     (\<forall>r \<in> set (runs @ [cur]). wf_block r) \<and> length (table_image X cm (runs @ [cur])) < 2 ^ 32)"

lemma sb_open_new [inv_intros]: "sb_open X n cm target [] (SsTableBuilder_new n cm)"
  unfolding sb_open_def using sb_holds_new [of X n cm] by force

lemma sb_open_full:
  assumes "sb_open X n cm target es b" and "cut_small X cm target" and "es \<noteq> []"
  shows "sb_full X n cm es b"
proof -
  from assms(1,3) obtain runs cur where b: "sb_holds X n cm runs cur b" "concat runs @ cur = es"
    "\<forall>r \<in> set runs. wf_block r" "wf_block cur" "runs = [] \<or> length (data_image X cm runs) < target"
    by (auto simp: sb_open_def)
  then have "length (table_image X cm (runs @ [cur])) < 2 ^ 32"
    by (intro cut_smallD [OF assms(2)]) auto
  then show ?thesis unfolding sb_full_def using b by (intro exI [of _ runs] exI [of _ cur]) (auto simp: wf_block_def)
qed

lemma sb_full_open:
  assumes "sb_full X n cm es b" and "SsTableBuilder_estimated_size b < target"
  shows "sb_open X n cm target es b"
proof -
  from assms(1) obtain runs cur where b: "sb_holds X n cm runs cur b" "concat runs @ cur = es"
    "\<forall>r \<in> set (runs @ [cur]). wf_block r" by (auto simp: sb_full_def)
  moreover have "length (data_image X cm runs) < target"
    using assms(2) b(1) by (simp add: SsTableBuilder_estimated_size_def sb_holds_def)
  ultimately show ?thesis unfolding sb_open_def by (intro exI [of _ runs] exI [of _ cur]) auto
qed

lemma sb_holds_is_empty: "sb_holds X n cm runs cur b \<Longrightarrow> SsTableBuilder_is_empty b \<longleftrightarrow> runs = [] \<and> cur = []"
  by (auto simp: sb_holds_def SsTableBuilder_is_empty_def BlockBuilder_is_empty_def bb_holds_def index_of_def block_of_def)

lemma sb_open_is_empty: "sb_open X n cm target es b \<Longrightarrow> SsTableBuilder_is_empty b \<longleftrightarrow> es = []"
  unfolding sb_open_def using sb_holds_is_empty by (fastforce simp: wf_block_def)

lemma sb_full_is_empty: "sb_full X n cm es b \<Longrightarrow> \<not> SsTableBuilder_is_empty b"
  unfolding sb_full_def using sb_holds_is_empty by blast

lemma sb_open_add:
  assumes h: "sb_open X n cm target es b" and e: "wf_entry e" and n: "n \<le> 2 ^ 16" and small: "cut_small X cm target"
  shows "\<exists>b'. SsTableBuilder_add X b (fst e) (snd e) = Inr b' \<and> sb_full X n cm (es @ [e]) b'"
proof -
  from h obtain runs cur where b: "sb_holds X n cm runs cur b" "concat runs @ cur = es"
    "\<forall>r \<in> set runs. wf_block r" "cur = [] \<and> runs = [] \<or> wf_block cur" "runs = [] \<or> length (data_image X cm runs) < target"
    by (auto simp: sb_open_def)
  obtain b' where b': "SsTableBuilder_add X b (fst e) (snd e) = Inr b'"
    "if bb_fits n cur e then sb_holds X n cm runs (cur @ [e]) b' else sb_holds X n cm (runs @ [cur]) [e] b'"
    using SsTableBuilder_add_spec [OF b(1), of e] e by (auto simp: wf_entry_def)
  have "sb_full X n cm (es @ [e]) b'"
  proof (cases "bb_fits n cur e")
    case True
    then have wf: "wf_block (cur @ [e])" using b(4) e n by (intro wf_block_snoc) auto
    then have "length (table_image X cm (runs @ [cur @ [e]])) < 2 ^ 32"
      using b(3,5) by (intro cut_smallD [OF small]) auto
    then show ?thesis
      unfolding sb_full_def using b'(2) True b wf by (intro exI [of _ runs] exI [of _ "cur @ [e]"]) auto
  next
    case False
    then have wf: "wf_block cur" "wf_block [e]" using b(4) wf_block_single [OF e] by (auto simp: bb_fits_def)
    then have "length (table_image X cm ((runs @ [cur]) @ [[e]])) < 2 ^ 32"
      using cut_smallD [OF small, of runs "[cur, [e]]"] b(3,5) by auto
    then show ?thesis
      unfolding sb_full_def using b'(2) False b wf by (intro exI [of _ "runs @ [cur]"] exI [of _ "[e]"]) auto
  qed
  with b'(1) show ?thesis by blast
qed

text \<open>The table that is built then holds the entries, and opening its file gives the same table.\<close>

lemma sb_full_build:
  assumes "sb_full X n cm es b" and "sorted_entries es" and "io_works io" and "snappy_inverts X"
  shows "\<exists>t runs d. SsTableBuilder_build X io b sst_id cached path files = Some (Inr t, files(path \<mapsto> d)) \<and>
    SsTable_open X sst_id cached \<lparr>fo_content = d\<rparr> = Inr t \<and>
    sst_holds X [sst_id \<mapsto> runs] t runs \<and> concat runs = es \<and> st_id t = sst_id"
proof -
  from assms(1) obtain runs cur where b: "sb_holds X n cm runs cur b" "concat runs @ cur = es" "cur \<noteq> []"
    and wf: "wf_runs X cm (runs @ [cur])" by (auto simp: sb_full_def wf_runs_def)
  let ?t = "table_of X cm sst_id cached (runs @ [cur])"
  have "SsTableBuilder_build X io b sst_id cached path files =
      Some (Inr ?t, files(path \<mapsto> table_image X cm (runs @ [cur])))"
    using SsTableBuilder_file_holds [OF b(1,3)] wf assms(3) by (rule SsTableBuilder_build_image)
  moreover have "sst_holds X [sst_id \<mapsto> runs @ [cur]] ?t (runs @ [cur])"
    unfolding sst_holds_def using wf b(2) assms(2,4) by (auto simp: table_of_def intro!: exI [of _ cm] exI [of _ cached])
  ultimately show ?thesis
    using SsTable_open_image [OF wf, of sst_id cached] b(2)
    by (intro exI [of _ ?t] exI [of _ "runs @ [cur]"] exI [of _ "table_image X cm (runs @ [cur])"]) (simp add: table_of_def)
qed

end
