(* ===== verification/Engine_Inv.thy ===== *)
theory Engine_Inv
  imports Replay Table_Size
begin

text \<open>
  The invariant of the running engine and what its write path does to the map it stands for.

  \<open>eng_inv\<close> relates an engine to the contents of its runs; the ghost parameter \<open>tables\<close> records the
  blocks of every table ever built, by identifier, so that the block cache can be said to be
  right. \<open>engine_holds E path opts d s M\<close> abstracts from all that: \<open>M\<close> gives the current value of every key,
  the empty value for absent ones. Every operation is shown to return, to keep the invariant and to
  change \<open>M\<close> in the way its name says.
\<close>

section \<open>Growing the set of tables\<close>

lemma blocks_of_mono: "tables \<subseteq>\<^sub>m tables' \<Longrightarrow> blocks_of tables \<subseteq>\<^sub>m blocks_of tables'"
  unfolding map_le_def blocks_of_def by (auto simp: dom_def split: option.splits)

lemma cache_sound_mono: "tables \<subseteq>\<^sub>m tables' \<Longrightarrow> cache_sound (blocks_of tables) c \<Longrightarrow> cache_sound (blocks_of tables') c"
  using blocks_of_mono [of tables tables'] unfolding cache_sound_def map_le_def by (fastforce simp: dom_def)

lemma sst_holds_mono: "tables \<subseteq>\<^sub>m tables' \<Longrightarrow> sst_holds X tables t runs \<Longrightarrow> sst_holds X tables' t runs"
  unfolding sst_holds_def map_le_def by (metis domI)

lemma sst_entries_mono: "tables \<subseteq>\<^sub>m tables' \<Longrightarrow> sst_entries X tables t es \<Longrightarrow> sst_entries X tables' t es"
  unfolding sst_entries_def using sst_holds_mono by blast

text \<open>Identifiers keep their contents when tables are added and the ones they name are kept.\<close>

lemma ids_hold_mono:
  assumes "ids_hold X tables st ids ess" and "tables \<subseteq>\<^sub>m tables'"
    and "\<And>i. i \<in> set ids \<Longrightarrow> ls_sstables st' i = ls_sstables st i"
  shows "ids_hold X tables' st' ids ess"
  using assms(1) unfolding ids_hold_def
  by (rule list.rel_mono_strong) (use assms(2,3) sst_entries_mono in fastforce)


lemma levels_hold_mono:
  assumes "list_all2 (\<lambda>(_ :: nat, ids) ess. ids_hold X tables st ids ess \<and> sorted_entries (concat ess)) levels esss"
    and "tables \<subseteq>\<^sub>m tables'"
    and "\<And>i. i \<in> \<Union> (set ` snd ` set levels) \<Longrightarrow> ls_sstables st' i = ls_sstables st i"
  shows "list_all2 (\<lambda>(_, ids) ess. ids_hold X tables' st' ids ess \<and> sorted_entries (concat ess)) levels esss"
  using assms(1)
  by (rule list.rel_mono_strong) (use assms(3) in \<open>force intro: ids_hold_mono [OF _ assms(2)]\<close>)

section \<open>Memtables within bounds\<close>

definition entries_size :: "entry list \<Rightarrow> nat" where
  "entries_size es = sum_list (map (\<lambda>e. length (fst e) + length (snd e)) es)"

definition mt_ok :: "nat \<Rightarrow> MemTable \<Rightarrow> bool" where
  "mt_ok n t \<longleftrightarrow> mt_wf t \<and> (\<forall>e \<in> set (mt_map t). wf_entry e) \<and> entries_size (mt_map t) \<le> mt_approximate_size t \<and>
     mt_approximate_size t \<le> n \<and> (case mt_wal t of None \<Rightarrow> True | Some w \<Rightarrow> wal_fp w)"

lemma mt_ok_new: "(case wal of None \<Rightarrow> True | Some w \<Rightarrow> wal_fp w) \<Longrightarrow> mt_ok n (MemTable_new i wal)"
  by (simp add: mt_ok_def mt_wf_new) (simp add: MemTable_new_def entries_size_def)

lemma mt_ok_mono: "mt_ok n t \<Longrightarrow> n \<le> n' \<Longrightarrow> mt_ok n' t"
  by (auto simp: mt_ok_def)

lemma entries_size_map_assign: "entries_size (map_assign k v es) \<le> entries_size es + (length k + length v)"
  by (induction es) (auto simp: entries_size_def)

lemma set_map_assign: "set (map_assign k v es) \<subseteq> insert (k, v) (set es)"
  by (induction es) auto

lemma map_assign_not_Nil [simp]: "map_assign k v es \<noteq> []"
  by (cases es) auto

lemma mt_ok_put:
  assumes "io_works io" and "mt_ok n t" and "wf_entry (k, v)"
  shows "\<exists>t'. MemTable_put crc32 io k v t = (Inr (), t') \<and> mt_ok (n + 2 ^ 17) t' \<and>
    mt_map t' = map_assign k v (mt_map t) \<and> mt_id t' = mt_id t"
proof -
  have b: "length k + length v \<le> 2 ^ 17" using assms(3) by (simp add: wf_entry_def)
  have m: "\<forall>e \<in> set (map_assign k v (mt_map t)). wf_entry e"
    using assms(2,3) set_map_assign [of k v "mt_map t"] by (auto simp: mt_ok_def)
  show ?thesis
    using assms(1,2) m b entries_size_map_assign [of k v "mt_map t"] sorted_map_assign [of "mt_map t" k v]
    by (fastforce simp: MemTable_put_def Let_def Wal_put_def mt_ok_def mt_wf_def io_works_def split: option.splits)
qed

text \<open>A memtable within bounds fits into a table file.\<close>

lemma entries_bound_size: "\<forall>e \<in> set es. wf_entry e \<Longrightarrow> entries_bound es \<le> 35 * entries_size es"
proof (induction es)
  case (Cons e es)
  then have "Suc 0 \<le> length (fst e)" by (simp add: wf_entry_def Suc_leI)
  with Cons show ?case by (simp add: entries_size_def)
qed (simp add: entries_size_def)

section \<open>The invariant\<close>

text \<open>Options for which every flushed memtable and every table that compaction cuts off fits into a
  file with 32-bit offsets.\<close>

definition opts_ok :: "ext \<Rightarrow> LsmStorageOptions \<Rightarrow> bool" where
  "opts_ok X opts \<longleftrightarrow> op_block_size opts \<le> 2 ^ 16 \<and>
     (\<forall>es. es \<noteq> [] \<longrightarrow> (\<forall>e \<in> set es. wf_entry e) \<longrightarrow> entries_bound es \<le> 35 * (op_target_sst_size opts + 2 ^ 17) \<longrightarrow>
        file_small X (op_block_size opts) (op_compression opts) es) \<and>
     cut_small X (op_compression opts) (op_target_sst_size opts)"

lemma opts_ok_uncompressed:
  assumes "op_block_size opts \<le> 2 ^ 16" and "op_target_sst_size opts \<le> 2 ^ 26" and "op_compression opts = NoCompression"
  shows "opts_ok X opts"
proof -
  have "30 + entries_bound es < 2 ^ 32" if "entries_bound es \<le> 35 * (op_target_sst_size opts + 2 ^ 17)" for es
    using that assms(2) by simp
  then show ?thesis unfolding opts_ok_def assms(3)
    using assms(1) file_small_uncompressed cut_small_uncompressed [OF assms(2)] by blast
qed

lemma opts_ok_small:
  assumes "opts_ok X opts" and "mt_ok (op_target_sst_size opts + 2 ^ 17) t" and "mt_map t \<noteq> []"
  shows "file_small X (op_block_size opts) (op_compression opts) (mt_map t)"
proof -
  have "35 * entries_size (mt_map t) \<le> 35 * (op_target_sst_size opts + 2 ^ 17)"
    using assms(2) by (simp add: mt_ok_def)
  with entries_bound_size [of "mt_map t"] show ?thesis
    using assms unfolding opts_ok_def mt_ok_def by (meson le_trans)
qed

text \<open>The levels that the kind of compaction asks for. A tier is named after its first table, or 0 if it has none;
  the names are distinct.\<close>

definition tier_name :: "nat list \<Rightarrow> nat" where
  "tier_name ids = (case ids of [] \<Rightarrow> 0 | i # _ \<Rightarrow> i)"

definition shape_ok :: "CompactionOptions \<Rightarrow> LsmStorageState \<Rightarrow> bool" where
  "shape_ok copts st = (case copts of
     LeveledOpts opts \<Rightarrow> length (ls_levels st) = lo_max_levels opts
   | SimpleOpts opts \<Rightarrow> length (ls_levels st) = so_max_levels opts
   | TieredOpts _ \<Rightarrow> ls_l0_sstables st = [] \<and> distinct (map fst (ls_levels st)) \<and>
       (\<forall>lev \<in> set (ls_levels st). fst lev = tier_name (snd lev))
   | NoCompaction \<Rightarrow> length (ls_levels st) = 1)"

text \<open>Memtable 0 is flushed before there is any tier, so that its table is never named like an empty tier.\<close>

definition first_flushed :: "CompactionOptions \<Rightarrow> LsmStorageState \<Rightarrow> bool" where
  "first_flushed copts st = (case copts of
     TieredOpts _ \<Rightarrow> ls_levels st = [] \<or> 0 \<notin> set (map mt_id (ls_memtable st # ls_imm_memtables st))
   | _ \<Rightarrow> True)"

text \<open>The state, with an upper bound \<open>b\<close> for the size of the active memtable and \<open>n\<close> for the identifiers in use.\<close>

definition st_inv ::
  "ext \<Rightarrow> LsmStorageOptions \<Rightarrow> nat \<Rightarrow> (nat \<Rightarrow> entry list list option) \<Rightarrow> nat \<Rightarrow> LsmStorageState \<Rightarrow> contents \<Rightarrow> bool" where
  "st_inv X opts b tables n st co \<longleftrightarrow> st_holds X tables st co \<and>
     mt_ok b (ls_memtable st) \<and>
     (\<forall>t \<in> set (ls_imm_memtables st). mt_ok (op_target_sst_size opts + 2 ^ 17) t \<and> mt_map t \<noteq> []) \<and>
     sorted_wrt (>) (map mt_id (ls_memtable st # ls_imm_memtables st)) \<and> first_flushed (op_compaction_options opts) st \<and>
     (\<forall>t \<in> set (ls_memtable st # ls_imm_memtables st). mt_id t < n \<and> tables (mt_id t) = None) \<and>
     (\<forall>i \<in> dom tables. i < n) \<and>
     (\<forall>i t. ls_sstables st i = Some t \<longrightarrow> st_id t = i \<and> i \<in> dom tables) \<and>
     distinct (all_ids st) \<and> shape_ok (op_compaction_options opts) st"

definition eng_inv :: "env \<Rightarrow> (nat \<Rightarrow> entry list list option) \<Rightarrow> engine \<Rightarrow> contents \<Rightarrow> bool" where
  "eng_inv E tables s co \<longleftrightarrow> (case s of (inner, files) \<Rightarrow>
     io_works (ev_io E) \<and> snappy_inverts (ev_ext E) \<and> opts_ok (ev_ext E) (in_options inner) \<and>
     cache_sound (blocks_of tables) (in_block_cache inner) \<and>
     in_compaction_controller inner = CompactionController_create (op_compaction_options (in_options inner)) \<and>
     st_inv (ev_ext E) (in_options inner) (op_target_sst_size (in_options inner)) tables (in_next_sst_id inner)
       (in_state inner) co)"

text \<open>The value of every key; the empty value for keys that are absent.\<close>

definition store_view :: "contents \<Rightarrow> bytes \<Rightarrow> bytes" where
  "store_view co k = (case newest (lsm_runs co) k of None \<Rightarrow> [] | Some v \<Rightarrow> v)"

text \<open>The engine stands for the map \<open>M\<close>; with \<open>d\<close>, its files describe it as well.\<close>

definition engine_holds :: "env \<Rightarrow> string \<Rightarrow> LsmStorageOptions \<Rightarrow> bool \<Rightarrow> engine \<Rightarrow> (bytes \<Rightarrow> bytes) \<Rightarrow> bool" where
  "engine_holds E path opts d s M \<longleftrightarrow> in_options (fst s) = opts \<and> in_path (fst s) = path \<and> (\<exists>tables co. eng_inv E tables s co \<and> M = store_view co) \<and>
     (d \<longrightarrow> durable E s)"

text \<open>What every call does to the tables, apart from compactions: the ones that were built stay, in memory and (if \<open>d\<close>) on
  disk, and new ones are only put in front of the newest run. A condition \<open>F\<close> on tables and state that survives this is
  \<open>steady\<close>; one that depends on the tables only, and survives more of them, is \<open>lasting\<close>. \<open>engine_with F\<close> is \<open>engine_holds\<close> with such a condition.\<close>

definition grown :: "CompactionOptions \<Rightarrow> LsmStorageState \<Rightarrow> LsmStorageState \<Rightarrow> bool" where
  "grown copts st st' \<longleftrightarrow>
     (if CompactionController_flush_to_l0 (CompactionController_create copts)
      then ls_levels st' = ls_levels st \<and> (\<exists>new. ls_l0_sstables st' = new @ ls_l0_sstables st)
      else ls_l0_sstables st' = ls_l0_sstables st \<and>
        (\<exists>new. ls_levels st' = new @ ls_levels st \<and> (ls_levels st \<noteq> [] \<longrightarrow> 0 \<notin> fst ` set new)))"

definition extends :: "bool \<Rightarrow> (nat \<Rightarrow> entry list list option) \<Rightarrow> engine \<Rightarrow> (nat \<Rightarrow> entry list list option) \<Rightarrow> engine \<Rightarrow> bool" where
  "extends d tables s tables' s' \<longleftrightarrow> tables \<subseteq>\<^sub>m tables' \<and> in_path (fst s') = in_path (fst s) \<and> in_options (fst s') = in_options (fst s) \<and>
     (\<forall>i \<in> dom tables. ls_sstables (in_state (fst s')) i = ls_sstables (in_state (fst s)) i) \<and>
     grown (op_compaction_options (in_options (fst s))) (in_state (fst s)) (in_state (fst s')) \<and>
     dom tables \<inter> set (all_ids (in_state (fst s'))) \<subseteq> set (all_ids (in_state (fst s))) \<and>
     (d \<longrightarrow> (\<forall>i \<in> dom tables. snd s' (path_of_sst_val (fst s) i) = snd s (path_of_sst_val (fst s) i)))"

definition steady :: "bool \<Rightarrow> ((nat \<Rightarrow> entry list list option) \<Rightarrow> engine \<Rightarrow> bool) \<Rightarrow> bool" where
  "steady d F \<longleftrightarrow> (\<forall>tables s tables' s'. F tables s \<longrightarrow> extends d tables s tables' s' \<longrightarrow> F tables' s')"

definition lasting :: "((nat \<Rightarrow> entry list list option) \<Rightarrow> engine \<Rightarrow> bool) \<Rightarrow> bool" where
  "lasting F \<longleftrightarrow> (\<forall>tables s tables' s'. F tables s \<longrightarrow> tables \<subseteq>\<^sub>m tables' \<longrightarrow> F tables' s')"

definition engine_with :: "((nat \<Rightarrow> entry list list option) \<Rightarrow> engine \<Rightarrow> bool) \<Rightarrow> env \<Rightarrow> string \<Rightarrow> LsmStorageOptions \<Rightarrow> bool \<Rightarrow>
    engine \<Rightarrow> (bytes \<Rightarrow> bytes) \<Rightarrow> bool" where
  "engine_with F E path opts d s M \<longleftrightarrow> in_options (fst s) = opts \<and> in_path (fst s) = path \<and>
     (\<exists>tables co. eng_inv E tables s co \<and> M = store_view co \<and> F tables s) \<and> (d \<longrightarrow> durable E s)"

lemma engine_with_True: "engine_with (\<lambda>_ _. True) = engine_holds"
  by (simp add: fun_eq_iff engine_with_def engine_holds_def)

lemma engine_with_holds: "engine_with F E path opts d s M \<Longrightarrow> engine_holds E path opts d s M"
  by (auto simp: engine_with_def engine_holds_def)

lemma grown_refl [simp]: "grown copts st st"
  by (simp add: grown_def)

lemma grown_trans:
  assumes "grown copts st st1" and "grown copts st1 st2"
  shows "grown copts st st2"
proof (cases "CompactionController_flush_to_l0 (CompactionController_create copts)")
  case False
  from assms(1) False obtain new where "ls_levels st1 = new @ ls_levels st" "ls_levels st \<noteq> [] \<longrightarrow> 0 \<notin> fst ` set new"
    "ls_l0_sstables st1 = ls_l0_sstables st" unfolding grown_def by (simp only: if_False) blast
  moreover from assms(2) False obtain new' where "ls_levels st2 = new' @ ls_levels st1" "ls_levels st1 \<noteq> [] \<longrightarrow> 0 \<notin> fst ` set new'"
    "ls_l0_sstables st2 = ls_l0_sstables st1" unfolding grown_def by (simp only: if_False) blast
  ultimately show ?thesis using False by (simp add: grown_def image_Un)
qed (use assms in \<open>auto simp: grown_def\<close>)

lemma extends_refl: "extends d tables s tables s"
  by (simp add: extends_def)

lemma extends_trans:
  assumes "extends d tables s tables1 s1" and "extends d tables1 s1 tables2 s2"
  shows "extends d tables s tables2 s2"
proof -
  note a = assms(1) [unfolded extends_def] and b = assms(2) [unfolded extends_def]
  have dom: "i \<in> dom tables1" if "i \<in> dom tables" for i using a map_le_implies_dom_le that by blast
  have same: "in_path (fst s1) = in_path (fst s)" "in_options (fst s1) = in_options (fst s)" using a by simp_all
  have path: "path_of_sst_val (fst s1) = path_of_sst_val (fst s)" by (rule path_of_cong(1) [OF same(1)])
  have ids: "dom tables \<inter> set (all_ids (in_state (fst s2))) \<subseteq> set (all_ids (in_state (fst s)))" using a b dom by blast
  have sub: "tables \<subseteq>\<^sub>m tables2" by (rule map_le_trans [of _ tables1]) (use a b in simp_all)
  have grown: "grown (op_compaction_options (in_options (fst s))) (in_state (fst s)) (in_state (fst s2))"
    by (rule grown_trans [of _ _ "in_state (fst s1)"]) (use a b same in simp_all)
  have "ls_sstables (in_state (fst s2)) i = ls_sstables (in_state (fst s)) i" if "i \<in> dom tables" for i
    using a b that dom [OF that] by simp
  moreover have "snd s2 (path_of_sst_val (fst s) i) = snd s (path_of_sst_val (fst s) i)" if d "i \<in> dom tables" for i
    using a b that dom [OF that(2)] path by simp
  ultimately show ?thesis using b same sub grown ids unfolding extends_def by simp
qed

lemma steady_True: "steady d (\<lambda>_ _. True)" and lasting_True: "lasting (\<lambda>_ _. True)"
  by (simp_all add: steady_def lasting_def)

lemma steady_extends: "steady d (extends d tables s)"
  unfolding steady_def using extends_trans by blast

lemma lasting_tables: "lasting (\<lambda>tables' _. tables \<subseteq>\<^sub>m tables')"
  unfolding lasting_def using map_le_trans by blast

lemma lasting_steady: "lasting F \<Longrightarrow> steady d F"
  unfolding lasting_def steady_def extends_def by blast

lemma steadyD: "steady d F \<Longrightarrow> F tables s \<Longrightarrow> extends d tables s tables' s' \<Longrightarrow> F tables' s'"
  unfolding steady_def by blast

lemma lastingD: "lasting F \<Longrightarrow> F tables s \<Longrightarrow> tables \<subseteq>\<^sub>m tables' \<Longrightarrow> F tables' s'"
  unfolding lasting_def by blast


section \<open>Changing the state\<close>

lemma first_flushed_memtable [simp]:
  "mt_id t = mt_id (ls_memtable st) \<Longrightarrow> first_flushed copts (st\<lparr>ls_memtable := t\<rparr>) = first_flushed copts st"
  by (simp add: first_flushed_def split: CompactionOptions.split)

lemma distinct_decreasing: "sorted_wrt (>) ns \<Longrightarrow> distinct (ns :: nat list)"
  by (induction ns) auto

lemma st_inv_mem_ids: "st_inv X opts b tables n st co \<Longrightarrow> distinct (map mt_id (ls_memtable st # ls_imm_memtables st))"
  by (intro distinct_decreasing) (simp add: st_inv_def)

lemma ids_of_update [simp]:
  "all_ids (st\<lparr>ls_memtable := t\<rparr>) = all_ids st" "shape_ok copts (st\<lparr>ls_memtable := t\<rparr>) = shape_ok copts st"
  "all_ids (st\<lparr>ls_imm_memtables := ts\<rparr>) = all_ids st" "shape_ok copts (st\<lparr>ls_imm_memtables := ts\<rparr>) = shape_ok copts st"
  "all_ids (st\<lparr>ls_sstables := ss\<rparr>) = all_ids st" "shape_ok copts (st\<lparr>ls_sstables := ss\<rparr>) = shape_ok copts st"
  by (simp_all add: all_ids_def shape_ok_def split: CompactionOptions.split)

lemma ids_hold_in: "ids_hold X tables st ids ess \<Longrightarrow> i \<in> set ids \<Longrightarrow> \<exists>t. ls_sstables st i = Some t"
  unfolding ids_hold_def by (auto simp: list_all2_conv_all_nth in_set_conv_nth)

lemma all_ids_known:
  assumes "st_holds X tables st co" and "i \<in> set (all_ids st)"
  shows "\<exists>t. ls_sstables st i = Some t"
proof (cases "i \<in> set (ls_l0_sstables st)")
  case True
  with assms(1) show ?thesis unfolding st_holds_def by (blast intro: ids_hold_in)
next
  case False
  with assms(2) have "\<exists>lev \<in> set (ls_levels st). i \<in> set (snd lev)" by (auto simp: all_ids_def)
  then obtain l where l: "l < length (ls_levels st)" "i \<in> set (snd (ls_levels st ! l))"
    unfolding in_set_conv_nth [of _ "ls_levels st"] Bex_def by blast
  then have "ids_hold X tables st (snd (ls_levels st ! l)) (co_levels co ! l)"
    using assms(1) by (auto simp: st_holds_def list_all2_conv_all_nth case_prod_beta)
  then show ?thesis using l(2) by (rule ids_hold_in)
qed

lemma store_view_mems:
  assumes "map_of m' = (map_of m)(k \<mapsto> v)"
  shows "store_view (co\<lparr>co_mems := m' # ms\<rparr>) = (store_view (co\<lparr>co_mems := m # ms\<rparr>))(k := v)"
  using assms by (auto simp: store_view_def lsm_runs_def fun_eq_iff)

lemma st_inv_put:
  assumes "st_inv X opts b tables n st co" and "io_works io" and "wf_entry (k, v)"
  shows "\<exists>t. MemTable_put crc32 io k v (ls_memtable st) = (Inr (), t) \<and> mt_map t \<noteq> [] \<and>
    (\<exists>co'. st_inv X opts (b + 2 ^ 17) tables n (st\<lparr>ls_memtable := t\<rparr>) co' \<and> store_view co' = (store_view co)(k := v))"
proof -
  let ?m = "ls_memtable st"
  have h: "st_holds X tables st co" "mt_ok b ?m" using assms(1) by (simp_all add: st_inv_def)
  from mt_ok_put [OF assms(2) h(2) assms(3), of crc32] obtain t where
    t: "MemTable_put crc32 io k v ?m = (Inr (), t)" "mt_ok (b + 2 ^ 17) t" "mt_map t = map_assign k v (mt_map ?m)"
    "mt_id t = mt_id ?m" by blast
  define co' where "co' = co\<lparr>co_mems := mt_map t # map mt_map (ls_imm_memtables st)\<rparr>"
  have co: "co = co\<lparr>co_mems := mt_map ?m # map mt_map (ls_imm_memtables st)\<rparr>"
    using h(1) by (simp add: st_holds_def)
  have "store_view co' = (store_view co)(k := v)"
    using h(2) by (subst co) (simp add: co'_def store_view_mems t(3) map_of_map_assign mt_ok_def mt_wf_def)
  moreover have "st_holds X tables (st\<lparr>ls_memtable := t\<rparr>) co'"
    using h t(2) by (simp add: st_holds_def co'_def ids_hold_def mt_ok_def)
  then have "st_inv X opts (b + 2 ^ 17) tables n (st\<lparr>ls_memtable := t\<rparr>) co'"
    using assms(1) t(2,4) by (simp add: st_inv_def)
  ultimately show ?thesis using t by auto
qed

lemma st_inv_bound:
  "st_inv X opts b tables n st co \<Longrightarrow> mt_approximate_size (ls_memtable st) \<le> b' \<Longrightarrow> st_inv X opts b' tables n st co"
  by (auto simp: st_inv_def mt_ok_def)

lemma st_inv_freeze:
  assumes "st_inv X opts (op_target_sst_size opts + 2 ^ 17) tables n st co" and "mt_map (ls_memtable st) \<noteq> []"
    and "mt_ok b t" and "mt_map t = []" and "mt_id t = n"
  shows "\<exists>co'. st_inv X opts b tables (Suc n) (freeze_state t st) co' \<and> store_view co' = store_view co"
proof -
  define co' where "co' = co\<lparr>co_mems := [] # co_mems co\<rparr>"
  have "st_holds X tables (freeze_state t st) co'"
    using assms by (auto simp: st_inv_def st_holds_def co'_def freeze_state_def mt_ok_def ids_hold_def)
  then have "st_inv X opts b tables (Suc n) (freeze_state t st) co'"
    using assms unfolding st_inv_def
    by (auto simp: freeze_state_def less_Suc_eq first_flushed_def split: CompactionOptions.splits)
  moreover have "store_view co' = store_view co" by (simp add: store_view_def lsm_runs_def co'_def fun_eq_iff)
  ultimately show ?thesis by blast
qed

text \<open>Flushing the oldest frozen memtable leaves the runs as they are.\<close>

lemma flush_state_holds:
  assumes h: "st_holds X tables st co" and imm: "ls_imm_memtables st = ms @ [t]"
    and sst: "sst_holds X [mt_id t \<mapsto> runs] sst runs" "st_id sst = mt_id t" "concat runs = mt_map t"
    and fresh: "tables (mt_id t) = None" "\<And>i. i \<in> set (all_ids st) \<Longrightarrow> i \<noteq> mt_id t"
    and l0: "\<not> to_l0 \<Longrightarrow> ls_l0_sstables st = []"
  shows "\<exists>co'. st_holds X (tables(mt_id t \<mapsto> runs)) (flush_state to_l0 sst st) co' \<and> lsm_runs co' = lsm_runs co"
proof -
  let ?tables = "tables(mt_id t \<mapsto> runs)" and ?st = "flush_state to_l0 sst st" and ?i = "mt_id t"
  have le: "tables \<subseteq>\<^sub>m ?tables" "[?i \<mapsto> runs] \<subseteq>\<^sub>m ?tables" using fresh(1) by (auto simp: map_le_def)
  have ss: "ls_sstables ?st = (ls_sstables st)(?i \<mapsto> sst)" by (simp add: flush_state_def Let_def sst(2))
  have new: "ids_hold X ?tables ?st [?i] [mt_map t]"
    using sst_holds_mono [OF le(2) sst(1)] sst(3) by (auto simp: ids_hold_def ss sst_entries_def)
  have s: "sorted_entries (mt_map t)" using h imm by (simp add: st_holds_def mt_wf_def)
  have l0h: "ids_hold X ?tables ?st (ls_l0_sstables st) (co_l0 co)"
    by (rule ids_hold_mono [OF _ le(1)]) (use h fresh(2) in \<open>auto simp: ss st_holds_def all_ids_def\<close>)
  have lev: "list_all2 (\<lambda>(_, ids) ess. ids_hold X ?tables ?st ids ess \<and> sorted_entries (concat ess)) (ls_levels st) (co_levels co)"
    by (rule levels_hold_mono [OF _ le(1)]) (use h fresh(2) in \<open>fastforce simp: ss st_holds_def all_ids_def\<close>)+
  define co' where "co' = (if to_l0 then co\<lparr>co_mems := butlast (co_mems co), co_l0 := mt_map t # co_l0 co\<rparr>
      else co\<lparr>co_mems := butlast (co_mems co), co_levels := [mt_map t] # co_levels co\<rparr>)"
  have m: "co_mems co = map mt_map (ls_memtable st # ms) @ [mt_map t]" using h imm by (simp add: st_holds_def)
  then have b: "butlast (co_mems co) = map mt_map (ls_memtable st # ms)" by (simp only: butlast_snoc)
  have "st_holds X ?tables ?st co'"
  proof (cases to_l0)
    case True
    then show ?thesis using h new l0h lev b imm
      by (simp add: st_holds_def co'_def ids_hold_def flush_state_def Let_def sst(2))
  next
    case False
    then show ?thesis using h new l0h lev b imm s
      by (simp add: st_holds_def co'_def ids_hold_def flush_state_def Let_def sst(2))
  qed
  moreover have "lsm_runs co' = lsm_runs co"
  proof (cases to_l0)
    case False
    then have "co_l0 co = []" using h l0 by (simp add: st_holds_def ids_hold_def)
    then show ?thesis using m b False by (simp add: lsm_runs_def co'_def)
  qed (use m b in \<open>simp add: lsm_runs_def co'_def\<close>)
  ultimately show ?thesis by blast
qed

lemma st_inv_flush:
  assumes inv: "st_inv X opts b tables n st co" and imm: "ls_imm_memtables st = ms @ [t]"
    and sst: "sst_holds X [mt_id t \<mapsto> runs] sst runs" "st_id sst = mt_id t" "concat runs = mt_map t"
    and to_l0: "to_l0 = CompactionController_flush_to_l0 (CompactionController_create (op_compaction_options opts))"
  shows "\<exists>co'. st_inv X opts b (tables(mt_id t \<mapsto> runs)) n (flush_state to_l0 sst st) co' \<and> store_view co' = store_view co"
proof -
  let ?tables = "tables(mt_id t \<mapsto> runs)" and ?st = "flush_state to_l0 sst st"
  have h: "st_holds X tables st co" and fr: "tables (mt_id t) = None" using inv imm by (auto simp: st_inv_def)
  have known: "i \<noteq> mt_id t" if "i \<in> set (all_ids st)" for i
    using all_ids_known [OF h that] inv fr by (auto simp: st_inv_def)
  have l0: "ls_l0_sstables st = []" if "\<not> to_l0"
    using that inv by (auto simp: to_l0 st_inv_def shape_ok_def CompactionController_flush_to_l0_def
        CompactionController_create_def split: CompactionOptions.splits)
  obtain co' where co': "st_holds X ?tables ?st co'" "lsm_runs co' = lsm_runs co"
    using flush_state_holds [OF h imm sst fr known l0] by blast
  have "set (all_ids ?st) = insert (mt_id t) (set (all_ids st))" "distinct (all_ids ?st)"
    using inv known by (auto simp: st_inv_def all_ids_def flush_state_def Let_def sst(2))
  moreover have "mt_id t \<notin> fst ` set (ls_levels st)" if tiered: "op_compaction_options opts = TieredOpts topts" for topts
  proof
    assume "mt_id t \<in> fst ` set (ls_levels st)"
    then obtain lev where lev: "lev \<in> set (ls_levels st)" "mt_id t = tier_name (snd lev)"
      using inv by (auto simp: st_inv_def shape_ok_def tiered)
    show False
    proof (cases "snd lev")
      case Nil
      then have "mt_id t = 0" using lev by (simp add: tier_name_def)
      then show False using inv imm lev(1) by (auto simp: st_inv_def first_flushed_def tiered)
    next
      case (Cons i ids)
      then have "mt_id t \<in> set (all_ids st)" using lev by (force simp: tier_name_def all_ids_def)
      then show False using known by blast
    qed
  qed
  then have "shape_ok (op_compaction_options opts) ?st"
    using inv by (auto simp: st_inv_def shape_ok_def flush_state_def Let_def to_l0 sst(2) CompactionController_flush_to_l0_def
        CompactionController_create_def tier_name_def split: CompactionOptions.splits)
  moreover have "sorted_wrt (>) (map mt_id (ls_memtable st # ms) @ [mt_id t])" using inv imm by (simp add: st_inv_def)
  then have order: "sorted_wrt (>) (map mt_id (ls_memtable st # ms))" "\<forall>i \<in> set (map mt_id (ls_memtable st # ms)). mt_id t < i"
    unfolding sorted_wrt_append by simp_all
  then have "first_flushed (op_compaction_options opts) ?st"
    using imm by (auto simp: first_flushed_def flush_state_def Let_def split: CompactionOptions.split)
  moreover have "ls_memtable ?st = ls_memtable st" "ls_imm_memtables ?st = ms" "ls_sstables ?st = (ls_sstables st)(mt_id t \<mapsto> sst)"
    using imm by (simp_all add: flush_state_def Let_def sst(2))
  moreover have "\<forall>t' \<in> set (ls_memtable st # ms). mt_id t' \<noteq> mt_id t" using order(2) by auto
  ultimately have "st_inv X opts b ?tables n ?st co'"
    using inv co'(1) imm sst(2) order(1) unfolding st_inv_def by auto
  then show ?thesis using co'(2) by (auto simp: store_view_def fun_eq_iff)
qed

section \<open>The operations\<close>

text \<open>A run that returns, from a given state.\<close>

definition returns :: "('s, 'a) m \<Rightarrow> 's \<Rightarrow> ('a \<Rightarrow> 's \<Rightarrow> bool) \<Rightarrow> bool" where
  "returns p s Q \<longleftrightarrow> (\<exists>x s'. p s = Some (Inr x, s') \<and> Q x s')"

lemma returns_bind: "returns p s Q \<Longrightarrow> (\<And>x s'. Q x s' \<Longrightarrow> returns (f x) s' R) \<Longrightarrow> returns (m_bind p f) s R"
  unfolding returns_def m_bind_def by force

lemma returns_return [simp]: "returns (m_return x) s Q = Q x s"
  by (simp add: returns_def)

lemma returns_weaken: "returns p s Q \<Longrightarrow> (\<And>x s'. Q x s' \<Longrightarrow> R x s') \<Longrightarrow> returns p s R"
  unfolding returns_def by blast

lemma m_bind_apply [simp]:
  "m_bind get_inner f (inner, files) = f inner (inner, files)"
  "m_bind (modify g) h (inner, files) = h () (g inner, files)"
  "m_bind next_sst_id_val k (inner, files) =
     k (in_next_sst_id inner) (inner\<lparr>in_next_sst_id := in_next_sst_id inner + 1\<rparr>, files)"
  by (simp_all add: m_bind_def get_inner_def modify_def next_sst_id_val_def)

lemma returns_apply [simp]:
  "returns (m_bind get_inner f) (inner, files) Q = returns (f inner) (inner, files) Q"
  "returns (m_bind (modify g) h) (inner, files) Q = returns (h ()) (g inner, files) Q"
  "returns (m_bind next_sst_id_val k) (inner, files) Q =
     returns (k (in_next_sst_id inner)) (inner\<lparr>in_next_sst_id := in_next_sst_id inner + 1\<rparr>, files) Q"
  by (simp_all add: returns_def)

lemma returns_on_files:
  "p files = Some (Inr x, files') \<Longrightarrow> returns (m_bind (on_files p) f) (inner, files) Q = returns (f x) (inner, files') Q"
  by (simp add: returns_def m_bind_def on_files_def)

text \<open>Writing a record to the manifest always comes to an end; the engine does not look at the result.\<close>

lemma Manifest_add_record_total:
  assumes "io_works io"
  shows "\<exists>r s'. Manifest_add_record crc32 lib io rec (man, files) = Some (r, s')"
proof -
  have loop: "\<exists>r s'. m_while (\<lambda>written. m_return (written < length buf)) (Manifest_write_step io buf) written s = Some (r, s')"
    for buf written s
  proof (induction "length buf - written" arbitrary: written s rule: less_induct)
    case less
    obtain m f where s: "s = (m, f)" by (cases s)
    show ?case
    proof (cases "written < length buf")
      case True
      then have "0 < io_write io (drop written buf)" using assms by (simp add: io_works_def)
      then obtain s1 where "Manifest_write_step io buf written s = Some (Inr (written + nat (io_write io (drop written buf))), s1)"
        and "0 < nat (io_write io (drop written buf))"
        by (auto simp: Manifest_write_step_def Let_def s)
      then show ?thesis using less [of "written + nat (io_write io (drop written buf))" s1] True
        by (subst m_while.simps) auto
    qed (subst m_while.simps, simp)
  qed
  obtain r s' where "m_while (\<lambda>written. m_return (written < length (Manifest_frame crc32 lib rec)))
      (Manifest_write_step io (Manifest_frame crc32 lib rec)) 0 (man, files) = Some (r, s')"
    using loop by blast
  then show ?thesis
    unfolding Manifest_add_record_def Manifest_add_record_when_init_def Let_def m_bind_def by (cases r) simp_all
qed

lemma returns_record_in_manifest:
  assumes "io_works (ev_io E)"
    and Q: "\<And>man files'. recorded E r inner files man files' \<Longrightarrow> Q () (inner\<lparr>in_manifest := man\<rparr>, files')"
  shows "returns (record_in_manifest E r) (inner, files) Q"
proof (cases "in_manifest inner")
  case None
  then have "record_in_manifest E r (inner, files) = Some (Inr (), inner\<lparr>in_manifest := None\<rparr>, files)"
    by (cases inner) (simp add: record_in_manifest_def)
  moreover have "recorded E r inner files None files" by (simp add: recorded_def None)
  ultimately show ?thesis using Q by (simp add: returns_def)
next
  case (Some man)
  let ?crc = "ext_crc32 (ev_ext E)"
  from Manifest_add_record_total [OF assms(1), of ?crc "ev_json E" r man files] obtain x man1 files1 where
    add: "Manifest_add_record ?crc (ev_json E) (ev_io E) r (man, files) = Some (x, man1, files1)" by auto
  have "recorded E r inner files (Some man1) files1"
    unfolding recorded_def
  proof (intro allI impI)
    fix man0 recs assume "in_manifest inner = Some man0" and h: "man_holds ?crc (ev_json E) man0 files recs"
    then have man0: "man0 = man" using Some by simp
    from man_holds_add [OF assms(1) h, of r] Manifest_add_record_ok [OF assms(1), of man0 files _ ?crc "ev_json E" r] add h
    show "(\<exists>man2. Some man1 = Some man2 \<and> man_path man2 = man_path man0 \<and>
        man_holds ?crc (ev_json E) man2 files1 (recs @ [r])) \<and> (\<forall>p. p \<noteq> man_path man0 \<longrightarrow> files1 p = files p)"
      by (auto simp: man0 man_holds_def)
  qed
  then show ?thesis using add Some Q by (auto simp: record_in_manifest_def returns_def)
qed

lemma returns_fresh_memtable:
  assumes "io_works (ev_io E)"
    and "\<And>t files'. mt_ok n t \<Longrightarrow> mt_map t = [] \<Longrightarrow> mt_id t = i \<Longrightarrow>
      (\<And>wal. mt_wal t = Some wal \<Longrightarrow> wal_path wal = path_of_wal_val inner i) \<Longrightarrow>
      (\<And>p. p \<noteq> path_of_wal_val inner i \<Longrightarrow> files' p = files p) \<Longrightarrow>
      (op_enable_wal (in_options inner) \<Longrightarrow> mt_logged (ext_crc32 (ev_ext E)) (path_of_wal_val inner i) t files' [] []) \<Longrightarrow>
      Q t (inner, files')"
  shows "returns (fresh_memtable E i) (inner, files) Q"
proof -
  have w: "Wal_create (ev_io E) p files = (Inr \<lparr>wal_path = p, wal_fp = True, wal_buf = []\<rparr>, files(p \<mapsto> []))" for p
    using assms(1) by (simp add: Wal_create_def io_works_def)
  let ?w = "\<lparr>wal_path = path_of_wal_val inner i, wal_fp = True, wal_buf = []\<rparr>"
  have "Q (MemTable_new i None) (inner, files)" if "\<not> op_enable_wal (in_options inner)"
    using that by (intro assms(2) mt_ok_new) (simp_all add: MemTable_new_def)
  moreover have "Q (MemTable_new i (Some ?w)) (inner, files(path_of_wal_val inner i \<mapsto> []))"
    by (intro assms(2) mt_ok_new mt_logged_create) (simp_all add: MemTable_new_def)
  ultimately show ?thesis by (simp add: returns_def fresh_memtable_def MemTable_create_with_wal_def w)
qed

text \<open>What the engine depends on, apart from its state proper.\<close>

definition env_inv :: "env \<Rightarrow> (nat \<Rightarrow> entry list list option) \<Rightarrow> LsmStorageInner \<Rightarrow> bool" where
  "env_inv E tables inner \<longleftrightarrow> io_works (ev_io E) \<and> snappy_inverts (ev_ext E) \<and> opts_ok (ev_ext E) (in_options inner) \<and>
     cache_sound (blocks_of tables) (in_block_cache inner) \<and>
     in_compaction_controller inner = CompactionController_create (op_compaction_options (in_options inner))"

lemma eng_inv_iff:
  "eng_inv E tables (inner, files) co \<longleftrightarrow> env_inv E tables inner \<and>
     st_inv (ev_ext E) (in_options inner) (op_target_sst_size (in_options inner)) tables (in_next_sst_id inner)
       (in_state inner) co"
  by (auto simp: eng_inv_def env_inv_def)

lemma env_inv_update [simp]:
  "env_inv E tables (inner\<lparr>in_state := st\<rparr>) = env_inv E tables inner"
  "env_inv E tables (inner\<lparr>in_manifest := man\<rparr>) = env_inv E tables inner"
  "env_inv E tables (inner\<lparr>in_next_sst_id := n\<rparr>) = env_inv E tables inner"
  by (simp_all add: env_inv_def)

lemma engine_holdsI: "eng_inv E tables s co \<Longrightarrow> store_view co = M \<Longrightarrow> in_options (fst s) = opts \<and> in_path (fst s) = path \<Longrightarrow> (d \<Longrightarrow> durable E s) \<Longrightarrow>
  engine_holds E path opts d s M"
  unfolding engine_holds_def by blast

lemma engine_withI: "eng_inv E tables s co \<Longrightarrow> store_view co = M \<Longrightarrow> in_options (fst s) = opts \<and> in_path (fst s) = path \<Longrightarrow> (d \<Longrightarrow> durable E s) \<Longrightarrow>
  F tables s \<Longrightarrow> engine_with F E path opts d s M"
  unfolding engine_with_def by blast

lemma state_mems [simp]:
  "ls_memtable (freeze_state t st) = t"
  "ls_memtable (flush_state to_l0 sst st) = ls_memtable st"
  "ls_imm_memtables (flush_state to_l0 sst st) = butlast (ls_imm_memtables st)"
  by (simp_all add: freeze_state_def flush_state_def Let_def)

lemma with_freeze:
  assumes F: "steady d F" "F tables (inner, files)" and env: "env_inv E tables inner"
    and inv: "st_inv (ev_ext E) (in_options inner) (op_target_sst_size (in_options inner) + 2 ^ 17) tables (in_next_sst_id inner)
      (in_state inner) co"
    and ne: "mt_map (ls_memtable (in_state inner)) \<noteq> []" and o: "in_options inner = opts \<and> in_path inner = path" and dur: "d \<Longrightarrow> durable E (inner, files)"
  shows "returns (LsmStorageInner_force_freeze_memtable E) (inner, files) (\<lambda>_ s. engine_with F E path opts d s (store_view co) \<and>
      mt_map (ls_memtable (in_state (fst s))) = [])"
  unfolding LsmStorageInner_force_freeze_memtable_def
proof (simp, rule returns_bind [OF returns_fresh_memtable])
  show io: "io_works (ev_io E)" using env by (simp add: env_inv_def)
  let ?n = "in_next_sst_id inner"
  fix t files' assume t: "mt_ok (op_target_sst_size (in_options inner)) t" "mt_map t = []" "mt_id t = ?n"
    and wal: "\<And>wal. mt_wal t = Some wal \<Longrightarrow> wal_path wal = path_of_wal_val (inner\<lparr>in_next_sst_id := Suc ?n\<rparr>) ?n"
    and f: "\<And>p. p \<noteq> path_of_wal_val (inner\<lparr>in_next_sst_id := Suc ?n\<rparr>) ?n \<Longrightarrow> files' p = files p"
    and log: "op_enable_wal (in_options (inner\<lparr>in_next_sst_id := Suc ?n\<rparr>)) \<Longrightarrow>
      mt_logged (ext_crc32 (ev_ext E)) (path_of_wal_val (inner\<lparr>in_next_sst_id := Suc ?n\<rparr>) ?n) t files' [] []"
  let ?inner = "inner\<lparr>in_next_sst_id := Suc ?n, in_state := freeze_state t (in_state inner)\<rparr>"
  have sst: "files'' (path_of_sst_val inner i) = files (path_of_sst_val inner i)"
    if d "recorded E (NewMemtable ?n) ?inner files' man files''" for i man files''
    using recorded_elsewhere [OF dur [OF that(1)] that(2), of "path_of_sst_val inner i"] f path_of_ne(1,2) [of inner]
      path_of_ne(3) [of inner, symmetric] by simp
  have fresh: "mt_id t \<notin> mem_ids (in_state inner)" using inv t(3) by (auto simp: st_inv_def mem_ids_def)
  have "engine_with F E path opts d (?inner\<lparr>in_manifest := man\<rparr>, files'') (store_view co)"
    if "recorded E (NewMemtable ?n) ?inner files' man files''" for man files''
    using st_inv_freeze [OF inv ne t] env o steadyD [OF F, of tables "(?inner\<lparr>in_manifest := man\<rparr>, files'')"] sst [OF _ that] durable_freeze [OF dur, of t "Suc ?n" files' man files''] that t(3) wal f log fresh
    by (auto intro!: engine_withI simp: eng_inv_iff extends_def grown_def freeze_state_def all_ids_def)
  then show "returns (m_bind (modify (\<lambda>inner. inner\<lparr>in_state := freeze_state t (in_state inner)\<rparr>))
       (\<lambda>_. record_in_manifest E (NewMemtable ?n)))
     (inner\<lparr>in_next_sst_id := Suc ?n\<rparr>, files') (\<lambda>_ s. engine_with F E path opts d s (store_view co) \<and>
       mt_map (ls_memtable (in_state (fst s))) = [])"
    by (auto intro!: returns_record_in_manifest [OF io] simp: t(2))
qed

lemmas returns_freeze = with_freeze [OF steady_True, unfolded engine_with_True, OF TrueI]

lemma freeze_moves_memtable:
  assumes "io_works (ev_io E)"
  shows "returns (LsmStorageInner_force_freeze_memtable E) s (\<lambda>_ s'.
    mt_map (ls_memtable (in_state (fst s'))) = [] \<and>
    ls_imm_memtables (in_state (fst s')) = ls_memtable (in_state (fst s)) # ls_imm_memtables (in_state (fst s)))"
proof -
  obtain inner files where s: "s = (inner, files)" by (cases s)
  let ?Q = "\<lambda>s'. mt_map (ls_memtable (in_state (fst s'))) = [] \<and> ls_imm_memtables (in_state (fst s')) = ls_memtable (in_state inner) # ls_imm_memtables (in_state inner)"
  have "returns (LsmStorageInner_force_freeze_memtable E) (inner, files) (\<lambda>_ s'. ?Q s')"
    unfolding LsmStorageInner_force_freeze_memtable_def
    by (simp, rule returns_bind [OF returns_fresh_memtable [OF assms,
          where Q = "\<lambda>t s'. mt_map t = [] \<and> in_state (fst s') = in_state inner"]])
      (auto intro!: returns_record_in_manifest [OF assms] simp: freeze_state_def)
  then show ?thesis by (simp add: s)
qed

lemma MemTable_put_wal:
  "MemTable_put crc32 io k v t = (r, t') \<Longrightarrow> mt_id t' = mt_id t \<and> map_option wal_path (mt_wal t') = map_option wal_path (mt_wal t)"
  by (auto simp: MemTable_put_def Wal_put_def Let_def split: option.splits if_splits prod.splits sum.splits)

text \<open>Another active memtable with the same log.\<close>

lemma durable_memtable:
  assumes "durable E (inner, files)" and i: "mt_id t = mt_id (ls_memtable (in_state inner))"
    and wal: "map_option wal_path (mt_wal t) = map_option wal_path (mt_wal (ls_memtable (in_state inner)))"
    and files: "\<And>p. p \<noteq> path_of_wal_val inner (mt_id t) \<Longrightarrow> files' p = files p"
    and fresh: "mt_id t \<notin> mt_id ` set (ls_imm_memtables (in_state inner))"
    and log: "\<And>es bs. op_enable_wal (in_options inner) \<Longrightarrow>
      mt_logged (ext_crc32 (ev_ext E)) (path_of_wal_val inner (mt_id t)) (ls_memtable (in_state inner)) files es bs \<Longrightarrow>
      \<exists>es bs. mt_logged (ext_crc32 (ev_ext E)) (path_of_wal_val inner (mt_id t)) t files' es bs"
  shows "durable E (inner\<lparr>in_state := (in_state inner)\<lparr>ls_memtable := t\<rparr>\<rparr>, files')"
proof (rule durable_frame [OF assms(1)])
  have "wal_path w = path_of_wal_val inner (mt_id t)" if "mt_wal t = Some w" for w
    using that wal durableD(2) [OF assms(1)] i by (cases "mt_wal (ls_memtable (in_state inner))") (auto simp: wal_paths_def)
  then show "wal_paths (inner\<lparr>in_state := (in_state inner)\<lparr>ls_memtable := t\<rparr>\<rparr>)"
    using durableD(2) [OF assms(1)] by (simp add: wal_paths_def)
  have "files' (path_of_wal_val inner (mt_id u)) = files (path_of_wal_val inner (mt_id u))" if "u \<in> set (ls_imm_memtables (in_state inner))" for u
    by (rule files) (use that fresh in \<open>force simp: image_iff\<close>)
  then have imm: "mt_logged crc32 (path_of_wal_val inner (mt_id u)) u files' es bs = mt_logged crc32 (path_of_wal_val inner (mt_id u)) u files es bs"
    if "u \<in> set (ls_imm_memtables (in_state inner))" for u crc32 es bs
    using that by (intro mt_logged_cong)
  show "wal_logs E (inner\<lparr>in_state := (in_state inner)\<lparr>ls_memtable := t\<rparr>\<rparr>) files'"
    unfolding wal_logs_def
  proof (intro impI ballI, goal_cases)
    case (1 u)
    then have w: "op_enable_wal (in_options inner)" by simp
    let ?logged = "\<lambda>u files. \<exists>es bs. mt_logged (ext_crc32 (ev_ext E)) (path_of_wal_val inner (mt_id u)) u files es bs"
    have "?logged (ls_memtable (in_state inner)) files" "\<And>u. u \<in> set (ls_imm_memtables (in_state inner)) \<Longrightarrow> ?logged u files"
      using durableD(3) [OF assms(1)] w by (simp_all add: wal_logs_def)
    then have "?logged t files'" "\<And>u. u \<in> set (ls_imm_memtables (in_state inner)) \<Longrightarrow> ?logged u files'"
      using log [OF w] i by (auto simp: imm)
    then show ?case using 1(2) by auto
  qed
  show "files' p = files p" if "p \<notin> range (path_of_wal_val inner)" for p using files that by blast
qed (simp_all add: i layout_def mem_ids_def)

lemma with_put:
  assumes F: "steady d F" and "engine_with F E path opts d s M" and "wf_entry (k, v)"
  shows "returns (LsmStorageInner_put E k v) s (\<lambda>_ s. engine_with F E path opts d s (M(k := v)))"
proof -
  obtain inner files where s: "s = (inner, files)" by (cases s)
  let ?opts = "in_options inner"
  from assms(2) obtain tables co where f: "F tables (inner, files)" and env: "env_inv E tables inner" and M: "M = store_view co" and o: "?opts = opts \<and> in_path inner = path"
    and inv: "st_inv (ev_ext E) ?opts (op_target_sst_size ?opts) tables (in_next_sst_id inner) (in_state inner) co"
    by (auto simp: engine_with_def s eng_inv_iff)
  have dur: "durable E (inner, files)" if d using that assms(2) by (simp add: engine_with_def s)
  have io: "io_works (ev_io E)" using env by (simp add: env_inv_def)
  from st_inv_put [OF inv this assms(3), of "ext_crc32 (ev_ext E)"] obtain t co' where
    t: "MemTable_put (ext_crc32 (ev_ext E)) (ev_io E) k v (ls_memtable (in_state inner)) = (Inr (), t)" "mt_map t \<noteq> []"
    and inv': "st_inv (ev_ext E) ?opts (op_target_sst_size ?opts + 2 ^ 17) tables (in_next_sst_id inner)
      ((in_state inner)\<lparr>ls_memtable := t\<rparr>) co'" and view: "store_view co' = M(k := v)" using M by blast
  let ?inner = "inner\<lparr>in_state := (in_state inner)\<lparr>ls_memtable := t\<rparr>\<rparr>"
  have f': "F tables (?inner, files)" by (rule steadyD [OF F f]) (simp add: extends_def grown_def all_ids_def)
  have dur': "durable E (?inner, files)" if d
  proof (rule durable_memtable [OF dur [OF that]])
    show "mt_id t \<notin> mt_id ` set (ls_imm_memtables (in_state inner))"
      using st_inv_mem_ids [OF inv] MemTable_put_wal [OF t(1)] by simp
    show "\<exists>es bs. mt_logged (ext_crc32 (ev_ext E)) (path_of_wal_val inner (mt_id t)) t files es bs"
      if "mt_logged (ext_crc32 (ev_ext E)) (path_of_wal_val inner (mt_id t)) (ls_memtable (in_state inner)) files es bs" for es bs
      using mt_logged_put [OF io that assms(3) t(1)] by blast
  qed (use MemTable_put_wal [OF t(1)] in simp_all)
  show ?thesis
  proof (cases "mt_approximate_size t \<ge> op_target_sst_size ?opts")
    case True
    have "returns (LsmStorageInner_force_freeze_memtable E) (?inner, files) (\<lambda>_ s. engine_with F E path opts d s (store_view co'))"
      by (rule returns_weaken [OF with_freeze [where tables = tables and d = d and F = F]]) (use F f' env inv' t(2) o dur' in auto)
    then show ?thesis using True t(1) by (simp add: s LsmStorageInner_put_def put_insert_def m_bind_assoc view)
  next
    case False
    then have "eng_inv E tables (?inner, files) co'"
      using env st_inv_bound [OF inv', of "op_target_sst_size ?opts"] by (simp add: eng_inv_iff)
    then show ?thesis using False t(1) view o dur' f' by (auto simp: s LsmStorageInner_put_def put_insert_def m_bind_assoc intro: engine_withI)
  qed
qed

lemma with_del:
  assumes "steady d F" and "engine_with F E path opts d s M" and "k \<noteq> []" and "length k < 2 ^ 16"
  shows "returns (LsmStorageInner_del E k) s (\<lambda>_ s. engine_with F E path opts d s (M(k := [])))"
  unfolding LsmStorageInner_del_def using assms by (intro with_put) (simp_all add: wf_entry_def)

lemmas returns_put = with_put [OF steady_True, unfolded engine_with_True]

lemmas returns_del = with_del [OF steady_True, unfolded engine_with_True]

text \<open>The active memtable with another log.\<close>

lemma eng_inv_memtable:
  assumes inv: "eng_inv E tables (inner, files) co"
    and same: "mt_map t = mt_map (ls_memtable (in_state inner))" "mt_id t = mt_id (ls_memtable (in_state inner))"
    "\<And>n. mt_ok n t = mt_ok n (ls_memtable (in_state inner))"
  shows "eng_inv E tables (inner\<lparr>in_state := (in_state inner)\<lparr>ls_memtable := t\<rparr>\<rparr>, files') co"
proof -
  have "st_holds X tables ((in_state inner)\<lparr>ls_memtable := t\<rparr>) co = st_holds X tables (in_state inner) co" for X
    using same by (simp add: st_holds_def ids_hold_def mt_wf_def)
  then show ?thesis using inv same by (simp add: eng_inv_iff st_inv_def)
qed

lemma with_sync:
  assumes F: "steady d F" and h: "engine_with F E path opts d s M"
  shows "returns (LsmStorageInner_sync E) s (\<lambda>_ s. engine_with F E path opts d s M)"
proof -
  obtain inner files where s: "s = (inner, files)" by (cases s)
  from h obtain tables co where f: "F tables (inner, files)" and inv: "eng_inv E tables (inner, files) co" and M: "M = store_view co" and o: "in_options inner = opts \<and> in_path inner = path"
    by (auto simp: engine_with_def s)
  obtain r t files' where t: "MemTable_sync_wal (ev_io E) (ls_memtable (in_state inner)) files = (r, t, files')"
    by (rule prod_cases3)
  have same: "mt_map t = mt_map (ls_memtable (in_state inner))" "mt_id t = mt_id (ls_memtable (in_state inner))"
    "mt_ok n t = mt_ok n (ls_memtable (in_state inner))" for n
    using t by (auto simp: MemTable_sync_wal_def Wal_sync_def Wal_fflush_def mt_ok_def mt_wf_def Let_def
        split: option.splits if_splits)
  have "eng_inv E tables (inner\<lparr>in_state := (in_state inner)\<lparr>ls_memtable := t\<rparr>\<rparr>, files') co"
    by (rule eng_inv_memtable [OF inv same])
  moreover have dur: "durable E (inner, files)" if d using that h by (simp add: engine_with_def s)
  moreover have other: "files' p = files p" if d "p \<noteq> path_of_wal_val inner (mt_id t)" for p
    using that(2) t durableD(2) [OF dur [OF that(1)]] same(2)
    by (auto simp: MemTable_sync_wal_def Wal_sync_def Wal_fflush_def Let_def wal_paths_def split: option.splits if_splits)
  moreover have "F tables (inner\<lparr>in_state := (in_state inner)\<lparr>ls_memtable := t\<rparr>\<rparr>, files')"
    by (rule steadyD [OF F f]) (use other path_of_ne(1) [of inner] in \<open>simp add: extends_def grown_def all_ids_def\<close>)
  moreover have "durable E (inner\<lparr>in_state := (in_state inner)\<lparr>ls_memtable := t\<rparr>\<rparr>, files')" if d
  proof (rule durable_memtable)
    show "durable E (inner, files)" using that by (rule dur)
    show "files' p = files p" if "p \<noteq> path_of_wal_val inner (mt_id t)" for p using \<open>d\<close> that by (rule other)
    show "mt_id t \<notin> mt_id ` set (ls_imm_memtables (in_state inner))"
      using inv same(2) by (auto simp: eng_inv_iff dest!: st_inv_mem_ids)
    have io: "io_works (ev_io E)" using inv by (simp add: eng_inv_def)
    show "\<exists>es bs. mt_logged (ext_crc32 (ev_ext E)) (path_of_wal_val inner (mt_id t)) t files' es bs"
      if "mt_logged (ext_crc32 (ev_ext E)) (path_of_wal_val inner (mt_id t)) (ls_memtable (in_state inner)) files es bs" for es bs
      using mt_logged_sync(1) [OF io that t] by blast
    show "map_option wal_path (mt_wal t) = map_option wal_path (mt_wal (ls_memtable (in_state inner)))"
      using t by (auto simp: MemTable_sync_wal_def Wal_sync_def Wal_fflush_def Let_def split: option.splits if_splits)
  qed (rule same)
  ultimately show ?thesis using t M o by (auto simp: s LsmStorageInner_sync_def returns_def intro: engine_withI)
qed

lemmas returns_sync = with_sync [OF steady_True, unfolded engine_with_True]

lemma env_inv_mono: "env_inv E tables inner \<Longrightarrow> tables \<subseteq>\<^sub>m tables' \<Longrightarrow> env_inv E tables' inner"
  unfolding env_inv_def using cache_sound_mono by blast

text \<open>Releasing a memtable writes to its log only.\<close>

abbreviation Wal_release :: "MemTable \<Rightarrow> fs \<Rightarrow> fs" where
  "Wal_release t files \<equiv> (case mt_wal t of None \<Rightarrow> files | Some wal \<Rightarrow> Wal_destroy wal files)"

lemma durable_release:
  assumes "durable E (inner, files)" and wal: "\<And>wal. mt_wal t = Some wal \<Longrightarrow> wal_path wal = path_of_wal_val inner (mt_id t)"
    and "mt_id t \<notin> mem_ids (in_state inner)"
  shows "durable E (inner, Wal_release t files)"
proof -
  have files: "Wal_release t files p = files p" if "p \<noteq> path_of_wal_val inner (mt_id t)" for p
    using that wal by (auto simp: Wal_destroy_def Wal_fflush_def Let_def split: option.splits)
  have "wal_logs E inner (Wal_release t files)"
    by (rule wal_logs_frame [OF durableD(3) [OF assms(1)]]) (use assms(3) files path_of_inj(2) [of inner] in \<open>auto, metis\<close>)
  moreover have "Wal_release t files p = files p" if "p \<notin> range (path_of_wal_val inner)" for p
    using that files by blast
  ultimately show ?thesis by (intro durable_frame [OF assms(1)]) (use durableD(2) [OF assms(1)] in auto)
qed

lemma flush_grown:
  assumes "st_inv X opts b tables n st co" and "ls_imm_memtables st = ms @ [t]" and "st_id sst = mt_id t"
  shows "grown (op_compaction_options opts) st
    (flush_state (CompactionController_flush_to_l0 (CompactionController_create (op_compaction_options opts))) sst st)"
proof (cases "CompactionController_flush_to_l0 (CompactionController_create (op_compaction_options opts))")
  case False
  then obtain topts where "op_compaction_options opts = TieredOpts topts"
    by (auto simp: CompactionController_flush_to_l0_def CompactionController_create_def split: CompactionOptions.splits)
  then have "ls_levels st \<noteq> [] \<Longrightarrow> mt_id t \<noteq> 0" using assms(1,2) by (auto simp: st_inv_def first_flushed_def)
  then show ?thesis using False by (simp add: grown_def flush_state_def Let_def assms(3))
qed (simp add: grown_def flush_state_def Let_def)

lemma flush_elsewhere:
  assumes dur: "durable E (inner, files)" and snoc: "ls_imm_memtables (in_state inner) = ms @ [t]"
    and rec: "recorded E r (inner\<lparr>in_state := st\<rparr>) (files(path_of_sst_val inner (mt_id t) \<mapsto> data)) man files'" and ne: "i \<noteq> mt_id t"
  shows "Wal_release t files' (path_of_sst_val inner i) = files (path_of_sst_val inner i)"
proof -
  have "wal_path wal = path_of_wal_val inner (mt_id t)" if "mt_wal t = Some wal" for wal
    using durableD(2) [OF dur] snoc that by (simp add: wal_paths_def)
  then have "Wal_release t files' (path_of_sst_val inner i) = files' (path_of_sst_val inner i)"
    using path_of_ne(1) [of inner] by (auto simp: Wal_destroy_def Wal_fflush_def Let_def split: option.splits)
  also have "\<dots> = files (path_of_sst_val inner i)"
    using recorded_elsewhere [OF dur rec, of "path_of_sst_val inner i"] path_of_ne(2) [of inner] path_of_inj(1) [of inner] ne by (simp add: eq_commute)
  finally show ?thesis .
qed

text \<open>The engine after the table \<open>sst\<close> of the oldest memtable \<open>t\<close> is installed and recorded, and \<open>t\<close> released.\<close>

lemma with_flushed:
  assumes F: "steady d F" and f: "F tables (inner, files)" and env: "env_inv E tables inner" and dur: "d \<Longrightarrow> durable E (inner, files)"
    and inv: "st_inv (ev_ext E) (in_options inner) (op_target_sst_size (in_options inner)) tables (in_next_sst_id inner) (in_state inner) co"
    and snoc: "ls_imm_memtables (in_state inner) = ms @ [t]"
    and h: "sst_holds (ev_ext E) [mt_id t \<mapsto> runs] sst runs" "concat runs = mt_map t" "st_id sst = mt_id t"
    and data: "SsTable_open (ev_ext E) (mt_id t) True \<lparr>fo_content = data\<rparr> = Inr sst"
    and inner': "inner' = inner\<lparr>in_state := flush_state (CompactionController_flush_to_l0 (CompactionController_create
      (op_compaction_options (in_options inner)))) sst (in_state inner)\<rparr>"
    and rec: "recorded E (Flush (mt_id t)) inner' (files(path_of_sst_val inner (mt_id t) \<mapsto> data)) man files'"
  shows "engine_with F E (in_path inner) (in_options inner) d (inner'\<lparr>in_manifest := man\<rparr>, Wal_release t files') (store_view co)"
proof -
  let ?tables = "tables(mt_id t \<mapsto> runs)"
  have new: "tables (mt_id t) = None" using inv snoc by (simp add: st_inv_def)
  then have le: "tables \<subseteq>\<^sub>m ?tables" by (auto simp: map_le_def)
  from st_inv_flush [OF inv snoc h(1,3,2) refl] obtain co' where
    "st_inv (ev_ext E) (in_options inner) (op_target_sst_size (in_options inner)) ?tables (in_next_sst_id inner) (in_state inner') co'"
    and v: "store_view co' = store_view co" unfolding inner' by auto
  then have inv': "eng_inv E ?tables (inner'\<lparr>in_manifest := man\<rparr>, Wal_release t files') co'"
    using env_inv_mono [OF env le] by (simp add: inner' eng_inv_iff)
  have "Wal_release t files' (path_of_sst_val inner i) = files (path_of_sst_val inner i)" if d "i \<in> dom tables" for i
    by (rule flush_elsewhere [OF dur snoc rec [unfolded inner']]) (use that new in auto)
  then have x: "extends d tables (inner, files) ?tables (inner'\<lparr>in_manifest := man\<rparr>, Wal_release t files')"
    using le new flush_grown [OF inv snoc h(3)] by (auto simp: inner' extends_def flush_state_def Let_def h(3) all_ids_def)
  show ?thesis
  proof (rule engine_withI [OF inv' v])
    show "F ?tables (inner'\<lparr>in_manifest := man\<rparr>, Wal_release t files')" by (rule steadyD [OF F f x])
    assume d
    note dur = dur [OF this]
    have "durable E (inner'\<lparr>in_manifest := man\<rparr>, files')" unfolding inner'
      by (rule durable_flush [OF dur, of sst data man files' ms t, unfolded h(3), OF rec [unfolded inner'] snoc refl st_inv_mem_ids [OF inv] data])
    then show "durable E (inner'\<lparr>in_manifest := man\<rparr>, Wal_release t files')"
      by (rule durable_release) (use durableD(2) [OF dur] snoc st_inv_mem_ids [OF inv] in \<open>auto simp: inner' wal_paths_def mem_ids_def\<close>)
  qed (simp_all add: inner')
qed

lemma with_flush_oldest:
  assumes F: "steady d F" and holds: "engine_with F E path opts d s M"
  shows "returns (LsmStorageInner_force_flush_next_imm_memtable E) s (\<lambda>_ s'. engine_with F E path opts d s' M \<and>
    ls_imm_memtables (in_state (fst s')) = butlast (ls_imm_memtables (in_state (fst s))) \<and>
    ls_memtable (in_state (fst s')) = ls_memtable (in_state (fst s)))"
proof -
  obtain inner files where s: "s = (inner, files)" by (cases s)
  let ?opts = "in_options inner" and ?st = "in_state inner"
  from holds obtain tables co where f: "F tables (inner, files)" and env: "env_inv E tables inner" and M: "M = store_view co" and o: "?opts = opts" "in_path inner = path"
    and inv: "st_inv (ev_ext E) ?opts (op_target_sst_size ?opts) tables (in_next_sst_id inner) ?st co" and dur: "d \<Longrightarrow> durable E (inner, files)"
    by (auto simp: engine_with_def s eng_inv_iff)
  have hyps: "io_works (ev_io E)" "snappy_inverts (ev_ext E)" "opts_ok (ev_ext E) ?opts"
    and ctrl: "in_compaction_controller inner = CompactionController_create (op_compaction_options ?opts)"
    using env by (simp_all add: env_inv_def)
  show ?thesis
  proof (cases "ls_imm_memtables ?st" rule: rev_cases)
    case Nil
    then show ?thesis using holds by (simp add: s LsmStorageInner_force_flush_next_imm_memtable_def)
  next
    case (snoc ms t)
    then have t: "mt_ok (op_target_sst_size ?opts + 2 ^ 17) t" "mt_map t \<noteq> []" using inv by (auto simp: st_inv_def)
    have e: "\<forall>e \<in> set (mt_map t). wf_entry e" "sorted_entries (mt_map t)" "op_block_size ?opts \<le> 2 ^ 16"
      using t(1) hyps(3) by (auto simp: mt_ok_def mt_wf_def opts_ok_def)
    let ?path = "path_of_sst_val inner (mt_id t)"
    from SsTable_build_holds [OF t(2) e hyps(1,2) opts_ok_small [OF hyps(3) t(1,2)], where sst_id = "mt_id t" and cached = True and path = ?path and files = files]
    obtain b sst runs data where
      b: "SsTableBuilder_add_all (ev_ext E) (SsTableBuilder_new (op_block_size ?opts) (op_compression ?opts)) (mt_map t) = Inr b"
      and sst: "SsTableBuilder_build (ev_ext E) (ev_io E) b (mt_id t) True ?path files = Some (Inr sst, files(?path \<mapsto> data))"
      and h: "sst_holds (ev_ext E) [mt_id t \<mapsto> runs] sst runs" "concat runs = mt_map t"
      and data: "SsTable_open (ev_ext E) (mt_id t) True \<lparr>fo_content = data\<rparr> = Inr sst"
      and "sst = table_of (ev_ext E) (op_compression ?opts) (mt_id t) True runs" by blast
    then have i: "st_id sst = mt_id t" by (simp add: table_of_def)
    let ?inner = "inner\<lparr>in_state := flush_state (CompactionController_flush_to_l0 (CompactionController_create (op_compaction_options ?opts))) sst ?st\<rparr>"
    note fin = with_flushed [OF F f env dur inv snoc h i data refl, unfolded o, folded M]
    have "returns (m_bind (record_in_manifest E (Flush (mt_id t))) (\<lambda>_. release_memtable t))
        (?inner, files(?path \<mapsto> data)) (\<lambda>_ s'. engine_with F E path opts d s' M \<and>
        ls_imm_memtables (in_state (fst s')) = butlast (ls_imm_memtables ?st) \<and> ls_memtable (in_state (fst s')) = ls_memtable ?st)"
      by (rule returns_bind [OF returns_record_in_manifest [OF hyps(1),
              where Q = "\<lambda>_ s. \<exists>man f. s = (?inner\<lparr>in_manifest := man\<rparr>, f) \<and> recorded E (Flush (mt_id t)) ?inner (files(?path \<mapsto> data)) man f"]])
        (blast, use fin in \<open>auto simp: release_memtable_def returns_def o\<close>)
    then show ?thesis using snoc b ctrl
      by (simp add: s LsmStorageInner_force_flush_next_imm_memtable_def Let_def MemTable_flush_def
          returns_on_files [of "SsTableBuilder_build (ev_ext E) (ev_io E) b (mt_id t) True ?path", OF sst])
  qed
qed

lemma with_flush:
  assumes F: "steady d F" and h: "engine_with F E path opts d s M"
  shows "returns (LsmStorageInner_force_flush_next_imm_memtable E) s (\<lambda>_ s. engine_with F E path opts d s M)"
  by (rule returns_weaken [OF with_flush_oldest [OF F h]]) simp

lemma with_trigger_flush:
  assumes F: "steady d F" and h: "engine_with F E path opts d s M"
  shows "returns (LsmStorageInner_trigger_flush E) s (\<lambda>_ s. engine_with F E path opts d s M)"
proof (cases s)
  case (Pair inner files)
  show ?thesis
    using returns_bind [OF with_flush [OF F h], where f = "\<lambda>_. m_return True" and R = "\<lambda>_ s. engine_with F E path opts d s M"] h
    by (auto simp: Pair LsmStorageInner_trigger_flush_def)
qed

lemmas returns_flush_oldest = with_flush_oldest [OF steady_True, unfolded engine_with_True]

lemmas returns_flush = with_flush [OF steady_True, unfolded engine_with_True]

lemmas returns_trigger_flush = with_trigger_flush [OF steady_True, unfolded engine_with_True]

text \<open>Reading on the cache of the engine.\<close>

lemma with_on_cache:
  assumes F: "steady d F" "F tables (inner, files)" and inv: "eng_inv E tables (inner, files) co" and ok: "ok (cache_sound (blocks_of tables)) p (\<lambda>r. r = x)" and o: "in_options inner = opts \<and> in_path inner = path"
    and dur: "d \<Longrightarrow> durable E (inner, files)"
  shows "returns (on_cache p) (inner, files) (\<lambda>r s. r = x \<and> engine_with F E path opts d s (store_view co))"
proof -
  have "cache_sound (blocks_of tables) (in_block_cache inner)" using inv by (simp add: eng_inv_def)
  from ok_exec [OF ok this] obtain c where c: "p (in_block_cache inner) = Some (Inr x, c)" "cache_sound (blocks_of tables) c"
    by blast
  have "eng_inv E tables (inner\<lparr>in_block_cache := c\<rparr>, files) co" using inv c(2) by (simp add: eng_inv_def)
  moreover have "durable E (inner\<lparr>in_block_cache := c\<rparr>, files)" if d
    by (rule durable_frame [OF dur [OF that]]) (use durableD(2,3) [OF dur [OF that]] in \<open>simp_all add: wal_paths_def wal_logs_def\<close>)
  moreover have "F tables (inner\<lparr>in_block_cache := c\<rparr>, files)" by (rule steadyD [OF F]) (simp add: extends_def)
  ultimately show ?thesis using c(1) o by (auto simp: on_cache_def returns_def intro: engine_withI)
qed

lemma with_get:
  assumes F: "steady d F" and h: "engine_with F E path opts d s M"
  shows "returns (engine_get E k) s (\<lambda>r s. r = M k \<and> engine_with F E path opts d s M)"
proof -
  obtain inner files where s: "s = (inner, files)" by (cases s)
  from h obtain tables co where f: "F tables (inner, files)" and inv: "eng_inv E tables (inner, files) co" and M: "M = store_view co" and o: "in_options inner = opts \<and> in_path inner = path"
    by (auto simp: engine_with_def s)
  then have sh: "st_holds (ev_ext E) tables (in_state inner) co" by (simp add: eng_inv_def st_inv_def)
  have dur: "durable E (inner, files)" if d using that h by (simp add: engine_with_def s)
  have v: "(case lsm_view co k of None \<Rightarrow> [] | Some v \<Rightarrow> v) = M k"
    by (simp add: M store_view_def lsm_view_newest [OF sh])
  show ?thesis
    using with_on_cache [where d = d, OF F f inv LsmStorageInner_get_ok [OF sh, of k, unfolded v] o dur] by (simp add: s engine_get_def M)
qed

lemmas returns_on_cache = with_on_cache [OF steady_True, unfolded engine_with_True, OF TrueI]

lemmas returns_get = with_get [OF steady_True, unfolded engine_with_True]

definition engine_scan :: "env \<Rightarrow> Bound \<Rightarrow> Bound \<Rightarrow> (engine, entry list) m" where
  "engine_scan E lower upper = m_bind get_inner (\<lambda>inner. on_cache
     (m_bind (LsmStorageInner_scan (ev_ext E) (in_state inner) lower upper)
       (drain (FusedIterator_ops (LsmIterator_ops (scan_iter_ops (ev_ext E)))))))"

lemma store_view_scan:
  fixes co lower upper
  assumes "st_holds X tables st co"
  defines "xs \<equiv> filter (\<lambda>e. in_range lower upper (fst e) \<and> snd e \<noteq> []) (merge_runs (lsm_runs co))"
  shows "sorted_entries xs"
    and "map_of xs = (\<lambda>k. if in_range lower upper k \<and> store_view co k \<noteq> [] then Some (store_view co k) else None)"
proof -
  have ms: "sorted_entries (merge_runs (lsm_runs co))" "map_of (merge_runs (lsm_runs co)) = newest (lsm_runs co)"
    using st_holds_sorted [OF assms(1)] newest_merge_runs by (blast intro: sorted_merge_runs)+
  show "sorted_entries xs" unfolding xs_def using ms(1) by (rule sorted_entries_filter)
  have "map_of xs k = (if in_range lower upper k
      then (case map_of (merge_runs (lsm_runs co)) k of None \<Rightarrow> None | Some v \<Rightarrow> if v \<noteq> [] then Some v else None) else None)" for k
    unfolding xs_def using ms(1) by (rule map_of_filter_sorted)
  then show "map_of xs = (\<lambda>k. if in_range lower upper k \<and> store_view co k \<noteq> [] then Some (store_view co k) else None)"
    unfolding ms(2) by (auto simp: fun_eq_iff store_view_def split: option.split)
qed

lemma with_scan:
  assumes F: "steady d F" and h: "engine_with F E path opts d s M"
  shows "returns (engine_scan E lower upper) s (\<lambda>xs s. sorted_entries xs \<and>
    map_of xs = (\<lambda>k. if in_range lower upper k \<and> M k \<noteq> [] then Some (M k) else None) \<and> engine_with F E path opts d s M)"
proof -
  obtain inner files where s: "s = (inner, files)" by (cases s)
  from h obtain tables co where f: "F tables (inner, files)" and inv: "eng_inv E tables (inner, files) co" and M: "M = store_view co" and o: "in_options inner = opts \<and> in_path inner = path"
    by (auto simp: engine_with_def s)
  then have sh: "st_holds (ev_ext E) tables (in_state inner) co" by (simp add: eng_inv_def st_inv_def)
  have dur: "durable E (inner, files)" if d using that h by (simp add: engine_with_def s)
  show ?thesis
    using with_on_cache [where d = d, OF F f inv scan_drain_ok [OF sh, of lower upper] o dur] store_view_scan [OF sh, of lower upper]
    unfolding M by (auto simp: s engine_scan_def returns_def)
qed

lemmas returns_scan = with_scan [OF steady_True, unfolded engine_with_True]

text \<open>A new engine holds the empty map.\<close>

lemma engine_holds_new:
  assumes "io_works (ev_io E)" and "snappy_inverts (ev_ext E)" and "opts_ok (ev_ext E) opts"
  shows "engine_holds E path opts False (LsmStorageInner_new opts path, files) (\<lambda>_. [])"
proof -
  define st where "st = LsmStorageState_create opts"
  have st: "ls_memtable st = MemTable_new 0 None" "ls_imm_memtables st = []" "ls_l0_sstables st = []" "ls_sstables st = Map.empty"
    "\<forall>lev \<in> set (ls_levels st). snd lev = []"
    by (auto simp: st_def LsmStorageState_create_def Let_def split: CompactionOptions.splits)
  define co where "co = \<lparr>co_mems = [[]], co_l0 = [], co_levels = map (\<lambda>_. []) (ls_levels st)\<rparr>"
  have "st_holds (ev_ext E) Map.empty st co"
    using st by (auto simp: st_holds_def co_def ids_hold_def mt_wf_new list_all2_conv_all_nth case_prod_beta)
      (simp_all add: MemTable_new_def)
  moreover have "shape_ok (op_compaction_options opts) st"
    using st(5) by (auto simp: st_def shape_ok_def LsmStorageState_create_def Let_def split: CompactionOptions.split)
  moreover have "all_ids st = []" using st by (auto simp: all_ids_def)
  moreover have "first_flushed (op_compaction_options opts) st"
    by (simp add: st_def first_flushed_def LsmStorageState_create_def split: CompactionOptions.split)
  ultimately have "st_inv (ev_ext E) opts (op_target_sst_size opts) Map.empty 1 st co"
    using st by (simp add: st_inv_def mt_ok_new)
  then have "eng_inv E Map.empty (LsmStorageInner_new opts path, files) co"
    using assms by (simp add: eng_inv_def LsmStorageInner_new_def st_def cache_sound_new)
  moreover have "newest (map (\<lambda>_. []) xs) k = None" for k and xs :: "(nat \<times> nat list) list" by (induction xs) auto
  then have "store_view co = (\<lambda>_. [])"
    by (simp add: store_view_def fun_eq_iff lsm_runs_def co_def comp_def)
  ultimately show ?thesis by (rule engine_holdsI) (simp_all add: LsmStorageInner_new_def)
qed

end
