(* ===== verification/Compaction.thy ===== *)
theory Compaction
  imports Engine_Inv File_Names
begin

text \<open>
  Running compactions: \<open>compact_generate_sst_from_iter\<close>, \<open>compact\<close>, \<open>force_full_compaction\<close> and
  \<open>trigger_compaction\<close> of \<open>src/compact.cpp\<close>.

  The iterators that a compaction reads from work on the block cache of the engine; the tables it
  writes take fresh identifiers and files. Whether a file of a replaced table can be removed is
  up to the system (\<open>io_remove\<close>).
\<close>

section \<open>Writing the output\<close>

text \<open>Building a table under the next identifier.\<close>

definition build_next :: "env \<Rightarrow> SsTableBuilder \<Rightarrow> (engine, SsTable) m" where
  "build_next E builder =
     m_bind next_sst_id_val (\<lambda>sst_id.
     m_bind get_inner (\<lambda>inner.
     on_files (SsTableBuilder_build (ev_ext E) (ev_io E) builder sst_id True (path_of_sst_val inner sst_id))))"

definition compact_step ::
  "env \<Rightarrow> (BlockCache, 'i) iter_ops \<Rightarrow> bool \<Rightarrow> 'i \<times> SsTableBuilder option \<times> SsTable list \<Rightarrow>
   (engine, 'i \<times> SsTableBuilder option \<times> SsTable list) m" where
  "compact_step E I compact_to_bottom_level = (\<lambda>(iter, builder, new_sst).
     m_bind get_inner (\<lambda>inner.
     let options = in_options inner;
         b = (case builder of Some b \<Rightarrow> b | None \<Rightarrow> SsTableBuilder_new (op_block_size options) (op_compression options)) in
     m_bind (m_lift (it_value I iter)) (\<lambda>v.
     m_bind (if compact_to_bottom_level \<and> v = [] then m_return b
             else m_bind (m_lift (it_key I iter)) (\<lambda>k. m_lift (SsTableBuilder_add (ev_ext E) b k v))) (\<lambda>b.
     m_bind (on_cache (it_next I iter)) (\<lambda>iter.
     if \<not> SsTableBuilder_is_empty b \<and> SsTableBuilder_estimated_size b \<ge> op_target_sst_size options
     then m_bind (build_next E b) (\<lambda>sst. m_return (iter, None, new_sst @ [sst]))
     else m_return (iter, Some b, new_sst))))))"

definition compact_finish :: "env \<Rightarrow> 'i \<times> SsTableBuilder option \<times> SsTable list \<Rightarrow> (engine, SsTable list) m" where
  "compact_finish E = (\<lambda>(_, builder, new_sst).
     case builder of
       Some b \<Rightarrow> if \<not> SsTableBuilder_is_empty b
                 then m_bind (build_next E b) (\<lambda>sst. m_return (new_sst @ [sst]))
                 else m_return new_sst
     | None \<Rightarrow> m_return new_sst)"

definition compact_generate_sst_from_iter ::
  "env \<Rightarrow> (BlockCache, 'i) iter_ops \<Rightarrow> 'i \<Rightarrow> bool \<Rightarrow> (engine, SsTable list) m" where
  "compact_generate_sst_from_iter E I iter compact_to_bottom_level =
     m_bind (m_while (\<lambda>(iter, _, _). m_return (it_valid I iter)) (compact_step E I compact_to_bottom_level) (iter, None, []))
       (compact_finish E)"

section \<open>Running a task\<close>

text \<open>The tables with the given identifiers, as far as they are known.\<close>

abbreviation find_ssts :: "LsmStorageState \<Rightarrow> nat list \<Rightarrow> SsTable list" where
  "find_ssts snapshot ids \<equiv> lookup_ssts snapshot (\<lambda>_. True) ids"

abbreviation full_ops where
  "full_ops X \<equiv> TwoMergeIterator_ops (MergeIterator_ops (SsTableIterator_ops X)) (SstConcatIterator_ops X)"

abbreviation level_ops where
  "level_ops X \<equiv> TwoMergeIterator_ops (SstConcatIterator_ops X) (SstConcatIterator_ops X)"

text \<open>Level 0 tables over a level: the iterator of \<open>ForceFull\<close> and of a compaction of level 0.\<close>

definition compact_full_iter ::
  "ext \<Rightarrow> LsmStorageState \<Rightarrow> nat list \<Rightarrow> nat list \<Rightarrow> (BlockCache, (SsTableIterator MergeIterator, SstConcatIterator) TwoMergeIterator) m" where
  "compact_full_iter X snapshot l0_sstables l1_sstables =
     m_bind (l0_merge X (\<lambda>t. SsTableIterator_create_and_seek_to_first X (Some t)) (find_ssts snapshot l0_sstables)) (\<lambda>merge_l0.
     m_bind (SstConcatIterator_create_and_seek_to_first X (find_ssts snapshot l1_sstables)) (\<lambda>concat_l1.
     TwoMergeIterator_create (MergeIterator_ops (SsTableIterator_ops X)) (SstConcatIterator_ops X) merge_l0 concat_l1))"

definition compact_l0_iter ::
  "ext \<Rightarrow> LsmStorageState \<Rightarrow> nat list \<Rightarrow> nat list \<Rightarrow> (BlockCache, (SsTableIterator MergeIterator, SstConcatIterator) TwoMergeIterator) m" where
  "compact_l0_iter X snapshot upper_level_sst_ids lower_level_sst_ids =
     m_bind (SstConcatIterator_create_and_seek_to_first X (find_ssts snapshot lower_level_sst_ids)) (\<lambda>concat_lower.
     m_bind (l0_merge X (\<lambda>t. SsTableIterator_create_and_seek_to_first X (Some t)) (find_ssts snapshot upper_level_sst_ids)) (\<lambda>merge_upper.
     TwoMergeIterator_create (MergeIterator_ops (SsTableIterator_ops X)) (SstConcatIterator_ops X) merge_upper concat_lower))"

definition compact_level_iter ::
  "ext \<Rightarrow> LsmStorageState \<Rightarrow> nat list \<Rightarrow> nat list \<Rightarrow> (BlockCache, (SstConcatIterator, SstConcatIterator) TwoMergeIterator) m" where
  "compact_level_iter X snapshot upper_level_sst_ids lower_level_sst_ids =
     m_bind (SstConcatIterator_create_and_seek_to_first X (find_ssts snapshot lower_level_sst_ids)) (\<lambda>concat_lower.
     m_bind (SstConcatIterator_create_and_seek_to_first X (find_ssts snapshot upper_level_sst_ids)) (\<lambda>concat_upper.
     TwoMergeIterator_create (SstConcatIterator_ops X) (SstConcatIterator_ops X) concat_upper concat_lower))"

definition compact_leveled ::
  "env \<Rightarrow> LsmStorageState \<Rightarrow> nat option \<Rightarrow> nat list \<Rightarrow> nat list \<Rightarrow> bool \<Rightarrow> (engine, SsTable list) m" where
  "compact_leveled E snapshot upper_level upper_level_sst_ids lower_level_sst_ids bottom =
     (let X = ev_ext E in
      case upper_level of
        Some _ \<Rightarrow>
          m_bind (on_cache (compact_level_iter X snapshot upper_level_sst_ids lower_level_sst_ids)) (\<lambda>two_merge.
          compact_generate_sst_from_iter E (level_ops X) two_merge bottom)
      | None \<Rightarrow>
          m_bind (on_cache (compact_l0_iter X snapshot upper_level_sst_ids lower_level_sst_ids)) (\<lambda>two_merge.
          compact_generate_sst_from_iter E (full_ops X) two_merge bottom))"

definition LsmStorageInner_compact :: "env \<Rightarrow> CompactionTask \<Rightarrow> (engine, SsTable list) m" where
  "LsmStorageInner_compact E task =
     m_bind get_inner (\<lambda>inner.
     let snapshot = in_state inner; X = ev_ext E; bottom = CompactionTask_compact_to_bottom_level task in
     case task of
       TaskForceFull t \<Rightarrow>
         m_bind (on_cache (compact_full_iter X snapshot (ff_l0_sstables t) (ff_l1_sstables t))) (\<lambda>two_merge.
         compact_generate_sst_from_iter E (full_ops X) two_merge bottom)
     | TaskSimple t \<Rightarrow>
         compact_leveled E snapshot (sl_upper_level t) (sl_upper_level_sst_ids t) (sl_lower_level_sst_ids t) bottom
     | TaskLeveled t \<Rightarrow>
         compact_leveled E snapshot (lt_upper_level t) (lt_upper_level_sst_ids t) (lt_lower_level_sst_ids t) bottom
     | TaskTiered t \<Rightarrow>
         m_bind (on_cache (level_merge X (SstConcatIterator_create_and_seek_to_first X)
           (map (\<lambda>(_, tier_ids). find_ssts snapshot tier_ids) (tt_tiers t)))) (\<lambda>merge_iter.
         compact_generate_sst_from_iter E (MergeIterator_ops (SstConcatIterator_ops X)) merge_iter bottom))"

section \<open>Installing the result\<close>

definition remove_ssts :: "env \<Rightarrow> nat list \<Rightarrow> (engine, unit) m" where
  "remove_ssts E ids = (\<lambda>(inner, files).
     Some (Inr (), inner, fold (\<lambda>i files. if io_remove (ev_io E) (path_of_sst_val inner i)
        then files(path_of_sst_val inner i := None) else files) ids files))"

definition erase_ssts :: "nat list \<Rightarrow> LsmStorageState \<Rightarrow> LsmStorageState" where
  "erase_ssts ids st = st\<lparr>ls_sstables := (\<lambda>i. if i \<in> set ids then None else ls_sstables st i)\<rparr>"

definition add_ssts :: "SsTable list \<Rightarrow> LsmStorageState \<Rightarrow> LsmStorageState" where
  "add_ssts ssts st = st\<lparr>ls_sstables := fold (\<lambda>sst m. m(st_id sst \<mapsto> sst)) ssts (ls_sstables st)\<rparr>"

definition full_state :: "nat list \<Rightarrow> nat list \<Rightarrow> SsTable list \<Rightarrow> LsmStorageState \<Rightarrow> LsmStorageState" where
  "full_state l0_sstables l1_sstables sstables st =
     (let next_state = add_ssts sstables (erase_ssts l1_sstables (erase_ssts l0_sstables st));
          ids = map st_id sstables;
          next_state = next_state\<lparr>ls_levels := (case ls_levels next_state of
              [] \<Rightarrow> [(1, ids)] | (l, _) # levels \<Rightarrow> (l, ids) # levels)\<rparr>
      in next_state\<lparr>ls_l0_sstables := filter (\<lambda>x. x \<notin> set l0_sstables) (ls_l0_sstables next_state)\<rparr>)"

text \<open>A compaction takes its input from a snapshot and writes the new tables without a lock (\<open>begin\<close>); then it
  replaces, under the lock, the tables of the task in the state of that moment (\<open>install\<close>). Calls of other threads may come between.\<close>

definition full_begin :: "env \<Rightarrow> (engine, nat list \<times> nat list \<times> SsTable list) m" where
  "full_begin E =
     m_bind get_inner (\<lambda>inner.
     if op_compaction_options (in_options inner) \<noteq> NoCompaction
     then m_lift (Inl (Throw ''full compaction can only be called when compaction is not enabled''))
     else
       let snapshot = in_state inner;
           l0_sstables = ls_l0_sstables snapshot;
           l1_sstables = (case ls_levels snapshot of [] \<Rightarrow> [] | (_, ids) # _ \<Rightarrow> ids);
           task = TaskForceFull \<lparr>ff_l0_sstables = l0_sstables, ff_l1_sstables = l1_sstables\<rparr> in
       m_bind (LsmStorageInner_compact E task) (\<lambda>sstables.
       m_return (l0_sstables, l1_sstables, sstables)))"

definition full_install :: "env \<Rightarrow> nat list \<Rightarrow> nat list \<Rightarrow> SsTable list \<Rightarrow> (engine, unit) m" where
  "full_install E l0_sstables l1_sstables sstables =
     (let task = TaskForceFull \<lparr>ff_l0_sstables = l0_sstables, ff_l1_sstables = l1_sstables\<rparr> in
      m_bind (modify (\<lambda>inner. inner\<lparr>in_state := full_state l0_sstables l1_sstables sstables (in_state inner)\<rparr>)) (\<lambda>_.
      m_bind (record_in_manifest E (Compaction task (map st_id sstables))) (\<lambda>_.
      m_bind (remove_ssts E l0_sstables) (\<lambda>_.
      remove_ssts E l1_sstables))))"

definition LsmStorageInner_force_full_compaction :: "env \<Rightarrow> (engine, unit) m" where
  "LsmStorageInner_force_full_compaction E =
     m_bind (full_begin E) (\<lambda>(l0_sstables, l1_sstables, sstables). full_install E l0_sstables l1_sstables sstables)"

definition compaction_begin :: "env \<Rightarrow> (engine, (CompactionTask \<times> SsTable list) option) m" where
  "compaction_begin E =
     m_bind get_inner (\<lambda>inner.
     m_bind (m_lift (CompactionController_generate_compaction_task (in_compaction_controller inner) (in_state inner))) (\<lambda>task_opt.
     case task_opt of
       None \<Rightarrow> m_return None
     | Some task \<Rightarrow> m_bind (LsmStorageInner_compact E task) (\<lambda>sstables. m_return (Some (task, sstables)))))"

text \<open>The files of those replaced tables that the state knows are removed.\<close>

definition compaction_install :: "env \<Rightarrow> CompactionTask \<Rightarrow> SsTable list \<Rightarrow> (engine, bool) m" where
  "compaction_install E task sstables =
     (let output = map st_id sstables in
      m_bind get_inner (\<lambda>inner.
      m_bind (m_lift (CompactionController_apply_compaction_result (in_compaction_controller inner)
          (add_ssts sstables (in_state inner)) task output False)) (\<lambda>(applied_state, files_to_remove).
      let ssts_to_remove = List.map_filter (ls_sstables applied_state) (remdups files_to_remove) in
      m_bind (modify (\<lambda>inner. inner\<lparr>in_state := erase_ssts files_to_remove applied_state\<rparr>)) (\<lambda>_.
      m_bind (record_in_manifest E (Compaction task output)) (\<lambda>_.
      m_bind (remove_ssts E (map st_id ssts_to_remove)) (\<lambda>_.
      m_return True))))))"

definition LsmStorageInner_trigger_compaction :: "env \<Rightarrow> (engine, bool) m" where
  "LsmStorageInner_trigger_compaction E =
     m_bind (compaction_begin E) (\<lambda>started. case started of
       None \<Rightarrow> m_return False
     | Some (task, sstables) \<Rightarrow> compaction_install E task sstables)"

end
