(* ===== verification/Compaction_Correct.thy ===== *)
theory Compaction_Correct
  imports Compaction
begin

text \<open>
  What compactions produce. The loop that writes the output is correct over every iterator that
  keeps the contract (locale \<open>cache_iterator\<close>): the tables it builds hold, in order, exactly the
  entries the iterator delivers, without tombstones at the bottom level.
\<close>

section \<open>Loops that return\<close>

lemma returns_while_stop:
  "b x s = Some (Inr False, s) \<Longrightarrow> returns (f x) s Q \<Longrightarrow> returns (m_bind (m_while b c x) f) s Q"
  unfolding returns_def m_bind_def by (subst m_while.simps) simp

lemma returns_while_step:
  assumes "b x s = Some (Inr True, s)" and "returns (c x) s (\<lambda>x' s'. returns (m_bind (m_while b c x') f) s' Q)"
  shows "returns (m_bind (m_while b c x) f) s Q"
proof -
  from assms(2) obtain x' s' where 1: "c x s = Some (Inr x', s')" "returns (m_bind (m_while b c x') f) s' Q"
    by (auto simp: returns_def)
  then have "m_while b c x s = m_while b c x' s'" using assms(1) by (subst m_while.simps) simp
  then show ?thesis using 1(2) by (simp add: returns_def m_bind_def)
qed

section \<open>Tables written under consecutive identifiers\<close>

definition written ::
  "env \<Rightarrow> LsmStorageInner \<Rightarrow> nat \<Rightarrow> fs \<Rightarrow> SsTable list \<Rightarrow> entry list list list \<Rightarrow> fs \<Rightarrow> bool" where
  "written E inner n files ssts rss files' \<longleftrightarrow>
     map st_id ssts = [n..<n + length ssts] \<and>
     list_all2 (\<lambda>t runs. sst_holds (ev_ext E) [st_id t \<mapsto> runs] t runs) ssts rss \<and>
     (\<forall>t \<in> set ssts. on_disk E inner files' t) \<and>
     (\<forall>p. p \<notin> path_of_sst_val inner ` {n..<n + length ssts} \<longrightarrow> files' p = files p)"

lemma written_Nil [simp]: "written E inner n files [] [] files"
  by (simp add: written_def)

lemma path_of_sst_val_cong: "in_path inner = in_path inner' \<Longrightarrow> path_of_sst_val inner i = path_of_sst_val inner' i"
  by (simp add: path_of_sst_val_def)

lemma written_snoc:
  assumes "written E inner n files ssts rss files'" and t: "st_id t = n + length ssts" "sst_holds (ev_ext E) [st_id t \<mapsto> runs] t runs"
    and d: "SsTable_open (ev_ext E) (st_id t) True \<lparr>fo_content = d\<rparr> = Inr t"
  shows "written E inner n files (ssts @ [t]) (rss @ [runs]) (files'(path_of_sst_val inner (st_id t) \<mapsto> d))"
proof -
  have ids: "map st_id ssts = [n..<n + length ssts]" using assms(1) by (simp add: written_def)
  have "on_disk E inner (files'(path_of_sst_val inner (st_id t) \<mapsto> d)) u" if "u \<in> set ssts" for u
  proof -
    have "st_id u \<in> set (map st_id ssts)" using that by simp
    then have "st_id u \<noteq> st_id t" unfolding ids t(1) by simp
    then show ?thesis using assms(1) that by (simp add: written_def on_disk_def)
  qed
  moreover have "(files'(path_of_sst_val inner (st_id t) \<mapsto> d)) p = files p"
    if "p \<notin> path_of_sst_val inner ` {n..<n + length (ssts @ [t])}" for p
  proof -
    have "p \<noteq> path_of_sst_val inner (st_id t)" "p \<notin> path_of_sst_val inner ` {n..<n + length ssts}"
      using that t(1) by auto
    then show ?thesis using assms(1) by (simp add: written_def)
  qed
  moreover have "on_disk E inner (files'(path_of_sst_val inner (st_id t) \<mapsto> d)) t" using d by (simp add: on_disk_def)
  moreover have "list_all2 (\<lambda>t runs. sst_holds (ev_ext E) [st_id t \<mapsto> runs] t runs) (ssts @ [t]) (rss @ [runs])"
    using assms by (simp add: written_def list_all2_appendI)
  ultimately show ?thesis using ids t(1) by (simp add: written_def)
qed

lemma returns_build_next:
  assumes full: "sb_full (ev_ext E) m cm es b" "sorted_entries es" and env: "io_works (ev_io E)" "snappy_inverts (ev_ext E)"
    and w: "written E inner n files0 ssts rss files" and path: "in_path inner' = in_path inner"
    and n: "in_next_sst_id inner' = n + length ssts"
  shows "returns (build_next E b) (inner', files) (\<lambda>t s. \<exists>runs files'. concat runs = es \<and>
    written E inner n files0 (ssts @ [t]) (rss @ [runs]) files' \<and>
    s = (inner'\<lparr>in_next_sst_id := n + length (ssts @ [t])\<rparr>, files'))"
proof -
  let ?i = "n + length ssts" and ?inner = "inner'\<lparr>in_next_sst_id := Suc (n + length ssts)\<rparr>"
  have p: "path_of_sst_val ?inner ?i = path_of_sst_val inner ?i" using path by (intro path_of_sst_val_cong) simp
  from sb_full_build [OF full env, of ?i True "path_of_sst_val inner ?i" files] obtain t runs d where
    t: "SsTableBuilder_build (ev_ext E) (ev_io E) b ?i True (path_of_sst_val inner ?i) files =
      Some (Inr t, files(path_of_sst_val inner ?i \<mapsto> d))"
    "SsTable_open (ev_ext E) ?i True \<lparr>fo_content = d\<rparr> = Inr t" "sst_holds (ev_ext E) [?i \<mapsto> runs] t runs"
    "concat runs = es" "st_id t = ?i" by blast
  have "written E inner n files0 (ssts @ [t]) (rss @ [runs]) (files(path_of_sst_val inner ?i \<mapsto> d))"
    using written_snoc [OF w t(5), of runs d] t by simp
  then show ?thesis
    using t n p by (auto simp: build_next_def returns_def on_files_def m_bind_def next_sst_id_val_def get_inner_def)
qed

section \<open>The writing loop\<close>

text \<open>What is left to write: all entries, or the live ones only.\<close>

definition kept :: "bool \<Rightarrow> entry list \<Rightarrow> entry list" where
  "kept bottom xs = (if bottom then filter (\<lambda>e. snd e \<noteq> []) xs else xs)"

lemma kept_simps [simp]:
  "kept bottom [] = []"
  "kept bottom (x # xs) = (if bottom \<and> snd x = [] then kept bottom xs else x # kept bottom xs)"
  by (simp_all add: kept_def)

text \<open>The builder of the loop: none yet, or one that has collected \<open>cur\<close>.\<close>

definition builder_state :: "ext \<Rightarrow> LsmStorageOptions \<Rightarrow> SsTableBuilder option \<Rightarrow> entry list \<Rightarrow> bool" where
  "builder_state X opts builder cur \<longleftrightarrow> (case builder of
     None \<Rightarrow> cur = []
   | Some b \<Rightarrow> sb_open X (op_block_size opts) (op_compression opts) (op_target_sst_size opts) cur b)"

lemma builder_state_current:
  "builder_state X opts builder cur \<Longrightarrow>
   sb_open X (op_block_size opts) (op_compression opts) (op_target_sst_size opts) cur
     (case builder of Some b \<Rightarrow> b | None \<Rightarrow> SsTableBuilder_new (op_block_size opts) (op_compression opts))"
  by (auto simp: builder_state_def sb_open_new split: option.splits)

text \<open>The outcome of the loop on the engine \<open>inner\<close>: tables \<open>ssts\<close> with the entries \<open>xs\<close>, written from \<open>n\<close> on.\<close>

definition compacted ::
  "env \<Rightarrow> (nat \<Rightarrow> entry list list option) \<Rightarrow> LsmStorageInner \<Rightarrow> nat \<Rightarrow> fs \<Rightarrow> entry list \<Rightarrow> SsTable list \<Rightarrow> engine \<Rightarrow> bool" where
  "compacted E tables inner n files xs ssts s \<longleftrightarrow> (\<exists>rss c files'.
     s = (inner\<lparr>in_block_cache := c, in_next_sst_id := n + length ssts\<rparr>, files') \<and> cache_sound (blocks_of tables) c \<and>
     written E inner n files ssts rss files' \<and> concat (map concat rss) = xs)"

lemma returns_compact_finish:
  assumes env: "io_works (ev_io E)" "snappy_inverts (ev_ext E)" "opts_ok (ev_ext E) (in_options inner)"
    and b: "builder_state (ev_ext E) (in_options inner) builder cur" "sorted_entries cur"
    and w: "written E inner n files0 ssts rss files" and c: "cache_sound (blocks_of tables) c"
  shows "returns (compact_finish E (it, builder, ssts)) (inner\<lparr>in_block_cache := c, in_next_sst_id := n + length ssts\<rparr>, files)
    (compacted E tables inner n files0 (concat (map concat rss) @ cur))"
proof (cases "\<exists>b. builder = Some b \<and> \<not> SsTableBuilder_is_empty b")
  case True
  then obtain b' where b': "builder = Some b'" "\<not> SsTableBuilder_is_empty b'" by blast
  then have o: "sb_open (ev_ext E) (op_block_size (in_options inner)) (op_compression (in_options inner))
      (op_target_sst_size (in_options inner)) cur b'" using b(1) by (simp add: builder_state_def)
  then have "cur \<noteq> []" using b'(2) sb_open_is_empty by blast
  then have f: "sb_full (ev_ext E) (op_block_size (in_options inner)) (op_compression (in_options inner)) cur b'"
    using o env(3) by (intro sb_open_full) (auto simp: opts_ok_def)
  show ?thesis
    unfolding compact_finish_def using b' c
    by (auto intro!: returns_bind [OF returns_build_next [OF f b(2) env(1,2) w]] simp: compacted_def) force
next
  case False
  then have "cur = []"
    using b(1) by (cases builder) (auto simp: builder_state_def dest: sb_open_is_empty)
  then show ?thesis using False w c by (cases builder) (auto simp: compact_finish_def compacted_def)
qed

locale cache_iterator = sorted_iterator I "cache_sound (blocks_of tables)" rep
  for I :: "(BlockCache, 'i) iter_ops" and tables and rep
begin

lemma returns_next:
  assumes "rep it (x # xs)" and "cache_sound (blocks_of tables) (in_block_cache inner)"
    and "\<And>it' c. rep it' xs \<Longrightarrow> cache_sound (blocks_of tables) c \<Longrightarrow> Q it' (inner\<lparr>in_block_cache := c\<rparr>, files)"
  shows "returns (on_cache (it_next I it)) (inner, files) Q"
  using next_tl [OF assms(1)] assms(2,3) unfolding ok_def by (force simp: on_cache_def returns_def)

text \<open>One round of the loop: the entry goes into the builder, unless it is a tombstone at the bottom.\<close>

lemma compact_add:
  assumes o: "sb_open X n cm tg cur b0" and x: "wf_entry x" and cs: "n \<le> 2 ^ 16" "cut_small X cm tg"
  obtains b1 where "(if bottom \<and> snd x = [] then m_return b0
        else m_bind (m_lift (Inr (fst x))) (\<lambda>k. m_lift (SsTableBuilder_add X b0 k (snd x)))) = (m_lift (Inr b1) :: (engine, SsTableBuilder) m)"
    and "sb_open X n cm tg (if bottom \<and> snd x = [] then cur else cur @ [x]) b1 \<or> sb_full X n cm (if bottom \<and> snd x = [] then cur else cur @ [x]) b1"
proof (cases "bottom \<and> snd x = []")
  case True
  then show ?thesis using that [of b0] o by (auto simp: m_return_def m_lift_def)
next
  case False
  obtain b' where "SsTableBuilder_add X b0 (fst x) (snd x) = Inr b'" "sb_full X n cm (cur @ [x]) b'"
    using sb_open_add [OF o x cs] by blast
  then show ?thesis using that [of b'] False by (simp add: m_lift_def [symmetric] del: m_apply)
qed

text \<open>Then a table that has become large enough is written.\<close>

abbreviation cut_table :: "env \<Rightarrow> nat \<Rightarrow> SsTableBuilder \<Rightarrow> SsTable list \<Rightarrow> 'i \<Rightarrow> (engine, 'i \<times> SsTableBuilder option \<times> SsTable list) m" where
  "cut_table E tg b1 ssts it \<equiv>
     (if \<not> SsTableBuilder_is_empty b1 \<and> SsTableBuilder_estimated_size b1 \<ge> tg
      then m_bind (build_next E b1) (\<lambda>sst. m_return (it, None, ssts @ [sst]))
      else m_return (it, Some b1, ssts))"

lemma returns_cut_table:
  fixes inner
  defines "opts \<equiv> in_options inner"
  assumes env: "io_works (ev_io E)" "snappy_inverts (ev_ext E)" "cut_small (ev_ext E) (op_compression opts) (op_target_sst_size opts)"
    and ob: "sb_open (ev_ext E) (op_block_size opts) (op_compression opts) (op_target_sst_size opts) cur1 b1 \<or> sb_full (ev_ext E) (op_block_size opts) (op_compression opts) cur1 b1"
    and w: "written E inner n files0 ssts rss files" and s: "sorted_entries cur1"
    and Q: "\<And>builder' ssts' cur' rss' files'. builder_state (ev_ext E) opts builder' cur' \<Longrightarrow> written E inner n files0 ssts' rss' files' \<Longrightarrow>
      concat (map concat rss') @ cur' = concat (map concat rss) @ cur1 \<Longrightarrow> cur' = [] \<or> cur' = cur1 \<Longrightarrow>
      Q (it', builder', ssts') (inner\<lparr>in_block_cache := c, in_next_sst_id := n + length ssts'\<rparr>, files')"
  shows "returns (cut_table E (op_target_sst_size opts) b1 ssts it') (inner\<lparr>in_block_cache := c, in_next_sst_id := n + length ssts\<rparr>, files) Q"
proof (cases "\<not> SsTableBuilder_is_empty b1 \<and> SsTableBuilder_estimated_size b1 \<ge> op_target_sst_size opts")
  case True
  let ?inner = "inner\<lparr>in_block_cache := c, in_next_sst_id := n + length ssts\<rparr>"
  have "cur1 \<noteq> []" using ob True sb_open_is_empty by (fastforce simp: sb_full_def)
  then have f: "sb_full (ev_ext E) (op_block_size opts) (op_compression opts) cur1 b1" using ob sb_open_full [OF _ env(3)] by blast
  have nx: "in_next_sst_id ?inner = n + length ssts" "in_path ?inner = in_path inner" by simp_all
  have "returns (m_bind (build_next E b1) (\<lambda>sst. m_return (it', None, ssts @ [sst]))) (?inner, files) Q"
  proof (rule returns_bind [OF returns_build_next [OF f s env(1,2) w nx(2,1)]], elim exE conjE)
    fix t s' runs files' assume es: "concat runs = cur1" and w': "written E inner n files0 (ssts @ [t]) (rss @ [runs]) files'"
      and s': "s' = (?inner\<lparr>in_next_sst_id := n + length (ssts @ [t])\<rparr>, files')"
    have "Q (it', None, ssts @ [t]) (inner\<lparr>in_block_cache := c, in_next_sst_id := n + length (ssts @ [t])\<rparr>, files')"
      by (rule Q [OF _ w', of None "[]"]) (use es in \<open>simp_all add: builder_state_def\<close>)
    then show "returns (m_return (it', None, ssts @ [t])) s' Q" by (simp add: s')
  qed
  then show ?thesis using True by simp
next
  case False
  then have "sb_open (ev_ext E) (op_block_size opts) (op_compression opts) (op_target_sst_size opts) cur1 b1" using ob sb_full_open sb_full_is_empty by (metis not_le)
  then have "Q (it', Some b1, ssts) (inner\<lparr>in_block_cache := c, in_next_sst_id := n + length ssts\<rparr>, files)"
    by (intro Q [OF _ w, of "Some b1" cur1]) (simp_all add: builder_state_def)
  then show ?thesis using False by auto
qed

lemma returns_compact_step:
  assumes it: "rep it (x # xs)" "wf_entry x" "sorted_entries (cur @ kept bottom (x # xs))"
    and env: "io_works (ev_io E)" "snappy_inverts (ev_ext E)" "opts_ok (ev_ext E) (in_options inner)"
    and b: "builder_state (ev_ext E) (in_options inner) builder cur"
    and w: "written E inner n files0 ssts rss files" and c: "cache_sound (blocks_of tables) c"
    and Q: "\<And>it' builder' ssts' cur' rss' files' c'. rep it' xs \<Longrightarrow>
      builder_state (ev_ext E) (in_options inner) builder' cur' \<Longrightarrow> written E inner n files0 ssts' rss' files' \<Longrightarrow>
      cache_sound (blocks_of tables) c' \<Longrightarrow>
      concat (map concat rss') @ cur' @ kept bottom xs = concat (map concat rss) @ cur @ kept bottom (x # xs) \<Longrightarrow>
      sorted_entries (cur' @ kept bottom xs) \<Longrightarrow>
      Q (it', builder', ssts') (inner\<lparr>in_block_cache := c', in_next_sst_id := n + length ssts'\<rparr>, files')"
  shows "returns (compact_step E I bottom (it, builder, ssts))
    (inner\<lparr>in_block_cache := c, in_next_sst_id := n + length ssts\<rparr>, files) Q"
proof -
  let ?o = "in_options inner"
  let ?n = "op_block_size ?o" and ?cm = "op_compression ?o" and ?tg = "op_target_sst_size ?o" and ?X = "ev_ext E"
  define b0 where "b0 = (case builder of Some b \<Rightarrow> b | None \<Rightarrow> SsTableBuilder_new ?n ?cm)"
  have o: "sb_open ?X ?n ?cm ?tg cur b0" unfolding b0_def using b by (rule builder_state_current)
  define cur1 where "cur1 = (if bottom \<and> snd x = [] then cur else cur @ [x])"
  have s1: "sorted_entries (cur1 @ kept bottom xs)" "cur1 @ kept bottom xs = cur @ kept bottom (x # xs)"
    using it(3) by (auto simp: cur1_def)
  have cs: "?n \<le> 2 ^ 16" "cut_small ?X ?cm ?tg" using env(3) by (auto simp: opts_ok_def)
  obtain b1 where b1: "(if bottom \<and> snd x = [] then m_return b0
        else m_bind (m_lift (Inr (fst x))) (\<lambda>k. m_lift (SsTableBuilder_add ?X b0 k (snd x)))) = (m_lift (Inr b1) :: (engine, SsTableBuilder) m)"
    and ob: "sb_open ?X ?n ?cm ?tg cur1 b1 \<or> sb_full ?X ?n ?cm cur1 b1"
    unfolding cur1_def by (rule compact_add [OF o it(2) cs])
  let ?inner = "inner\<lparr>in_block_cache := c, in_next_sst_id := n + length ssts\<rparr>"
  have opts: "in_options ?inner = ?o" by simp
  have step: "returns (compact_step E I bottom (it, builder, ssts)) (?inner, files) Q =
      returns (m_bind (on_cache (it_next I it)) (cut_table E ?tg b1 ssts)) (?inner, files) Q"
    unfolding compact_step_def prod.case returns_apply(1) Let_def opts b0_def [symmetric] value_hd [OF it(1)] key_hd [OF it(1)]
      m_bind_lift_Inr [of "snd x"] b1 m_bind_lift_Inr [of b1] by (rule refl)
  have "returns (on_cache (it_next I it)) (?inner, files)
      (\<lambda>it' s. \<exists>c'. rep it' xs \<and> cache_sound (blocks_of tables) c' \<and>
        s = (inner\<lparr>in_block_cache := c', in_next_sst_id := n + length ssts\<rparr>, files))"
    by (rule returns_next [OF it(1)]) (use c in auto)
  then show ?thesis
    unfolding step
  proof (rule returns_bind, elim exE conjE, hypsubst)
    fix it' c' assume it': "rep it' xs" and c': "cache_sound (blocks_of tables) c'"
    have sc: "sorted_entries cur1" "sorted_entries (kept bottom xs)" using s1(1) by (simp_all add: sorted_wrt_append)
    show "returns (cut_table E ?tg b1 ssts it') (inner\<lparr>in_block_cache := c', in_next_sst_id := n + length ssts\<rparr>, files) Q"
    proof (rule returns_cut_table [OF env(1,2) cs(2) ob w sc(1)])
      fix builder' ssts' cur' rss' files'
      assume b': "builder_state ?X ?o builder' cur'" and w': "written E inner n files0 ssts' rss' files'"
        and eq: "concat (map concat rss') @ cur' = concat (map concat rss) @ cur1" and cur': "cur' = [] \<or> cur' = cur1"
      have "concat (map concat rss') @ cur' @ kept bottom xs = concat (map concat rss) @ cur @ kept bottom (x # xs)"
        unfolding append_assoc [symmetric] eq unfolding append_assoc s1(2) ..
      moreover have "sorted_entries (cur' @ kept bottom xs)" using cur' s1(1) sc(2) by auto
      ultimately show "Q (it', builder', ssts') (inner\<lparr>in_block_cache := c', in_next_sst_id := n + length ssts'\<rparr>, files')"
        by (rule Q [OF it' b' w' c'])
    qed
  qed
qed

lemma returns_compact_loop:
  assumes "rep it xs" and "\<forall>e \<in> set xs. wf_entry e" and "sorted_entries (cur @ kept bottom xs)"
    and env: "io_works (ev_io E)" "snappy_inverts (ev_ext E)" "opts_ok (ev_ext E) (in_options inner)"
    and "builder_state (ev_ext E) (in_options inner) builder cur"
    and "written E inner n files0 ssts rss files" and "cache_sound (blocks_of tables) c"
  shows "returns (m_bind (m_while (\<lambda>(it, _, _). m_return (it_valid I it)) (compact_step E I bottom) (it, builder, ssts))
      (compact_finish E)) (inner\<lparr>in_block_cache := c, in_next_sst_id := n + length ssts\<rparr>, files)
    (compacted E tables inner n files0 (concat (map concat rss) @ cur @ kept bottom xs))"
  using assms(1,2,3,7,8,9)
proof (induction xs arbitrary: it builder cur ssts rss files c)
  case Nil
  then show ?case
    using returns_compact_finish [OF env Nil(4) _ Nil(5,6), of it] valid_Nil
    by (intro returns_while_stop) auto
next
  case (Cons x xs)
  show ?case
  proof (rule returns_while_step)
    show "(\<lambda>(it, _, _). m_return (it_valid I it)) (it, builder, ssts)
        (inner\<lparr>in_block_cache := c, in_next_sst_id := n + length ssts\<rparr>, files) =
      Some (Inr True, inner\<lparr>in_block_cache := c, in_next_sst_id := n + length ssts\<rparr>, files)"
      using valid_Cons [OF Cons.prems(1)] by simp
    show "returns (compact_step E I bottom (it, builder, ssts))
        (inner\<lparr>in_block_cache := c, in_next_sst_id := n + length ssts\<rparr>, files)
        (\<lambda>x' s'. returns (m_bind (m_while (\<lambda>(it, _, _). m_return (it_valid I it)) (compact_step E I bottom) x') (compact_finish E)) s'
          (compacted E tables inner n files0 (concat (map concat rss) @ cur @ kept bottom (x # xs))))"
    proof (rule returns_compact_step [OF Cons.prems(1) _ Cons.prems(3) env Cons.prems(4,5,6)])
      fix it' builder' ssts' cur' rss' files' c'
      assume 1: "rep it' xs" "builder_state (ev_ext E) (in_options inner) builder' cur'" "written E inner n files0 ssts' rss' files'"
        "cache_sound (blocks_of tables) c'" "sorted_entries (cur' @ kept bottom xs)"
        and eq: "concat (map concat rss') @ cur' @ kept bottom xs = concat (map concat rss) @ cur @ kept bottom (x # xs)"
      have "\<forall>e \<in> set xs. wf_entry e" using Cons.prems(2) by simp
      from Cons.IH [OF 1(1) this 1(5) 1(2-4)]
      show "returns (m_bind (m_while (\<lambda>(it, _, _). m_return (it_valid I it)) (compact_step E I bottom) (it', builder', ssts'))
          (compact_finish E)) (inner\<lparr>in_block_cache := c', in_next_sst_id := n + length ssts'\<rparr>, files')
        (compacted E tables inner n files0 (concat (map concat rss) @ cur @ kept bottom (x # xs)))"
        unfolding eq .
    qed (use Cons.prems(2) in simp)
  qed
qed

lemma returns_compact_generate:
  assumes "rep it xs" and "\<forall>e \<in> set xs. wf_entry e"
    and env: "io_works (ev_io E)" "snappy_inverts (ev_ext E)" "opts_ok (ev_ext E) (in_options inner)"
    and c: "cache_sound (blocks_of tables) (in_block_cache inner)"
  shows "returns (compact_generate_sst_from_iter E I it bottom) (inner, files)
    (compacted E tables inner (in_next_sst_id inner) files (kept bottom xs))"
proof -
  have "sorted_entries (kept bottom xs)"
    using rep_sorted [OF assms(1)] by (simp add: kept_def sorted_entries_filter del: sorted_wrt_filter)
  then show ?thesis
    using returns_compact_loop [OF assms(1,2) _ env _ written_Nil c, where cur = "[]" and builder = None and bottom = bottom
        and files0 = files and n = "in_next_sst_id inner"]
    by (simp add: compact_generate_sst_from_iter_def builder_state_def)
qed

end

section \<open>The iterators of the tasks\<close>

interpretation full_merge: two_merge "MergeIterator_ops (SsTableIterator_ops X)" "SstConcatIterator_ops X"
  "cache_sound (blocks_of tables)" "mi_abs (sti_abs X tables)" "sc_abs X tables" for X tables
  by unfold_locales

interpretation pair_merge: two_merge "SstConcatIterator_ops X" "SstConcatIterator_ops X"
  "cache_sound (blocks_of tables)" "sc_abs X tables" "sc_abs X tables" for X tables
  by unfold_locales

interpretation full_writer: cache_iterator "full_ops X" tables "tm_abs (mi_abs (sti_abs X tables)) (sc_abs X tables)" for X tables
  by unfold_locales

interpretation level_writer: cache_iterator "level_ops X" tables "tm_abs (sc_abs X tables) (sc_abs X tables)" for X tables
  by unfold_locales

interpretation tier_writer: cache_iterator "MergeIterator_ops (SstConcatIterator_ops X)" tables "mi_abs (sc_abs X tables)" for X tables
  by unfold_locales

lemma find_ssts_hold: "ids_hold X tables st ids ess \<Longrightarrow> list_all2 (sst_entries X tables) (find_ssts st ids) ess"
  unfolding ids_hold_def by (induction ids ess rule: list_all2_induct) auto

lemma find_ssts_level:
  "ids_hold X tables st ids ess \<Longrightarrow> sorted_entries (concat ess) \<Longrightarrow> level_holds X tables (find_ssts st ids) ess"
  using find_ssts_hold by (simp add: level_holds_def)

lemma l0_merge_first:
  assumes "list_all2 (sst_entries X tables) ts ess"
  shows "ok (cache_sound (blocks_of tables)) (l0_merge X (\<lambda>t. SsTableIterator_create_and_seek_to_first X (Some t)) ts)
    (\<lambda>mi. mi_abs (sti_abs X tables) mi (merge_runs ess))"
proof -
  have "list_all2 (\<lambda>t xs. ok (cache_sound (blocks_of tables)) (SsTableIterator_create_and_seek_to_first X (Some t))
      (\<lambda>it. sti_abs X tables it xs)) ts ess"
    using assms by (rule list_all2_mono) (rule sst_entries_first_ok)
  from ok_map [OF this] show ?thesis
    unfolding l0_merge_def by (rule ok_bind) (use sst_merge.create_ok in \<open>blast intro: ok_lift\<close>)
qed

lemma sorted_list_all2: "list_all2 (sst_entries X tables) ts ess \<Longrightarrow> es \<in> set ess \<Longrightarrow> sorted_entries es"
  by (auto simp: list_all2_conv_all_nth in_set_conv_nth dest!: sst_entries_keys(4))

lemma merge2_last:
  assumes "\<And>xs. xs \<in> set xss \<Longrightarrow> sorted_entries xs" and "sorted_entries ys"
  shows "merge2 (merge_runs xss) ys = merge_runs (xss @ [ys])"
  using merge2_merge_runs [of xss "[ys]"] assms by auto

lemma compact_full_iter_ok:
  assumes "ids_hold X tables st upper ess" and "ids_hold X tables st lower ess'" "sorted_entries (concat ess')"
  shows "ok (cache_sound (blocks_of tables)) (compact_full_iter X st upper lower)
      (\<lambda>it. tm_abs (mi_abs (sti_abs X tables)) (sc_abs X tables) it (merge_runs (ess @ [concat ess'])))"
    and "ok (cache_sound (blocks_of tables)) (compact_l0_iter X st upper lower)
      (\<lambda>it. tm_abs (mi_abs (sti_abs X tables)) (sc_abs X tables) it (merge_runs (ess @ [concat ess'])))"
proof -
  note u = find_ssts_hold [OF assms(1)]
  have m: "merge_runs (ess @ [concat ess']) = merge2 (merge_runs ess) (concat ess')"
    using sorted_list_all2 [OF u] assms(3) by (intro merge2_last [symmetric])
  show "ok (cache_sound (blocks_of tables)) (compact_full_iter X st upper lower)
      (\<lambda>it. tm_abs (mi_abs (sti_abs X tables)) (sc_abs X tables) it (merge_runs (ess @ [concat ess'])))"
    unfolding compact_full_iter_def m
    by (rule ok_bind [OF l0_merge_first [OF u]],
        rule ok_bind [OF SstConcatIterator_create_and_seek_to_first_ok [OF find_ssts_level [OF assms(2,3)]]])
      (rule full_merge.create_ok)
  show "ok (cache_sound (blocks_of tables)) (compact_l0_iter X st upper lower)
      (\<lambda>it. tm_abs (mi_abs (sti_abs X tables)) (sc_abs X tables) it (merge_runs (ess @ [concat ess'])))"
    unfolding compact_l0_iter_def m
    by (rule ok_bind [OF SstConcatIterator_create_and_seek_to_first_ok [OF find_ssts_level [OF assms(2,3)]]],
        rule ok_bind [OF l0_merge_first [OF u]])
      (rule full_merge.create_ok)
qed

lemma compact_level_iter_ok:
  assumes "ids_hold X tables st upper ess" "sorted_entries (concat ess)" and "ids_hold X tables st lower ess'" "sorted_entries (concat ess')"
  shows "ok (cache_sound (blocks_of tables)) (compact_level_iter X st upper lower)
      (\<lambda>it. tm_abs (sc_abs X tables) (sc_abs X tables) it (merge_runs [concat ess, concat ess']))"
  unfolding compact_level_iter_def merge_runs_simps merge2_Nil2
  by (rule ok_bind [OF SstConcatIterator_create_and_seek_to_first_ok [OF find_ssts_level [OF assms(3,4)]]],
      rule ok_bind [OF SstConcatIterator_create_and_seek_to_first_ok [OF find_ssts_level [OF assms(1,2)]]])
    (rule pair_merge.create_ok)

lemma compact_tier_iter_ok:
  assumes "list_all2 (\<lambda>(_, ids) ess. ids_hold X tables st ids ess \<and> sorted_entries (concat ess)) tiers esss"
  shows "ok (cache_sound (blocks_of tables)) (level_merge X (SstConcatIterator_create_and_seek_to_first X)
      (map (\<lambda>(_, ids). find_ssts st ids) tiers)) (\<lambda>it. mi_abs (sc_abs X tables) it (merge_runs (map concat esss)))"
proof -
  have "list_all2 (\<lambda>ts xs. ok (cache_sound (blocks_of tables)) (SstConcatIterator_create_and_seek_to_first X ts)
      (\<lambda>it. sc_abs X tables it xs)) (map (\<lambda>(_, ids). find_ssts st ids) tiers) (map concat esss)"
    using assms by (auto simp: list_all2_conv_all_nth case_prod_beta
        intro!: SstConcatIterator_create_and_seek_to_first_ok find_ssts_level)
  from ok_map [OF this] show ?thesis
    unfolding level_merge_def by (rule ok_bind) (use concat_merge.create_ok in \<open>blast intro: ok_lift\<close>)
qed

lemma set_merge2: "set (merge2 xs ys) \<subseteq> set xs \<union> set ys"
  by (induction xs ys rule: merge2.induct) auto

lemma set_merge_runs: "set (merge_runs xss) \<subseteq> \<Union> (set ` set xss)"
  by (induction xss) (use set_merge2 in fastforce)+

lemma sst_entries_wf: "sst_entries X tables t es \<Longrightarrow> e \<in> set es \<Longrightarrow> wf_entry e"
  by (auto simp: sst_entries_def sst_holds_def wf_runs_def wf_block_def)

lemma ids_hold_wf: "ids_hold X tables st ids ess \<Longrightarrow> es \<in> set ess \<Longrightarrow> e \<in> set es \<Longrightarrow> wf_entry e"
  unfolding ids_hold_def by (induction ids ess rule: list_all2_induct) (auto dest: sst_entries_wf)

text \<open>The runs that a task reads, newest first.\<close>

definition leveled_input ::
  "ext \<Rightarrow> (nat \<Rightarrow> entry list list option) \<Rightarrow> LsmStorageState \<Rightarrow> nat option \<Rightarrow> nat list \<Rightarrow> nat list \<Rightarrow> entry list list \<Rightarrow> bool" where
  "leveled_input X tables st upper_level upper lower xss \<longleftrightarrow> (\<exists>ess ess'.
     ids_hold X tables st upper ess \<and> ids_hold X tables st lower ess' \<and> sorted_entries (concat ess') \<and>
     (case upper_level of None \<Rightarrow> xss = ess @ [concat ess']
      | Some _ \<Rightarrow> sorted_entries (concat ess) \<and> xss = [concat ess, concat ess']))"

definition task_input :: "ext \<Rightarrow> (nat \<Rightarrow> entry list list option) \<Rightarrow> LsmStorageState \<Rightarrow> CompactionTask \<Rightarrow> entry list list \<Rightarrow> bool" where
  "task_input X tables st task xss \<longleftrightarrow> (case task of
     TaskForceFull t \<Rightarrow> leveled_input X tables st None (ff_l0_sstables t) (ff_l1_sstables t) xss
   | TaskSimple t \<Rightarrow> leveled_input X tables st (sl_upper_level t) (sl_upper_level_sst_ids t) (sl_lower_level_sst_ids t) xss
   | TaskLeveled t \<Rightarrow> leveled_input X tables st (lt_upper_level t) (lt_upper_level_sst_ids t) (lt_lower_level_sst_ids t) xss
   | TaskTiered t \<Rightarrow> (\<exists>esss. list_all2 (\<lambda>(_, ids) ess. ids_hold X tables st ids ess \<and> sorted_entries (concat ess))
       (tt_tiers t) esss \<and> xss = map concat esss))"

lemma leveled_input_wf: "leveled_input X tables st ul upper lower xss \<Longrightarrow> xs \<in> set xss \<Longrightarrow> e \<in> set xs \<Longrightarrow> wf_entry e"
  unfolding leveled_input_def by (auto split: option.splits) (blast intro: ids_hold_wf)+

lemma task_input_wf:
  assumes "task_input X tables st task xss"
  shows "\<forall>e \<in> set (merge_runs xss). wf_entry e"
proof -
  have "wf_entry e" if mem: "xs \<in> set xss" "e \<in> set xs" for xs e
  proof (cases task)
    case (TaskTiered t)
    then obtain esss where h: "list_all2 (\<lambda>(_, ids) ess. ids_hold X tables st ids ess \<and> sorted_entries (concat ess))
        (tt_tiers t) esss" "xss = map concat esss" using assms by (auto simp: task_input_def)
    then obtain ess es where ess: "ess \<in> set esss" "es \<in> set ess" "e \<in> set es" using mem h(2) by auto
    then obtain ids where "ids_hold X tables st ids ess" using h(1)
      by (auto simp: list_all2_conv_all_nth in_set_conv_nth case_prod_beta)
    then show ?thesis using ess(2,3) by (rule ids_hold_wf)
  qed (use assms mem leveled_input_wf in \<open>auto simp: task_input_def\<close>)
  then show ?thesis using set_merge_runs by fastforce
qed

lemma returns_on_cache_bind:
  assumes "ok (cache_sound (blocks_of tables)) p P" and "cache_sound (blocks_of tables) (in_block_cache inner)"
    and "\<And>x c. P x \<Longrightarrow> cache_sound (blocks_of tables) c \<Longrightarrow> returns (f x) (inner\<lparr>in_block_cache := c\<rparr>, files) Q"
  shows "returns (m_bind (on_cache p) f) (inner, files) Q"
proof -
  from assms(1,2) obtain x c where "p (in_block_cache inner) = Some (Inr x, c)" "cache_sound (blocks_of tables) c" "P x"
    by (rule okD)
  with assms(3) show ?thesis by (auto simp: returns_def m_bind_def on_cache_def)
qed

lemma compacted_cache: "compacted E tables (inner\<lparr>in_block_cache := c\<rparr>) = compacted E tables inner"
proof -
  have "path_of_sst_val (inner\<lparr>in_block_cache := c\<rparr>) = path_of_sst_val inner" by (simp add: path_of_sst_val_def fun_eq_iff)
  then have "written E (inner\<lparr>in_block_cache := c\<rparr>) = written E inner" by (simp add: written_def on_disk_def fun_eq_iff)
  then show ?thesis by (simp add: compacted_def fun_eq_iff)
qed

text \<open>\<open>compact\<close> writes the merge of the runs of the task.\<close>

lemma returns_compact:
  assumes input: "task_input (ev_ext E) tables (in_state inner) task xss"
    and env: "io_works (ev_io E)" "snappy_inverts (ev_ext E)" "opts_ok (ev_ext E) (in_options inner)"
    and c: "cache_sound (blocks_of tables) (in_block_cache inner)"
  shows "returns (LsmStorageInner_compact E task) (inner, files) (compacted E tables inner (in_next_sst_id inner) files
    (kept (CompactionTask_compact_to_bottom_level task) (merge_runs xss)))"
proof -
  note wf = task_input_wf [OF input]
  let ?X = "ev_ext E" and ?st = "in_state inner"
  let ?Q = "\<lambda>bottom. compacted E tables inner (in_next_sst_id inner) files (kept bottom (merge_runs xss))"
  have w: "returns (compact_generate_sst_from_iter E I it bottom) (inner\<lparr>in_block_cache := c\<rparr>, files) (?Q bottom)"
    if "cache_iterator I tables rep" "rep it (merge_runs xss)" "cache_sound (blocks_of tables) c" for I rep it bottom c
    using cache_iterator.returns_compact_generate [OF that(1,2) wf env(1,2),
        where inner = "inner\<lparr>in_block_cache := c\<rparr>" and files = files and bottom = bottom] env(3) that(3)
    by (simp add: compacted_cache)
  have lev: "returns (compact_leveled E ?st ul upper lower bottom) (inner, files) (?Q bottom)"
    if li: "leveled_input ?X tables ?st ul upper lower xss" for ul upper lower bottom
  proof (cases ul)
    case None
    then obtain ess ess' where h: "ids_hold ?X tables ?st upper ess" "ids_hold ?X tables ?st lower ess'" "sorted_entries (concat ess')"
      "xss = ess @ [concat ess']" using li by (auto simp: leveled_input_def)
    show ?thesis unfolding compact_leveled_def None option.case Let_def
      by (rule returns_on_cache_bind [OF compact_full_iter_ok(2) [OF h(1-3)] c])
        (rule w [OF full_writer.cache_iterator_axioms], simp add: h(4))
  next
    case (Some l)
    then obtain ess ess' where h: "ids_hold ?X tables ?st upper ess" "sorted_entries (concat ess)"
      "ids_hold ?X tables ?st lower ess'" "sorted_entries (concat ess')" "xss = [concat ess, concat ess']"
      using li by (auto simp: leveled_input_def)
    show ?thesis unfolding compact_leveled_def Some option.case Let_def
      by (rule returns_on_cache_bind [OF compact_level_iter_ok [OF h(1-4)] c])
        (rule w [OF level_writer.cache_iterator_axioms], simp add: h(5))
  qed
  show ?thesis
  proof (cases task)
    case (TaskForceFull t)
    then obtain ess ess' where h: "ids_hold ?X tables ?st (ff_l0_sstables t) ess" "ids_hold ?X tables ?st (ff_l1_sstables t) ess'"
      "sorted_entries (concat ess')" "xss = ess @ [concat ess']" using input by (auto simp: task_input_def leveled_input_def)
    show ?thesis
      unfolding LsmStorageInner_compact_def returns_apply(1) Let_def TaskForceFull CompactionTask.case
      by (rule returns_on_cache_bind [OF compact_full_iter_ok(1) [OF h(1-3)] c])
        (rule w [OF full_writer.cache_iterator_axioms], simp add: h(4))
  next
    case (TaskTiered t)
    then obtain esss where h: "list_all2 (\<lambda>(_, ids) ess. ids_hold ?X tables ?st ids ess \<and> sorted_entries (concat ess)) (tt_tiers t) esss"
      "xss = map concat esss" using input by (auto simp: task_input_def)
    show ?thesis
      unfolding LsmStorageInner_compact_def returns_apply(1) Let_def TaskTiered CompactionTask.case
      by (rule returns_on_cache_bind [OF compact_tier_iter_ok [OF h(1)] c])
        (rule w [OF tier_writer.cache_iterator_axioms], simp add: h(2))
  qed (use input lev in \<open>simp_all add: task_input_def LsmStorageInner_compact_def Let_def\<close>)
qed

section \<open>Properties\<close>

text \<open>C15: a compaction writes the merge of its input. For a task of any kind whose tables hold the runs \<open>xss\<close>, newest first,
  \<open>compact\<close> returns tables that together hold, in key order and once per key, the newest value of every
  key of the runs; tombstones are left out exactly if the task goes to the bottom level. Every table is
  in its file and can be opened from it.\<close>

theorem compact_merges_runs:
  assumes "task_input (ev_ext E) tables (in_state inner) task xss"
    and "io_works (ev_io E)" "snappy_inverts (ev_ext E)" "opts_ok (ev_ext E) (in_options inner)"
    and "cache_sound (blocks_of tables) (in_block_cache inner)"
  shows "\<exists>ssts rss s'. LsmStorageInner_compact E task (inner, files) = Some (Inr ssts, s') \<and>
    list_all2 (\<lambda>t runs. sst_holds (ev_ext E) [st_id t \<mapsto> runs] t runs) ssts rss \<and>
    concat (map concat rss) = (if CompactionTask_compact_to_bottom_level task
      then filter (\<lambda>e. snd e \<noteq> []) (merge_runs xss) else merge_runs xss) \<and>
    (\<forall>t \<in> set ssts. on_disk E inner (snd s') t)"
  using returns_compact [OF assms, of files] by (fastforce simp: returns_def compacted_def written_def kept_def)

theorem compact_merges_runs_witness:
  "\<exists>ssts rss s'. LsmStorageInner_compact \<lparr>ev_ext = example_ext, ev_io = example_io, ev_json = example_json\<rparr>
      (TaskForceFull \<lparr>ff_l0_sstables = [], ff_l1_sstables = [7]\<rparr>)
      ((LsmStorageInner_new default_for_week1_test ''db'')\<lparr>in_state := example_state, in_next_sst_id := 10\<rparr>, Map.empty) =
      Some (Inr ssts, s') \<and>
    list_all2 (\<lambda>t runs. sst_holds example_ext [st_id t \<mapsto> runs] t runs) ssts rss \<and>
    concat (map concat rss) = [([1], [7]), ([2], [8, 8])]"
proof -
  let ?E = "\<lparr>ev_ext = example_ext, ev_io = example_io, ev_json = example_json\<rparr>"
  let ?inner = "(LsmStorageInner_new default_for_week1_test ''db'')\<lparr>in_state := example_state, in_next_sst_id := 10\<rparr>"
  let ?task = "TaskForceFull \<lparr>ff_l0_sstables = [], ff_l1_sstables = [7]\<rparr>"
  have "ids_hold example_ext [7 \<mapsto> example_runs] example_state [7] [concat example_runs]" "sorted_entries (concat example_runs)"
    using example_st_holds by (auto simp: st_holds_def example_state_def example_contents_def)
  then have "task_input (ev_ext ?E) [7 \<mapsto> example_runs] (in_state ?inner) ?task [concat example_runs]"
    by (auto simp: task_input_def leveled_input_def ids_hold_def intro!: exI [of _ "[concat example_runs]"])
  moreover have "opts_ok (ev_ext ?E) (in_options ?inner)"
    by (rule opts_ok_uncompressed) (simp_all add: LsmStorageInner_new_def default_for_week1_test_def)
  ultimately show ?thesis
    using compact_merges_runs [of ?E "[7 \<mapsto> example_runs]" ?inner ?task "[concat example_runs]" Map.empty]
    by (auto simp: example_io_works example_snappy_inverts cache_sound_new LsmStorageInner_new_def CompactionTask_compact_to_bottom_level_def
        example_runs_def)
qed

end
