(* ===== verification/Strategies.thy ===== *)
theory Strategies
  imports Engine_Inv
begin

text \<open>
  Properties of the compaction strategies by themselves: which tables the leveled strategy takes to
  overlap, that a task can be applied to the state it was made for, and the wrong bottom flag of the
  tiered strategy.
\<close>

section \<open>Taking tables out of a level\<close>

lemma take_out_filter: "distinct xs \<Longrightarrow> take_out S xs = (filter (\<lambda>x. x \<notin> S) xs, S - set xs)"
  by (induction xs arbitrary: S) (auto simp: filter_id_conv intro: filter_cong)

lemma take_out_middle: "distinct (P @ M @ S) \<Longrightarrow> take_out (set M) (P @ M @ S) = (P @ S, {})"
proof -
  assume d: "distinct (P @ M @ S)"
  then have "filter (\<lambda>x. x \<notin> set M) (P @ M @ S) = P @ S" by (auto simp: filter_empty_conv disjoint_iff intro!: filter_True)
  then show ?thesis using take_out_filter [OF d, of "set M"] by auto
qed

lemmas take_out_suffix = take_out_middle [where S = "[]", simplified]

section \<open>Tasks of the simple leveled strategy\<close>

text \<open>The tasks of this strategy.\<close>

lemma Simple_ratio_task_shape:
  assumes "Simple_ratio_task opts st is = Some task" and "\<forall>i \<in> set is. 1 \<le> i"
  shows "\<exists>i \<in> set is. i < length (ls_levels st) \<and> sl_upper_level task = Some i \<and>
    sl_upper_level_sst_ids task = snd (ls_levels st ! (i - 1)) \<and> sl_lower_level task = i + 1 \<and>
    sl_lower_level_sst_ids task = snd (ls_levels st ! i) \<and> sl_is_lower_level_bottom_level task = (i + 1 = so_max_levels opts)"
  using assms
proof (induction "is")
  case (Cons i "is")
  then show ?case by (auto simp: Let_def level_sizes_def split: if_splits)
qed simp

text \<open>What \<open>apply_compaction_result\<close> of this strategy does to a state for which the task was made; level 0 may have new tables by then.\<close>

lemma Simple_apply_l0:
  assumes "sl_upper_level task = None" "sl_upper_level_sst_ids task = old" "ls_l0_sstables st = new @ old" "distinct (new @ old)"
    and "ls_levels st = (l, lower) # B" "sl_lower_level task = 1" "sl_lower_level_sst_ids task = lower"
  shows "Simple_apply_compaction_result st task output =
    Inr (st\<lparr>ls_l0_sstables := new, ls_levels := (l, output) # B\<rparr>, old @ lower)"
  using assms by (simp add: Simple_apply_compaction_result_def take_out_suffix level_files_def set_level_files_def)

lemma Simple_apply_level:
  assumes "sl_upper_level task = Some (Suc (length A))" "sl_upper_level_sst_ids task = upper"
    and "ls_levels st = A @ (u, upper) # (l, lower) # B" "sl_lower_level task = Suc (Suc (length A))" "sl_lower_level_sst_ids task = lower"
  shows "Simple_apply_compaction_result st task output =
    Inr (st\<lparr>ls_levels := A @ (u, []) # (l, output) # B\<rparr>, upper @ lower)"
  using assms by (simp add: Simple_apply_compaction_result_def level_files_def set_level_files_def nth_append list_update_append)

text \<open>Two neighbouring levels, counted from 1, and their contents.\<close>

lemma split_levels:
  assumes "list_all2 R levels esss" and "1 \<le> i" and "i < length levels"
  obtains A u upper l lower B CA up low CB where "levels = A @ (u, upper) # (l, lower) # B" and "esss = CA @ up # low # CB"
    and "length A = i - 1" and "length CA = length A" and "upper = snd (levels ! (i - 1))" and "lower = snd (levels ! i)"
proof -
  have len: "length levels = length esss" using assms(1) by (rule list_all2_lengthD)
  define j where "j = i - 1"
  have ij: "i = Suc j" "Suc j < length levels" using assms(2,3) by (simp_all add: j_def)
  have "levels = take j levels @ levels ! j # levels ! Suc j # drop (Suc (Suc j)) levels"
    using ij(2) by (simp add: Cons_nth_drop_Suc)
  moreover have "esss = take j esss @ esss ! j # esss ! Suc j # drop (Suc (Suc j)) esss"
    using ij(2) len by (simp add: Cons_nth_drop_Suc)
  ultimately show ?thesis
    by (intro that [of "take j levels" "fst (levels ! j)" "snd (levels ! j)" "fst (levels ! Suc j)" "snd (levels ! Suc j)"
        "drop (Suc (Suc j)) levels" "take j esss" "esss ! j" "esss ! Suc j" "drop (Suc (Suc j)) esss"])
      (use ij len in simp_all)
qed

lemma Simple_task_applies:
  assumes gen: "Simple_generate_compaction_task opts st = Some task" and len: "length (ls_levels st) = so_max_levels opts"
    and d: "distinct (all_ids st)" and same: "ls_l0_sstables st' = ls_l0_sstables st" "ls_levels st' = ls_levels st"
  shows "\<exists>r. Simple_apply_compaction_result st' task out = Inr r"
proof (cases "so_level0_file_num_compaction_trigger opts \<le> length (ls_l0_sstables st)")
  case True
  have pos: "so_max_levels opts \<noteq> 0" using gen by (auto simp: Simple_generate_compaction_task_def split: if_splits)
  then obtain l lower B where lev: "ls_levels st = (l, lower) # B" using len by (cases "ls_levels st") auto
  have "distinct (ls_l0_sstables st')" using d same by (simp add: all_ids_def)
  then show ?thesis using Simple_apply_l0 [of task "ls_l0_sstables st'" st' "[]" l lower B out] gen True pos lev same
    by (auto simp: Simple_generate_compaction_task_def)
next
  case False
  then have "Simple_ratio_task opts st [1..<so_max_levels opts] = Some task"
    using gen by (simp add: Simple_generate_compaction_task_def split: if_splits)
  from Simple_ratio_task_shape [OF this] obtain i where i: "1 \<le> i" "i < length (ls_levels st)"
    "sl_upper_level task = Some i" "sl_upper_level_sst_ids task = snd (ls_levels st ! (i - 1))"
    "sl_lower_level task = i + 1" "sl_lower_level_sst_ids task = snd (ls_levels st ! i)" by auto
  then show ?thesis by (simp add: Simple_apply_compaction_result_def level_files_def set_level_files_def same)
qed

section \<open>Overlapping tables\<close>

text \<open>The range computed over tables is their hull.\<close>

abbreviation known_ssts :: "LsmStorageState \<Rightarrow> nat list \<Rightarrow> SsTable list" where
  "known_ssts st ids \<equiv> List.map_filter (ls_sstables st) ids"

lemma Leveled_key_range_fold:
  "Leveled_key_range st ids (Some (b, e)) =
     Some (fold min (map st_first_key (known_ssts st ids)) b, fold max (map st_last_key (known_ssts st ids)) e)"
  by (induction ids arbitrary: b e) (auto simp: map_filter_simps min_def max_def not_less split: option.split)

lemma Leveled_key_range_hull:
  "Leveled_key_range st ids None = (if known_ssts st ids = [] then None
     else Some (Min (st_first_key ` set (known_ssts st ids)), Max (st_last_key ` set (known_ssts st ids))))"
proof (induction ids)
  case (Cons i ids)
  show ?case
  proof (cases "ls_sstables st i")
    case (Some t)
    then show ?thesis
      using Min.set_eq_fold [of "st_first_key t" "map st_first_key (known_ssts st ids)"]
        Max.set_eq_fold [of "st_last_key t" "map st_last_key (known_ssts st ids)"]
      by (simp add: Leveled_key_range_fold map_filter_simps)
  qed (use Cons in \<open>simp add: map_filter_simps\<close>)
qed (simp add: map_filter_simps)

text \<open>C19: the tables of a level that a leveled compaction takes along are exactly those whose key range meets the
  range from the smallest to the largest key of the chosen tables.\<close>

theorem find_overlapping_exact:
  assumes "1 \<le> l" and "l \<le> length (ls_levels st)"
  shows "i \<in> set (Leveled_find_overlapping_ssts st ids l) \<longleftrightarrow> i \<in> set (snd (ls_levels st ! (l - 1))) \<and>
    (\<exists>t u v. ls_sstables st i = Some t \<and> u \<in> set (known_ssts st ids) \<and> v \<in> set (known_ssts st ids) \<and>
       st_first_key u \<le> st_last_key t \<and> st_first_key t \<le> st_last_key v)"
proof (cases "known_ssts st ids = []")
  case True
  then show ?thesis by (simp add: Leveled_find_overlapping_ssts_def Leveled_key_range_hull)
next
  case False
  then have ne: "st_first_key ` set (known_ssts st ids) \<noteq> {}" "st_last_key ` set (known_ssts st ids) \<noteq> {}" by simp_all
  have "\<not> x < Min (st_first_key ` set (known_ssts st ids)) \<longleftrightarrow> (\<exists>u \<in> set (known_ssts st ids). st_first_key u \<le> x)" for x
    using ne(1) by (auto simp: not_less Min_le_iff)
  moreover have "\<not> Max (st_last_key ` set (known_ssts st ids)) < x \<longleftrightarrow> (\<exists>v \<in> set (known_ssts st ids). x \<le> st_last_key v)" for x
    using ne(2) by (auto simp: not_less Max_ge_iff)
  ultimately show ?thesis using False assms
    by (auto simp: Leveled_find_overlapping_ssts_def Leveled_key_range_hull split: option.splits)
qed

section \<open>Tasks of the leveled strategy\<close>

lemma Leveled_target_loop_bounds:
  assumes "Leveled_target_loop mlt base i target bl = (target', bl')" and "i < length target"
  shows "length target' = length target" and "target' ! j = target ! j \<or> j < i" and "bl' = bl \<or> (1 \<le> bl' \<and> bl' \<le> i)"
  using assms by (induction i arbitrary: target bl) (auto simp: Let_def split: if_splits, fastforce+)

lemma Leveled_targets_bounds:
  assumes "Leveled_targets opts sizes = Inr (target, base_level)" and "0 < lo_max_levels opts"
  shows "length target = lo_max_levels opts" and "1 \<le> base_level" and "base_level \<le> lo_max_levels opts"
    and "sizes ! (lo_max_levels opts - 1) \<le> target ! (lo_max_levels opts - 1)"
proof -
  let ?n = "lo_max_levels opts" and ?base = "(lo_base_level_size_mb opts * 1024 * 1024) mod 2 ^ 64"
  have loop: "Leveled_target_loop (lo_level_size_multiplier opts) ?base (?n - 1)
      ((replicate ?n 0)[?n - 1 := max (sizes ! (?n - 1)) ?base]) ?n = (target, base_level)"
    using assms by (simp add: Leveled_targets_def Let_def split: if_splits)
  note b = Leveled_target_loop_bounds [OF loop]
  show "length target = ?n" using b(1) assms(2) by simp
  show "1 \<le> base_level" "base_level \<le> ?n" using b(3) assms(2) by auto
  show "sizes ! (?n - 1) \<le> target ! (?n - 1)" using b(2) [of "?n - 1"] assms(2) by simp
qed

lemma set_insert_by [simp]: "set (insert_by lt x xs) = insert x (set xs)"
  by (induction xs) auto

lemma set_sort_by [simp]: "set (sort_by lt xs) = set xs"
  unfolding sort_by_def by (induction xs) auto

lemma min_list_in: "xs \<noteq> [] \<Longrightarrow> min_list xs \<in> set (xs :: nat list)"
  by (simp add: min_list_Min)

text \<open>The lowest level never exceeds its target size, so that it is never the upper level of a task.\<close>

lemma Leveled_task_shape:
  assumes gen: "Leveled_generate_compaction_task opts st = Inr (Some task)" and pos: "0 < lo_max_levels opts"
  shows "(lt_upper_level task = None \<and> lt_upper_level_sst_ids task = ls_l0_sstables st \<and>
      1 \<le> lt_lower_level task \<and> lt_lower_level task \<le> lo_max_levels opts) \<or>
    (\<exists>l. lt_upper_level task = Some l \<and> 1 \<le> l \<and> l < lo_max_levels opts \<and> l \<le> length (ls_levels st) \<and>
      lt_lower_level task = l + 1 \<and> snd (ls_levels st ! (l - 1)) \<noteq> [] \<and>
      lt_upper_level_sst_ids task = [min_list (snd (ls_levels st ! (l - 1)))])"
    and "lt_lower_level_sst_ids task = Leveled_find_overlapping_ssts st (lt_upper_level_sst_ids task) (lt_lower_level task)"
    and "lt_is_lower_level_bottom_level task = (lt_lower_level task = lo_max_levels opts)"
proof -
  let ?sizes = "Leveled_real_level_size st (lo_max_levels opts)"
  from gen obtain target bl where tg: "Leveled_targets opts ?sizes = Inr (target, bl)"
    by (auto simp: Leveled_generate_compaction_task_def Let_def res_bind_def split: sum.splits)
  note b = Leveled_targets_bounds [OF tg pos]
  have low: "l < lo_max_levels opts" if "(r, l) \<in> set (Leveled_priorities ?sizes target)" for r l
  proof -
    from that obtain j where j: "l = j + 1" "j < length target" "0 < target ! j" "1 < real (?sizes ! j) / real (target ! j)"
      by (auto simp: Leveled_priorities_def)
    then have "target ! j < ?sizes ! j" by (simp add: less_divide_eq)
    then show ?thesis using b(1,4) j by (cases "j = lo_max_levels opts - 1") auto
  qed
  have "l < lo_max_levels opts" if "sort_by lt (Leveled_priorities ?sizes target) = (r, l) # ps" for lt r l ps
    by (rule low [of r]) (use arg_cong [OF that, of set] in auto)
  then show "(lt_upper_level task = None \<and> lt_upper_level_sst_ids task = ls_l0_sstables st \<and>
      1 \<le> lt_lower_level task \<and> lt_lower_level task \<le> lo_max_levels opts) \<or>
    (\<exists>l. lt_upper_level task = Some l \<and> 1 \<le> l \<and> l < lo_max_levels opts \<and> l \<le> length (ls_levels st) \<and>
      lt_lower_level task = l + 1 \<and> snd (ls_levels st ! (l - 1)) \<noteq> [] \<and>
      lt_upper_level_sst_ids task = [min_list (snd (ls_levels st ! (l - 1)))])"
    using gen tg b(2,3) by (auto simp: Leveled_generate_compaction_task_def Let_def Suc_le_eq split: if_splits list.splits)
  show "lt_lower_level_sst_ids task = Leveled_find_overlapping_ssts st (lt_upper_level_sst_ids task) (lt_lower_level task)"
    "lt_is_lower_level_bottom_level task = (lt_lower_level task = lo_max_levels opts)"
    using gen tg by (auto simp: Leveled_generate_compaction_task_def Let_def split: if_splits list.splits)
qed

lemma find_overlapping_subset:
  "1 \<le> l \<Longrightarrow> l \<le> length (ls_levels st) \<Longrightarrow> set (Leveled_find_overlapping_ssts st ids l) \<subseteq> set (snd (ls_levels st ! (l - 1)))"
  by (auto simp: Leveled_find_overlapping_ssts_def split: option.splits if_splits)

lemma distinct_level: "distinct (all_ids st) \<Longrightarrow> lev \<in> set (ls_levels st) \<Longrightarrow> distinct (snd lev)"
  by (auto simp: all_ids_def distinct_concat_iff)

lemma Leveled_task_applies:
  assumes gen: "Leveled_generate_compaction_task opts st = Inr (Some task)" and pos: "0 < lo_max_levels opts"
    and len: "length (ls_levels st) = lo_max_levels opts" and d: "distinct (all_ids st)"
    and same: "ls_l0_sstables st' = ls_l0_sstables st" "ls_levels st' = ls_levels st"
  shows "\<exists>r. Leveled_apply_compaction_result st' task out rec = Inr r"
proof -
  note shape = Leveled_task_shape [OF gen pos]
  let ?lower = "lt_lower_level task"
  have low: "1 \<le> ?lower" "?lower \<le> length (ls_levels st)" using shape(1) len by auto
  have dl: "distinct (snd (ls_levels st ! j))" if "j < length (ls_levels st)" for j using distinct_level [OF d] that by simp
  have take: "take_out (set (lt_lower_level_sst_ids task)) (snd (ls_levels st ! (?lower - 1))) =
      (filter (\<lambda>x. x \<notin> set (lt_lower_level_sst_ids task)) (snd (ls_levels st ! (?lower - 1))), {})"
    using find_overlapping_subset [OF low] dl [of "?lower - 1"] low shape(2) by (simp add: take_out_filter)
  show ?thesis
  proof (cases "lt_upper_level task")
    case None
    have "distinct (ls_l0_sstables st)" using d by (simp add: all_ids_def)
    then show ?thesis using None shape(1) low take same
      by (auto simp: Leveled_apply_compaction_result_def take_out_filter level_files_def Let_def)
  next
    case (Some l)
    then have l: "1 \<le> l" "l < length (ls_levels st)" "?lower = l + 1" "snd (ls_levels st ! (l - 1)) \<noteq> []"
      "lt_upper_level_sst_ids task = [min_list (snd (ls_levels st ! (l - 1)))]" using shape(1) len by auto
    note sel = min_list_in [OF l(4)]
    have "distinct (snd (ls_levels st ! (l - 1)))" using dl l by simp
    then show ?thesis using Some l sel low take same
      by (auto simp: Leveled_apply_compaction_result_def take_out_filter level_files_def set_level_files_def Let_def)
  qed
qed

section \<open>Tasks of the tiered strategy\<close>

text \<open>The loop over the tiers of a state whose newest tiers are those of the task, apart from tiers \<open>N\<close> that were added since.\<close>

lemma alist_update_new: "k \<notin> fst ` set xs \<Longrightarrow> AList.update k v xs = xs @ [(k, v)]"
  by (induction xs) auto

lemma tiers_to_remove: "distinct (map fst (acc @ A)) \<Longrightarrow> fold (\<lambda>(x, y) rm. AList.update x y rm) A acc = acc @ A"
proof (induction A arbitrary: acc)
  case (Cons t A)
  obtain i ids where t: "t = (i, ids)" by (cases t)
  have "i \<notin> fst ` set acc" using Cons.prems by (auto simp: t)
  then show ?case using Cons.IH [of "acc @ [t]"] Cons.prems by (simp add: t alist_update_new)
qed simp

lemma Tiered_apply_rest: "Tiered_apply_loop out B [] True = Inr (B, [], [])"
  by (induction B) auto

lemma Tiered_apply_prefix:
  assumes "distinct (map fst (A @ B))" and "A \<noteq> []"
  shows "Tiered_apply_loop out (A @ B) A False =
    Inr ((case out of [] \<Rightarrow> 0 | x # _ \<Rightarrow> x, out) # B, [], concat (map snd A))"
  using assms
proof (induction A)
  case (Cons t A)
  obtain i ids where t: "t = (i, ids)" by (cases t)
  have "i \<notin> fst ` set A" using Cons.prems(1) by (auto simp: t)
  then have "AList.delete i A = A" by (simp add: delete_id)
  then show ?case using Cons by (cases "A = []") (simp_all add: t Tiered_apply_rest)
qed simp

lemma Tiered_apply_empty: "\<exists>levels. Tiered_apply_loop out B [] b = Inr (levels, [], [])"
  by (cases b; cases B) (auto simp: Tiered_apply_rest)

lemma Tiered_apply_later:
  assumes "distinct (map fst (N @ A @ B))" and "A \<noteq> []"
  shows "Tiered_apply_loop out (N @ A @ B) A False =
    Inr (N @ (case out of [] \<Rightarrow> 0 | x # _ \<Rightarrow> x, out) # B, [], concat (map snd A))"
  using assms
proof (induction N)
  case Nil
  then show ?case using Tiered_apply_prefix [of A B out] by simp
next
  case (Cons t N)
  obtain i ids where t: "t = (i, ids)" by (cases t)
  have "map_of A i = None" using Cons.prems(1) by (auto simp: t map_of_eq_None_iff)
  then show ?case using Cons by (simp add: t)
qed

lemma Tiered_apply_task:
  assumes "ls_l0_sstables st = []" and lev: "ls_levels st = N @ A @ B" and d: "distinct (map fst (N @ A @ B))" and "A \<noteq> []"
    and "tt_tiers task = A"
  shows "Tiered_apply_compaction_result st task out =
    Inr (st\<lparr>ls_levels := N @ (case out of [] \<Rightarrow> 0 | x # _ \<Rightarrow> x, out) # B\<rparr>, concat (map snd A))"
  using assms tiers_to_remove [of "[]" A]
  by (simp add: Tiered_apply_compaction_result_def Tiered_apply_later [OF d assms(4)])

lemma Tiered_ratio_task_shape:
  assumes "Tiered_ratio_task opts levels sz is = Some task"
  shows "\<exists>i \<in> set is. tt_tiers task = take (i + 1) levels \<and> \<not> tt_bottom_tier_included task"
  using assms by (induction "is" arbitrary: sz) (auto simp: Let_def split: if_splits)

lemma Tiered_generate_total:
  assumes "ls_l0_sstables st = []" and "0 < to_num_tiers opts"
  shows "\<exists>t. Tiered_generate_compaction_task opts st = Inr t"
  using assms by (cases "ls_levels st = []") (auto simp: Tiered_generate_compaction_task_def Let_def split: option.split)

lemma Tiered_task_shape:
  assumes "Tiered_generate_compaction_task opts st = Inr (Some task)"
  shows "ls_l0_sstables st = []" and "ls_levels st \<noteq> []" and "\<exists>n. tt_tiers task = take n (ls_levels st)"
    and "to_max_merge_width opts = None \<Longrightarrow> tt_tiers task \<noteq> [] \<and> (tt_bottom_tier_included task \<longrightarrow> tt_tiers task = ls_levels st)"
  using assms
  by (auto simp: Tiered_generate_compaction_task_def Let_def assert_res_def res_bind_def split: if_splits option.splits
      dest!: Tiered_ratio_task_shape intro: exI [of _ "length (ls_levels st)"])

section \<open>Properties\<close>

text \<open>C18: a task can be carried out. A task that a strategy generates for a state with the levels the strategy set
  up and with distinct tables is applied without a failed assertion or an index out of range to any
  state with the same levels, such as the one after its output tables were added; at runtime and in recovery.\<close>

theorem generated_task_applies:
  assumes "CompactionController_generate_compaction_task (CompactionController_create copts) st = Inr (Some task)"
    and "shape_ok copts st" and "distinct (all_ids st)" and "distinct (map fst (ls_levels st))"
    and "case copts of LeveledOpts opts \<Rightarrow> 0 < lo_max_levels opts | _ \<Rightarrow> True"
    and "ls_l0_sstables st' = ls_l0_sstables st" and "ls_levels st' = ls_levels st"
  shows "\<exists>st1 rm. CompactionController_apply_compaction_result (CompactionController_create copts) st' task out rec = Inr (st1, rm)"
proof (cases copts)
  case (LeveledOpts opts)
  then obtain t where "task = TaskLeveled t" "Leveled_generate_compaction_task opts st = Inr (Some t)"
    using assms(1) by (auto simp: CompactionController_generate_compaction_task_def CompactionController_create_def res_bind_def
        split: sum.splits)
  then show ?thesis using Leveled_task_applies [of opts st t st' out rec] LeveledOpts assms
    by (auto simp: CompactionController_apply_compaction_result_def CompactionController_create_def shape_ok_def)
next
  case (TieredOpts opts)
  then obtain t where t: "task = TaskTiered t" "Tiered_generate_compaction_task opts st = Inr (Some t)"
    using assms(1) by (auto simp: CompactionController_generate_compaction_task_def CompactionController_create_def res_bind_def
        split: sum.splits)
  note shape = Tiered_task_shape [OF t(2)]
  from shape(3) obtain n where n: "tt_tiers t = take n (ls_levels st)" by blast
  have "\<exists>r. Tiered_apply_compaction_result st' t out = Inr r"
  proof (cases "take n (ls_levels st) = []")
    case True
    then show ?thesis using n shape(1) assms(6) Tiered_apply_empty [of out "ls_levels st'" False]
      by (auto simp: Tiered_apply_compaction_result_def)
  next
    case False
    then show ?thesis using Tiered_apply_task [of st' "[]" "take n (ls_levels st)" "drop n (ls_levels st)" t out] n shape(1) assms(4,6,7)
      by (auto simp: append_take_drop_id)
  qed
  then show ?thesis using t(1) TieredOpts by (auto simp: CompactionController_apply_compaction_result_def CompactionController_create_def)
next
  case (SimpleOpts opts)
  then obtain t where "task = TaskSimple t" "Simple_generate_compaction_task opts st = Some t"
    using assms(1) by (auto simp: CompactionController_generate_compaction_task_def CompactionController_create_def res_bind_def
        split: sum.splits)
  then show ?thesis using Simple_task_applies [of opts st t st' out] SimpleOpts assms
    by (auto simp: CompactionController_apply_compaction_result_def CompactionController_create_def shape_ok_def)
qed (use assms(1) in \<open>simp add: CompactionController_generate_compaction_task_def CompactionController_create_def\<close>)

text \<open>A leveled state whose level 0 holds two tables.\<close>

definition example_level_state :: LsmStorageState where
  "example_level_state = \<lparr>ls_memtable = MemTable_new 0 None, ls_imm_memtables = [], ls_l0_sstables = [4, 3],
     ls_levels = [(1, []), (2, [])], ls_sstables = Map.empty\<rparr>"

theorem generated_task_applies_witness:
  "\<exists>st1 rm. CompactionController_apply_compaction_result (CtrlLeveled \<lparr>lo_level_size_multiplier = 2,
      lo_level0_file_num_compaction_trigger = 2, lo_max_levels = 2, lo_base_level_size_mb = 1\<rparr>) example_level_state
    (TaskLeveled \<lparr>lt_upper_level = None, lt_upper_level_sst_ids = [4, 3], lt_lower_level = 2, lt_lower_level_sst_ids = [],
       lt_is_lower_level_bottom_level = True\<rparr>) [5] False = Inr (st1, rm)"
proof -
  let ?o = "\<lparr>lo_level_size_multiplier = 2, lo_level0_file_num_compaction_trigger = 2, lo_max_levels = 2, lo_base_level_size_mb = 1\<rparr>"
  let ?t = "TaskLeveled \<lparr>lt_upper_level = None, lt_upper_level_sst_ids = [4, 3], lt_lower_level = 2, lt_lower_level_sst_ids = [],
       lt_is_lower_level_bottom_level = True\<rparr>"
  have "CompactionController_generate_compaction_task (CompactionController_create (LeveledOpts ?o)) example_level_state = Inr (Some ?t)"
    by (simp add: CompactionController_generate_compaction_task_def CompactionController_create_def Leveled_generate_compaction_task_def
        Leveled_targets_def Leveled_real_level_size_def example_level_state_def Let_def Leveled_find_overlapping_ssts_def
        Leveled_key_range_hull map_filter_simps upt_rec numeral_2_eq_2)
  from generated_task_applies [OF this, of example_level_state "[5]" False] show ?thesis
    by (simp add: shape_ok_def all_ids_def example_level_state_def CompactionController_create_def)
qed

theorem find_overlapping_exact_witness:
  "5 \<in> set (Leveled_find_overlapping_ssts (example_level_state\<lparr>ls_levels := [(1, [5])], ls_sstables := [5 \<mapsto> example_table]\<rparr>) [5] 1)"
  using find_overlapping_exact [of 1 "example_level_state\<lparr>ls_levels := [(1, [5])], ls_sstables := [5 \<mapsto> example_table]\<rparr>" 5 "[5]"]
  by (simp add: map_filter_simps example_table_def table_of_def example_runs_def)

text \<open>C20: a merge that leaves out the lowest tier is taken for one that includes it. If the size triggers of the
  tiered strategy do not fire and \<open>max_merge_width\<close> is smaller than the number of tiers, the task covers
  only the newest tiers, and yet it is marked as including the bottom tier, so that \<open>compact\<close> drops the
  tombstones that hide older values in the tiers left out.\<close>

theorem tiered_bottom_flag_wrong:
  assumes "ls_l0_sstables st = []" and "to_max_merge_width opts = Some w" and "w < length (ls_levels st)"
    and "to_num_tiers opts \<le> length (ls_levels st)" and "snd (last (ls_levels st)) \<noteq> []"
    and "real (sum_list (map (\<lambda>(_, files). length files) (butlast (ls_levels st)))) / real (length (snd (last (ls_levels st)))) * 100
      < real (to_max_size_amplification_percent opts)"
    and "Tiered_ratio_task opts (ls_levels st) 0 [0..<length (ls_levels st) - 1] = None"
  shows "\<exists>task. Tiered_generate_compaction_task opts st = Inr (Some task) \<and> tt_tiers task = take w (ls_levels st) \<and>
    length (tt_tiers task) < length (ls_levels st) \<and> CompactionTask_compact_to_bottom_level (TaskTiered task)"
  using assms by (auto simp: Tiered_generate_compaction_task_def Let_def CompactionTask_compact_to_bottom_level_def not_le)

theorem tiered_bottom_flag_wrong_witness:
  "\<exists>task. Tiered_generate_compaction_task \<lparr>to_num_tiers = 3, to_max_size_amplification_percent = 300, to_size_ratio = 100,
       to_min_merge_width = 2, to_max_merge_width = Some 2\<rparr>
      (example_level_state\<lparr>ls_l0_sstables := [], ls_levels := [(5, [5]), (4, [4]), (3, [3])]\<rparr>) = Inr (Some task) \<and>
    tt_tiers task = [(5, [5]), (4, [4])] \<and> CompactionTask_compact_to_bottom_level (TaskTiered task)"
  using tiered_bottom_flag_wrong [of "example_level_state\<lparr>ls_l0_sstables := [], ls_levels := [(5, [5]), (4, [4]), (3, [3])]\<rparr>"
      "\<lparr>to_num_tiers = 3, to_max_size_amplification_percent = 300, to_size_ratio = 100, to_min_merge_width = 2, to_max_merge_width = Some 2\<rparr>" 2]
  by (auto simp: upt_rec numeral_2_eq_2)

end
