(* ===== verification/Compaction_View.thy ===== *)
theory Compaction_View
  imports Compaction_Correct Strategies
begin

text \<open>
  Compactions do not change what the store holds: the value of every key is the same before and
  after, although runs are merged and tombstones dropped. Shown for the full compaction and for
  the simple leveled strategy, from the choice of the task to the new state.
\<close>

section \<open>Replacing runs by their merge\<close>

definition runs_value :: "entry list list \<Rightarrow> bytes \<Rightarrow> bytes" where
  "runs_value xss k = (case newest xss k of None \<Rightarrow> [] | Some v \<Rightarrow> v)"

lemma store_view_runs: "store_view co = runs_value (lsm_runs co)"
  by (simp add: store_view_def runs_value_def fun_eq_iff)

lemma newest_append: "newest (xss @ yss) k = (case newest xss k of None \<Rightarrow> newest yss k | Some v \<Rightarrow> Some v)"
  by (induction xss) (auto split: option.split)

lemma runs_value_append: "runs_value (pre @ xss) = (\<lambda>k. case newest pre k of None \<Rightarrow> runs_value xss k | Some v \<Rightarrow> v)"
  by (auto simp: runs_value_def newest_append fun_eq_iff split: option.split)

lemma runs_value_Nil_run [simp]: "runs_value (pre @ [] # post) = runs_value (pre @ post)"
proof -
  have "runs_value ([] # post) = runs_value post" by (simp add: runs_value_def fun_eq_iff)
  then show ?thesis unfolding runs_value_append by metis
qed

lemma newest_empty: "\<forall>xs \<in> set xss. xs = [] \<Longrightarrow> newest xss k = None"
  by (induction xss) auto

lemma map_of_kept:
  "sorted_entries xs \<Longrightarrow> map_of (kept bottom xs) k = (case map_of xs k of
     None \<Rightarrow> None | Some v \<Rightarrow> if bottom \<and> v = [] then None else Some v)"
proof (induction xs)
  case (Cons x xs)
  have "map_of xs (fst x) = None" using Cons.prems by (fastforce simp: map_of_eq_None_iff)
  with Cons show ?case by (cases x) (auto split: option.split)
qed simp

lemma sorted_kept: "sorted_entries xs \<Longrightarrow> sorted_entries (kept bottom xs)"
  by (auto simp: kept_def intro: sorted_entries_filter)

text \<open>Merging neighbouring runs keeps every value; dropping tombstones does so if nothing is below.\<close>

lemma runs_value_compact:
  assumes sorted: "\<And>xs. xs \<in> set xss \<Longrightarrow> sorted_entries xs"
    and bottom: "bottom \<Longrightarrow> \<forall>xs \<in> set post. xs = []"
  shows "runs_value (pre @ [kept bottom (merge_runs xss)] @ post) = runs_value (pre @ xss @ post)"
proof
  fix k
  have m: "map_of (kept bottom (merge_runs xss)) k = (case newest xss k of
      None \<Rightarrow> None | Some v \<Rightarrow> if bottom \<and> v = [] then None else Some v)"
    using map_of_kept [OF sorted_merge_runs [OF sorted]] newest_merge_runs [OF sorted] by simp
  show "runs_value (pre @ [kept bottom (merge_runs xss)] @ post) k = runs_value (pre @ xss @ post) k"
    using newest_empty [OF bottom, of k] m by (auto simp: runs_value_def newest_append split: option.split)
qed

section \<open>Adding and removing tables\<close>

lemma lookup_add_ssts:
  assumes "distinct (map st_id ssts)"
  shows "t \<in> set ssts \<Longrightarrow> ls_sstables (add_ssts ssts st) (st_id t) = Some t"
    and "i \<notin> st_id ` set ssts \<Longrightarrow> ls_sstables (add_ssts ssts st) i = ls_sstables st i"
proof -
  have fold: "fold (\<lambda>sst m. m(st_id sst \<mapsto> sst)) ts m i = (if i \<in> st_id ` set ts
      then fold (\<lambda>sst m. m(st_id sst \<mapsto> sst)) ts Map.empty i else m i)" for ts and m :: "nat \<Rightarrow> SsTable option" and i
  proof (induction ts arbitrary: m)
    case (Cons t ts)
    show ?case using Cons [of "m(st_id t \<mapsto> t)"] Cons [of "[st_id t \<mapsto> t]"] by (auto simp: image_iff)
  qed simp
  show "i \<notin> st_id ` set ssts \<Longrightarrow> ls_sstables (add_ssts ssts st) i = ls_sstables st i"
    using fold [of ssts "ls_sstables st" i] by (simp add: add_ssts_def)
  show "t \<in> set ssts \<Longrightarrow> ls_sstables (add_ssts ssts st) (st_id t) = Some t"
  proof -
    assume "t \<in> set ssts"
    then obtain us vs where split: "ssts = us @ t # vs" by (auto simp: in_set_conv_decomp)
    then have "st_id t \<notin> st_id ` set vs" using assms by auto
    then show ?thesis using fold [of vs "_ (st_id t \<mapsto> t)" "st_id t"] by (simp add: add_ssts_def split)
  qed
qed

text \<open>The blocks of the new tables, by identifier.\<close>

definition new_tables :: "(nat \<Rightarrow> entry list list option) \<Rightarrow> SsTable list \<Rightarrow> entry list list list \<Rightarrow> nat \<Rightarrow> entry list list option" where
  "new_tables tables ssts rss = tables ++ map_of (zip (map st_id ssts) rss)"

lemma written_new_tables:
  assumes w: "written E inner n files ssts rss files'" and dom: "\<forall>i \<in> dom tables. i < n"
  shows "tables \<subseteq>\<^sub>m new_tables tables ssts rss"
    and "dom (new_tables tables ssts rss) = dom tables \<union> {n..<n + length ssts}"
    and "list_all2 (sst_entries (ev_ext E) (new_tables tables ssts rss)) ssts (map concat rss)"
proof -
  have ids: "map st_id ssts = [n..<n + length ssts]" and len: "length ssts = length rss"
    and h: "list_all2 (\<lambda>t runs. sst_holds (ev_ext E) [st_id t \<mapsto> runs] t runs) ssts rss"
    using w by (auto simp: written_def dest: list_all2_lengthD)
  have dz: "dom (map_of (zip (map st_id ssts) rss)) = {n..<n + length ssts}"
    unfolding ids using len by (simp add: dom_map_of_zip)
  have disj: "dom tables \<inter> {n..<n + length ssts} = {}" using dom by (meson atLeastLessThan_iff disjoint_iff not_le)
  show "dom (new_tables tables ssts rss) = dom tables \<union> {n..<n + length ssts}"
    unfolding new_tables_def using dz by auto
  show "tables \<subseteq>\<^sub>m new_tables tables ssts rss"
    unfolding new_tables_def by (rule map_le_iff_map_add_commute [THEN iffD2]) (use disj dz map_add_comm in metis)
  have "sst_entries (ev_ext E) (new_tables tables ssts rss) (ssts ! i) (concat (rss ! i))" if i: "i < length ssts" for i
  proof -
    have "map_of (zip (map st_id ssts) rss) (map st_id ssts ! i) = Some (rss ! i)"
      using len i ids by (intro map_of_zip_nth) simp_all
    then have "map_of (zip (map st_id ssts) rss) (st_id (ssts ! i)) = Some (rss ! i)" using i by simp
    then have "[st_id (ssts ! i) \<mapsto> rss ! i] \<subseteq>\<^sub>m new_tables tables ssts rss"
      by (simp add: map_le_def new_tables_def)
    moreover have "sst_holds (ev_ext E) [st_id (ssts ! i) \<mapsto> rss ! i] (ssts ! i) (rss ! i)"
      using h i by (simp add: list_all2_conv_all_nth)
    ultimately show ?thesis unfolding sst_entries_def using sst_holds_mono by blast
  qed
  then show "list_all2 (sst_entries (ev_ext E) (new_tables tables ssts rss)) ssts (map concat rss)"
    using len by (simp add: list_all2_conv_all_nth)
qed

lemma new_ids_hold:
  assumes "list_all2 (sst_entries X tables) ssts ess" and "\<And>t. t \<in> set ssts \<Longrightarrow> ls_sstables st (st_id t) = Some t"
  shows "ids_hold X tables st (map st_id ssts) ess"
  using assms by (auto simp: ids_hold_def list_all2_conv_all_nth)

text \<open>New tables that wait to be installed: they are known to the invariant, under identifiers that no run lists, and hold \<open>ess\<close>.\<close>

definition pending :: "ext \<Rightarrow> (nat \<Rightarrow> entry list list option) \<Rightarrow> LsmStorageState \<Rightarrow> SsTable list \<Rightarrow> entry list list \<Rightarrow> bool" where
  "pending X tables st ssts ess \<longleftrightarrow> distinct (map st_id ssts) \<and> st_id ` set ssts \<subseteq> dom tables \<and> st_id ` set ssts \<inter> set (all_ids st) = {} \<and>
     0 \<notin> st_id ` set ssts \<and> list_all2 (sst_entries X tables) ssts ess"

lemma all_ids_dom:
  assumes "st_inv X opts b tables n st co"
  shows "set (all_ids st) \<subseteq> dom tables"
proof
  fix i assume "i \<in> set (all_ids st)"
  then obtain t where "ls_sstables st i = Some t" using assms all_ids_known [of X tables st co i] by (auto simp: st_inv_def)
  then show "i \<in> dom tables" using assms by (auto simp: st_inv_def)
qed

lemma st_inv_tables:
  assumes inv: "st_inv X opts b tables n st co" and le: "tables \<subseteq>\<^sub>m tables'" and dom: "dom tables' = dom tables \<union> {n..<n'}" and n: "n \<le> n'"
  shows "st_inv X opts b tables' n' st co"
proof -
  have h: "st_holds X tables st co" using inv by (simp add: st_inv_def)
  then have "st_holds X tables' st co"
    using levels_hold_mono [OF _ le, of X st "ls_levels st" "co_levels co" st] ids_hold_mono [OF _ le, of X st "ls_l0_sstables st" "co_l0 co" st]
    by (simp add: st_holds_def)
  moreover have "tables' (mt_id t) = None \<and> mt_id t < n'" if "t \<in> set (ls_memtable st # ls_imm_memtables st)" for t
  proof -
    have "mt_id t < n" "mt_id t \<notin> dom tables" using inv that by (auto simp: st_inv_def)
    then show ?thesis using dom n by auto
  qed
  moreover have "i < n'" if "i \<in> dom tables'" for i
  proof -
    have "\<forall>i \<in> dom tables. i < n" using inv by (simp add: st_inv_def)
    then show ?thesis using that n unfolding dom by (meson UnE atLeastLessThan_iff order_less_le_trans)
  qed
  moreover have "st_id t = i \<and> i \<in> dom tables'" if "ls_sstables st i = Some t" for i t using inv that dom by (auto simp: st_inv_def)
  ultimately show ?thesis using inv unfolding st_inv_def by blast
qed

lemma written_pending:
  assumes inv: "st_inv (ev_ext E) opts b tables n st co" and w: "written E inner n files ssts rss files'"
  defines "tables' \<equiv> new_tables tables ssts rss"
  shows "st_inv (ev_ext E) opts b tables' (n + length ssts) st co" and "pending (ev_ext E) tables' st ssts (map concat rss)"
proof -
  have dn: "\<forall>i \<in> dom tables. i < n" using inv by (simp add: st_inv_def)
  note nt = written_new_tables [OF w dn, folded tables'_def]
  show "st_inv (ev_ext E) opts b tables' (n + length ssts) st co" by (rule st_inv_tables [OF inv nt(1,2)]) simp
  have ids: "map st_id ssts = [n..<n + length ssts]" using w by (simp add: written_def)
  have idset: "st_id ` set ssts = {n..<n + length ssts}" using arg_cong [OF ids, of set] by simp
  have "0 < n" using inv by (auto simp: st_inv_def)
  moreover have "i < n" if "i \<in> set (all_ids st)" for i using all_ids_dom [OF inv] dn that by blast
  ultimately have "{n..<n + length ssts} \<inter> set (all_ids st) = {}" "0 \<notin> {n..<n + length ssts}" by force+
  then show "pending (ev_ext E) tables' st ssts (map concat rss)"
    unfolding pending_def idset ids using nt(2,3) by simp
qed

text \<open>Any new state over the same memtables, with pending tables among the known ones.\<close>

lemma st_inv_install:
  assumes inv: "st_inv X opts b tables n st co" and pend: "pending X tables st ssts ess"
    and mems: "ls_memtable st' = ls_memtable st" "ls_imm_memtables st' = ls_imm_memtables st"
    and new: "\<And>t. t \<in> set ssts \<Longrightarrow> ls_sstables st' (st_id t) = Some t"
    and old: "\<And>i t. i \<notin> st_id ` set ssts \<Longrightarrow> ls_sstables st' i = Some t \<Longrightarrow> ls_sstables st i = Some t"
    and st': "st_holds X tables st' co'" "distinct (all_ids st')" "shape_ok (op_compaction_options opts) st'"
    and ne: "ls_levels st \<noteq> []"
  shows "st_inv X opts b tables n st' co'"
proof -
  have "st_id t = i \<and> i \<in> dom tables" if t: "ls_sstables st' i = Some t" for i t
  proof (cases "i \<in> st_id ` set ssts")
    case True
    then obtain u where "u \<in> set ssts" "i = st_id u" by blast
    then show ?thesis using new t pend by (auto simp: pending_def)
  next
    case False
    then show ?thesis using old [OF False t] inv by (auto simp: st_inv_def)
  qed
  moreover have "first_flushed (op_compaction_options opts) st'"
    using inv ne by (auto simp: st_inv_def first_flushed_def mems split: CompactionOptions.splits)
  ultimately show ?thesis using inv st' unfolding st_inv_def mems by auto
qed

text \<open>Where the tables of the new state are on disk: the new ones were written, the others stay.\<close>

lemma durable_install:
  assumes dur: "durable E (inner, files)" and disk: "\<forall>t \<in> set ssts. on_disk E inner files t"
    and mems: "ls_memtable st' = ls_memtable (in_state inner)" "ls_imm_memtables st' = ls_imm_memtables (in_state inner)"
    and ids: "set (all_ids st') \<subseteq> set (all_ids (in_state inner)) \<union> st_id ` set ssts"
    and lookup: "\<And>t. t \<in> set ssts \<Longrightarrow> ls_sstables st' (st_id t) = Some t"
      "\<And>i. i \<in> set (all_ids st') - st_id ` set ssts \<Longrightarrow> ls_sstables st' i = ls_sstables (in_state inner) i"
    and app: "CompactionController_apply_compaction_result (CompactionController_create (op_compaction_options (in_options inner)))
      (layout (in_options inner) (in_state inner)) task (map st_id ssts) True = Inr (layout (in_options inner) st', rm)"
    and rec: "recorded E (Compaction task (map st_id ssts)) (inner\<lparr>in_state := st'\<rparr>) files man files'"
  shows "durable E (inner\<lparr>in_state := st', in_manifest := man\<rparr>, files')"
proof -
  let ?inner = "inner\<lparr>in_state := st'\<rparr>"
  have od: "on_disk E ?inner files t = on_disk E inner files t" for t by (rule on_disk_cong) simp_all
  have "\<exists>t. ls_sstables st' i = Some t \<and> st_id t = i \<and> on_disk E ?inner files t" if i: "i \<in> set (all_ids st')" for i
  proof (cases "i \<in> st_id ` set ssts")
    case True
    then show ?thesis using lookup(1) disk by (auto simp: od)
  next
    case False
    then have "i \<in> set (all_ids (in_state inner))" using i ids by blast
    then show ?thesis using durableD(1) [OF dur] lookup(2) [of i] i False by (auto simp: tables_on_disk_def od)
  qed
  then have "tables_on_disk E ?inner files" by (simp add: tables_on_disk_def)
  then have "durable E (?inner\<lparr>in_manifest := man\<rparr>, files')"
    by (intro durable_compaction [OF dur rec]) (use mems app ids in simp_all)
  then show ?thesis by simp
qed

lemma remove_ssts_other:
  assumes "p \<notin> path_of_sst_val inner ` set ids"
  shows "fold (\<lambda>i files. if io_remove (ev_io E) (path_of_sst_val inner i) then files(path_of_sst_val inner i := None) else files)
    ids files p = files p"
  using assms by (induction ids arbitrary: files) auto

lemma with_remove_ssts:
  assumes F: "lasting F" and h: "engine_with F E path opts d (inner, files) M" and ids: "set ids \<inter> set (all_ids (in_state inner)) = {}"
  shows "returns (remove_ssts E ids) (inner, files) (\<lambda>_ s. engine_with F E path opts d s M \<and> fst s = inner)"
proof -
  have "engine_with F E path opts d (inner, files') M"
    if "\<And>p. p \<notin> path_of_sst_val inner ` set ids \<Longrightarrow> files' p = files p" for files'
    using h durable_remove [OF _ ids, of E files files'] that lastingD [OF F _ map_le_refl]
    by (fastforce simp: engine_with_def eng_inv_def)
  then have "engine_with F E path opts d (inner, fold (\<lambda>i files. if io_remove (ev_io E) (path_of_sst_val inner i)
      then files(path_of_sst_val inner i := None) else files) ids files) M" by this (rule remove_ssts_other)
  then show ?thesis by (simp add: remove_ssts_def returns_def)
qed

section \<open>The two halves of a compaction\<close>

text \<open>The state in which pending tables can be installed.\<close>

definition ready :: "env \<Rightarrow> string \<Rightarrow> LsmStorageOptions \<Rightarrow> bool \<Rightarrow> (nat \<Rightarrow> entry list list option) \<Rightarrow> engine \<Rightarrow> contents \<Rightarrow>
    SsTable list \<Rightarrow> entry list list \<Rightarrow> bool" where
  "ready E path opts d tables s co ssts ess \<longleftrightarrow> eng_inv E tables s co \<and> in_options (fst s) = opts \<and> in_path (fst s) = path \<and>
     pending (ev_ext E) tables (in_state (fst s)) ssts ess \<and>
     (d \<longrightarrow> durable E s \<and> (\<forall>t \<in> set ssts. on_disk E (fst s) (snd s) t))"

lemma ready_inv:
  "ready E path opts d tables s co ssts ess \<Longrightarrow>
    st_inv (ev_ext E) opts (op_target_sst_size opts) tables (in_next_sst_id (fst s)) (in_state (fst s)) co \<and>
    pending (ev_ext E) tables (in_state (fst s)) ssts ess"
  by (cases s) (auto simp: ready_def eng_inv_iff)

text \<open>The first half leaves the state as it is.\<close>

lemma returns_compact_ready:
  assumes h: "eng_inv E tables s co" "in_options (fst s) = opts" "in_path (fst s) = path" "d \<longrightarrow> durable E s"
    and input: "task_input (ev_ext E) tables (in_state (fst s)) task xss"
  shows "returns (LsmStorageInner_compact E task) s (\<lambda>ssts s'. \<exists>tables' ess. ready E path opts d tables' s' co ssts ess \<and>
    concat ess = kept (CompactionTask_compact_to_bottom_level task) (merge_runs xss) \<and>
    tables \<subseteq>\<^sub>m tables' \<and> in_state (fst s') = in_state (fst s))"
proof -
  obtain inner files where s: "s = (inner, files)" by (cases s)
  have e: "io_works (ev_io E)" "snappy_inverts (ev_ext E)" "opts_ok (ev_ext E) (in_options inner)"
    "cache_sound (blocks_of tables) (in_block_cache inner)" and env: "env_inv E tables inner"
    and inv: "st_inv (ev_ext E) (in_options inner) (op_target_sst_size (in_options inner)) tables (in_next_sst_id inner) (in_state inner) co"
    using h(1) by (simp_all add: s eng_inv_iff env_inv_def)
  show ?thesis unfolding s
  proof (rule returns_weaken [OF returns_compact [OF input [unfolded s fst_conv] e]])
    let ?xs = "kept (CompactionTask_compact_to_bottom_level task) (merge_runs xss)" and ?n = "in_next_sst_id inner"
    fix ssts s' assume "compacted E tables inner ?n files ?xs ssts s'"
    then obtain rss c files' where s': "s' = (inner\<lparr>in_block_cache := c, in_next_sst_id := ?n + length ssts\<rparr>, files')"
      and c: "cache_sound (blocks_of tables) c" and w: "written E inner ?n files ssts rss files'" and rss: "concat (map concat rss) = ?xs"
      by (auto simp: compacted_def)
    let ?tables = "new_tables tables ssts rss"
    note p = written_pending [OF inv w]
    have dn: "\<forall>i \<in> dom tables. i < ?n" using inv by (simp add: st_inv_def)
    note le = written_new_tables(1) [OF w dn]
    have "eng_inv E ?tables s' co" using env cache_sound_mono [OF le c] p(1) by (simp add: s' eng_inv_iff env_inv_def)
    moreover have "durable E s'" if d
    proof -
      have same: "files' q = files q" if "q \<notin> path_of_sst_val inner ` set (map st_id ssts)" for q using w that by (simp add: written_def)
      have "durable E (inner, files)" "set (map st_id ssts) \<inter> set (all_ids (in_state inner)) = {}"
        using h(4) that p(2) by (simp_all add: s pending_def)
      then have "durable E (inner, files')" using same by (rule durable_remove)
      then show ?thesis unfolding s'
        by (rule durable_frame) (use durableD(2,3) [OF \<open>durable E (inner, files')\<close>] in \<open>simp_all add: wal_paths_def wal_logs_def\<close>)
    qed
    moreover have "on_disk E (fst s') (snd s') t" if "t \<in> set ssts" for t
      using w that on_disk_cong [of "fst s'" inner files' t files' E] by (simp add: s' written_def)
    ultimately have "ready E path opts d ?tables s' co ssts (map concat rss)" using h(2,3) p(2) by (simp add: ready_def s s')
    then show "\<exists>tables' ess. ready E path opts d tables' s' co ssts ess \<and> concat ess = ?xs \<and> tables \<subseteq>\<^sub>m tables' \<and>
      in_state (fst s') = in_state (fst (inner, files))" using le rss by (intro exI [of _ ?tables] exI [of _ "map concat rss"]) (simp add: s')
  qed
qed

text \<open>The state after a task: the same memtables, the new tables known and those of \<open>rm\<close> forgotten.\<close>

definition installed :: "LsmStorageState \<Rightarrow> SsTable list \<Rightarrow> nat list \<Rightarrow> LsmStorageState \<Rightarrow> bool" where
  "installed st ssts rm st' \<longleftrightarrow> ls_memtable st' = ls_memtable st \<and> ls_imm_memtables st' = ls_imm_memtables st \<and>
     ls_sstables st' = (\<lambda>i. if i \<in> set rm then None else ls_sstables (add_ssts ssts st) i)"

lemma installed_erase:
  "ls_memtable st1 = ls_memtable st \<Longrightarrow> ls_imm_memtables st1 = ls_imm_memtables st \<Longrightarrow>
   ls_sstables st1 = ls_sstables (add_ssts ssts st) \<Longrightarrow> installed st ssts rm (erase_ssts rm st1)"
  by (auto simp: installed_def erase_ssts_def)

lemma installed_lookup:
  assumes pend: "pending X tables st ssts ess" and st': "installed st ssts rm st'" and rm: "set rm \<subseteq> set (all_ids st)"
  shows "t \<in> set ssts \<Longrightarrow> ls_sstables st' (st_id t) = Some t"
    and "i \<in> set (all_ids st) - set rm \<Longrightarrow> ls_sstables st' i = ls_sstables st i"
    and "i \<notin> st_id ` set ssts \<Longrightarrow> ls_sstables st' i = Some u \<Longrightarrow> ls_sstables st i = Some u"
proof -
  have d: "distinct (map st_id ssts)" and apart: "st_id ` set ssts \<inter> set (all_ids st) = {}" using pend by (simp_all add: pending_def)
  show "ls_sstables st' (st_id t) = Some t" if t: "t \<in> set ssts"
  proof -
    have "st_id t \<notin> set rm" using apart rm t by blast
    then show ?thesis using st' lookup_add_ssts(1) [OF d t] by (simp add: installed_def)
  qed
  show "ls_sstables st' i = ls_sstables st i" if i: "i \<in> set (all_ids st) - set rm"
  proof -
    have "i \<notin> st_id ` set ssts" using apart i by blast
    then show ?thesis using st' i lookup_add_ssts(2) [OF d] by (simp add: installed_def)
  qed
  show "ls_sstables st i = Some u" if "i \<notin> st_id ` set ssts" "ls_sstables st' i = Some u"
    using that st' lookup_add_ssts(2) [OF d that(1)] by (simp add: installed_def split: if_splits)
qed

lemma installed_inv:
  assumes inv: "st_inv X opts b tables n st co" and pend: "pending X tables st ssts ess"
    and st': "installed st ssts rm st'" "set rm \<subseteq> set (all_ids st)"
    and ok: "st_holds X tables st' co'" "distinct (all_ids st')" "shape_ok (op_compaction_options opts) st'"
    and ne: "ls_levels st \<noteq> []"
  shows "st_inv X opts b tables n st' co'"
  by (rule st_inv_install [OF inv pend _ _ installed_lookup(1,3) [OF pend st'] ok ne]) (use st'(1) in \<open>simp_all add: installed_def\<close>)

text \<open>Runs of old tables that are kept, and the run of the new tables.\<close>

lemma installed_hold:
  assumes pend: "pending X tables st ssts ess" and st': "installed st ssts rm st'" "set rm \<subseteq> set (all_ids st)"
  shows "ids_hold X tables st' (map st_id ssts) ess"
    and "\<And>ids ess. ids_hold X tables st ids ess \<Longrightarrow> set ids \<subseteq> set (all_ids st) - set rm \<Longrightarrow> ids_hold X tables st' ids ess"
proof -
  note lk = installed_lookup [OF pend st']
  show "ids_hold X tables st' (map st_id ssts) ess" using pend lk(1) by (intro new_ids_hold) (simp_all add: pending_def)
  show "ids_hold X tables st' ids' ess'" if "ids_hold X tables st ids' ess'" "set ids' \<subseteq> set (all_ids st) - set rm" for ids' ess'
    by (rule ids_hold_mono [OF that(1) map_le_refl]) (use that(2) lk(2) in blast)
qed

text \<open>The controller's part: the state \<open>st1\<close> and the tables \<open>rm\<close> to forget; a replay in the same place does the same (if \<open>d\<close>).\<close>

definition installs :: "bool \<Rightarrow> LsmStorageInner \<Rightarrow> CompactionTask \<Rightarrow> SsTable list \<Rightarrow> LsmStorageState \<Rightarrow> nat list \<Rightarrow> bool" where
  "installs d inner task ssts st1 rm \<longleftrightarrow> ls_memtable st1 = ls_memtable (in_state inner) \<and>
     ls_imm_memtables st1 = ls_imm_memtables (in_state inner) \<and> ls_sstables st1 = ls_sstables (add_ssts ssts (in_state inner)) \<and>
     set rm \<subseteq> set (all_ids (in_state inner)) \<and>
     set (all_ids st1) \<subseteq> (set (all_ids (in_state inner)) - set rm) \<union> st_id ` set ssts \<and>
     CompactionController_apply_compaction_result (in_compaction_controller inner) (add_ssts ssts (in_state inner)) task
       (map st_id ssts) False = Inr (st1, rm) \<and>
     (d \<longrightarrow> CompactionController_apply_compaction_result (in_compaction_controller inner) (layout (in_options inner) (in_state inner)) task
       (map st_id ssts) True = Inr (layout (in_options inner) st1, rm))"

lemma erase_ssts_fields [simp]:
  "ls_levels (erase_ssts ids st) = ls_levels st" "ls_l0_sstables (erase_ssts ids st) = ls_l0_sstables st"
  "ls_memtable (erase_ssts ids st) = ls_memtable st" "ls_imm_memtables (erase_ssts ids st) = ls_imm_memtables st"
  "all_ids (erase_ssts ids st) = all_ids st" "layout opts (erase_ssts ids st) = layout opts st"
  by (simp_all add: erase_ssts_def all_ids_def layout_def)

lemma installs_installed:
  "installs d inner task ssts st1 rm \<Longrightarrow> installed (in_state inner) ssts rm (erase_ssts rm st1) \<and> set rm \<subseteq> set (all_ids (in_state inner))"
  by (auto simp: installs_def intro: installed_erase)

lemma installs_durable:
  assumes i: "installs True inner task ssts st1 rm" and r: "ready E path opts True tables (inner, files) co ssts ess"
    and rec: "recorded E (Compaction task (map st_id ssts)) (inner\<lparr>in_state := erase_ssts rm st1\<rparr>) files man files'"
  shows "durable E (inner\<lparr>in_state := erase_ssts rm st1, in_manifest := man\<rparr>, files')"
proof (rule durable_install [OF _ _ _ _ _ _ _ _ rec])
  note st = installs_installed [OF i]
  have pend: "pending (ev_ext E) tables (in_state inner) ssts ess" using r by (simp add: ready_def)
  have ctrl: "in_compaction_controller inner = CompactionController_create (op_compaction_options (in_options inner))"
    using r by (simp add: ready_def eng_inv_def)
  note lk = installed_lookup [OF pend conjunct1 [OF st] conjunct2 [OF st]]
  show "ls_sstables (erase_ssts rm st1) (st_id t) = Some t" if "t \<in> set ssts" for t using that by (rule lk(1))
  show "ls_sstables (erase_ssts rm st1) i = ls_sstables (in_state inner) i"
    if "i \<in> set (all_ids (erase_ssts rm st1)) - st_id ` set ssts" for i
    using that i by (intro lk(2)) (auto simp: installs_def)
  show "CompactionController_apply_compaction_result (CompactionController_create (op_compaction_options (in_options inner)))
      (layout (in_options inner) (in_state inner)) task (map st_id ssts) True = Inr (layout (in_options inner) (erase_ssts rm st1), rm)"
    using i ctrl by (simp add: installs_def)
qed (use i r in \<open>auto simp: installs_def ready_def\<close>)

lemma installs_gone:
  assumes i: "installs d inner task ssts st1 rm" and r: "ready E path opts d tables (inner, files) co ssts ess"
  shows "set (map st_id (List.map_filter (ls_sstables st1) (remdups rm))) \<inter> set (all_ids st1) = {}"
proof -
  have fresh: "distinct (map st_id ssts)" "st_id ` set ssts \<inter> set (all_ids (in_state inner)) = {}"
    and inv: "st_inv (ev_ext E) opts (op_target_sst_size opts) tables (in_next_sst_id inner) (in_state inner) co"
    using ready_inv [OF r] by (simp_all add: pending_def)
  have rm: "set rm \<subseteq> set (all_ids (in_state inner))" using i by (simp add: installs_def)
  have "st_id t = j" if "ls_sstables st1 j = Some t" "j \<in> set rm" for j t
  proof -
    have "j \<notin> st_id ` set ssts" using that(2) rm fresh(2) by auto
    then have "ls_sstables (in_state inner) j = Some t"
      using that(1) i lookup_add_ssts(2) [OF fresh(1)] by (simp add: installs_def)
    then show ?thesis using inv by (simp add: st_inv_def)
  qed
  then have "set (map st_id (List.map_filter (ls_sstables st1) (remdups rm))) \<subseteq> set rm"
    by (auto simp: map_filter_def)
  moreover have "set rm \<inter> set (all_ids st1) = {}" using i rm fresh(2) by (fastforce simp: installs_def)
  ultimately show ?thesis by blast
qed

text \<open>The second half is correct if the controller's new state is.\<close>

lemma returns_compaction_install:
  assumes F: "lasting F" "F tables s" and r: "ready E path opts d tables s co ssts ess"
    and ins: "installs d (fst s) task ssts st1 rm"
    and co': "st_inv (ev_ext E) opts (op_target_sst_size opts) tables (in_next_sst_id (fst s)) (erase_ssts rm st1) co'"
  shows "returns (compaction_install E task ssts) s (\<lambda>r s. r \<and> engine_with F E path opts d s (store_view co'))"
proof -
  obtain inner files where s: "s = (inner, files)" by (cases s)
  note r = r [unfolded s] and ins = ins [unfolded s fst_conv] and co' = co' [unfolded s fst_conv]
  have env: "env_inv E tables inner" and o: "in_options inner = opts \<and> in_path inner = path" using r by (auto simp: ready_def eng_inv_iff)
  then have io: "io_works (ev_io E)" by (simp add: env_inv_def)
  let ?inner = "inner\<lparr>in_state := erase_ssts rm st1\<rparr>" and ?H = "\<lambda>s. engine_with F E path opts d s (store_view co')"
  have fin: "?H (?inner\<lparr>in_manifest := man\<rparr>, f)" if "recorded E (Compaction task (map st_id ssts)) ?inner files man f" for man f
  proof (rule engine_withI)
    show "eng_inv E tables (?inner\<lparr>in_manifest := man\<rparr>, f) co'" using env co' o by (simp add: eng_inv_iff)
    show "durable E (?inner\<lparr>in_manifest := man\<rparr>, f)" if d
      using installs_durable [of inner task ssts st1 rm E path opts tables files co ess man f] ins r that
        \<open>recorded E (Compaction task (map st_id ssts)) ?inner files man f\<close> by simp
    show "F tables (?inner\<lparr>in_manifest := man\<rparr>, f)" by (rule lastingD [OF F map_le_refl])
  qed (simp_all add: o)
  have gone: "set (map st_id (List.map_filter (ls_sstables st1) (remdups rm))) \<inter> set (all_ids st1) = {}" by (rule installs_gone [OF ins r])
  have "returns (m_bind (record_in_manifest E (Compaction task (map st_id ssts)))
      (\<lambda>_. m_bind (remove_ssts E (map st_id (List.map_filter (ls_sstables st1) (remdups rm)))) (\<lambda>_. m_return True))) (?inner, files) (\<lambda>r s. r \<and> ?H s)"
    by (rule returns_bind [OF returns_record_in_manifest [OF io, where Q = "\<lambda>_ s. ?H s \<and> in_state (fst s) = erase_ssts rm st1"]])
      (use fin gone in \<open>auto intro!: returns_bind [OF with_remove_ssts [OF F(1)]]\<close>)
  then show ?thesis using ins by (simp add: s compaction_install_def Let_def installs_def)
qed

section \<open>Later states\<close>

text \<open>The state that a compaction finds when it installs its tables: like the snapshot, with newer tables before its runs.\<close>

definition later :: "CompactionOptions \<Rightarrow> (nat \<Rightarrow> entry list list option) \<Rightarrow> LsmStorageState \<Rightarrow> (nat \<Rightarrow> entry list list option) \<Rightarrow> LsmStorageState \<Rightarrow> bool" where
  "later copts tables0 st0 tables st \<longleftrightarrow> tables0 \<subseteq>\<^sub>m tables \<and> (\<forall>i \<in> dom tables0. ls_sstables st i = ls_sstables st0 i) \<and> grown copts st0 st"

lemma extends_later: "extends d tables s tables' s' \<Longrightarrow> in_options (fst s) = opts \<Longrightarrow>
    later (op_compaction_options opts) tables (in_state (fst s)) tables' (in_state (fst s'))"
  by (simp add: extends_def later_def)

lemma later_refl: "later copts tables st tables st"
  by (simp add: later_def)

lemma later_trans:
  assumes "later copts tables0 st0 tables1 st1" and "later copts tables1 st1 tables2 st2"
  shows "later copts tables0 st0 tables2 st2"
proof -
  note a = assms(1) [unfolded later_def] and b = assms(2) [unfolded later_def]
  have "dom tables0 \<subseteq> dom tables1" using a map_le_implies_dom_le by blast
  moreover have "tables0 \<subseteq>\<^sub>m tables2" using a b map_le_trans by blast
  moreover have "grown copts st0 st2" using a b grown_trans by blast
  ultimately show ?thesis using a b unfolding later_def by (simp add: subset_iff)
qed

text \<open>What a table holds is determined by the table.\<close>

lemma sst_entries_unique:
  assumes "sst_entries X tables t es" and "sst_entries X tables t es'"
  shows "es = es'"
proof -
  from assms obtain runs runs' where h: "sst_holds X tables t runs" "sst_holds X tables t runs'" and es: "es = concat runs" "es' = concat runs'"
    by (auto simp: sst_entries_def)
  let ?p = "m_bind (SsTableIterator_create_and_seek_to_first X (Some t)) (drain (SsTableIterator_ops X))"
  obtain c c' where "?p (BlockCache_new 0) = Some (Inr es, c)" "?p (BlockCache_new 0) = Some (Inr es', c')"
    using okD [OF sst_drain_first [OF h(1)] cache_sound_new [of _ 0]] okD [OF sst_drain_first [OF h(2)] cache_sound_new [of _ 0]] es by metis
  then show ?thesis by simp
qed

lemma ids_hold_unique: "ids_hold X tables st ids ess \<Longrightarrow> ids_hold X tables st ids ess' \<Longrightarrow> ess = ess'"
  unfolding ids_hold_def
proof (induction ids arbitrary: ess ess')
  case (Cons i ids)
  then show ?case by (auto simp: list_all2_Cons1 dest: sst_entries_unique)
qed simp

abbreviation levels_hold :: "ext \<Rightarrow> (nat \<Rightarrow> entry list list option) \<Rightarrow> LsmStorageState \<Rightarrow> (nat \<times> nat list) list \<Rightarrow> entry list list list \<Rightarrow> bool" where
  "levels_hold X tables st \<equiv> list_all2 (\<lambda>(_, ids) ess. ids_hold X tables st ids ess \<and> sorted_entries (concat ess))"

abbreviation level_ids :: "(nat \<times> nat list) list \<Rightarrow> nat set" where
  "level_ids levels \<equiv> set (concat (map snd levels))"

lemma levels_hold_unique: "levels_hold X tables st levels esss \<Longrightarrow> levels_hold X tables st levels esss' \<Longrightarrow> esss = esss'"
proof (induction levels arbitrary: esss esss')
  case (Cons lev levels)
  then show ?case by (cases lev) (auto simp: list_all2_Cons1 dest: ids_hold_unique)
qed simp

lemma later_hold:
  assumes inv0: "st_inv X opts b0 tables0 n0 st0 co0" and l: "later copts tables0 st0 tables st"
  shows "ids_hold X tables st (ls_l0_sstables st0) (co_l0 co0)" and "levels_hold X tables st (ls_levels st0) (co_levels co0)"
proof -
  have h: "st_holds X tables0 st0 co0" using inv0 by (simp add: st_inv_def)
  have le: "tables0 \<subseteq>\<^sub>m tables" using l by (simp add: later_def)
  have same: "ls_sstables st i = ls_sstables st0 i" if "i \<in> set (all_ids st0)" for i
    using all_ids_dom [OF inv0] l that by (auto simp: later_def)
  show "ids_hold X tables st (ls_l0_sstables st0) (co_l0 co0)"
    by (rule ids_hold_mono [OF _ le]) (use h same in \<open>auto simp: st_holds_def all_ids_def\<close>)
  show "levels_hold X tables st (ls_levels st0) (co_levels co0)"
    by (rule levels_hold_mono [OF _ le]) (use h same in \<open>auto simp: st_holds_def all_ids_def\<close>)
qed

text \<open>Strategies that flush to level 0: only level 0 has changed, and has new tables in front.\<close>

lemma later_l0:
  assumes inv0: "st_inv X opts b0 tables0 n0 st0 co0" and inv: "st_inv X opts b tables n st co" and l: "later copts tables0 st0 tables st"
    and l0: "CompactionController_flush_to_l0 (CompactionController_create copts)"
  obtains new cnew where "ls_l0_sstables st = new @ ls_l0_sstables st0" and "co_l0 co = cnew @ co_l0 co0" and "ids_hold X tables st new cnew"
    and "ls_levels st = ls_levels st0" and "co_levels co = co_levels co0"
proof -
  have h: "st_holds X tables st co" using inv by (simp add: st_inv_def)
  from l l0 obtain new where new: "ls_l0_sstables st = new @ ls_l0_sstables st0" and lev: "ls_levels st = ls_levels st0"
    by (auto simp: later_def grown_def)
  from h new obtain cnew c0 where c: "co_l0 co = cnew @ c0" "ids_hold X tables st new cnew" "ids_hold X tables st (ls_l0_sstables st0) c0"
    by (auto simp: st_holds_def ids_hold_def list_all2_append1)
  have "c0 = co_l0 co0" by (rule ids_hold_unique [OF c(3) later_hold(1) [OF inv0 l]])
  moreover have "co_levels co = co_levels co0"
    by (rule levels_hold_unique [OF _ later_hold(2) [OF inv0 l]]) (use h lev in \<open>simp add: st_holds_def\<close>)
  ultimately show thesis using that new lev c by blast
qed

text \<open>The tiered strategy: there are new tiers in front.\<close>

lemma later_tiers:
  assumes inv0: "st_inv X opts b0 tables0 n0 st0 co0" and inv: "st_inv X opts b tables n st co" and l: "later copts tables0 st0 tables st"
    and l0: "\<not> CompactionController_flush_to_l0 (CompactionController_create copts)"
  obtains N CN where "ls_levels st = N @ ls_levels st0" and "co_levels co = CN @ co_levels co0" and "levels_hold X tables st N CN"
    and "ls_levels st0 \<noteq> [] \<Longrightarrow> 0 \<notin> fst ` set N"
proof -
  have h: "levels_hold X tables st (ls_levels st) (co_levels co)" using inv by (simp add: st_inv_def st_holds_def)
  from l l0 obtain N where N: "ls_levels st = N @ ls_levels st0" "ls_levels st0 \<noteq> [] \<longrightarrow> 0 \<notin> fst ` set N"
    unfolding later_def grown_def by (simp only: if_False) blast
  from h N(1) obtain CN c0 where c: "co_levels co = CN @ c0" "levels_hold X tables st N CN" "levels_hold X tables st (ls_levels st0) c0"
    by (auto simp: list_all2_append1)
  have "c0 = co_levels co0" by (rule levels_hold_unique [OF c(3) later_hold(2) [OF inv0 l]])
  then show thesis using that N c by blast
qed

section \<open>Waiting tables\<close>

text \<open>What is known between the two halves of a compaction, for all steps that others may take: the tables \<open>ssts\<close> hold the merge of
  runs \<open>xss\<close> that a snapshot had, and the present state came out of the snapshot. \<open>G\<close> says how snapshot and runs belong together.\<close>

definition waiting :: "env \<Rightarrow> LsmStorageOptions \<Rightarrow> bool \<Rightarrow> bool \<Rightarrow> SsTable list \<Rightarrow>
    ((nat \<Rightarrow> entry list list option) \<Rightarrow> LsmStorageState \<Rightarrow> entry list list \<Rightarrow> bool) \<Rightarrow> (nat \<Rightarrow> entry list list option) \<Rightarrow> engine \<Rightarrow> bool" where
  "waiting E opts d bottom ssts G tables s \<longleftrightarrow> in_options (fst s) = opts \<and>
     (\<exists>ess tables0 st0 xss. pending (ev_ext E) tables (in_state (fst s)) ssts ess \<and>
        (d \<longrightarrow> (\<forall>t \<in> set ssts. on_disk E (fst s) (snd s) t)) \<and> later (op_compaction_options opts) tables0 st0 tables (in_state (fst s)) \<and>
        concat ess = kept bottom (merge_runs xss) \<and> G tables0 st0 xss)"

lemma steady_waiting: "steady d (waiting E opts d bottom ssts G)"
  unfolding steady_def
proof (intro allI impI)
  fix tables s tables' s' assume w: "waiting E opts d bottom ssts G tables s" and x: "extends d tables s tables' s'"
  note ext = x [unfolded extends_def]
  from w obtain ess tables0 st0 xss where p: "pending (ev_ext E) tables (in_state (fst s)) ssts ess"
    and disk: "d \<longrightarrow> (\<forall>t \<in> set ssts. on_disk E (fst s) (snd s) t)" and l: "later (op_compaction_options opts) tables0 st0 tables (in_state (fst s))"
    and rest: "in_options (fst s) = opts" "concat ess = kept bottom (merge_runs xss)" "G tables0 st0 xss" unfolding waiting_def by blast
  have "list_all2 (sst_entries (ev_ext E) tables') ssts ess"
    using p ext sst_entries_mono by (auto simp: pending_def elim: list_all2_mono)
  then have "pending (ev_ext E) tables' (in_state (fst s')) ssts ess"
    using p ext map_le_implies_dom_le [of tables tables'] unfolding pending_def by blast
  moreover have "on_disk E (fst s') (snd s') t" if d "t \<in> set ssts" for t
  proof -
    have od: "on_disk E (fst s) (snd s) t" and same: "in_path (fst s') = in_path (fst s)" using disk ext that by simp_all
    have "st_id t \<in> dom tables" using p that(2) by (auto simp: pending_def)
    then have "snd s' (path_of_sst_val (fst s) (st_id t)) = snd s (path_of_sst_val (fst s) (st_id t))" using ext that(1) by simp
    then show ?thesis using od on_disk_cong [OF same, of "snd s'" t "snd s" E] by simp
  qed
  moreover have "later (op_compaction_options opts) tables0 st0 tables' (in_state (fst s'))"
    by (rule later_trans [OF l extends_later [OF x rest(1)]])
  moreover have "in_options (fst s') = opts" using ext rest(1) by simp
  ultimately show "waiting E opts d bottom ssts G tables' s'" using rest unfolding waiting_def by blast
qed

lemma waiting_ready:
  assumes "engine_with (\<lambda>tables s. F tables s \<and> waiting E opts d bottom ssts G tables s) E path opts d s M"
  obtains tables co ess tables0 st0 xss where "ready E path opts d tables s co ssts ess" and "M = store_view co" and "F tables s"
    and "later (op_compaction_options opts) tables0 st0 tables (in_state (fst s))" and "concat ess = kept bottom (merge_runs xss)" and "G tables0 st0 xss"
  using assms unfolding engine_with_def waiting_def ready_def by blast

text \<open>The first half of a compaction.\<close>

lemma returns_compact_waiting:
  assumes F: "lasting F" "F tables s" and h: "eng_inv E tables s co" "in_options (fst s) = opts" "in_path (fst s) = path" "d \<longrightarrow> durable E s"
    and input: "task_input (ev_ext E) tables (in_state (fst s)) task xss" and G: "G tables (in_state (fst s)) xss"
  shows "returns (LsmStorageInner_compact E task) s (\<lambda>ssts s'. engine_with (\<lambda>tables s. F tables s \<and>
      waiting E opts d (CompactionTask_compact_to_bottom_level task) ssts G tables s) E path opts d s' (store_view co) \<and>
    in_state (fst s') = in_state (fst s))"
proof (rule returns_weaken [OF returns_compact_ready [OF h input]], elim exE conjE)
  fix ssts s' tables' ess
  assume r: "ready E path opts d tables' s' co ssts ess" and le: "tables \<subseteq>\<^sub>m tables'"
    and eq: "concat ess = kept (CompactionTask_compact_to_bottom_level task) (merge_runs xss)" and same: "in_state (fst s') = in_state (fst s)"
  have "later (op_compaction_options opts) tables (in_state (fst s)) tables' (in_state (fst s'))" using le by (simp add: later_def same)
  then have "waiting E opts d (CompactionTask_compact_to_bottom_level task) ssts G tables' s'"
    using r eq G unfolding waiting_def ready_def by blast
  moreover have "F tables' s'" by (rule lastingD [OF F le])
  ultimately show "engine_with (\<lambda>tables s. F tables s \<and> waiting E opts d (CompactionTask_compact_to_bottom_level task) ssts G tables s)
      E path opts d s' (store_view co) \<and> in_state (fst s') = in_state (fst s)"
    using r same unfolding engine_with_def ready_def by blast
qed

section \<open>What a strategy has to provide\<close>

text \<open>A task that was made for the state \<open>st0\<close> and merges \<open>xss\<close> can be carried out in every later state, and keeps what is read.\<close>

definition works :: "env \<Rightarrow> string \<Rightarrow> LsmStorageOptions \<Rightarrow> bool \<Rightarrow> CompactionTask \<Rightarrow> (nat \<Rightarrow> entry list list option) \<Rightarrow> LsmStorageState \<Rightarrow>
    entry list list \<Rightarrow> bool" where
  "works E path opts d task tables0 st0 xss \<longleftrightarrow> (\<forall>tables s co ssts ess. ready E path opts d tables s co ssts ess \<longrightarrow>
     later (op_compaction_options opts) tables0 st0 tables (in_state (fst s)) \<longrightarrow>
     concat ess = kept (CompactionTask_compact_to_bottom_level task) (merge_runs xss) \<longrightarrow>
     (\<exists>st1 rm co'. installs d (fst s) task ssts st1 rm \<and>
        st_inv (ev_ext E) opts (op_target_sst_size opts) tables (in_next_sst_id (fst s)) (erase_ssts rm st1) co' \<and> store_view co' = store_view co))"

text \<open>A task and the tables made for it, waiting to be installed.\<close>

abbreviation in_progress :: "env \<Rightarrow> string \<Rightarrow> LsmStorageOptions \<Rightarrow> bool \<Rightarrow> CompactionTask \<Rightarrow> SsTable list \<Rightarrow> (nat \<Rightarrow> entry list list option) \<Rightarrow> engine \<Rightarrow> bool" where
  "in_progress E path opts d task ssts \<equiv> waiting E opts d (CompactionTask_compact_to_bottom_level task) ssts (works E path opts d task)"

lemma returns_install_waiting:
  assumes F: "lasting F" and h: "engine_with (\<lambda>tables s. F tables s \<and> in_progress E path opts d task ssts tables s) E path opts d s M"
  shows "returns (compaction_install E task ssts) s (\<lambda>r s. r \<and> engine_with F E path opts d s M)"
  using h
proof (rule waiting_ready)
  fix tables co ess tables0 st0 xss
  assume r: "ready E path opts d tables s co ssts ess" and M: "M = store_view co" and f: "F tables s"
    and "later (op_compaction_options opts) tables0 st0 tables (in_state (fst s))"
    and "concat ess = kept (CompactionTask_compact_to_bottom_level task) (merge_runs xss)" and "works E path opts d task tables0 st0 xss"
  then obtain st1 rm co' where "installs d (fst s) task ssts st1 rm" "store_view co' = store_view co"
    "st_inv (ev_ext E) opts (op_target_sst_size opts) tables (in_next_sst_id (fst s)) (erase_ssts rm st1) co'"
    unfolding works_def by blast
  with returns_compaction_install [OF F f r] show ?thesis unfolding M by metis
qed

locale compaction_strategy =
  fixes E :: env and path :: string and opts :: LsmStorageOptions and d :: bool and P :: "LsmStorageState \<Rightarrow> bool"
  assumes plan: "st_inv (ev_ext E) opts b tables n st co \<Longrightarrow> P st \<Longrightarrow>
    \<exists>task_opt. CompactionController_generate_compaction_task (CompactionController_create (op_compaction_options opts)) st = Inr task_opt \<and>
      (\<forall>task. task_opt = Some task \<longrightarrow> (\<exists>xss. task_input (ev_ext E) tables st task xss \<and> works E path opts d task tables st xss))"
begin

lemma begin_compaction:
  assumes F: "lasting F" and h: "engine_with F E path opts d s M" and P: "P (in_state (fst s))"
  shows "returns (compaction_begin E) s (\<lambda>started s'. engine_with F E path opts d s' M \<and> (\<forall>task ssts. started = Some (task, ssts) \<longrightarrow>
    engine_with (\<lambda>tables s. F tables s \<and> in_progress E path opts d task ssts tables s) E path opts d s' M))"
proof -
  obtain inner files where s: "s = (inner, files)" by (cases s)
  from h obtain tables co where e: "eng_inv E tables s co" "in_options (fst s) = opts" "in_path (fst s) = path" "d \<longrightarrow> durable E s"
    and f: "F tables s" and M: "M = store_view co" unfolding engine_with_def by blast
  have ctrl: "in_compaction_controller inner = CompactionController_create (op_compaction_options opts)"
    and inv: "st_inv (ev_ext E) opts (op_target_sst_size opts) tables (in_next_sst_id inner) (in_state inner) co"
    using e(1,2) by (auto simp: s eng_inv_def)
  from plan [OF inv] P obtain task_opt where
    gen: "CompactionController_generate_compaction_task (in_compaction_controller inner) (in_state inner) = Inr task_opt"
    and task: "\<And>task. task_opt = Some task \<Longrightarrow> \<exists>xss. task_input (ev_ext E) tables (in_state inner) task xss \<and> works E path opts d task tables (in_state inner) xss"
    by (auto simp: s ctrl)
  show ?thesis
  proof (cases task_opt)
    case None
    then show ?thesis using h gen by (simp add: s compaction_begin_def returns_def)
  next
    case (Some t)
    from task [OF Some] obtain xss where xss: "task_input (ev_ext E) tables (in_state (fst s)) t xss" "works E path opts d t tables (in_state (fst s)) xss"
      by (auto simp: s)
    have "engine_with F E path opts d s' M" if "engine_with (\<lambda>tables s. F tables s \<and> G tables s) E path opts d s' M" for s' G
      using that unfolding engine_with_def by blast
    then have "returns (m_bind (LsmStorageInner_compact E t) (\<lambda>sstables. m_return (Some (t, sstables)))) s (\<lambda>started s'.
        engine_with F E path opts d s' M \<and> (\<forall>task ssts. started = Some (task, ssts) \<longrightarrow>
        engine_with (\<lambda>tables s. F tables s \<and> in_progress E path opts d task ssts tables s) E path opts d s' M))"
      by (intro returns_bind [OF returns_compact_waiting [where G = "works E path opts d t", OF F f e xss]]) (auto simp: M)
    then show ?thesis using gen Some by (simp add: s compaction_begin_def)
  qed
qed

lemma compaction:
  assumes F: "lasting F" and h: "engine_with F E path opts d s M" and P: "P (in_state (fst s))"
  shows "returns (LsmStorageInner_trigger_compaction E) s (\<lambda>_ s. engine_with F E path opts d s M)"
  unfolding LsmStorageInner_trigger_compaction_def
proof (rule returns_bind [OF begin_compaction [OF F h P]], elim conjE)
  fix started s' assume "engine_with F E path opts d s' M" "\<forall>task ssts. started = Some (task, ssts) \<longrightarrow>
    engine_with (\<lambda>tables s. F tables s \<and> in_progress E path opts d task ssts tables s) E path opts d s' M"
  then show "returns (case started of None \<Rightarrow> m_return False | Some (task, sstables) \<Rightarrow> compaction_install E task sstables) s'
      (\<lambda>_ s. engine_with F E path opts d s M)"
    by (cases started) (auto intro: returns_weaken [OF returns_install_waiting [OF F]])
qed

text \<open>Whatever else happens between the two halves, as long as it keeps every steady relation to the state before.\<close>

lemma overlapping_compaction:
  assumes h: "engine_holds E path opts d s M" and P: "P (in_state (fst s))"
    and other: "\<And>F s. steady d F \<Longrightarrow> engine_with F E path opts d s M \<Longrightarrow> returns other s (\<lambda>x s'. engine_with F E path opts d s' (M' x) \<and> A x)"
  shows "returns (m_bind (compaction_begin E) (\<lambda>started. m_bind other (\<lambda>x. case started of None \<Rightarrow> m_return x
      | Some (task, ssts) \<Rightarrow> m_bind (compaction_install E task ssts) (\<lambda>_. m_return x)))) s (\<lambda>x s'. engine_holds E path opts d s' (M' x) \<and> A x)"
proof -
  have h: "engine_with (\<lambda>_ _. True) E path opts d s M" using h by (simp add: engine_with_True)
  show ?thesis
  proof (rule returns_bind [OF begin_compaction [OF lasting_True h P]], elim conjE)
    fix started s1
    assume a: "engine_with (\<lambda>_ _. True) E path opts d s1 M" "\<forall>task ssts. started = Some (task, ssts) \<longrightarrow>
      engine_with (\<lambda>tables s. True \<and> in_progress E path opts d task ssts tables s) E path opts d s1 M"
    show "returns (m_bind other (\<lambda>x. case started of None \<Rightarrow> m_return x
        | Some (task, ssts) \<Rightarrow> m_bind (compaction_install E task ssts) (\<lambda>_. m_return x))) s1 (\<lambda>x s'. engine_holds E path opts d s' (M' x) \<and> A x)"
    proof (cases started)
      case None
      then show ?thesis using returns_bind [OF other [OF steady_True a(1)], of m_return] by (simp add: engine_with_True)
    next
      case (Some ts)
      obtain task ssts where ts: "ts = (task, ssts)" by (cases ts)
      have "engine_with (in_progress E path opts d task ssts) E path opts d s1 M" using a(2) by (simp add: Some ts)
      then have "returns (m_bind other (\<lambda>x. m_bind (compaction_install E task ssts) (\<lambda>_. m_return x))) s1
          (\<lambda>x s'. engine_with (\<lambda>_ _. True) E path opts d s' (M' x) \<and> A x)"
        by (intro returns_bind [OF other [OF steady_waiting]] returns_bind [OF returns_install_waiting [OF lasting_True]]) auto
      then show ?thesis by (simp add: Some ts engine_with_True)
    qed
  qed
qed

end

section \<open>Replacing levels\<close>

lemma installed_levels:
  assumes "pending X tables st ssts nss" and "installed st ssts rm st'" "set rm \<subseteq> set (all_ids st)"
    and "levels_hold X tables st levels esss" and "level_ids levels \<subseteq> set (all_ids st) - set rm"
  shows "levels_hold X tables st' levels esss"
  using assms(4)
  by (rule list.rel_mono_strong) (use assms(5) in \<open>fastforce intro: installed_hold(2) [OF assms(1-3)]\<close>)

lemma distinct_replaced:
  assumes "distinct (U @ P @ S)" and "distinct N" and "distinct Q" and "set U \<inter> set Q = {}" and "(set P \<union> set S) \<inter> set Q = {}"
    and "set N \<inter> (set U \<union> set P \<union> set S \<union> set Q) = {}"
  shows "distinct (U @ (P @ N @ S) @ Q)"
  using assms by auto

text \<open>A level and whatever lies above it replaced: the upper levels \<open>A\<close> become \<open>A'\<close>, level 0 becomes \<open>l0'\<close>;
  of the level itself the tables \<open>P\<close> and \<open>S\<close> stay, and the output comes between them.\<close>

lemma replace_part:
  assumes inv: "st_inv X opts b tables n st co" and pend: "pending X tables st ssts nss"
    and lev: "ls_levels st = A @ (l, lower) # B" "co_levels co = CA @ low # CB" "length CA = length A"
    and st1: "ls_levels st1 = A' @ (l', P @ map st_id ssts @ S) # B" "ls_l0_sstables st1 = l0'" "ls_memtable st1 = ls_memtable st"
      "ls_imm_memtables st1 = ls_imm_memtables st" "ls_sstables st1 = ls_sstables (add_ssts ssts st)"
    and up: "levels_hold X tables st A' CA'" "ids_hold X tables st l0' czero"
    and part: "ids_hold X tables st P pe" "ids_hold X tables st S se" "sorted_entries (concat pe @ concat nss @ concat se)"
    and rm: "set rm \<subseteq> set (all_ids st)" "set rm \<inter> (set l0' \<union> level_ids A' \<union> set P \<union> set S \<union> level_ids B) = {}"
    and ids: "distinct (l0' @ concat (map snd A') @ P @ S)" "set l0' \<union> level_ids A' \<subseteq> set (ls_l0_sstables st) \<union> level_ids A"
      "set P \<union> set S \<subseteq> set lower"
    and view: "runs_value (czero @ map concat CA' @ [concat pe @ concat nss @ concat se] @ map concat CB) =
      runs_value (co_l0 co @ map concat (co_levels co))"
    and shape: "shape_ok (op_compaction_options opts) st1"
  shows "\<exists>co'. st_inv X opts b tables n (erase_ssts rm st1) co' \<and> store_view co' = store_view co"
proof -
  let ?st' = "erase_ssts rm st1"
  have i: "installed st ssts rm ?st'" using st1 by (intro installed_erase)
  have h: "st_holds X tables st co" and d: "distinct (all_ids st)" using inv by (simp_all add: st_inv_def)
  have hB: "levels_hold X tables st B CB" using h lev by (simp add: st_holds_def list_all2_append)
  have sub: "set l0' \<union> level_ids A' \<union> level_ids B \<subseteq> set (all_ids st) - set rm" "set P \<subseteq> set (all_ids st) - set rm" "set S \<subseteq> set (all_ids st) - set rm"
    using ids(2,3) rm(2) by (auto simp: all_ids_def lev)
  define co' where "co' = co\<lparr>co_l0 := czero, co_levels := CA' @ (pe @ nss @ se) # CB\<rparr>"
  note hold = installed_hold [OF pend i rm(1)]
  have "ids_hold X tables ?st' (P @ map st_id ssts @ S) (pe @ nss @ se)"
    using hold(1) hold(2) [OF part(1) sub(2)] hold(2) [OF part(2) sub(3)] unfolding ids_hold_def by (intro list_all2_appendI)
  moreover have "sorted_entries (concat (pe @ nss @ se))" using part(3) by simp
  moreover have "ids_hold X tables ?st' l0' czero" using up(2) sub(1) by (intro hold(2)) auto
  moreover have "levels_hold X tables ?st' A' CA'" "levels_hold X tables ?st' B CB"
    using installed_levels [OF pend i rm(1) up(1)] installed_levels [OF pend i rm(1) hB] sub(1) by simp_all
  ultimately have "st_holds X tables ?st' co'"
    using h by (simp add: st_holds_def st1 co'_def list_all2_appendI)
  moreover have "distinct (all_ids ?st')"
  proof -
    have dB: "distinct (concat (map snd B))" "(set (ls_l0_sstables st) \<union> level_ids A \<union> set lower) \<inter> level_ids B = {}"
      using d by (auto simp: all_ids_def lev)
    have fresh: "distinct (map st_id ssts)" "st_id ` set ssts \<inter> set (all_ids st) = {}" using pend by (simp_all add: pending_def)
    have "distinct ((l0' @ concat (map snd A')) @ (P @ map st_id ssts @ S) @ concat (map snd B))"
    proof (rule distinct_replaced)
      show "distinct ((l0' @ concat (map snd A')) @ P @ S)" using ids(1) by (simp only: append_assoc)
      show "set (l0' @ concat (map snd A')) \<inter> level_ids B = {}" unfolding set_append using dB(2) ids(2) by blast
      show "(set P \<union> set S) \<inter> level_ids B = {}" using dB(2) ids(3) by blast
      show "set (map st_id ssts) \<inter> (set (l0' @ concat (map snd A')) \<union> set P \<union> set S \<union> level_ids B) = {}"
        unfolding set_append set_map using fresh(2) sub by blast
    qed (rule fresh(1), rule dB(1))
    then show ?thesis by (simp add: all_ids_def st1)
  qed
  moreover have "shape_ok (op_compaction_options opts) ?st'" using shape by (simp add: erase_ssts_def)
  ultimately have "st_inv X opts b tables n ?st' co'" by (intro installed_inv [OF inv pend i rm(1)]) (simp_all add: lev)
  moreover have "runs_value (co_mems co @ czero @ map concat CA' @ [concat pe @ concat nss @ concat se] @ map concat CB) =
      runs_value (co_mems co @ co_l0 co @ map concat (co_levels co))"
    unfolding runs_value_append [of "co_mems co"] view ..
  then have "store_view co' = store_view co" by (simp add: store_view_runs lsm_runs_def co'_def)
  ultimately show ?thesis by blast
qed

text \<open>The whole level replaced.\<close>

lemma replace_level:
  assumes inv: "st_inv X opts b tables n st co" and pend: "pending X tables st ssts nss"
    and lev: "ls_levels st = A @ (l, lower) # B" "co_levels co = CA @ low # CB" "length CA = length A"
    and st1: "ls_levels st1 = A' @ (l', map st_id ssts) # B" "ls_l0_sstables st1 = l0'" "ls_memtable st1 = ls_memtable st"
      "ls_imm_memtables st1 = ls_imm_memtables st" "ls_sstables st1 = ls_sstables (add_ssts ssts st)"
    and up: "levels_hold X tables st A' CA'" "ids_hold X tables st l0' czero"
    and rm: "set rm \<subseteq> set (all_ids st)" "set rm \<inter> (set l0' \<union> level_ids A' \<union> level_ids B) = {}"
    and ids: "distinct (l0' @ concat (map snd A'))" "set l0' \<union> level_ids A' \<subseteq> set (ls_l0_sstables st) \<union> level_ids A"
    and out: "concat nss = kept bottom (merge_runs xss)" "\<And>xs. xs \<in> set xss \<Longrightarrow> sorted_entries xs"
    and view: "runs_value (czero @ map concat CA' @ [kept bottom (merge_runs xss)] @ map concat CB) = runs_value (co_l0 co @ map concat (co_levels co))"
    and shape: "shape_ok (op_compaction_options opts) st1"
  shows "\<exists>co'. st_inv X opts b tables n (erase_ssts rm st1) co' \<and> store_view co' = store_view co"
proof (rule replace_part [OF inv pend lev _ st1(2-5) up, where P = "[]" and S = "[]" and pe = "[]" and se = "[]"])
  show "sorted_entries (concat [] @ concat nss @ concat [])" using sorted_kept [OF sorted_merge_runs [OF out(2)]] by (simp add: out(1))
qed (use st1(1) rm ids view shape in \<open>simp_all add: ids_hold_def out(1)\<close>)

lemma add_ssts_fields [simp]:
  "ls_levels (add_ssts ssts st) = ls_levels st" "ls_l0_sstables (add_ssts ssts st) = ls_l0_sstables st"
  "ls_memtable (add_ssts ssts st) = ls_memtable st" "ls_imm_memtables (add_ssts ssts st) = ls_imm_memtables st"
  by (simp_all add: add_ssts_def)

text \<open>The older part of level 0 merged into the first level.\<close>

lemma l0_install:
  assumes inv: "st_inv X opts b tables n st co" and pend: "pending X tables st ssts nss"
    and lev: "ls_levels st = (l, lower) # B" "co_levels co = low # CB"
    and l0: "ls_l0_sstables st = new @ old" "co_l0 co = cnew @ cold" "ids_hold X tables st new cnew"
    and out: "concat nss = kept bottom (merge_runs (cold @ [concat low]))" and bottom: "bottom \<Longrightarrow> B = []"
    and shape: "shape_ok (op_compaction_options opts) ((add_ssts ssts st)\<lparr>ls_l0_sstables := new, ls_levels := (l, map st_id ssts) # B\<rparr>)"
  shows "\<exists>co'. st_inv X opts b tables n
      (erase_ssts (old @ lower) ((add_ssts ssts st)\<lparr>ls_l0_sstables := new, ls_levels := (l, map st_id ssts) # B\<rparr>)) co' \<and>
    store_view co' = store_view co"
proof (rule replace_level [OF inv pend, where A = "[]" and CA = "[]" and B = B and CB = CB and lower = lower and low = low
      and A' = "[]" and CA' = "[]" and l0' = new and czero = cnew and bottom = bottom and xss = "cold @ [concat low]"])
  have h: "st_holds X tables st co" and d: "distinct (all_ids st)" using inv by (simp_all add: st_inv_def)
  show sorted: "sorted_entries xs" if "xs \<in> set (cold @ [concat low])" for xs
    using that st_holds_sorted [OF h] lev l0 by (auto simp: lsm_runs_def)
  have "length CB = length B" using h lev by (auto simp: st_holds_def dest: list_all2_lengthD)
  then have "runs_value (cnew @ [kept bottom (merge_runs (cold @ [concat low]))] @ map concat CB) =
      runs_value (cnew @ (cold @ [concat low]) @ map concat CB)"
    by (intro runs_value_compact [OF sorted]) (use bottom in auto)
  then show "runs_value (cnew @ map concat [] @ [kept bottom (merge_runs (cold @ [concat low]))] @ map concat CB) =
      runs_value (co_l0 co @ map concat (co_levels co))" by (simp add: lev l0)
  show "set (old @ lower) \<inter> (set new \<union> level_ids [] \<union> level_ids B) = {}" "distinct (new @ concat (map snd []))"
    using d by (auto simp: all_ids_def lev l0)
qed (use lev l0 out shape in \<open>auto simp: all_ids_def\<close>)

section \<open>Full compaction\<close>

definition full_snapshot :: "ext \<Rightarrow> LsmStorageOptions \<Rightarrow> nat list \<Rightarrow> nat list \<Rightarrow> (nat \<Rightarrow> entry list list option) \<Rightarrow> LsmStorageState \<Rightarrow> entry list list \<Rightarrow> bool" where
  "full_snapshot X opts l0 l1 tables0 st0 xss \<longleftrightarrow> (\<exists>b n co l ess. st_inv X opts b tables0 n st0 co \<and> ls_l0_sstables st0 = l0 \<and>
     ls_levels st0 = [(l, l1)] \<and> co_levels co = [ess] \<and> xss = co_l0 co @ [concat ess])"

lemma full_state_installed:
  assumes "distinct (map st_id ssts)" and "st_id ` set ssts \<inter> (set l0 \<union> set l1) = {}"
    and "ls_levels st = [(l, l1)]" and "ls_l0_sstables st = new @ l0" and "distinct (new @ l0)"
  shows "full_state l0 l1 ssts st = erase_ssts (l0 @ l1) ((add_ssts ssts st)\<lparr>ls_l0_sstables := new, ls_levels := [(l, map st_id ssts)]\<rparr>)"
proof -
  let ?st = "erase_ssts l1 (erase_ssts l0 st)"
  have "ls_sstables (add_ssts ssts ?st) i = (if i \<in> set (l0 @ l1) then None else ls_sstables (add_ssts ssts st) i)" for i
  proof (cases "i \<in> st_id ` set ssts")
    case True
    then obtain t where "t \<in> set ssts" "i = st_id t" by blast
    then show ?thesis using lookup_add_ssts(1) [OF assms(1)] assms(2) by auto
  next
    case False
    then show ?thesis using lookup_add_ssts(2) [OF assms(1) False] by (simp add: erase_ssts_def)
  qed
  then have ss: "ls_sstables (add_ssts ssts ?st) = (\<lambda>i. if i \<in> set (l0 @ l1) then None else ls_sstables (add_ssts ssts st) i)" by blast
  have "filter (\<lambda>x. x \<notin> set l0) (new @ l0) = new" using assms(5) by (auto simp: filter_empty_conv intro!: filter_True)
  then show ?thesis using ss assms(3,4)
    by (intro LsmStorageState.equality) (simp_all add: full_state_def Let_def erase_ssts_def [of "l0 @ l1"] cong: if_cong)
qed

lemma full_replay:
  assumes "ls_levels st = [(l, l1)]" and "ls_l0_sstables st = new @ l0" and "distinct (new @ l0)" and "op_compaction_options opts = NoCompaction"
  shows "CompactionController_apply_compaction_result (CompactionController_create (op_compaction_options opts)) (layout opts st)
      (TaskForceFull \<lparr>ff_l0_sstables = l0, ff_l1_sstables = l1\<rparr>) out True =
    Inr (layout opts ((st' st)\<lparr>ls_l0_sstables := new, ls_levels := [(l, out)]\<rparr>), l0 @ l1)"
proof -
  have "filter (\<lambda>x. x \<notin> set l0) (new @ l0) = new" using assms(3) by (auto simp: filter_empty_conv intro!: filter_True)
  then show ?thesis using assms(1,2,4)
    by (simp add: CompactionController_apply_compaction_result_def CompactionController_force_full_def Let_def layout_def
        CompactionController_create_def LsmStorageState_create_def fun_eq_iff)
qed

lemma full_install_state:
  assumes r: "ready E path opts d tables (inner, files) co ssts nss" and kind: "op_compaction_options opts = NoCompaction"
    and l: "later (op_compaction_options opts) tables0 st0 tables (in_state inner)" "concat nss = kept True (merge_runs xss)"
      "full_snapshot (ev_ext E) opts l0 l1 tables0 st0 xss"
  obtains new l co' where "ls_l0_sstables (in_state inner) = new @ l0" and "ls_levels (in_state inner) = [(l, l1)]"
    and "full_state l0 l1 ssts (in_state inner) = erase_ssts (l0 @ l1) ((add_ssts ssts (in_state inner))\<lparr>ls_l0_sstables := new, ls_levels := [(l, map st_id ssts)]\<rparr>)"
    and "st_inv (ev_ext E) opts (op_target_sst_size opts) tables (in_next_sst_id inner) (full_state l0 l1 ssts (in_state inner)) co'"
    and "store_view co' = store_view co"
proof -
  let ?st = "in_state inner"
  have inv: "st_inv (ev_ext E) opts (op_target_sst_size opts) tables (in_next_sst_id inner) ?st co" and pend: "pending (ev_ext E) tables ?st ssts nss"
    using ready_inv [OF r] by simp_all
  from l(3) obtain b n co0 lv ess where inv0: "st_inv (ev_ext E) opts b tables0 n st0 co0"
    and st0: "ls_l0_sstables st0 = l0" "ls_levels st0 = [(lv, l1)]" "co_levels co0 = [ess]" and xss: "xss = co_l0 co0 @ [concat ess]"
    unfolding full_snapshot_def by blast
  have "CompactionController_flush_to_l0 (CompactionController_create (op_compaction_options opts))"
    by (simp add: kind CompactionController_flush_to_l0_def CompactionController_create_def)
  from later_l0 [OF inv0 inv l(1) this] obtain new cnew where
    new: "ls_l0_sstables ?st = new @ l0" "co_l0 co = cnew @ co_l0 co0" "ids_hold (ev_ext E) tables ?st new cnew"
    and lev: "ls_levels ?st = [(lv, l1)]" "co_levels co = [ess]" unfolding st0 by blast
  have eq: "full_state l0 l1 ssts ?st = erase_ssts (l0 @ l1) ((add_ssts ssts ?st)\<lparr>ls_l0_sstables := new, ls_levels := [(lv, map st_id ssts)]\<rparr>)"
    by (rule full_state_installed [OF _ _ lev(1) new(1)]) (use pend inv in \<open>auto simp: pending_def st_inv_def all_ids_def new(1) lev(1)\<close>)
  from l0_install [OF inv pend lev new l(2) [unfolded xss]] obtain co' where
    "st_inv (ev_ext E) opts (op_target_sst_size opts) tables (in_next_sst_id inner) (full_state l0 l1 ssts ?st) co'" "store_view co' = store_view co"
    unfolding eq by (auto simp: kind shape_ok_def)
  then show thesis using that new(1) lev(1) eq by blast
qed

lemma full_install_durable:
  assumes dur: "durable E (inner, files)" and disk: "\<forall>t \<in> set ssts. on_disk E inner files t" and kind: "op_compaction_options (in_options inner) = NoCompaction"
    and pend: "pending X tables (in_state inner) ssts nss" and d: "distinct (all_ids (in_state inner))"
    and st: "ls_l0_sstables (in_state inner) = new @ l0" "ls_levels (in_state inner) = [(l, l1)]"
      "full_state l0 l1 ssts (in_state inner) = erase_ssts (l0 @ l1) ((add_ssts ssts (in_state inner))\<lparr>ls_l0_sstables := new, ls_levels := [(l, map st_id ssts)]\<rparr>)"
    and rec: "recorded E (Compaction (TaskForceFull \<lparr>ff_l0_sstables = l0, ff_l1_sstables = l1\<rparr>) (map st_id ssts))
      (inner\<lparr>in_state := full_state l0 l1 ssts (in_state inner)\<rparr>) files man files'"
  shows "durable E (inner\<lparr>in_state := full_state l0 l1 ssts (in_state inner), in_manifest := man\<rparr>, files')"
proof (rule durable_install [OF dur disk _ _ _ _ _ _ rec])
  let ?st = "in_state inner" and ?st1 = "(add_ssts ssts (in_state inner))\<lparr>ls_l0_sstables := new, ls_levels := [(l, map st_id ssts)]\<rparr>"
  have inst: "installed ?st ssts (l0 @ l1) (full_state l0 l1 ssts ?st)" unfolding st(3) by (rule installed_erase) simp_all
  have rm: "set (l0 @ l1) \<subseteq> set (all_ids ?st)" by (auto simp: all_ids_def st)
  have ids: "all_ids (full_state l0 l1 ssts ?st) = new @ map st_id ssts" by (simp add: st(3)) (simp add: all_ids_def)
  have new: "set new \<subseteq> set (all_ids ?st) - set (l0 @ l1)" using d by (auto simp: all_ids_def st)
  note lk = installed_lookup [OF pend inst rm]
  show "ls_sstables (full_state l0 l1 ssts ?st) (st_id t) = Some t" if "t \<in> set ssts" for t using that by (rule lk(1))
  show "ls_sstables (full_state l0 l1 ssts ?st) i = ls_sstables ?st i" if "i \<in> set (all_ids (full_state l0 l1 ssts ?st)) - st_id ` set ssts" for i
    by (rule lk(2)) (use that new in \<open>auto simp: ids\<close>)
  show "set (all_ids (full_state l0 l1 ssts ?st)) \<subseteq> set (all_ids ?st) \<union> st_id ` set ssts" using new by (auto simp: ids)
  have "distinct (new @ l0)" using d by (auto simp: all_ids_def st)
  from full_replay [OF st(2,1) this kind, of "map st_id ssts" "add_ssts ssts"]
  show "CompactionController_apply_compaction_result (CompactionController_create (op_compaction_options (in_options inner)))
      (layout (in_options inner) ?st) (TaskForceFull \<lparr>ff_l0_sstables = l0, ff_l1_sstables = l1\<rparr>) (map st_id ssts) True =
    Inr (layout (in_options inner) (full_state l0 l1 ssts ?st), l0 @ l1)" by (simp add: st(3))
qed (simp_all add: st(3))

lemma with_full_install:
  assumes F: "lasting F" and kind: "op_compaction_options opts = NoCompaction"
    and h: "engine_with (\<lambda>tables s. F tables s \<and> waiting E opts d True ssts (full_snapshot (ev_ext E) opts l0 l1) tables s) E path opts d s M"
  shows "returns (full_install E l0 l1 ssts) s (\<lambda>_ s'. engine_with F E path opts d s' M \<and>
    ls_l0_sstables (in_state (fst s)) = ls_l0_sstables (in_state (fst s')) @ l0)"
  using h
proof (rule waiting_ready)
  fix tables co nss tables0 st0 xss
  assume r': "ready E path opts d tables s co ssts nss" and M: "M = store_view co" and f: "F tables s"
    and l': "later (op_compaction_options opts) tables0 st0 tables (in_state (fst s))" "concat nss = kept True (merge_runs xss)"
      "full_snapshot (ev_ext E) opts l0 l1 tables0 st0 xss"
  obtain inner files where s: "s = (inner, files)" by (cases s)
  note r = r' [unfolded s] and l = l' [unfolded s fst_conv]
  have env: "env_inv E tables inner" and o: "in_options inner = opts \<and> in_path inner = path" using r by (auto simp: ready_def eng_inv_iff)
  have io: "io_works (ev_io E)" using env by (simp add: env_inv_def)
  have inv: "st_inv (ev_ext E) opts (op_target_sst_size opts) tables (in_next_sst_id inner) (in_state inner) co" and pend: "pending (ev_ext E) tables (in_state inner) ssts nss"
    using ready_inv [OF r] by simp_all
  then have d: "distinct (all_ids (in_state inner))" by (simp add: st_inv_def)
  let ?st' = "full_state l0 l1 ssts (in_state inner)" and ?task = "TaskForceFull \<lparr>ff_l0_sstables = l0, ff_l1_sstables = l1\<rparr>"
  from full_install_state [OF r kind l] obtain new lv co' where st: "ls_l0_sstables (in_state inner) = new @ l0" "ls_levels (in_state inner) = [(lv, l1)]"
      "?st' = erase_ssts (l0 @ l1) ((add_ssts ssts (in_state inner))\<lparr>ls_l0_sstables := new, ls_levels := [(lv, map st_id ssts)]\<rparr>)"
    and co': "st_inv (ev_ext E) opts (op_target_sst_size opts) tables (in_next_sst_id inner) ?st' co'" "store_view co' = M"
    unfolding M by blast
  have l0': "ls_l0_sstables ?st' = new" by (simp add: st(3))
  have fin: "engine_with F E path opts d (inner\<lparr>in_state := ?st', in_manifest := man\<rparr>, f) M"
    if rec: "recorded E (Compaction ?task (map st_id ssts)) (inner\<lparr>in_state := ?st'\<rparr>) files man f" for man f
  proof (rule engine_withI)
    show "eng_inv E tables (inner\<lparr>in_state := ?st', in_manifest := man\<rparr>, f) co'" using env co'(1) o by (simp add: eng_inv_iff)
    show "durable E (inner\<lparr>in_state := ?st', in_manifest := man\<rparr>, f)" if d
      by (rule full_install_durable [OF _ _ _ pend d st rec]) (use r that kind o in \<open>simp_all add: ready_def\<close>)
    show "F tables (inner\<lparr>in_state := ?st', in_manifest := man\<rparr>, f)" by (rule lastingD [OF F f map_le_refl])
  qed (use co'(2) o in simp_all)
  have gone: "set l0 \<inter> set (all_ids ?st') = {}" "set l1 \<inter> set (all_ids ?st') = {}"
    using d pend by (auto simp: st pending_def all_ids_def)
  have "returns (m_bind (record_in_manifest E (Compaction ?task (map st_id ssts))) (\<lambda>_.
      m_bind (remove_ssts E l0) (\<lambda>_. remove_ssts E l1))) (inner\<lparr>in_state := ?st'\<rparr>, files) (\<lambda>_ s'. engine_with F E path opts d s' M \<and>
      ls_l0_sstables (in_state inner) = ls_l0_sstables (in_state (fst s')) @ l0)"
    by (rule returns_bind [OF returns_record_in_manifest [OF io, where Q = "\<lambda>_ s. engine_with F E path opts d s M \<and> in_state (fst s) = ?st'"]])
      (use fin gone l0' st(1) in \<open>auto intro!: returns_bind [OF with_remove_ssts [OF F]] returns_weaken [OF with_remove_ssts [OF F]]\<close>)
  then show ?thesis by (simp add: s full_install_def Let_def)
qed

lemma with_full_begin:
  assumes F: "lasting F" and kind: "op_compaction_options opts = NoCompaction" and h: "engine_with F E path opts d s M"
  shows "returns (full_begin E) s (\<lambda>(l0, l1, ssts) s'. engine_with (\<lambda>tables s. F tables s \<and>
      waiting E opts d True ssts (full_snapshot (ev_ext E) opts l0 l1) tables s) E path opts d s' M \<and>
    in_state (fst s') = in_state (fst s) \<and> l0 = ls_l0_sstables (in_state (fst s)))"
proof -
  obtain inner files where s: "s = (inner, files)" by (cases s)
  from h obtain tables co where e: "eng_inv E tables s co" "in_options (fst s) = opts" "in_path (fst s) = path" "d \<longrightarrow> durable E s"
    and f: "F tables s" and M: "M = store_view co" unfolding engine_with_def by blast
  have inv: "st_inv (ev_ext E) opts (op_target_sst_size opts) tables (in_next_sst_id inner) (in_state inner) co"
    using e(1,2) by (auto simp: s eng_inv_def)
  then have h: "st_holds (ev_ext E) tables (in_state inner) co" and "length (ls_levels (in_state inner)) = 1" by (simp_all add: st_inv_def shape_ok_def kind)
  then obtain l l1 where lev: "ls_levels (in_state inner) = [(l, l1)]" by (auto simp: length_Suc_conv)
  from h obtain ess where ess: "co_levels co = [ess]" "ids_hold (ev_ext E) tables (in_state inner) l1 ess" "sorted_entries (concat ess)"
    "ids_hold (ev_ext E) tables (in_state inner) (ls_l0_sstables (in_state inner)) (co_l0 co)"
    by (auto simp: st_holds_def lev list_all2_Cons1)
  let ?l0 = "ls_l0_sstables (in_state inner)"
  let ?task = "TaskForceFull \<lparr>ff_l0_sstables = ?l0, ff_l1_sstables = l1\<rparr>" and ?xss = "co_l0 co @ [concat ess]"
  have input: "task_input (ev_ext E) tables (in_state (fst s)) ?task ?xss" using ess by (auto simp: s task_input_def leveled_input_def)
  have snap: "full_snapshot (ev_ext E) opts ?l0 l1 tables (in_state (fst s)) ?xss"
    unfolding full_snapshot_def s fst_conv using inv lev ess(1) by blast
  have bot: "CompactionTask_compact_to_bottom_level ?task" by (simp add: CompactionTask_compact_to_bottom_level_def)
  have "returns (m_bind (LsmStorageInner_compact E ?task) (\<lambda>ssts. m_return (?l0, l1, ssts))) s (\<lambda>(l0, l1, ssts) s'. engine_with (\<lambda>tables s. F tables s \<and>
      waiting E opts d True ssts (full_snapshot (ev_ext E) opts l0 l1) tables s) E path opts d s' M \<and>
      in_state (fst s') = in_state (fst s) \<and> l0 = ls_l0_sstables (in_state (fst s)))"
    by (rule returns_bind [OF returns_compact_waiting [where G = "full_snapshot (ev_ext E) opts ?l0 l1", OF F f e input snap]])
      (simp add: bot M s)
  then show ?thesis using e(2) by (simp add: s full_begin_def kind lev Let_def)
qed

lemma with_force_full_compaction:
  assumes F: "lasting F" and h: "engine_with F E path opts d s M" and kind: "op_compaction_options opts = NoCompaction"
  shows "returns (LsmStorageInner_force_full_compaction E) s (\<lambda>_ s. engine_with F E path opts d s M \<and> ls_l0_sstables (in_state (fst s)) = [])"
  unfolding LsmStorageInner_force_full_compaction_def
  by (rule returns_bind [OF with_full_begin [OF F kind h]], clarsimp, rule returns_weaken [OF with_full_install [OF F kind]]) auto

lemmas returns_force_full_compaction = with_force_full_compaction [OF lasting_True, unfolded engine_with_True]

lemma overlapping_full_compaction:
  assumes h: "engine_holds E path opts d s M" and kind: "op_compaction_options opts = NoCompaction"
    and other: "\<And>F s. steady d F \<Longrightarrow> engine_with F E path opts d s M \<Longrightarrow> returns other s (\<lambda>x s'. engine_with F E path opts d s' (M' x) \<and> A x)"
  shows "returns (m_bind (full_begin E) (\<lambda>(l0, l1, ssts). m_bind other (\<lambda>x. m_bind (full_install E l0 l1 ssts) (\<lambda>_. m_return x)))) s
    (\<lambda>x s'. engine_holds E path opts d s' (M' x) \<and> A x)"
proof -
  have h: "engine_with (\<lambda>_ _. True) E path opts d s M" using h by (simp add: engine_with_True)
  show ?thesis
  proof (rule returns_bind [OF with_full_begin [OF lasting_True kind h]], clarify)
    fix l0 l1 ssts s1
    assume "engine_with (\<lambda>tables s. True \<and> waiting E opts d True ssts (full_snapshot (ev_ext E) opts l0 l1) tables s) E path opts d s1 M"
    then have "engine_with (waiting E opts d True ssts (full_snapshot (ev_ext E) opts l0 l1)) E path opts d s1 M" by simp
    then have "returns (m_bind other (\<lambda>x. m_bind (full_install E l0 l1 ssts) (\<lambda>_. m_return x))) s1
        (\<lambda>x s'. engine_with (\<lambda>_ _. True) E path opts d s' (M' x) \<and> A x)"
      by (intro returns_bind [OF other [OF steady_waiting]] returns_bind [OF with_full_install [OF lasting_True kind]]) auto
    then show "returns (m_bind other (\<lambda>x. m_bind (full_install E l0 l1 ssts) (\<lambda>_. m_return x))) s1 (\<lambda>x s'. engine_holds E path opts d s' (M' x) \<and> A x)"
      by (simp add: engine_with_True)
  qed
qed

end
