(* ===== verification/Simple_View.thy ===== *)
theory Simple_View
  imports Compaction_View
begin

text \<open>
  Compactions of the simple leveled strategy: a task of the strategy works in every later state, whether it merges level 0 into the first
  level or a level into the next one.
\<close>

lemma flush_to_l0_simple [simp]: "CompactionController_flush_to_l0 (CompactionController_create (SimpleOpts sopts))"
  by (simp add: CompactionController_flush_to_l0_def CompactionController_create_def)

lemma simple_l0_works:
  assumes inv0: "st_inv (ev_ext E) opts b tables0 n st0 co0" and kind: "op_compaction_options opts = SimpleOpts sopts"
    and t: "sl_upper_level task = None" "sl_upper_level_sst_ids task = ls_l0_sstables st0" "sl_lower_level task = 1"
      "sl_lower_level_sst_ids task = lower" "sl_is_lower_level_bottom_level task = (1 = so_max_levels sopts)"
    and lev0: "ls_levels st0 = (l, lower) # B" "co_levels co0 = low # CB"
  shows "works E path opts d (TaskSimple task) tables0 st0 (co_l0 co0 @ [concat low])"
  unfolding works_def
proof (intro allI impI)
  fix tables s co ssts nss
  assume r: "ready E path opts d tables s co ssts nss" and l: "later (op_compaction_options opts) tables0 st0 tables (in_state (fst s))"
    and out: "concat nss = kept (CompactionTask_compact_to_bottom_level (TaskSimple task)) (merge_runs (co_l0 co0 @ [concat low]))"
  let ?st = "in_state (fst s)"
  have inv: "st_inv (ev_ext E) opts (op_target_sst_size opts) tables (in_next_sst_id (fst s)) ?st co" and pend: "pending (ev_ext E) tables ?st ssts nss"
    using ready_inv [OF r] by simp_all
  from later_l0 [OF inv0 inv l] obtain new cnew where
    new: "ls_l0_sstables ?st = new @ ls_l0_sstables st0" "co_l0 co = cnew @ co_l0 co0" "ids_hold (ev_ext E) tables ?st new cnew"
    and lev: "ls_levels ?st = (l, lower) # B" "co_levels co = low # CB" unfolding lev0 kind by auto
  have d: "distinct (all_ids ?st)" and lens: "length (ls_levels ?st) = so_max_levels sopts" using inv by (simp_all add: st_inv_def shape_ok_def kind)
  then have dn: "distinct (new @ ls_l0_sstables st0)" unfolding new(1) [symmetric] by (simp add: all_ids_def)
  have ctrl: "in_compaction_controller (fst s) = CtrlSimple sopts" using r by (cases s) (auto simp: ready_def eng_inv_def kind CompactionController_create_def)
  let ?st1 = "(add_ssts ssts ?st)\<lparr>ls_l0_sstables := new, ls_levels := (l, map st_id ssts) # B\<rparr>" and ?rm = "ls_l0_sstables st0 @ lower"
  have "CompactionController_apply_compaction_result (in_compaction_controller (fst s)) st' (TaskSimple task) (map st_id ssts) rec =
      Inr (st'\<lparr>ls_l0_sstables := new, ls_levels := (l, map st_id ssts) # B\<rparr>, ?rm)"
    if "ls_l0_sstables st' = ls_l0_sstables ?st" "ls_levels st' = ls_levels ?st" for st' rec
    using Simple_apply_l0 [of task "ls_l0_sstables st0" st' new l lower B "map st_id ssts"] t lev(1) new(1) dn that
    by (simp add: ctrl CompactionController_apply_compaction_result_def)
  from this [of "add_ssts ssts ?st"] this [of "layout (in_options (fst s)) ?st"]
  have "installs d (fst s) (TaskSimple task) ssts ?st1 ?rm" using d lev(1) new(1) by (auto simp: installs_def layout_def all_ids_def)
  moreover have "\<exists>co'. st_inv (ev_ext E) opts (op_target_sst_size opts) tables (in_next_sst_id (fst s)) (erase_ssts ?rm ?st1) co' \<and>
      store_view co' = store_view co"
  proof (rule l0_install [OF inv pend lev new out])
    show "B = []" if "CompactionTask_compact_to_bottom_level (TaskSimple task)"
      using that lens lev(1) t(5) by (simp add: CompactionTask_compact_to_bottom_level_def)
    show "shape_ok (op_compaction_options opts) ?st1" using lens lev(1) by (simp add: kind shape_ok_def)
  qed
  ultimately show "\<exists>st1 rm co'. installs d (fst s) (TaskSimple task) ssts st1 rm \<and>
      st_inv (ev_ext E) opts (op_target_sst_size opts) tables (in_next_sst_id (fst s)) (erase_ssts rm st1) co' \<and> store_view co' = store_view co" by blast
qed

lemma level_install:
  assumes inv: "st_inv X opts b tables n st co" and pend: "pending X tables st ssts nss"
    and lev: "ls_levels st = A @ (u, upper) # (l, lower) # B" "co_levels co = CA @ up # low # CB" "length CA = length A"
    and out: "concat nss = kept bottom (merge_runs [concat up, concat low])" and bottom: "bottom \<Longrightarrow> B = []"
    and shape: "shape_ok (op_compaction_options opts) ((add_ssts ssts st)\<lparr>ls_levels := A @ (u, []) # (l, map st_id ssts) # B\<rparr>)"
  shows "\<exists>co'. st_inv X opts b tables n
      (erase_ssts (upper @ lower) ((add_ssts ssts st)\<lparr>ls_levels := A @ (u, []) # (l, map st_id ssts) # B\<rparr>)) co' \<and> store_view co' = store_view co"
proof (rule replace_level [OF inv pend, where A = "A @ [(u, upper)]" and CA = "CA @ [up]" and B = B and CB = CB and lower = lower and low = low
      and A' = "A @ [(u, [])]" and CA' = "CA @ [[]]" and l0' = "ls_l0_sstables st" and czero = "co_l0 co" and bottom = bottom
      and xss = "[concat up, concat low]"])
  have h: "st_holds X tables st co" and d: "distinct (all_ids st)" using inv by (simp_all add: st_inv_def)
  show sorted: "sorted_entries xs" if "xs \<in> set [concat up, concat low]" for xs
    using that st_holds_sorted [OF h] lev by (auto simp: lsm_runs_def)
  have lens: "length CB = length B" using h lev by (auto simp: st_holds_def dest: list_all2_lengthD)
  have "runs_value ((co_l0 co @ map concat CA) @ [kept bottom (merge_runs [concat up, concat low])] @ map concat CB) =
      runs_value ((co_l0 co @ map concat CA) @ [concat up, concat low] @ map concat CB)"
    by (rule runs_value_compact [OF sorted]) (use bottom lens in auto)
  then show "runs_value (co_l0 co @ map concat (CA @ [[]]) @ [kept bottom (merge_runs [concat up, concat low])] @ map concat CB) =
      runs_value (co_l0 co @ map concat (co_levels co))"
    using runs_value_Nil_run [of "co_l0 co @ map concat CA"] by (simp add: lev)
  show "levels_hold X tables st (A @ [(u, [])]) (CA @ [[]])"
    using h lev by (auto simp: st_holds_def list_all2_append ids_hold_def)
  show "ids_hold X tables st (ls_l0_sstables st) (co_l0 co)" using h by (simp add: st_holds_def)
  show "set (upper @ lower) \<inter> (set (ls_l0_sstables st) \<union> level_ids (A @ [(u, [])]) \<union> level_ids B) = {}"
    using d by (auto simp: all_ids_def lev)
  show "distinct (ls_l0_sstables st @ concat (map snd (A @ [(u, [])])))" using d by (auto simp: all_ids_def lev)
qed (use lev out shape in \<open>auto simp: all_ids_def\<close>)

lemma simple_level_works:
  assumes inv0: "st_inv (ev_ext E) opts b tables0 n st0 co0" and kind: "op_compaction_options opts = SimpleOpts sopts"
    and t: "sl_upper_level task = Some (Suc (length A))" "sl_upper_level_sst_ids task = upper" "sl_lower_level task = Suc (Suc (length A))"
      "sl_lower_level_sst_ids task = lower" "sl_is_lower_level_bottom_level task = (Suc (Suc (length A)) = so_max_levels sopts)"
    and lev0: "ls_levels st0 = A @ (u, upper) # (l, lower) # B" "co_levels co0 = CA @ up # low # CB" "length CA = length A"
  shows "works E path opts d (TaskSimple task) tables0 st0 [concat up, concat low]"
  unfolding works_def
proof (intro allI impI)
  fix tables s co ssts nss
  assume r: "ready E path opts d tables s co ssts nss" and l: "later (op_compaction_options opts) tables0 st0 tables (in_state (fst s))"
    and out: "concat nss = kept (CompactionTask_compact_to_bottom_level (TaskSimple task)) (merge_runs [concat up, concat low])"
  let ?st = "in_state (fst s)"
  have inv: "st_inv (ev_ext E) opts (op_target_sst_size opts) tables (in_next_sst_id (fst s)) ?st co" and pend: "pending (ev_ext E) tables ?st ssts nss"
    using ready_inv [OF r] by simp_all
  from later_l0 [OF inv0 inv l] have
    lev: "ls_levels ?st = A @ (u, upper) # (l, lower) # B" "co_levels co = CA @ up # low # CB" unfolding lev0 kind by auto
  have d: "distinct (all_ids ?st)" and lens: "length (ls_levels ?st) = so_max_levels sopts" using inv by (simp_all add: st_inv_def shape_ok_def kind)
  have ctrl: "in_compaction_controller (fst s) = CtrlSimple sopts" using r by (cases s) (auto simp: ready_def eng_inv_def kind CompactionController_create_def)
  let ?st1 = "(add_ssts ssts ?st)\<lparr>ls_levels := A @ (u, []) # (l, map st_id ssts) # B\<rparr>" and ?rm = "upper @ lower"
  have "CompactionController_apply_compaction_result (in_compaction_controller (fst s)) st' (TaskSimple task) (map st_id ssts) rec =
      Inr (st'\<lparr>ls_levels := A @ (u, []) # (l, map st_id ssts) # B\<rparr>, ?rm)" if "ls_levels st' = ls_levels ?st" for st' rec
    using Simple_apply_level [of task A upper st' u l lower B "map st_id ssts"] t lev(1) that
    by (simp add: ctrl CompactionController_apply_compaction_result_def)
  from this [of "add_ssts ssts ?st"] this [of "layout (in_options (fst s)) ?st"]
  have "installs d (fst s) (TaskSimple task) ssts ?st1 ?rm" using d lev(1) by (auto simp: installs_def layout_def all_ids_def)
  moreover have "\<exists>co'. st_inv (ev_ext E) opts (op_target_sst_size opts) tables (in_next_sst_id (fst s)) (erase_ssts ?rm ?st1) co' \<and>
      store_view co' = store_view co"
  proof (rule level_install [OF inv pend lev lev0(3) out])
    show "B = []" if "CompactionTask_compact_to_bottom_level (TaskSimple task)"
      using that lens lev(1) t(5) by (cases B) (auto simp: CompactionTask_compact_to_bottom_level_def)
    show "shape_ok (op_compaction_options opts) ?st1" using lens lev(1) by (simp add: kind shape_ok_def)
  qed
  ultimately show "\<exists>st1 rm co'. installs d (fst s) (TaskSimple task) ssts st1 rm \<and>
      st_inv (ev_ext E) opts (op_target_sst_size opts) tables (in_next_sst_id (fst s)) (erase_ssts rm st1) co' \<and> store_view co' = store_view co" by blast
qed

lemma simple_plan:
  assumes inv: "st_inv (ev_ext E) opts b tables n st co" and kind: "op_compaction_options opts = SimpleOpts sopts"
    and gen: "Simple_generate_compaction_task sopts st = Some task"
  shows "\<exists>xss. task_input (ev_ext E) tables st (TaskSimple task) xss \<and> works E path opts d (TaskSimple task) tables st xss"
proof -
  have h: "st_holds (ev_ext E) tables st co" and lens: "length (ls_levels st) = so_max_levels sopts" using inv by (simp_all add: st_inv_def shape_ok_def kind)
  have lh: "levels_hold (ev_ext E) tables st (ls_levels st) (co_levels co)" using h by (simp add: st_holds_def)
  have pos: "so_max_levels sopts \<noteq> 0" using gen by (auto simp: Simple_generate_compaction_task_def split: if_splits)
  show ?thesis
  proof (cases "length (ls_l0_sstables st) \<ge> so_level0_file_num_compaction_trigger sopts")
    case True
    obtain l lower B where lev: "ls_levels st = (l, lower) # B" using pos lens by (cases "ls_levels st") auto
    then obtain low CB where clev: "co_levels co = low # CB" "ids_hold (ev_ext E) tables st lower low" "sorted_entries (concat low)"
      using lh by (auto simp: list_all2_Cons1)
    have t: "sl_upper_level task = None" "sl_upper_level_sst_ids task = ls_l0_sstables st" "sl_lower_level task = 1"
      "sl_lower_level_sst_ids task = lower" "sl_is_lower_level_bottom_level task = (1 = so_max_levels sopts)"
      using gen True pos lev by (auto simp: Simple_generate_compaction_task_def)
    have "task_input (ev_ext E) tables st (TaskSimple task) (co_l0 co @ [concat low])"
      using h clev by (auto simp: task_input_def leveled_input_def t st_holds_def)
    then show ?thesis using simple_l0_works [OF inv kind t lev clev(1)] by blast
  next
    case False
    then have "Simple_ratio_task sopts st [1..<so_max_levels sopts] = Some task" using gen pos by (simp add: Simple_generate_compaction_task_def)
    from Simple_ratio_task_shape [OF this] obtain i where i: "1 \<le> i" "i < length (ls_levels st)"
      "sl_upper_level task = Some i" "sl_upper_level_sst_ids task = snd (ls_levels st ! (i - 1))"
      "sl_lower_level task = i + 1" "sl_lower_level_sst_ids task = snd (ls_levels st ! i)"
      "sl_is_lower_level_bottom_level task = (i + 1 = so_max_levels sopts)" by auto
    from split_levels [OF lh i(1,2)] obtain A u upper l lower B CA up low CB where
      lev: "ls_levels st = A @ (u, upper) # (l, lower) # B" "co_levels co = CA @ up # low # CB" "length CA = length A"
      and A: "length A = i - 1" and ul: "upper = snd (ls_levels st ! (i - 1))" "lower = snd (ls_levels st ! i)" by metis
    have hh: "ids_hold (ev_ext E) tables st upper up" "ids_hold (ev_ext E) tables st lower low" "sorted_entries (concat up)" "sorted_entries (concat low)"
      using lh lev by (auto simp: list_all2_append)
    have t: "sl_upper_level task = Some (Suc (length A))" "sl_upper_level_sst_ids task = upper"
      "sl_lower_level task = Suc (Suc (length A))" "sl_lower_level_sst_ids task = lower"
      "sl_is_lower_level_bottom_level task = (Suc (Suc (length A)) = so_max_levels sopts)"
      using i(1) unfolding i(3-7) ul A by simp_all
    have "task_input (ev_ext E) tables st (TaskSimple task) [concat up, concat low]"
      unfolding task_input_def leveled_input_def CompactionTask.case t option.case using hh by blast
    then show ?thesis using simple_level_works [OF inv kind t lev] by blast
  qed
qed

interpretation simple: compaction_strategy E path opts d "\<lambda>_. \<exists>sopts. op_compaction_options opts = SimpleOpts sopts"
proof
  fix b tables n st co assume inv: "st_inv (ev_ext E) opts b tables n st co" and "\<exists>sopts. op_compaction_options opts = SimpleOpts sopts"
  then obtain sopts where kind: "op_compaction_options opts = SimpleOpts sopts" by blast
  then have "CompactionController_generate_compaction_task (CompactionController_create (op_compaction_options opts)) st =
      Inr (map_option TaskSimple (Simple_generate_compaction_task sopts st))"
    by (simp add: CompactionController_create_def CompactionController_generate_compaction_task_def)
  then show "\<exists>task_opt. CompactionController_generate_compaction_task (CompactionController_create (op_compaction_options opts)) st = Inr task_opt \<and>
      (\<forall>task. task_opt = Some task \<longrightarrow> (\<exists>xss. task_input (ev_ext E) tables st task xss \<and> works E path opts d task tables st xss))"
    using simple_plan [OF inv kind] by auto
qed

end
