(* ===== verification/Tiered_View.thy ===== *)
theory Tiered_View
  imports Compaction_View
begin

text \<open>
  Compactions of the tiered strategy do not change what the store holds, as long as the width of a
  merge is not limited: a task then covers the newest tiers, and all of them if tombstones are dropped.
\<close>

lemma newest_None: "newest xss = Map.empty \<Longrightarrow> xs \<in> set xss \<Longrightarrow> xs = []"
proof (induction xss)
  case (Cons ys xss)
  have "map_of ys k = None" "newest xss k = None" for k using fun_cong [OF Cons.prems(1), of k] by (auto split: option.splits)
  then have "map_of ys = Map.empty" "newest xss = Map.empty" by (auto simp: fun_eq_iff)
  then show ?case using Cons by auto
qed simp

lemma level_empty:
  assumes "ids_hold X tables st ids ess" and "concat ess = []"
  shows "ids = []"
proof (cases ids)
  case (Cons i js)
  obtain t es where "es \<in> set ess" "sst_entries X tables t es" using assms(1)
    unfolding ids_hold_def Cons list_all2_Cons1 by (metis list.set_intros(1))
  then show ?thesis using sst_entries_keys(1) assms(2) by fastforce
qed simp

lemma tiered_shape:
  assumes "st_inv X opts b tables n st co" and "op_compaction_options opts = TieredOpts topts"
  shows "ls_l0_sstables st = []" and "distinct (map fst (ls_levels st))"
    and "lev \<in> set (ls_levels st) \<Longrightarrow> fst lev = tier_name (snd lev)"
  using assms unfolding st_inv_def shape_ok_def by simp_all

text \<open>The name of the new tier is free: a table gives it one that no tier has, and no tier is named like the empty one.\<close>

lemma tiered_empty:
  assumes h: "levels_hold X tables st A CA" and empty: "merge_runs (map concat CA) = []"
    and sorted: "\<And>xs. xs \<in> set (map concat CA) \<Longrightarrow> sorted_entries xs" and lev: "lev \<in> set A"
  shows "snd lev = []"
proof -
  have "newest (map concat CA) = Map.empty" using newest_merge_runs [of "map concat CA", OF sorted] empty by simp
  then have empty: "concat ess = []" if "ess \<in> set CA" for ess using that by (intro newest_None [of "map concat CA"]) auto
  from lev obtain i where i: "i < length A" "A ! i = lev" by (auto simp: in_set_conv_nth)
  with h have "ids_hold X tables st (snd lev) (CA ! i)" "CA ! i \<in> set CA" by (auto simp: list_all2_conv_all_nth case_prod_beta)
  then show ?thesis using empty level_empty by blast
qed

lemma tiered_names:
  assumes inv: "st_inv X opts b tables n st co" and pend: "pending X tables st ssts nss" and kind: "op_compaction_options opts = TieredOpts topts"
    and lev: "ls_levels st = N @ A @ B" "co_levels co = CN @ CA @ CB" "length CN = length N" "length CA = length A" "A \<noteq> []"
    and N: "0 \<notin> fst ` set N" and out: "concat nss = kept bottom (merge_runs (map concat CA))" and bottom: "bottom \<Longrightarrow> B = []"
  shows "tier_name (map st_id ssts) \<notin> fst ` set (N @ B)"
proof
  assume "tier_name (map st_id ssts) \<in> fst ` set (N @ B)"
  then obtain lv where lv: "lv \<in> set (N @ B)" "tier_name (map st_id ssts) = fst lv" by auto
  note shape = tiered_shape(2,3) [OF inv kind, unfolded lev(1)]
  have h: "st_holds X tables st co" using inv by (simp add: st_inv_def)
  show False
  proof (cases ssts)
    case Nil
    then have zero: "fst lv = 0" using lv(2) by (simp add: tier_name_def)
    then have B: "lv \<in> set B" using lv(1) N by (auto simp: image_iff)
    have "nss = []" using pend Nil by (simp add: pending_def)
    then have "merge_runs (map concat CA) = []" using out bottom B by (cases bottom) (auto simp: kept_def)
    moreover have "levels_hold X tables st A CA" using h lev by (simp add: st_holds_def list_all2_append)
    moreover have "\<And>xs. xs \<in> set (map concat CA) \<Longrightarrow> sorted_entries xs" using st_holds_sorted [OF h] lev(2) by (auto simp: lsm_runs_def)
    ultimately have "snd (hd A) = []" using lev(5) by (intro tiered_empty [of X tables st A CA]) simp_all
    then have "fst (hd A) = 0" using lev(5) shape(2) [of "hd A"] by (simp add: tier_name_def)
    then have "0 \<in> fst ` set A" using lev(5) by (metis hd_in_set image_eqI)
    moreover have "0 \<in> fst ` set B" using zero B by (metis image_eqI)
    moreover have "fst ` set A \<inter> fst ` set B = {}" using shape(1) by auto
    ultimately show False by blast
  next
    case (Cons t ts)
    then have t: "fst lv = st_id t" using lv(2) by (simp add: tier_name_def)
    have fresh: "st_id t \<notin> set (all_ids st)" "st_id t \<noteq> 0" using pend Cons by (auto simp: pending_def)
    show False
    proof (cases "snd lv")
      case Nil
      then show False using shape(2) [of lv] lv(1) t fresh(2) by (auto simp: tier_name_def)
    next
      case (Cons i js)
      then have "fst lv \<in> set (snd lv)" using shape(2) [of lv] lv(1) by (auto simp: tier_name_def)
      then show False using lv(1) t fresh(1) by (auto simp: all_ids_def lev(1))
    qed
  qed
qed

lemma tiered_install:
  assumes inv: "st_inv X opts b tables n st co" and pend: "pending X tables st ssts nss" and kind: "op_compaction_options opts = TieredOpts topts"
    and lev: "ls_levels st = N @ A @ B" "co_levels co = CN @ CA @ CB" "length CN = length N" "length CA = length A" "A \<noteq> []"
    and N: "0 \<notin> fst ` set N" and out: "concat nss = kept bottom (merge_runs (map concat CA))" and bottom: "bottom \<Longrightarrow> B = []"
  defines "st1 \<equiv> (add_ssts ssts st)\<lparr>ls_levels := N @ (tier_name (map st_id ssts), map st_id ssts) # B\<rparr>"
  shows "\<exists>co'. st_inv X opts b tables n (erase_ssts (concat (map snd A)) st1) co' \<and> store_view co' = store_view co"
proof -
  obtain A0 l lower where A: "A = A0 @ [(l, lower)]" using lev(5) by (metis rev_exhaust surj_pair)
  then obtain CA0 low where CA: "CA = CA0 @ [low]" "length CA0 = length A0" using lev(4) by (cases CA rule: rev_cases) auto
  have h: "st_holds X tables st co" and d: "distinct (all_ids st)" using inv by (simp_all add: st_inv_def)
  note l0 = tiered_shape(1) [OF inv kind] and shape = tiered_shape(2,3) [OF inv kind, unfolded lev(1)]
  have sorted: "sorted_entries xs" if "xs \<in> set (map concat CA)" for xs
    using that st_holds_sorted [OF h] lev(2) by (auto simp: lsm_runs_def)
  have cl0: "co_l0 co = []" using h l0 by (simp add: st_holds_def ids_hold_def)
  have hN: "levels_hold X tables st N CN" and lenB: "length CB = length B"
    using h lev by (auto simp: st_holds_def list_all2_append dest: list_all2_lengthD)
  note names = tiered_names [OF inv pend kind lev N out bottom]
  show ?thesis
  proof (rule replace_level [OF inv pend, where A = "N @ A0" and CA = "CN @ CA0" and B = B and CB = CB and lower = lower and low = low
        and A' = N and CA' = CN and l0' = "[]" and czero = "[]" and bottom = bottom and xss = "map concat CA"])
    have "runs_value (map concat CN @ [kept bottom (merge_runs (map concat CA))] @ map concat CB) = runs_value (map concat CN @ map concat CA @ map concat CB)"
      by (rule runs_value_compact [OF sorted]) (use bottom lenB in auto)
    then show "runs_value ([] @ map concat CN @ [kept bottom (merge_runs (map concat CA))] @ map concat CB) =
        runs_value (co_l0 co @ map concat (co_levels co))" by (simp add: cl0 lev)
    show "set (concat (map snd A)) \<inter> (set [] \<union> level_ids N \<union> level_ids B) = {}" "distinct ([] @ concat (map snd N))"
      using d by (auto simp: all_ids_def lev(1))
    have "distinct (map fst (N @ (tier_name (map st_id ssts), map st_id ssts) # B))" using shape(1) names by auto
    moreover have "\<forall>lev \<in> set (N @ (tier_name (map st_id ssts), map st_id ssts) # B). fst lev = tier_name (snd lev)" using shape(2) by auto
    ultimately show "shape_ok (op_compaction_options opts) st1" using l0 by (simp add: kind shape_ok_def st1_def)
    show "set (concat (map snd A)) \<subseteq> set (all_ids st)" by (auto simp: all_ids_def lev(1))
  qed (use lev A CA out sorted l0 hN in \<open>auto simp: st1_def ids_hold_def\<close>)
qed

lemma tiered_works:
  assumes inv0: "st_inv (ev_ext E) opts b tables0 n st0 co0" and kind: "op_compaction_options opts = TieredOpts topts"
    and lev0: "ls_levels st0 = A @ B" "co_levels co0 = CA @ CB" "length CA = length A" "A \<noteq> []"
    and t: "tt_tiers task = A" "tt_bottom_tier_included task \<Longrightarrow> B = []"
  shows "works E path opts d (TaskTiered task) tables0 st0 (map concat CA)"
  unfolding works_def
proof (intro allI impI)
  fix tables s co ssts nss
  assume r: "ready E path opts d tables s co ssts nss" and l: "later (op_compaction_options opts) tables0 st0 tables (in_state (fst s))"
    and out: "concat nss = kept (CompactionTask_compact_to_bottom_level (TaskTiered task)) (merge_runs (map concat CA))"
  let ?st = "in_state (fst s)"
  have inv: "st_inv (ev_ext E) opts (op_target_sst_size opts) tables (in_next_sst_id (fst s)) ?st co" and pend: "pending (ev_ext E) tables ?st ssts nss"
    using ready_inv [OF r] by simp_all
  have "\<not> CompactionController_flush_to_l0 (CompactionController_create (op_compaction_options opts))"
    by (simp add: kind CompactionController_flush_to_l0_def CompactionController_create_def)
  from later_tiers [OF inv0 inv l this] obtain N CN where N': "ls_levels ?st = N @ ls_levels st0" "co_levels co = CN @ co_levels co0"
    "levels_hold (ev_ext E) tables ?st N CN" and "ls_levels st0 \<noteq> [] \<Longrightarrow> 0 \<notin> fst ` set N" by blast
  then have lev: "ls_levels ?st = N @ A @ B" "co_levels co = CN @ CA @ CB" "length CN = length N" and N: "0 \<notin> fst ` set N"
    using list_all2_lengthD [OF N'(3)] by (simp_all add: lev0)
  note shape = tiered_shape [OF inv kind]
  have d: "distinct (all_ids ?st)" using inv by (simp add: st_inv_def)
  have ctrl: "in_compaction_controller (fst s) = CtrlTiered topts" using r by (cases s) (auto simp: ready_def eng_inv_def kind CompactionController_create_def)
  let ?st1 = "\<lambda>st. st\<lparr>ls_levels := N @ (tier_name (map st_id ssts), map st_id ssts) # B\<rparr>"
  have "CompactionController_apply_compaction_result (in_compaction_controller (fst s)) st' (TaskTiered task) (map st_id ssts) rec =
      Inr (?st1 st', concat (map snd A))" if "ls_l0_sstables st' = []" "ls_levels st' = ls_levels ?st" for st' rec
    using Tiered_apply_task [of st' N A B task "map st_id ssts"] that lev(1) lev0(4) shape(2) t(1)
    by (simp add: ctrl CompactionController_apply_compaction_result_def tier_name_def)
  from this [of "add_ssts ssts ?st"] this [of "layout (in_options (fst s)) ?st"]
  have "installs d (fst s) (TaskTiered task) ssts (?st1 (add_ssts ssts ?st)) (concat (map snd A))"
    using d shape(1) lev(1) by (auto simp: installs_def layout_def all_ids_def)
  then show "\<exists>st1 rm co'. installs d (fst s) (TaskTiered task) ssts st1 rm \<and>
      st_inv (ev_ext E) opts (op_target_sst_size opts) tables (in_next_sst_id (fst s)) (erase_ssts rm st1) co' \<and> store_view co' = store_view co"
    using tiered_install [OF inv pend kind lev lev0(3,4) N out] t(2) by (auto simp: CompactionTask_compact_to_bottom_level_def)
qed

lemma tiered_plan:
  assumes inv: "st_inv (ev_ext E) opts b tables n st co" and kind: "op_compaction_options opts = TieredOpts topts" and width: "to_max_merge_width topts = None"
    and gen: "Tiered_generate_compaction_task topts st = Inr (Some task)"
  shows "\<exists>xss. task_input (ev_ext E) tables st (TaskTiered task) xss \<and> works E path opts d (TaskTiered task) tables st xss"
proof -
  note ts = Tiered_task_shape [OF gen]
  from ts(3) obtain m where m: "tt_tiers task = take m (ls_levels st)" by blast
  let ?A = "take m (ls_levels st)" and ?B = "drop m (ls_levels st)" and ?CA = "take m (co_levels co)" and ?CB = "drop m (co_levels co)"
  have lh: "levels_hold (ev_ext E) tables st (ls_levels st) (co_levels co)" using inv by (simp add: st_inv_def st_holds_def)
  have lev: "ls_levels st = ?A @ ?B" "co_levels co = ?CA @ ?CB" "length ?CA = length ?A" "?A \<noteq> []"
    using list_all2_lengthD [OF lh] ts(4) [OF width] m by simp_all
  have bot: "?B = []" if "tt_bottom_tier_included task" using ts(4) [OF width] m that by (metis append_self_conv append_take_drop_id)
  have "levels_hold (ev_ext E) tables st ?A ?CA" using lh by (rule list_all2_takeI)
  then have "task_input (ev_ext E) tables st (TaskTiered task) (map concat ?CA)" by (auto simp: task_input_def m)
  then show ?thesis using tiered_works [OF inv kind lev m bot] by blast
qed

interpretation tiered: compaction_strategy E path opts d
  "\<lambda>_. \<exists>topts. op_compaction_options opts = TieredOpts topts \<and> 0 < to_num_tiers topts \<and> to_max_merge_width topts = None"
proof
  fix b tables n st co assume inv: "st_inv (ev_ext E) opts b tables n st co"
    and "\<exists>topts. op_compaction_options opts = TieredOpts topts \<and> 0 < to_num_tiers topts \<and> to_max_merge_width topts = None"
  then obtain topts where kind: "op_compaction_options opts = TieredOpts topts" and o: "0 < to_num_tiers topts" "to_max_merge_width topts = None" by blast
  obtain t_opt where t_opt: "Tiered_generate_compaction_task topts st = Inr t_opt" using Tiered_generate_total [OF tiered_shape(1) [OF inv kind] o(1)] by blast
  then have "CompactionController_generate_compaction_task (CompactionController_create (op_compaction_options opts)) st = Inr (map_option TaskTiered t_opt)"
    by (simp add: kind CompactionController_create_def CompactionController_generate_compaction_task_def)
  then show "\<exists>task_opt. CompactionController_generate_compaction_task (CompactionController_create (op_compaction_options opts)) st = Inr task_opt \<and>
      (\<forall>task. task_opt = Some task \<longrightarrow> (\<exists>xss. task_input (ev_ext E) tables st task xss \<and> works E path opts d task tables st xss))"
    using tiered_plan [OF inv kind o(2)] t_opt by auto
qed

end
