(* ===== verification/Mini_Lsm.thy ===== *)
theory Mini_Lsm
  imports Compaction
begin

text \<open>
  Opening and closing a store, and the interface \<open>MiniLsm\<close> (\<open>include/mini_lsm/lsm_storage.h\<close>,
  \<open>src/lsm_storage.cpp\<close>), with the rounds of the background threads (\<open>src/compact.cpp\<close>).

  Creating the directory of the store is not modelled: the files are a map from paths to contents.
  A round of the flush thread or the compaction thread is a request like the calls of the user here; \<open>Interleaving\<close> lets calls come
  between the two halves of a compaction. An exception in a round is caught and reported, so that the thread goes on; a failed
  assertion is not caught.
\<close>

section \<open>Opening\<close>

definition use_manifest :: "env \<Rightarrow> Manifest \<Rightarrow> (engine, unit) m" where
  "use_manifest E man = (\<lambda>(inner, files).
     case Manifest_add_record_when_init (ext_crc32 (ev_ext E)) (ev_json E) (ev_io E)
            (NewMemtable (mt_id (ls_memtable (in_state inner)))) (man, files) of
       None \<Rightarrow> None
     | Some (_, man, files) \<Rightarrow> Some (Inr (), inner\<lparr>in_manifest := Some man\<rparr>, files))"

text \<open>No manifest yet: a new store.\<close>

definition open_new :: "env \<Rightarrow> string \<Rightarrow> (engine, unit) m" where
  "open_new E mpath = (\<lambda>(inner, files).
     let mem_id = mt_id (ls_memtable (in_state inner)) in
     (case (if op_enable_wal (in_options inner)
            then (case MemTable_create_with_wal (ev_io E) mem_id (path_of_wal_val inner mem_id) files of
                    (Inr t, files) \<Rightarrow> (inner\<lparr>in_state := (in_state inner)\<lparr>ls_memtable := t\<rparr>\<rparr>, files)
                  | (Inl _, files) \<Rightarrow> (inner, files))
            else (inner, files)) of
        (inner, files) \<Rightarrow>
          (case Manifest_create (ev_io E) mpath files of
             (Inr man, files) \<Rightarrow> use_manifest E man (inner, files)
           | (Inl _, files) \<Rightarrow> Some (Inr (), inner, files))))"

text \<open>Opening the tables of the recovered state.\<close>

fun open_ssts :: "env \<Rightarrow> nat list \<Rightarrow> (engine, unit) m" where
  "open_ssts E [] = m_return ()"
| "open_ssts E (sst_id # ids) =
     m_bind get_inner (\<lambda>inner.
     m_bind (on_files (FileObject_open (ev_io E) (path_of_sst_val inner sst_id))) (\<lambda>file.
     m_bind (m_lift (SsTable_open (ev_ext E) sst_id True file)) (\<lambda>sst.
     m_bind (modify (\<lambda>inner. inner\<lparr>in_state := (in_state inner)\<lparr>ls_sstables := (ls_sstables (in_state inner))(sst_id \<mapsto> sst)\<rparr>\<rparr>)) (\<lambda>_.
     open_ssts E ids))))"

text \<open>Recovering the memtables that were not flushed from their logs.\<close>

fun recover_memtables :: "env \<Rightarrow> nat list \<Rightarrow> (engine, unit) m" where
  "recover_memtables E [] = m_return ()"
| "recover_memtables E (mem_id # ids) = (\<lambda>(inner, files).
     (case MemTable_recover_from_wal (ext_crc32 (ev_ext E)) (ev_io E) mem_id (path_of_wal_val inner mem_id) files of
        (Inr mem, files) \<Rightarrow>
          recover_memtables E ids
            (if \<not> MemTable_is_empty mem
             then inner\<lparr>in_state := (in_state inner)\<lparr>ls_imm_memtables := mem # ls_imm_memtables (in_state inner)\<rparr>\<rparr>
             else inner, files)
      | (Inl _, files) \<Rightarrow> recover_memtables E ids (inner, files)))"

text \<open>An error that \<open>recover\<close> returns is not looked at; a read outside of its buffer is no such error.\<close>

definition open_existing :: "env \<Rightarrow> string \<Rightarrow> (engine, unit) m" where
  "open_existing E mpath = (\<lambda>(inner, files).
     (case Manifest_recover (ext_crc32 (ev_ext E)) (ev_json E) (ev_io E) mpath files of
        (Inl (OutOfRange w), files) \<Rightarrow> Some (Inl (OutOfRange w), inner, files)
      | (Inl _, files) \<Rightarrow> Some (Inr (), inner, files)
      | (Inr (man, records), files) \<Rightarrow>
          m_bind (m_lift (replay_records (in_compaction_controller inner) records (in_state inner, [], 1))) (\<lambda>(st, memtables, next_id).
          m_bind (modify (\<lambda>inner. inner\<lparr>in_state := st\<rparr>)) (\<lambda>_.
          m_bind (open_ssts E (ls_l0_sstables st)) (\<lambda>_.
          m_bind (open_ssts E (concat (map snd (ls_levels st)))) (\<lambda>_.
          let next_id = next_id + 1 in
          m_bind (if op_enable_wal (in_options inner) then recover_memtables E memtables else m_return ()) (\<lambda>_.
          m_bind (fresh_memtable E next_id) (\<lambda>mem.
          m_bind (modify (\<lambda>inner. inner\<lparr>in_state := (in_state inner)\<lparr>ls_memtable := mem\<rparr>, in_next_sst_id := next_id + 1\<rparr>)) (\<lambda>_.
          use_manifest E man))))))) (inner, files)))"

definition LsmStorageInner_open :: "env \<Rightarrow> string \<Rightarrow> LsmStorageOptions \<Rightarrow> fs \<Rightarrow> (unit res \<times> engine) option" where
  "LsmStorageInner_open E path options files =
     (let inner = LsmStorageInner_new options path;
          mpath = manifest_path path in
      if files mpath = None then open_new E mpath (inner, files)
      else open_existing E mpath (inner, files))"

section \<open>Closing\<close>

definition MiniLsm_close :: "env \<Rightarrow> (engine, unit) m" where
  "MiniLsm_close E =
     m_bind get_inner (\<lambda>inner.
     if op_enable_wal (in_options inner) then LsmStorageInner_sync E
     else
       m_bind (if \<not> MemTable_is_empty (ls_memtable (in_state inner)) then LsmStorageInner_force_freeze_memtable E
               else m_return ()) (\<lambda>_.
       m_while (\<lambda>_. m_bind get_inner (\<lambda>inner. m_return (ls_imm_memtables (in_state inner) \<noteq> [])))
         (\<lambda>_. LsmStorageInner_force_flush_next_imm_memtable E) ()))"

text \<open>The destructor closes the store and releases the engine, whose memtables close their logs.\<close>

definition destroy_memtables :: "LsmStorageState \<Rightarrow> fs \<Rightarrow> fs" where
  "destroy_memtables st files =
     fold (\<lambda>t files. case mt_wal t of None \<Rightarrow> files | Some wal \<Rightarrow> Wal_destroy wal files) (ls_imm_memtables st @ [ls_memtable st]) files"

definition MiniLsm_destroy :: "env \<Rightarrow> engine \<Rightarrow> (unit res \<times> fs) option" where
  "MiniLsm_destroy E s =
     (case MiniLsm_close E s of
        None \<Rightarrow> None
      | Some (Inl e, _, files) \<Rightarrow> Some (Inl e, files)
      | Some (Inr _, inner, files) \<Rightarrow> Some (Inr (), destroy_memtables (in_state inner) files))"

section \<open>The background threads\<close>

text \<open>\<open>try { ... } catch (const std::exception& e) { std::cerr << ... }\<close>\<close>

definition attempt :: "('s, 'a) m \<Rightarrow> ('s, unit) m" where
  "attempt p = (\<lambda>s. case p s of
     None \<Rightarrow> None
   | Some (Inl (Throw _), s) \<Rightarrow> Some (Inr (), s)
   | Some (Inl e, s) \<Rightarrow> Some (Inl e, s)
   | Some (Inr _, s) \<Rightarrow> Some (Inr (), s))"

definition flush_round :: "env \<Rightarrow> (engine, unit) m" where
  "flush_round E = attempt (LsmStorageInner_trigger_flush E)"

text \<open>Without a compaction strategy there is no compaction thread.\<close>

definition compaction_round :: "env \<Rightarrow> (engine, unit) m" where
  "compaction_round E =
     m_bind get_inner (\<lambda>inner.
     if op_compaction_options (in_options inner) = NoCompaction then m_return ()
     else attempt (LsmStorageInner_trigger_compaction E))"

section \<open>The interface\<close>

datatype request =
    Put bytes bytes
  | Del bytes
  | Get bytes
  | Scan Bound Bound
  | Sync
  | ForceFlush
  | ForceFullCompaction
  | FlushRound
  | CompactionRound

datatype answer =
    Done
  | Val bytes
  | Entries "entry list"

text \<open>A call of the interface, or a round of a background thread. The iterator of a scan is read to its end.\<close>

definition MiniLsm_serve :: "env \<Rightarrow> request \<Rightarrow> (engine, answer) m" where
  "MiniLsm_serve E r =
     (let finish = (\<lambda>p. m_bind p (\<lambda>_. m_return Done)) in
      case r of
        Put k v \<Rightarrow> finish (LsmStorageInner_put E k v)
      | Del k \<Rightarrow> finish (LsmStorageInner_del E k)
      | Get k \<Rightarrow> m_bind (engine_get E k) (\<lambda>v. m_return (Val v))
      | Scan lower upper \<Rightarrow> m_bind (engine_scan E lower upper) (\<lambda>es. m_return (Entries es))
      | Sync \<Rightarrow> finish (LsmStorageInner_sync E)
      | ForceFlush \<Rightarrow> finish (LsmStorageInner_force_flush_next_imm_memtable E)
      | ForceFullCompaction \<Rightarrow> finish (LsmStorageInner_force_full_compaction E)
      | FlushRound \<Rightarrow> finish (flush_round E)
      | CompactionRound \<Rightarrow> finish (compaction_round E))"

end
