(* ===== verification/Recovery.thy ===== *)
theory Recovery
  imports Mini_Lsm Compaction_View
begin

text \<open>
  Opening and closing. A new store holds the empty map; closing a store without logs moves all
  its data into tables; opening restores the state that the manifest, the tables and the logs describe.
\<close>

section \<open>A new store\<close>

lemma LsmStorageState_create_fields:
  "ls_memtable (LsmStorageState_create opts) = MemTable_new 0 None" "ls_imm_memtables (LsmStorageState_create opts) = []"
  "ls_sstables (LsmStorageState_create opts) = Map.empty" "all_ids (LsmStorageState_create opts) = []"
  by (auto simp: LsmStorageState_create_def Let_def all_ids_def split: CompactionOptions.splits)

lemma LsmStorageState_create_same: "(LsmStorageState_create opts)\<lparr>ls_memtable := MemTable_new 0 None\<rparr> = LsmStorageState_create opts"
  by (simp add: LsmStorageState_create_def Let_def)

lemma use_manifest_new:
  assumes io: "io_works (ev_io E)" and man: "man_holds (ext_crc32 (ev_ext E)) (ev_json E) man files []"
    and path: "man_path man = manifest_path (in_path inner)"
    and st: "in_state inner = (LsmStorageState_create (in_options inner))\<lparr>ls_memtable := t\<rparr>"
    and t: "mt_id t = 0" "\<And>wal. mt_wal t = Some wal \<Longrightarrow> wal_path wal = path_of_wal_val inner 0"
    and log: "op_enable_wal (in_options inner) \<Longrightarrow> mt_logged (ext_crc32 (ev_ext E)) (path_of_wal_val inner 0) t files [] []"
  shows "\<exists>man' files'. use_manifest E man (inner, files) = Some (Inr (), inner\<lparr>in_manifest := Some man'\<rparr>, files') \<and>
    durable E (inner\<lparr>in_manifest := Some man'\<rparr>, files') \<and>
    files' (manifest_path (in_path inner)) = Some (Manifest_frames (ext_crc32 (ev_ext E)) (ev_json E) [NewMemtable 0])"
proof -
  from man_holds_add [OF io man, of "NewMemtable 0"] obtain man' files' where
    add: "Manifest_add_record (ext_crc32 (ev_ext E)) (ev_json E) (ev_io E) (NewMemtable 0) (man, files) = Some (Inr (), man', files')"
    and man': "man_path man' = man_path man" "man_holds (ext_crc32 (ev_ext E)) (ev_json E) man' files' [NewMemtable 0]"
    and files': "\<And>p. p \<noteq> man_path man \<Longrightarrow> files' p = files p" by auto
  let ?inner = "inner\<lparr>in_manifest := Some man'\<rparr>"
  have "layout (in_options inner) (in_state inner) = LsmStorageState_create (in_options inner)" by (simp add: layout_def st)
  then have "replayed ?inner [NewMemtable 0]"
    by (simp add: replayed_def replay_record_def mem_ids_def st t LsmStorageState_create_fields all_ids_def [of "_\<lparr>ls_memtable := t\<rparr>"]
        all_ids_def [symmetric])
  moreover have "tables_on_disk E ?inner files'" by (simp add: tables_on_disk_def st LsmStorageState_create_fields)
  moreover have "wal_paths ?inner" using t by (simp add: wal_paths_def st LsmStorageState_create_fields)
  moreover have "wal_logs E ?inner files'"
    using log mt_logged_cong [of files "path_of_wal_val inner 0" files'] files' path path_of_ne(3) [of inner 0]
    by (auto simp: wal_logs_def st LsmStorageState_create_fields t(1))
  ultimately have "durable E (?inner, files')" using man' path by (auto simp: durable_def)
  moreover have "use_manifest E man (inner, files) = Some (Inr (), ?inner, files')"
    using add by (simp add: use_manifest_def st t(1) Manifest_add_record_def)
  moreover have "files' (manifest_path (in_path inner)) = Some (Manifest_frames (ext_crc32 (ev_ext E)) (ev_json E) [NewMemtable 0])"
    using man' path by (simp add: man_holds_def)
  ultimately show ?thesis by blast
qed

lemma LsmStorageInner_open_new:
  assumes io: "io_works (ev_io E)" and "snappy_inverts (ev_ext E)" and "opts_ok (ev_ext E) opts"
    and new: "files (manifest_path path) = None"
  shows "\<exists>s. LsmStorageInner_open E path opts files = Some (Inr (), s) \<and> engine_holds E path opts True s (\<lambda>_. []) \<and>
    mt_id (ls_memtable (in_state (fst s))) = 0 \<and> mt_map (ls_memtable (in_state (fst s))) = [] \<and>
    mt_approximate_size (ls_memtable (in_state (fst s))) = 0 \<and> ls_imm_memtables (in_state (fst s)) = [] \<and>
    all_ids (in_state (fst s)) = [] \<and>
    snd s (manifest_path path) = Some (Manifest_frames (ext_crc32 (ev_ext E)) (ev_json E) [NewMemtable 0])"
proof -
  let ?inner = "LsmStorageInner_new opts path" and ?mp = "manifest_path path"
  let ?wal = "if op_enable_wal opts then Some \<lparr>wal_path = path_of_wal_val ?inner 0, wal_fp = True, wal_buf = []\<rparr> else None"
  define t where "t = MemTable_new 0 ?wal"
  define files1 where "files1 = (if op_enable_wal opts then files(path_of_wal_val ?inner 0 \<mapsto> []) else files)"
  let ?st = "(LsmStorageState_create opts)\<lparr>ls_memtable := t\<rparr>" and ?man = "\<lparr>man_path = ?mp, man_fd = True, man_off = 0\<rparr>"
  let ?inner' = "?inner\<lparr>in_state := ?st\<rparr>"
  have f: "in_path ?inner = path" "in_options ?inner = opts" by (simp_all add: LsmStorageInner_new_def)
  have t: "mt_id t = 0" "mt_map t = []" by (simp_all add: t_def MemTable_new_def)
  have wal: "wal_path w = path_of_wal_val ?inner 0" if "mt_wal t = Some w" for w
    using that by (auto simp: t_def MemTable_new_def split: if_splits)
  have log: "mt_logged (ext_crc32 (ev_ext E)) (path_of_wal_val ?inner 0) t (files1(?mp \<mapsto> [])) [] []" if "op_enable_wal opts"
    using that path_of_ne(3) [of ?inner 0] unfolding t_def by (simp, intro mt_logged_create) (simp_all add: files1_def f)
  obtain man' files' where use: "use_manifest E ?man (?inner', files1(?mp \<mapsto> [])) =
      Some (Inr (), ?inner'\<lparr>in_manifest := Some man'\<rparr>, files')" "durable E (?inner'\<lparr>in_manifest := Some man'\<rparr>, files')"
    and frames: "files' ?mp = Some (Manifest_frames (ext_crc32 (ev_ext E)) (ev_json E) [NewMemtable 0])"
    using use_manifest_new [OF io, of ?man "files1(?mp \<mapsto> [])" ?inner' t] t wal log
    by (auto simp: man_holds_def f)
  have "LsmStorageInner_open E path opts files = use_manifest E ?man (?inner', files1(?mp \<mapsto> []))"
    using io new by (simp add: LsmStorageInner_open_def open_new_def Let_def LsmStorageInner_new_def MemTable_create_with_wal_def
        LsmStorageState_create_fields Wal_create_def Manifest_create_def io_works_def MemTable_new_def t_def files1_def
        LsmStorageState_create_same [unfolded MemTable_new_def])
  moreover obtain tables co where new: "eng_inv E tables (?inner, files) co" "(\<lambda>_. []) = store_view co"
    using engine_holds_new [OF assms(1-3), of path files] by (auto simp: engine_holds_def)
  have "eng_inv E tables (?inner', files) co"
    using eng_inv_memtable [OF new(1), of t files] t
    by (simp add: LsmStorageInner_new_def LsmStorageState_create_fields mt_ok_def MemTable_new_def t_def mt_wf_def)
  then have "eng_inv E tables (?inner'\<lparr>in_manifest := Some man'\<rparr>, files') co" by (simp add: eng_inv_iff)
  then have "engine_holds E path opts True (?inner'\<lparr>in_manifest := Some man'\<rparr>, files') (\<lambda>_. [])"
    by (rule engine_holdsI) (use use(2) new(2) in \<open>simp_all add: LsmStorageInner_new_def\<close>)
  moreover have "all_ids ?st = []" using LsmStorageState_create_fields(4) [of opts] by (simp add: all_ids_def)
  ultimately show ?thesis using use(1) t frames
    by (auto simp: LsmStorageState_create_fields intro!: exI [of _ "?inner'\<lparr>in_manifest := Some man'\<rparr>"]) (simp add: t_def MemTable_new_def)
qed

section \<open>Closing\<close>

lemma returns_flush_all:
  assumes "engine_holds E path opts d s M"
  shows "returns (m_while (\<lambda>_. m_bind get_inner (\<lambda>inner. m_return (ls_imm_memtables (in_state inner) \<noteq> [])))
      (\<lambda>_. LsmStorageInner_force_flush_next_imm_memtable E) ()) s (\<lambda>_ s'. engine_holds E path opts d s' M \<and>
    ls_imm_memtables (in_state (fst s')) = [] \<and> ls_memtable (in_state (fst s')) = ls_memtable (in_state (fst s)))"
    (is "returns (m_while ?b ?c ()) s _")
  using assms
proof (induction "length (ls_imm_memtables (in_state (fst s)))" arbitrary: s)
  case 0
  have "m_while ?b ?c () s = Some (Inr (), s)" using 0(1) by (cases s) (subst m_while.simps, auto)
  moreover have "ls_imm_memtables (in_state (fst s)) = []" using 0(1) by simp
  ultimately show ?case using 0(2) unfolding returns_def by blast
next
  case (Suc n)
  from returns_flush_oldest [OF Suc.prems] obtain s1 where
    s1: "LsmStorageInner_force_flush_next_imm_memtable E s = Some (Inr (), s1)" "engine_holds E path opts d s1 M"
      "ls_imm_memtables (in_state (fst s1)) = butlast (ls_imm_memtables (in_state (fst s)))"
      "ls_memtable (in_state (fst s1)) = ls_memtable (in_state (fst s))" by (auto simp: returns_def)
  have "m_while ?b ?c () s = m_while ?b ?c () s1"
    using Suc.hyps(2) s1(1) by (cases s) (subst m_while.simps, auto)
  moreover have "n = length (ls_imm_memtables (in_state (fst s1)))" using Suc.hyps(2) s1(3) by simp
  ultimately show ?case using Suc.hyps(1) [of s1] s1(2,4) by (simp add: returns_def)
qed

lemma st_inv_mono: "st_inv X opts b tables n st co \<Longrightarrow> b \<le> b' \<Longrightarrow> st_inv X opts b' tables n st co"
  unfolding st_inv_def using mt_ok_mono by blast

lemma returns_close:
  assumes h: "engine_holds E path opts d s M"
  shows "returns (MiniLsm_close E) s (\<lambda>_ s'. engine_holds E path opts d s' M \<and> (\<not> op_enable_wal opts \<longrightarrow>
    MemTable_is_empty (ls_memtable (in_state (fst s'))) \<and> ls_imm_memtables (in_state (fst s')) = []))"
proof -
  obtain inner files where s: "s = (inner, files)" by (cases s)
  from h obtain tables co where env: "env_inv E tables inner" and M: "M = store_view co" and o: "in_options inner = opts \<and> in_path inner = path"
    and inv: "st_inv (ev_ext E) (in_options inner) (op_target_sst_size (in_options inner)) tables (in_next_sst_id inner) (in_state inner) co"
    and dur: "d \<Longrightarrow> durable E (inner, files)"
    by (auto simp: engine_holds_def s eng_inv_iff)
  show ?thesis
  proof (cases "op_enable_wal opts")
    case True
    then show ?thesis using returns_weaken [OF returns_sync [OF h]] o by (simp add: s MiniLsm_close_def)
  next
    case False
    have "returns (if \<not> MemTable_is_empty (ls_memtable (in_state inner)) then LsmStorageInner_force_freeze_memtable E else m_return ())
        (inner, files) (\<lambda>_ s. engine_holds E path opts d s M \<and> MemTable_is_empty (ls_memtable (in_state (fst s))))"
    proof (cases "MemTable_is_empty (ls_memtable (in_state inner))")
      case True
      then show ?thesis using h by (simp add: s)
    next
      case False
      then show ?thesis
        using returns_freeze [OF env st_inv_mono [OF inv] _ o dur] M by (simp add: MemTable_is_empty_def)
    qed
    then show ?thesis
      using False o unfolding s MiniLsm_close_def returns_apply(1)
      by (auto intro!: returns_bind returns_weaken [OF returns_flush_all] simp: MemTable_is_empty_def)
  qed
qed

section \<open>Opening an existing store\<close>

text \<open>The JSON library restores every record from its text.\<close>

definition json_restores :: "json_lib \<Rightarrow> bool" where
  "json_restores lib \<longleftrightarrow> (\<forall>r. jl_parse lib (jl_dump lib (ManifestRecord_to_json r)) = Some (ManifestRecord_to_json r))"

lemma json_safe_short:
  assumes "json_restores lib" and "length (Manifest_frames crc32 lib recs) < 2 ^ 64" and "r \<in> set recs"
  shows "json_safe lib r"
proof -
  have "length (Manifest_frame crc32 lib r) \<le> length (Manifest_frames crc32 lib recs)"
    using assms(3) by (induction recs) auto
  then show ?thesis using assms(1,2) by (simp add: json_safe_def Let_def json_restores_def length_Manifest_frame)
qed

lemma open_ssts_ok:
  assumes io: "io_works (ev_io E)"
    and disk: "\<And>i. i \<in> set ids \<Longrightarrow> \<exists>t. look i = Some t \<and> st_id t = i \<and> on_disk E inner files t"
  shows "open_ssts E ids (inner, files) = Some (Inr (), inner\<lparr>in_state := (in_state inner)\<lparr>ls_sstables :=
    ls_sstables (in_state inner) ++ (look |` set ids)\<rparr>\<rparr>, files)"
  using disk
proof (induction ids arbitrary: inner)
  case (Cons i ids)
  from Cons.prems [of i] obtain t c where t: "look i = Some t" "st_id t = i" "files (path_of_sst_val inner i) = Some c"
    "SsTable_open (ev_ext E) i True \<lparr>fo_content = c\<rparr> = Inr t" by (auto simp: on_disk_def)
  let ?inner = "inner\<lparr>in_state := (in_state inner)\<lparr>ls_sstables := (ls_sstables (in_state inner))(i \<mapsto> t)\<rparr>\<rparr>"
  have "on_disk E ?inner files u = on_disk E inner files u" for u by (rule on_disk_cong) simp_all
  then have "open_ssts E ids (?inner, files) = Some (Inr (), ?inner\<lparr>in_state := (in_state ?inner)\<lparr>ls_sstables :=
    ls_sstables (in_state ?inner) ++ (look |` set ids)\<rparr>\<rparr>, files)"
    using Cons.prems by (intro Cons.IH) simp
  moreover have "(ls_sstables (in_state inner))(i \<mapsto> t) ++ (look |` set ids) = ls_sstables (in_state inner) ++ (look |` set (i # ids))"
    using t(1) Cons.prems by (auto simp: fun_eq_iff map_add_def restrict_map_def split: option.split)
  ultimately show ?case using t io
    by (simp add: FileObject_open_def io_works_def on_files_def m_bind_def get_inner_def modify_def)
qed simp

text \<open>The recovered state: the tables in place, some of the memtables, a new empty one, and nothing else known.\<close>

lemma sorted_wrt_subseq: "subseq xs ys \<Longrightarrow> sorted_wrt P ys \<Longrightarrow> sorted_wrt P xs"
  by (induction rule: list_emb.induct) (auto dest: subseq_subset)

lemma recovered_holds:
  assumes inv: "st_inv X opts b tables n st co" and imm: "\<forall>u \<in> set imm. mt_wf u" and new: "mt_wf t \<and> mt_map t = []"
    and st': "st' = \<lparr>ls_memtable = t, ls_imm_memtables = imm, ls_l0_sstables = ls_l0_sstables st,
      ls_levels = ls_levels st, ls_sstables = ls_sstables st |` set (all_ids st)\<rparr>"
  shows "st_holds X (tables |` set (all_ids st)) st' (co\<lparr>co_mems := [] # map mt_map imm\<rparr>)"
proof -
  let ?tables = "tables |` set (all_ids st)"
  have h: "st_holds X tables st co" and known: "\<And>i t. ls_sstables st i = Some t \<Longrightarrow> st_id t = i" using inv by (simp_all add: st_inv_def)
  have ids: "ids_hold X ?tables st' ids ess" if "ids_hold X tables st ids ess" "set ids \<subseteq> set (all_ids st)" for ids ess
    using that(1) unfolding ids_hold_def
  proof (rule list.rel_mono_strong)
    fix i es assume i: "i \<in> set ids" and "\<exists>t. ls_sstables st i = Some t \<and> sst_entries X tables t es"
    then obtain t where t: "ls_sstables st i = Some t" "sst_entries X tables t es" by blast
    have "i \<in> set (all_ids st)" using i that(2) by blast
    then have "ls_sstables st' i = Some t" "?tables (st_id t) = tables (st_id t)" using t(1) known [of i t] by (simp_all add: st')
    then show "\<exists>t. ls_sstables st' i = Some t \<and> sst_entries X ?tables t es"
      using t(2) by (simp add: sst_entries_def sst_holds_def)
  qed
  have "ids_hold X ?tables st' (ls_l0_sstables st') (co_l0 co)" using h by (intro ids) (auto simp: st_holds_def st' all_ids_def)
  moreover have "list_all2 (\<lambda>(_, ids) ess. ids_hold X ?tables st' ids ess \<and> sorted_entries (concat ess)) (ls_levels st') (co_levels co)"
  proof -
    have l: "list_all2 (\<lambda>(_, ids) ess. ids_hold X tables st ids ess \<and> sorted_entries (concat ess)) (ls_levels st') (co_levels co)"
      using h by (simp add: st_holds_def st')
    have sub: "set (snd lev) \<subseteq> set (all_ids st)" if "lev \<in> set (ls_levels st')" for lev
      using that by (auto simp: all_ids_def st')
    show ?thesis using l by (rule list.rel_mono_strong) (use ids sub in fastforce)
  qed
  ultimately show ?thesis using new imm by (simp add: st_holds_def st')
qed

lemma recovered_inv:
  assumes inv: "st_inv X opts b tables n st co"
    and imm: "\<And>t. t \<in> set imm \<Longrightarrow> mt_ok (op_target_sst_size opts + 2 ^ 17) t \<and> mt_map t \<noteq> []"
      "subseq (map mt_id imm) (map mt_id (ls_memtable st # ls_imm_memtables st))"
    and new: "mt_ok b t" "mt_map t = []" "mt_id t = m + 1"
    and m: "\<forall>i \<in> set (all_ids st) \<union> mem_ids st. i \<le> m"
    and st': "st' = \<lparr>ls_memtable = t, ls_imm_memtables = imm, ls_l0_sstables = ls_l0_sstables st,
      ls_levels = ls_levels st, ls_sstables = ls_sstables st |` set (all_ids st)\<rparr>"
  shows "st_inv X opts b (tables |` set (all_ids st)) (m + 2) st' (co\<lparr>co_mems := [] # map mt_map imm\<rparr>)"
proof -
  let ?tables = "tables |` set (all_ids st)" and ?co = "co\<lparr>co_mems := [] # map mt_map imm\<rparr>"
  have known: "\<And>i t. ls_sstables st i = Some t \<Longrightarrow> st_id t = i" using inv by (simp add: st_inv_def)
  have "st_holds X ?tables st' ?co" by (rule recovered_holds [OF inv _ _ st']) (use new imm(1) in \<open>simp_all add: mt_ok_def\<close>)
  moreover have "all_ids st' = all_ids st" "shape_ok (op_compaction_options opts) st' = shape_ok (op_compaction_options opts) st"
    by (simp_all add: st' all_ids_def shape_ok_def split: CompactionOptions.split)
  moreover have "st_id t = i \<and> i \<in> dom ?tables" if "ls_sstables st' i = Some t" for i t
    using that known all_ids_dom [OF inv] by (auto simp: st' restrict_map_def split: if_splits)
  moreover have "i < m + 2" if "i \<in> dom ?tables" for i using that m by (auto simp: restrict_map_def less_Suc_eq_le le_SucI split: if_splits)
  moreover have old: "mt_id u \<in> mem_ids st" if "u \<in> set imm" for u
  proof -
    have "mt_id u \<in> set (map mt_id imm)" using that by simp
    then show ?thesis using subseq_subset [OF imm(2)] by (auto simp: mem_ids_def)
  qed
  moreover have "mt_id u < m + 2 \<and> ?tables (mt_id u) = None" if "u \<in> set (t # imm)" for u
  proof (cases "u = t")
    case True
    moreover have "m + 1 \<notin> set (all_ids st)" using m by (metis Suc_eq_plus1 Suc_n_not_le_n UnI1)
    ultimately show ?thesis using new(3) by (simp add: restrict_map_def)
  next
    case False
    then have "mt_id u \<in> mem_ids st" using that old by simp
    then show ?thesis using m inv by (auto simp: st_inv_def mem_ids_def restrict_map_def le_less_trans [OF _ lessI] less_SucI le_imp_less_Suc)
  qed
  moreover have "sorted_wrt (>) (map mt_id (t # imm))"
  proof -
    have "sorted_wrt (>) (map mt_id imm)" using inv imm(2) sorted_wrt_subseq unfolding st_inv_def by blast
    then show ?thesis using old m new(3) by (auto simp: less_Suc_eq_le)
  qed
  moreover have "first_flushed (op_compaction_options opts) st'"
  proof -
    have "ls_levels st = [] \<or> 0 \<notin> mem_ids st" if "op_compaction_options opts = TieredOpts topts" for topts
      using inv that by (simp add: st_inv_def first_flushed_def mem_ids_def)
    then have "ls_levels st' = [] \<or> 0 \<notin> set (map mt_id (t # imm))" if "op_compaction_options opts = TieredOpts topts" for topts
      using that old new(3) by (fastforce simp: st')
    then show ?thesis by (simp add: first_flushed_def st' split: CompactionOptions.split)
  qed
  moreover have "ls_memtable st' = t" "ls_imm_memtables st' = imm" by (simp_all add: st')
  ultimately show ?thesis using inv new(1) imm(1) unfolding st_inv_def by (intro conjI) (simp_all del: list.map)
qed

lemma m_bind_exec: "p s = Some (Inr x, s') \<Longrightarrow> m_bind p f s = f x s'"
  by (simp add: m_bind_def)

text \<open>What opening does with a manifest that is replayed to the layout of \<open>st\<close>.\<close>

lemma open_existing_ok:
  assumes io: "io_works (ev_io E)"
    and rec: "Manifest_recover (ext_crc32 (ev_ext E)) (ev_json E) (ev_io E) mpath files = (Inr (man, recs), files)"
    and replay: "replay_records (in_compaction_controller inner) recs (in_state inner, [], 1) = Inr (layout (in_options inner) st, mems, m)"
    and disk: "\<And>i. i \<in> set (all_ids st) \<Longrightarrow> \<exists>t. ls_sstables st i = Some t \<and> st_id t = i \<and> on_disk E inner files t"
    and mems: "\<And>st1. ls_imm_memtables st1 = [] \<Longrightarrow>
      (if op_enable_wal (in_options inner) then recover_memtables E mems else m_return ()) (inner\<lparr>in_state := st1\<rparr>, files) =
      Some (Inr (), inner\<lparr>in_state := st1\<lparr>ls_imm_memtables := imm\<rparr>\<rparr>, files1)"
    and fresh: "\<And>st1. fresh_memtable E (Suc m) (inner\<lparr>in_state := st1\<rparr>, files1) = Some (Inr t, inner\<lparr>in_state := st1\<rparr>, files2)"
  defines "st' \<equiv> \<lparr>ls_memtable = t, ls_imm_memtables = imm, ls_l0_sstables = ls_l0_sstables st,
      ls_levels = ls_levels st, ls_sstables = ls_sstables st |` set (all_ids st)\<rparr>"
  shows "open_existing E mpath (inner, files) = use_manifest E man (inner\<lparr>in_state := st', in_next_sst_id := m + 2\<rparr>, files2)"
proof -
  let ?lay = "layout (in_options inner) st" and ?lev = "concat (map snd (ls_levels st))"
  have lay: "ls_l0_sstables ?lay = ls_l0_sstables st" "ls_levels ?lay = ls_levels st" "ls_sstables ?lay = Map.empty"
    "ls_imm_memtables ?lay = []" by (simp_all add: layout_def LsmStorageState_create_fields)
  define T where "T = (\<lambda>ids. ls_sstables st |` set ids)"
  have T: "T (ls_l0_sstables st) ++ (ls_sstables st |` set ?lev) = T (all_ids st)"
    by (auto simp: T_def all_ids_def fun_eq_iff map_add_def restrict_map_def split: option.split)
  have "open_ssts E (ls_l0_sstables st) (inner\<lparr>in_state := ?lay\<rparr>, files) =
      Some (Inr (), inner\<lparr>in_state := ?lay\<lparr>ls_sstables := T (ls_l0_sstables st)\<rparr>\<rparr>, files)"
    using open_ssts_ok [OF io, of "ls_l0_sstables st" "ls_sstables st" "inner\<lparr>in_state := ?lay\<rparr>" files] disk
    by (simp add: lay T_def all_ids_def on_disk_def)
  moreover have "open_ssts E ?lev (inner\<lparr>in_state := ?lay\<lparr>ls_sstables := T (ls_l0_sstables st)\<rparr>\<rparr>, files) =
      Some (Inr (), inner\<lparr>in_state := ?lay\<lparr>ls_sstables := T (all_ids st)\<rparr>\<rparr>, files)"
    using open_ssts_ok [OF io, of ?lev "ls_sstables st" "inner\<lparr>in_state := ?lay\<lparr>ls_sstables := T (ls_l0_sstables st)\<rparr>\<rparr>" files] disk
    by (simp add: T on_disk_def all_ids_def [of st] del: set_concat)
  moreover have "?lay\<lparr>ls_sstables := T (all_ids st), ls_imm_memtables := imm, ls_memtable := t\<rparr> = st'"
    by (simp add: st'_def T_def lay)
  moreover have "(if op_enable_wal (in_options inner) then recover_memtables E mems else m_return ())
      (inner\<lparr>in_state := ?lay\<lparr>ls_sstables := T (all_ids st)\<rparr>\<rparr>, files) =
      Some (Inr (), inner\<lparr>in_state := ?lay\<lparr>ls_sstables := T (all_ids st), ls_imm_memtables := imm\<rparr>\<rparr>, files1)"
    using mems [of "?lay\<lparr>ls_sstables := T (all_ids st)\<rparr>"] by (simp add: lay)
  moreover have "m_bind (fresh_memtable E (Suc m)) f (inner\<lparr>in_state := st1\<rparr>, files1) = f t (inner\<lparr>in_state := st1\<rparr>, files2)" for st1 and f :: "_ \<Rightarrow> (engine, unit) m"
    by (rule m_bind_exec) (rule fresh)
  note new = this
  ultimately show ?thesis using rec replay
    by (simp add: open_existing_def lay Let_def m_bind_exec new)
qed

end
