(* ===== verification/Example_Env.thy ===== *)
theory Example_Env
  imports Recovery
begin

text \<open>
  Concrete instances of what the engine is linked against: a text form for manifest records that
  can be read back, an environment, and stores in it.
\<close>

section \<open>A text form of records\<close>

fun nats_enc :: "nat list \<Rightarrow> bytes" where
  "nats_enc [] = []"
| "nats_enc (n # ns) = replicate n 1 @ 0 # nats_enc ns"

fun nats_dec :: "nat \<Rightarrow> bytes \<Rightarrow> nat list" where
  "nats_dec n [] = []"
| "nats_dec n (b # bs) = (if b = 0 then n # nats_dec 0 bs else nats_dec (n + 1) bs)"

lemma nats_dec_enc: "nats_dec 0 (nats_enc ns) = ns"
proof -
  have "nats_dec a (replicate n 1 @ 0 # bs) = (a + n) # nats_dec 0 bs" for a n bs by (induction n arbitrary: a) auto
  then show ?thesis by (induction ns) auto
qed

definition list_enc :: "nat list \<Rightarrow> nat list" where
  "list_enc xs = length xs # xs"

definition list_dec :: "nat list \<Rightarrow> nat list \<times> nat list" where
  "list_dec ns = (take (hd ns) (tl ns), drop (hd ns) (tl ns))"

lemma list_dec_enc [simp]: "list_dec (list_enc xs @ ns) = (xs, ns)"
  by (simp add: list_dec_def list_enc_def)

definition leveled_enc :: "nat option \<Rightarrow> nat list \<Rightarrow> nat \<Rightarrow> nat list \<Rightarrow> bool \<Rightarrow> nat list" where
  "leveled_enc ul us ll ls b = case_option 0 Suc ul # of_bool b # ll # list_enc us @ list_enc ls"

definition leveled_dec :: "nat list \<Rightarrow> (nat option \<Rightarrow> nat list \<Rightarrow> nat \<Rightarrow> nat list \<Rightarrow> bool \<Rightarrow> 'a) \<Rightarrow> 'a" where
  "leveled_dec ns f = (case list_dec (drop 3 ns) of (us, rest) \<Rightarrow>
     f (if ns ! 0 = 0 then None else Some (ns ! 0 - 1)) us (ns ! 2) (fst (list_dec rest)) (ns ! 1 = 1))"

lemma leveled_dec_enc [simp]: "leveled_dec (leveled_enc ul us ll ls b) f = f ul us ll ls b"
  using list_dec_enc [of ls "[]"] by (cases ul) (simp_all add: leveled_dec_def leveled_enc_def)

fun tiers_enc :: "(nat \<times> nat list) list \<Rightarrow> nat list" where
  "tiers_enc [] = []"
| "tiers_enc ((i, ids) # ts) = i # list_enc ids @ tiers_enc ts"

fun tiers_dec :: "nat \<Rightarrow> nat list \<Rightarrow> (nat \<times> nat list) list" where
  "tiers_dec 0 ns = []"
| "tiers_dec (Suc n) ns = (case list_dec (tl ns) of (ids, rest) \<Rightarrow> (hd ns, ids) # tiers_dec n rest)"

lemma tiers_dec_enc [simp]: "tiers_dec (length ts) (tiers_enc ts) = ts"
  by (induction ts rule: tiers_enc.induct) auto

definition task_enc :: "CompactionTask \<Rightarrow> nat list" where
  "task_enc t = (case t of
     TaskLeveled t \<Rightarrow> 0 # leveled_enc (lt_upper_level t) (lt_upper_level_sst_ids t) (lt_lower_level t) (lt_lower_level_sst_ids t)
       (lt_is_lower_level_bottom_level t)
   | TaskTiered t \<Rightarrow> 1 # of_bool (tt_bottom_tier_included t) # length (tt_tiers t) # tiers_enc (tt_tiers t)
   | TaskSimple t \<Rightarrow> 2 # leveled_enc (sl_upper_level t) (sl_upper_level_sst_ids t) (sl_lower_level t) (sl_lower_level_sst_ids t)
       (sl_is_lower_level_bottom_level t)
   | TaskForceFull t \<Rightarrow> 3 # list_enc (ff_l0_sstables t) @ list_enc (ff_l1_sstables t))"

definition task_dec :: "nat list \<Rightarrow> CompactionTask" where
  "task_dec ns = (let rest = tl ns in
     if hd ns = 0 then TaskLeveled (leveled_dec rest (\<lambda>ul us ll ls b. \<lparr>lt_upper_level = ul, lt_upper_level_sst_ids = us,
       lt_lower_level = ll, lt_lower_level_sst_ids = ls, lt_is_lower_level_bottom_level = b\<rparr>))
     else if hd ns = 1 then TaskTiered \<lparr>tt_tiers = tiers_dec (rest ! 1) (drop 2 rest), tt_bottom_tier_included = (rest ! 0 = 1)\<rparr>
     else if hd ns = 2 then TaskSimple (leveled_dec rest (\<lambda>ul us ll ls b. \<lparr>sl_upper_level = ul, sl_upper_level_sst_ids = us,
       sl_lower_level = ll, sl_lower_level_sst_ids = ls, sl_is_lower_level_bottom_level = b\<rparr>))
     else (case list_dec rest of (l0, rest) \<Rightarrow> TaskForceFull \<lparr>ff_l0_sstables = l0, ff_l1_sstables = fst (list_dec rest)\<rparr>))"

lemma task_dec_enc [simp]: "task_dec (task_enc t) = t"
proof (cases t)
  case (TaskForceFull f)
  then show ?thesis using list_dec_enc [of "ff_l1_sstables f" "[]"] by (simp add: task_dec_def task_enc_def)
qed (simp_all add: task_dec_def task_enc_def)

definition record_enc :: "ManifestRecord \<Rightarrow> nat list" where
  "record_enc r = (case r of Flush n \<Rightarrow> [0, n] | NewMemtable n \<Rightarrow> [1, n] | Compaction t out \<Rightarrow> 2 # list_enc out @ task_enc t)"

definition record_dec :: "nat list \<Rightarrow> ManifestRecord" where
  "record_dec ns = (if hd ns = 0 then Flush (ns ! 1) else if hd ns = 1 then NewMemtable (ns ! 1)
     else (case list_dec (tl ns) of (out, rest) \<Rightarrow> Compaction (task_dec rest) out))"

lemma record_dec_enc [simp]: "record_dec (record_enc r) = r"
  by (cases r) (simp_all add: record_dec_def record_enc_def)

definition codec_json :: json_lib where
  "codec_json = \<lparr>jl_dump = (\<lambda>j. case ManifestRecord_from_json j of Inl _ \<Rightarrow> [] | Inr r \<Rightarrow> nats_enc (record_enc r)),
     jl_parse = (\<lambda>t. Some (ManifestRecord_to_json (record_dec (nats_dec 0 t))))\<rparr>"

lemma codec_json_restores: "json_restores codec_json"
  by (simp add: json_restores_def codec_json_def nats_dec_enc)

section \<open>An environment\<close>

definition example_env :: env where
  "example_env = \<lparr>ev_ext = example_ext, ev_io = example_io, ev_json = codec_json\<rparr>"

lemma example_env_ok:
  "io_works (ev_io example_env)" "snappy_inverts (ev_ext example_env)" "json_restores (ev_json example_env)"
  by (simp_all add: example_env_def example_io_works example_snappy_inverts codec_json_restores)

lemma default_opts_ok:
  "opts_ok X default_for_week1_test" "opts_ok X (default_for_week2_test copts)"
  by (rule opts_ok_uncompressed; simp add: default_for_week1_test_def default_for_week2_test_def)+

text \<open>An example: a new store whose memtables are full with the first entry.\<close>

abbreviation small_opts :: LsmStorageOptions where
  "small_opts \<equiv> default_for_week1_test\<lparr>op_target_sst_size := 1, op_num_memtable_limit := 2\<rparr>"

lemma small_opts_ok: "opts_ok X small_opts"
  by (rule opts_ok_uncompressed) (simp_all add: default_for_week1_test_def)

lemma open_new_wal:
  assumes "LsmStorageInner_open E path opts files = Some (Inr (), s)" and "files (manifest_path path) = None" and "\<not> op_enable_wal opts"
  shows "mt_wal (ls_memtable (in_state (fst s))) = None"
  using assms by (auto simp: LsmStorageInner_open_def open_new_def use_manifest_def Let_def LsmStorageInner_new_def LsmStorageState_create_def MemTable_new_def
      split: prod.splits sum.splits option.splits)

lemma put_insert_full:
  assumes "mt_wal (ls_memtable (in_state (fst s))) = None" and "op_target_sst_size (in_options (fst s)) \<le> length k + length v"
  shows "\<exists>s'. put_insert E k v s = Some (Inr True, s') \<and> mt_wal (ls_memtable (in_state (fst s'))) = None \<and> in_options (fst s') = in_options (fst s) \<and>
    ls_imm_memtables (in_state (fst s')) = ls_imm_memtables (in_state (fst s))"
  using assms by (cases s) (auto simp: put_insert_def modify_def get_inner_def m_bind_case MemTable_put_def)

lemma small_store:
  obtains s where "LsmStorageInner_open example_env ''db'' small_opts Map.empty = Some (Inr (), s)" and "engine_holds example_env ''db'' small_opts True s (\<lambda>_. [])"
    and "mt_wal (ls_memtable (in_state (fst s))) = None" and "in_options (fst s) = small_opts" and "mt_map (ls_memtable (in_state (fst s))) = []"
    and "ls_imm_memtables (in_state (fst s)) = []"
proof -
  from LsmStorageInner_open_new [OF example_env_ok(1,2) small_opts_ok, of Map.empty "''db''"] obtain s where
    s: "LsmStorageInner_open example_env ''db'' small_opts Map.empty = Some (Inr (), s)" "engine_holds example_env ''db'' small_opts True s (\<lambda>_. [])"
      "mt_map (ls_memtable (in_state (fst s))) = []" "ls_imm_memtables (in_state (fst s)) = []" by auto
  have "mt_wal (ls_memtable (in_state (fst s))) = None" by (rule open_new_wal [OF s(1)]) (simp_all add: default_for_week1_test_def)
  moreover have "in_options (fst s) = small_opts" using s(2) by (simp add: engine_holds_def)
  ultimately show thesis using that s by blast
qed

lemma full_put:
  assumes h: "engine_holds E path opts d s M" and wal: "mt_wal (ls_memtable (in_state (fst s))) = None" "\<not> op_enable_wal opts"
    and full: "op_target_sst_size opts \<le> length k + length v" and wf: "wf_entry (k, v)"
  shows "\<exists>s'. LsmStorageInner_put E k v s = Some (Inr (), s') \<and> engine_holds E path opts d s' (M(k := v)) \<and>
    mt_wal (ls_memtable (in_state (fst s'))) = None \<and> mt_map (ls_memtable (in_state (fst s'))) = [] \<and>
    length (ls_imm_memtables (in_state (fst s'))) = Suc (length (ls_imm_memtables (in_state (fst s))))"
proof -
  have o: "in_options (fst s) = opts" using h by (simp add: engine_holds_def)
  have io: "io_works (ev_io E)" using h by (auto simp: engine_holds_def eng_inv_def split: prod.splits)
  from put_insert_full [OF wal(1), of k v E] full o obtain s1 where 1: "put_insert E k v s = Some (Inr True, s1)" "in_options (fst s1) = opts"
    "ls_imm_memtables (in_state (fst s1)) = ls_imm_memtables (in_state (fst s))" by auto
  from freeze_moves_memtable [OF io, of s1] obtain s2 where 2: "LsmStorageInner_force_freeze_memtable E s1 = Some (Inr (), s2)"
    "mt_map (ls_memtable (in_state (fst s2))) = []" "length (ls_imm_memtables (in_state (fst s2))) = Suc (length (ls_imm_memtables (in_state (fst s))))"
    using 1(3) by (auto simp: returns_def)
  have "mt_wal (ls_memtable (in_state (fst s2))) = None"
    using 2(1) 1(2) wal(2) by (cases s1) (auto simp: LsmStorageInner_force_freeze_memtable_def fresh_memtable_def next_sst_id_val_def modify_def m_bind_case
        record_in_manifest_def freeze_state_def MemTable_new_def split: option.splits prod.splits)
  moreover have "LsmStorageInner_put E k v s = Some (Inr (), s2)" by (simp add: LsmStorageInner_put_def m_bind_case 1(1) 2(1))
  ultimately show ?thesis using returns_put [OF h wf] 2(2,3) by (simp add: returns_def)
qed

text \<open>A store with two immutable memtables, as many as the limit, and an empty memtable.\<close>

lemma small_store_frozen:
  obtains s where "engine_holds example_env ''db'' small_opts True s ((\<lambda>_. [])([1] := [7], [2] := [8]))"
    and "length (ls_imm_memtables (in_state (fst s))) = 2" and "mt_map (ls_memtable (in_state (fst s))) = []"
proof (rule small_store)
  fix s assume s: "engine_holds example_env ''db'' small_opts True s (\<lambda>_. [])" "mt_wal (ls_memtable (in_state (fst s))) = None"
    "ls_imm_memtables (in_state (fst s)) = []"
  have o: "\<not> op_enable_wal small_opts" "op_target_sst_size small_opts \<le> length [k] + length [v]" "wf_entry ([k], [v])" for k v :: byte
    by (simp_all add: default_for_week1_test_def wf_entry_def)
  from full_put [OF s(1,2) o(1) o(2,3) [of 1 7]] s(3) obtain s1 where 1: "engine_holds example_env ''db'' small_opts True s1 ((\<lambda>_. [])([1] := [7]))"
    "mt_wal (ls_memtable (in_state (fst s1))) = None" "length (ls_imm_memtables (in_state (fst s1))) = 1" by auto
  from full_put [OF 1(1,2) o(1) o(2,3) [of 2 8]] 1(3) that show thesis by auto
qed

end
