(* ===== verification/Leveled_View.thy ===== *)
theory Leveled_View
  imports Tiered_View Example_Env
begin

text \<open>
  Compactions of the leveled strategy do not change what the running store holds, as long as no level above the
  target of a level 0 compaction has tables. A task replaces a part of a level: the tables that do not meet the key range stay on both
  sides of the output. Replaying the task from the manifest does not
  order the level (the last section), so that nothing is said about restarts.
\<close>

section \<open>Runs side by side\<close>

abbreviation keys_of :: "entry list \<Rightarrow> bytes set" where
  "keys_of xs \<equiv> fst ` set xs"

definition keys_below :: "entry list \<Rightarrow> bytes \<Rightarrow> bool" where
  "keys_below xs b \<longleftrightarrow> (\<forall>k \<in> keys_of xs. k < b)"

definition keys_above :: "bytes \<Rightarrow> entry list \<Rightarrow> bool" where
  "keys_above e xs \<longleftrightarrow> (\<forall>k \<in> keys_of xs. e < k)"

definition before :: "entry list \<Rightarrow> entry list \<Rightarrow> bool" where
  "before xs ys \<longleftrightarrow> (\<forall>k \<in> keys_of xs. keys_above k ys)"

lemma keys_below_simps [simp]:
  "keys_below [] b" "keys_below (xs @ ys) b \<longleftrightarrow> keys_below xs b \<and> keys_below ys b"
  by (auto simp: keys_below_def)

lemma keys_above_simps [simp]:
  "keys_above e []" "keys_above e (xs @ ys) \<longleftrightarrow> keys_above e xs \<and> keys_above e ys"
  by (auto simp: keys_above_def)

lemma before_simps [simp]:
  "before [] ys" "before xs []" "before (xs @ xs') ys \<longleftrightarrow> before xs ys \<and> before xs' ys" "before xs (ys @ ys') \<longleftrightarrow> before xs ys \<and> before xs ys'"
  by (auto simp: before_def)

lemma sorted_entries_append: "sorted_entries (xs @ ys) \<longleftrightarrow> sorted_entries xs \<and> sorted_entries ys \<and> before xs ys"
  by (auto simp: sorted_wrt_append before_def keys_above_def)

lemma before_disjoint: "before xs ys \<Longrightarrow> k \<in> keys_of xs \<Longrightarrow> k \<notin> keys_of ys"
  unfolding before_def keys_above_def by blast

lemma before_range: "keys_below xs b \<Longrightarrow> (\<And>k. k \<in> keys_of ys \<Longrightarrow> b \<le> k) \<Longrightarrow> before xs ys"
  "(\<And>k. k \<in> keys_of xs \<Longrightarrow> k \<le> e) \<Longrightarrow> keys_above e ys \<Longrightarrow> before xs ys"
  unfolding before_def keys_above_def keys_below_def by (blast intro: less_le_trans le_less_trans)+

lemma before_keys: "keys_of zs \<subseteq> \<Union> (keys_of ` set xss) \<Longrightarrow> \<forall>xs \<in> set xss. before ys xs \<Longrightarrow> before ys zs"
  "keys_of zs \<subseteq> \<Union> (keys_of ` set xss) \<Longrightarrow> \<forall>xs \<in> set xss. before xs ys \<Longrightarrow> before zs ys"
  unfolding before_def keys_above_def by blast+

lemma key_first_last: "sorted_entries xs \<Longrightarrow> k \<in> keys_of xs \<Longrightarrow> fst (hd xs) \<le> k" "sorted_entries xs \<Longrightarrow> k \<in> keys_of xs \<Longrightarrow> k \<le> fst (last xs)"
proof -
  show "fst (hd xs) \<le> k" if "sorted_entries xs" "k \<in> keys_of xs" using that by (cases xs) auto
  show "k \<le> fst (last xs)" if "sorted_entries xs" "k \<in> keys_of xs" using that by (cases xs rule: rev_cases) (auto simp: sorted_wrt_append)
qed

section \<open>The overlapping part of a level\<close>

text \<open>The tables of a sorted level that meet the range from \<open>b\<close> to \<open>e\<close> are neighbours.\<close>

definition parted :: "ext \<Rightarrow> (nat \<Rightarrow> entry list list option) \<Rightarrow> LsmStorageState \<Rightarrow> nat list \<Rightarrow> entry list list \<Rightarrow>
    nat list \<times> nat list \<times> nat list \<Rightarrow> entry list list \<times> entry list list \<times> entry list list \<Rightarrow> bool" where
  "parted X tables st ids ess = (\<lambda>(P, M, S) (pe, me, se). ids = P @ M @ S \<and> ess = pe @ me @ se \<and>
     ids_hold X tables st P pe \<and> ids_hold X tables st M me \<and> ids_hold X tables st S se)"

lemma level_entry:
  assumes "ids_hold X tables st ids ess" and "j \<in> set ids"
  obtains u us where "ls_sstables st j = Some u" and "sst_entries X tables u us" and "us \<in> set ess"
proof -
  from assms(2) obtain n where "n < length ids" "ids ! n = j" by (auto simp: in_set_conv_nth)
  with assms(1) that show thesis by (auto simp: ids_hold_def list_all2_conv_all_nth)
qed

lemma above_no_overlap:
  assumes "ids_hold X tables st ids ess" and "keys_above e (concat ess)" and "j \<in> set ids"
  shows "\<exists>u. ls_sstables st j = Some u \<and> e < st_first_key u"
proof -
  from level_entry [OF assms(1,3)] obtain u us where u: "ls_sstables st j = Some u" "sst_entries X tables u us" "us \<in> set ess" .
  have "fst (hd us) \<in> keys_of (concat ess)" using u(3) hd_in_set [OF sst_entries_keys(1) [OF u(2)]] by auto
  then have "e < st_first_key u" using assms(2) unfolding keys_above_def sst_entries_keys(2) [OF u(2)] by blast
  then show ?thesis using u(1) by simp
qed

lemma split_overlap:
  fixes st and b e :: bytes
  assumes "ids_hold X tables st ids ess" and "sorted_entries (concat ess)"
  defines "ov i \<equiv> (case ls_sstables st i of None \<Rightarrow> False | Some sst \<Rightarrow> \<not> (st_last_key sst < b \<or> e < st_first_key sst))"
  shows "\<exists>P S pe me se. parted X tables st ids ess (P, filter ov ids, S) (pe, me, se) \<and> keys_below (concat pe) b \<and> keys_above e (concat se)"
  using assms(1,2)
proof (induction ids arbitrary: ess)
  case Nil
  then show ?case by (intro exI [of _ "[]"]) (simp add: ids_hold_def parted_def)
next
  case (Cons i ids)
  then obtain t es ess' where t: "ls_sstables st i = Some t" "sst_entries X tables t es" and ess: "ess = es # ess'"
    and h: "ids_hold X tables st ids ess'" by (auto simp: ids_hold_def list_all2_Cons1)
  note k = sst_entries_keys [OF t(2)]
  have sorted: "sorted_entries (concat ess')" and after: "before es (concat ess')"
    using Cons.prems(2) unfolding ess concat.simps sorted_entries_append by simp_all
  have i: "ids_hold X tables st (i # js) (es # fs) \<longleftrightarrow> ids_hold X tables st js fs" for js fs using t by (auto simp: ids_hold_def)
  have ov: "ov i \<longleftrightarrow> \<not> (fst (last es) < b \<or> e < fst (hd es))" using t(1) k(2,3) by (simp add: ov_def)
  have last: "keys_above (fst (last es)) (concat ess')" using after last_in_set [OF k(1)] unfolding before_def by blast
  from Cons.IH [OF h sorted] obtain P S pe me se where
    IH: "parted X tables st ids ess' (P, filter ov ids, S) (pe, me, se)" "keys_below (concat pe) b" "keys_above e (concat se)" by blast
  consider "fst (last es) < b" | "\<not> fst (last es) < b" "e < fst (hd es)" | "\<not> fst (last es) < b" "\<not> e < fst (hd es)" by blast
  then show ?case
  proof cases
    case 1
    then have "keys_below es b" unfolding keys_below_def using key_first_last(2) [OF k(4)] by (blast intro: le_less_trans)
    then have "parted X tables st (i # ids) ess (i # P, filter ov (i # ids), S) (es # pe, me, se)" "keys_below (concat (es # pe)) b"
      using IH ov 1 i by (simp_all add: parted_def ess)
    then show ?thesis using IH(3) by blast
  next
    case 2
    have "keys_above e es" unfolding keys_above_def using 2(2) key_first_last(1) [OF k(4)] by (blast intro: less_le_trans)
    moreover have "e < fst (last es)" using 2(2) key_first_last(1) [OF k(4), of "fst (last es)"] last_in_set [OF k(1)] by auto
    then have "keys_above e (concat ess')" using last unfolding keys_above_def by (blast intro: less_trans)
    ultimately have all: "keys_above e (concat ess)" by (simp add: ess)
    then have "\<not> ov j" if "j \<in> set ids" for j using above_no_overlap [OF Cons.prems(1), of e j] that by (auto simp: ov_def)
    then have "filter ov (i # ids) = []" using ov 2 by simp
    then have "parted X tables st (i # ids) ess ([], filter ov (i # ids), i # ids) ([], [], ess)"
      using Cons.prems(1) by (simp add: parted_def ids_hold_def)
    moreover have "keys_below (concat []) b" by simp
    ultimately show ?thesis using all by blast
  next
    case 3
    have "keys_of (concat pe) = {}"
    proof -
      have "keys_above (fst (last es)) (concat pe)" using last IH(1) by (simp add: parted_def)
      then have "fst (last es) < b" if "k \<in> keys_of (concat pe)" for k
        using bspec [OF IH(2) [unfolded keys_below_def] that] that unfolding keys_above_def by (blast intro: less_trans)
      then show ?thesis using 3(1) by (intro equals0I) simp
    qed
    then have "P = []" using level_empty [of X tables st P pe] IH(1) by (simp add: parted_def)
    moreover have "pe = []" using IH(1) \<open>P = []\<close> by (simp add: ids_hold_def parted_def)
    ultimately have "parted X tables st (i # ids) ess ([], filter ov (i # ids), S) ([], es # me, se)"
      using IH(1) ov 3 i by (simp add: parted_def ess)
    moreover have "keys_below (concat []) b" by simp
    ultimately show ?thesis using IH(3) by blast
  qed
qed

lemma ids_hold_known:
  "ids_hold X tables st ids ess \<Longrightarrow> es \<in> set ess \<Longrightarrow> \<exists>t \<in> set (known_ssts st ids). sst_entries X tables t es"
  "ids_hold X tables st ids ess \<Longrightarrow> known_ssts st ids = [] \<longleftrightarrow> ids = []"
  unfolding ids_hold_def by (induction rule: list_all2_induct) (auto simp: map_filter_simps)

text \<open>The tables that a task takes along, and the parts of the level on both sides of them.\<close>

lemma overlapping_split:
  assumes up: "ids_hold X tables st ids ess" and low: "ids_hold X tables st lower low" "sorted_entries (concat low)"
    and l: "1 \<le> l" "l \<le> length (ls_levels st)" "snd (ls_levels st ! (l - 1)) = lower"
  shows "\<exists>P S pe me se. parted X tables st lower low (P, Leveled_find_overlapping_ssts st ids l, S) (pe, me, se) \<and>
    (\<forall>es \<in> set ess. before (concat pe) es \<and> before es (concat se))"
proof (cases "ids = []")
  case True
  then have "ess = []" "Leveled_find_overlapping_ssts st ids l = []"
    using up by (simp_all add: ids_hold_def Leveled_find_overlapping_ssts_def)
  then show ?thesis using low
    by (intro exI [of _ lower] exI [of _ "[]"] exI [of _ low] exI [of _ "[]"] exI [of _ "[]"]) (simp add: ids_hold_def parted_def)
next
  case False
  define b e where "b = Min (st_first_key ` set (known_ssts st ids))" and "e = Max (st_last_key ` set (known_ssts st ids))"
  have ne: "known_ssts st ids \<noteq> []" using ids_hold_known(2) [OF up] False by simp
  have range: "b \<le> k" "k \<le> e" if es: "es \<in> set ess" "k \<in> keys_of es" for es k
  proof -
    from ids_hold_known(1) [OF up es(1)] obtain t where t: "t \<in> set (known_ssts st ids)" "sst_entries X tables t es" by blast
    note k = sst_entries_keys [OF t(2)]
    have "b \<le> st_first_key t" "st_last_key t \<le> e" unfolding b_def e_def using t(1) by (simp_all add: Min_le Max_ge)
    then show "b \<le> k" "k \<le> e" using key_first_last [OF k(4) es(2)] unfolding k(2,3) by order+
  qed
  have find: "Leveled_find_overlapping_ssts st ids l = filter (\<lambda>i. case ls_sstables st i of None \<Rightarrow> False
      | Some sst \<Rightarrow> \<not> (st_last_key sst < b \<or> e < st_first_key sst)) lower"
    using ne l by (simp add: Leveled_find_overlapping_ssts_def Leveled_key_range_hull b_def [symmetric] e_def [symmetric] cong: option.case_cong)
  from split_overlap [OF low, of b e, folded find] obtain P S pe me se where
    part: "parted X tables st lower low (P, Leveled_find_overlapping_ssts st ids l, S) (pe, me, se)"
      "keys_below (concat pe) b" "keys_above e (concat se)" by (elim exE conjE) (rule that)
  have "\<forall>es \<in> set ess. before (concat pe) es \<and> before es (concat se)"
  proof (intro ballI conjI)
    fix es assume es: "es \<in> set ess"
    show "before (concat pe) es" by (rule before_range(1) [OF part(2) range(1) [OF es]])
    show "before es (concat se)" by (rule before_range(2) [OF range(2) [OF es] part(3)])
  qed
  then show ?thesis using part(1) by blast
qed

section \<open>Values\<close>

lemma keys_kept: "keys_of (kept bottom xs) \<subseteq> keys_of xs"
  by (auto simp: kept_def)

text \<open>Merging newer runs into a part of the run below.\<close>

definition apart :: "entry list \<Rightarrow> entry list list \<Rightarrow> entry list \<Rightarrow> bool" where
  "apart pe xss se \<longleftrightarrow> (\<forall>xs \<in> set xss. sorted_entries xs \<and> before pe xs \<and> before xs se)"

lemma sorted_part:
  assumes "apart pe xss se" and sorted: "sorted_entries (pe @ me @ se)"
  shows "sorted_entries (pe @ kept bottom (merge_runs (xss @ [me])) @ se)"
proof -
  let ?m = "kept bottom (merge_runs (xss @ [me]))"
  have me: "sorted_entries me" "sorted_entries pe" "sorted_entries se" "before pe me" "before pe se" "before me se"
    using sorted unfolding sorted_entries_append before_simps by simp_all
  have "\<And>xs. xs \<in> set (xss @ [me]) \<Longrightarrow> sorted_entries xs" using assms(1) me(1) by (auto simp: apart_def)
  then have "sorted_entries ?m" by (intro sorted_kept sorted_merge_runs)
  have "keys_of ?m \<subseteq> \<Union> (keys_of ` set (xss @ [me]))"
    using keys_kept [of bottom "merge_runs (xss @ [me])"] unfolding keys_merge_runs by blast
  note before_keys [OF this]
  moreover have "\<forall>xs \<in> set (xss @ [me]). before pe xs" "\<forall>xs \<in> set (xss @ [me]). before xs se"
    using assms(1) me(4,6) by (simp_all add: apart_def)
  ultimately have "before pe ?m" "before ?m se" by blast+
  moreover note \<open>sorted_entries ?m\<close>
  ultimately show ?thesis using me unfolding sorted_entries_append before_simps by simp
qed

lemma newest_apart:
  assumes "apart pe xss se" and "k \<in> keys_of pe \<or> k \<in> keys_of se"
  shows "newest xss k = None"
proof -
  have "map_of xs k = None" if "xs \<in> set xss" for xs
  proof -
    have "before pe xs" "before xs se" using assms(1) that by (auto simp: apart_def)
    then show ?thesis using assms(2) before_disjoint unfolding map_of_eq_None_iff by blast
  qed
  then show ?thesis by (induction xss) auto
qed

lemma runs_value_part:
  assumes ap: "apart pe xss se" and sorted: "sorted_entries (pe @ me @ se)"
    and bottom: "bottom \<Longrightarrow> \<forall>xs \<in> set post. xs = []"
  shows "runs_value (pre @ [pe @ kept bottom (merge_runs (xss @ [me])) @ se] @ post) = runs_value (pre @ xss @ [pe @ me @ se] @ post)"
proof -
  let ?m = "kept bottom (merge_runs (xss @ [me]))"
  have me: "sorted_entries me" "before pe me" "before me se"
    using sorted unfolding sorted_entries_append before_simps by simp_all
  have sm: "sorted_entries xs" if "xs \<in> set (xss @ [me])" for xs using that ap me(1) by (auto simp: apart_def)
  have m: "map_of ?m k = (case newest (xss @ [me]) k of None \<Rightarrow> None | Some v \<Rightarrow> if bottom \<and> v = [] then None else Some v)" for k
  proof -
    have "sorted_entries (merge_runs (xss @ [me]))" "map_of (merge_runs (xss @ [me])) = newest (xss @ [me])"
      by (rule sorted_merge_runs, rule sm, assumption, rule newest_merge_runs, rule sm)
    then show ?thesis by (simp only: map_of_kept)
  qed
  have "runs_value ([pe @ ?m @ se] @ post) k = runs_value (xss @ [pe @ me @ se] @ post) k" for k
  proof (cases "k \<in> keys_of pe \<or> k \<in> keys_of se")
    case True
    have "newest xss k = None" by (rule newest_apart [OF ap True])
    moreover have "map_of me k = None"
      unfolding map_of_eq_None_iff using True before_disjoint [OF me(2), of k] before_disjoint [OF me(3), of k] by simp blast
    moreover from calculation have "map_of ?m k = None" using m [of k] by (simp add: newest_append)
    ultimately show ?thesis by (simp add: runs_value_def newest_append map_add_def split: option.split)
  next
    case False
    then have "map_of pe k = None" "map_of se k = None" by (simp_all add: map_of_eq_None_iff)
    then show ?thesis using m [of k] newest_empty [OF bottom, of k]
      by (auto simp: runs_value_def newest_append map_add_def split: option.split)
  qed
  then show ?thesis unfolding runs_value_append [of pre] by (simp only:)
qed

lemma runs_value_empty: "\<forall>xs \<in> set ess. xs = [] \<Longrightarrow> runs_value (pre @ ess @ post) = runs_value (pre @ post)"
  by (induction ess) auto

text \<open>A table taken out of its run.\<close>

lemma runs_value_take_out:
  assumes "sorted_entries (a @ b @ c)"
  shows "runs_value (pre @ [a @ c] @ b # post) = runs_value (pre @ (a @ b @ c) # post)"
proof -
  have "before a b" "before b c" using assms unfolding sorted_entries_append before_simps by simp_all
  then have "map_of b k = None" if "k \<in> keys_of a \<or> k \<in> keys_of c" for k
    unfolding map_of_eq_None_iff using that before_disjoint by blast
  then have "map_of a k = None \<and> map_of c k = None \<or> map_of b k = None" for k unfolding map_of_eq_None_iff by blast
  then have "newest ([a @ c] @ b # post) k = newest ((a @ b @ c) # post) k" for k
    by (auto simp: map_add_def split: option.split) (metis option.distinct(1))+
  then have "runs_value ([a @ c] @ b # post) k = runs_value ((a @ b @ c) # post) k" for k unfolding runs_value_def by (simp only:)
  then show ?thesis unfolding runs_value_append [of pre] by (simp only:)
qed

section \<open>The order of the new level\<close>

lemma sort_by_sort_key:
  fixes f :: "'a \<Rightarrow> 'b::linorder"
  assumes "\<And>x y. x \<in> set xs \<Longrightarrow> y \<in> set xs \<Longrightarrow> lt x y \<longleftrightarrow> f x < f y"
  shows "sort_by lt xs = sort_key f xs"
  using assms
proof (induction xs)
  case (Cons x xs)
  have ins: "insert_by lt x ys = insort_key f x ys" if "set ys \<subseteq> set xs" for ys
    using that Cons.prems by (induction ys) (auto simp: not_less)
  have "sort_by lt (x # xs) = insert_by lt x (sort_by lt xs)" by (simp add: sort_by_def)
  also have "sort_by lt xs = sort_key f xs" using Cons by simp
  also have "insert_by lt x (sort_key f xs) = insort_key f x (sort_key f xs)" by (rule ins) simp
  finally show ?case by simp
qed (simp add: sort_by_def)

lemma first_keys_sorted:
  "ids_hold X tables st ids ess \<Longrightarrow> sorted_entries (concat ess) \<Longrightarrow>
    sorted_wrt (<) (map (\<lambda>i. st_first_key (the (ls_sstables st i))) ids) \<and> (\<forall>i \<in> set ids. ls_sstables st i \<noteq> None) \<and>
    (\<forall>i \<in> set ids. st_first_key (the (ls_sstables st i)) \<in> keys_of (concat ess))"
  unfolding ids_hold_def
proof (induction rule: list_all2_induct)
  case (Cons i ids es ess)
  from Cons.hyps(1) obtain t where t: "ls_sstables st i = Some t" "sst_entries X tables t es" by blast
  note k = sst_entries_keys [OF t(2)]
  have s: "sorted_entries (concat ess)" "before es (concat ess)" using Cons.prems unfolding concat.simps sorted_entries_append by simp_all
  have first: "st_first_key (the (ls_sstables st i)) \<in> keys_of es" using t(1) k(1,2) by simp
  then have above: "keys_above (st_first_key (the (ls_sstables st i))) (concat ess)" using s(2) unfolding before_def by blast
  note IH = Cons.IH [OF s(1)]
  have "\<forall>j \<in> set ids. st_first_key (the (ls_sstables st i)) < st_first_key (the (ls_sstables st j))"
    using IH above unfolding keys_above_def by blast
  moreover have "keys_of (concat (es # ess)) = keys_of es \<union> keys_of (concat ess)" by (simp add: image_Un)
  ultimately show ?case using IH first t(1) by (simp only: list.map sorted_wrt.simps list.set set_map ball_simps) simp
qed simp

lemma sort_level:
  assumes "ids_hold X tables st (P @ new @ S) ess" and "sorted_entries (concat ess)"
  shows "sort_by (Leveled_sst_less st) (P @ S @ new) = P @ new @ S"
proof -
  let ?f = "\<lambda>i. st_first_key (the (ls_sstables st i))"
  note f = first_keys_sorted [OF assms]
  have known: "ls_sstables st i \<noteq> None" if "i \<in> set (P @ S @ new)" for i using f that by auto
  have "sort_by (Leveled_sst_less st) (P @ S @ new) = sort_key ?f (P @ S @ new)"
  proof (rule sort_by_sort_key)
    fix x y assume "x \<in> set (P @ S @ new)" "y \<in> set (P @ S @ new)"
    then obtain t u where "ls_sstables st x = Some t" "ls_sstables st y = Some u" using known by blast
    then show "Leveled_sst_less st x y \<longleftrightarrow> ?f x < ?f y" by (simp add: Leveled_sst_less_def)
  qed
  also have "\<dots> = P @ new @ S"
  proof (rule sort_key_inj_key_eq)
    have "sorted (map ?f (P @ new @ S)) \<and> distinct (map ?f (P @ new @ S))" using f unfolding strict_sorted_iff [symmetric] by blast
    then show "sorted (map ?f (P @ new @ S))" "inj_on ?f (set (P @ S @ new))" unfolding distinct_map by (simp_all add: Un_ac)
  qed (simp add: ac_simps)
  finally show ?thesis .
qed

lemma erase_ssts_Nil [simp]: "erase_ssts [] st = st"
  by (simp add: erase_ssts_def)

text \<open>The level in the state to which the controller applies the result.\<close>

lemma sort_new_level:
  assumes pend: "pending X tables st ssts nss"
    and part: "parted X tables st lower low (P, M, S) (pe, me, se)" and sub: "set lower \<subseteq> set (all_ids st)"
    and sorted: "sorted_entries (concat pe @ concat nss @ concat se)"
  shows "sort_by (Leveled_sst_less (add_ssts ssts st)) (P @ S @ map st_id ssts) = P @ map st_id ssts @ S"
proof (rule sort_level)
  have i: "installed st ssts [] (add_ssts ssts st)" using installed_erase [of "add_ssts ssts st" st ssts "[]"] by simp
  note hold = installed_hold [OF pend i, simplified]
  have "set P \<subseteq> set (all_ids st)" "set S \<subseteq> set (all_ids st)" using sub part by (auto simp: parted_def)
  then show "ids_hold X tables (add_ssts ssts st) (P @ map st_id ssts @ S) (pe @ nss @ se)"
    using hold part unfolding ids_hold_def parted_def by (auto intro!: list_all2_appendI)
  show "sorted_entries (concat (pe @ nss @ se))" using sorted by simp
qed

section \<open>Installing the result\<close>

lemma leveled_l0_install:
  assumes inv: "st_inv X opts b tables n st co" and pend: "pending X tables st ssts nss"
    and kind: "op_compaction_options opts = LeveledOpts lopts"
    and lev: "ls_levels st = A @ (l, lower) # B" "co_levels co = CA @ low # CB" "length CA = length A"
    and l0: "ls_l0_sstables st = new @ old" "co_l0 co = cnew @ cold" "ids_hold X tables st new cnew"
    and above: "\<forall>lev \<in> set A. snd lev = []"
    and part: "parted X tables st lower low (P, M, S) (pe, me, se)" and ap: "apart (concat pe) cold (concat se)"
    and out: "concat nss = kept bottom (merge_runs (cold @ [concat me]))" and bottom: "bottom \<Longrightarrow> B = []"
  shows "\<exists>co'. st_inv X opts b tables n
      (erase_ssts (old @ M) ((add_ssts ssts st)\<lparr>ls_l0_sstables := new, ls_levels := A @ (l, P @ map st_id ssts @ S) # B\<rparr>)) co' \<and>
    store_view co' = store_view co"
proof (rule replace_part [OF inv pend lev, where A' = A and CA' = CA and l0' = new and czero = cnew
      and P = P and S = S and pe = pe and se = se])
  have h: "st_holds X tables st co" and d: "distinct (all_ids st)" using inv by (simp_all add: st_inv_def)
  have lh: "levels_hold X tables st A CA" "sorted_entries (concat low)" and lenB: "length CB = length B"
    using h lev by (auto simp: st_holds_def list_all2_append dest: list_all2_lengthD)
  have lower: "lower = P @ M @ S" "low = pe @ me @ se" using part by (simp_all add: parted_def)
  have sorted: "sorted_entries (concat pe @ concat me @ concat se)" using lh(2) by (simp add: lower)
  have empty: "\<forall>xs \<in> set (map concat CA). xs = []"
    using lh(1) above by (induction rule: list_all2_induct) (auto simp: ids_hold_def)
  show "levels_hold X tables st A CA" by (rule lh(1))
  show "sorted_entries (concat pe @ concat nss @ concat se)" unfolding out by (rule sorted_part [OF ap sorted])
  have "runs_value ((cnew @ map concat CA) @ [concat pe @ kept bottom (merge_runs (cold @ [concat me])) @ concat se] @ map concat CB) =
      runs_value ((cnew @ map concat CA) @ cold @ [concat pe @ concat me @ concat se] @ map concat CB)"
    by (rule runs_value_part [OF ap sorted]) (use bottom lenB in auto)
  also have "\<dots> = runs_value (cnew @ cold @ [concat pe @ concat me @ concat se] @ map concat CB)"
    using runs_value_empty [OF empty, of cnew] by simp
  also have "\<dots> = runs_value (co_l0 co @ map concat (co_levels co))"
    using runs_value_empty [OF empty, of "cnew @ cold"] by (simp add: lev lower l0)
  finally show "runs_value (cnew @ map concat CA @ [concat pe @ concat nss @ concat se] @ map concat CB) =
      runs_value (co_l0 co @ map concat (co_levels co))" by (simp add: out)
  show "set (old @ M) \<inter> (set new \<union> level_ids A \<union> set P \<union> set S \<union> level_ids B) = {}" "distinct (new @ concat (map snd A) @ P @ S)"
    using d by (auto simp: all_ids_def lev lower l0)
  show "shape_ok (op_compaction_options opts) ((add_ssts ssts st)\<lparr>ls_l0_sstables := new, ls_levels := A @ (l, P @ map st_id ssts @ S) # B\<rparr>)"
    using inv lev by (simp add: st_inv_def kind shape_ok_def)
  show "set (old @ M) \<subseteq> set (all_ids st)" by (auto simp: all_ids_def lev lower l0)
qed (use part lev l0 in \<open>auto simp: parted_def\<close>)

lemma leveled_level_install:
  assumes inv: "st_inv X opts b tables n st co" and pend: "pending X tables st ssts nss"
    and kind: "op_compaction_options opts = LeveledOpts lopts"
    and lev: "ls_levels st = A @ (u, U @ x # V) # (l, lower) # B" "co_levels co = CA @ (ue @ es # ve) # low # CB" "length CA = length A"
    and up: "ids_hold X tables st U ue" "ids_hold X tables st V ve"
    and part: "parted X tables st lower low (P, M, S) (pe, me, se)" and ap: "apart (concat pe) [es] (concat se)"
    and out: "concat nss = kept bottom (merge_runs [es, concat me])"
    and bottom: "bottom \<Longrightarrow> B = []"
  shows "\<exists>co'. st_inv X opts b tables n
      (erase_ssts (x # M) ((add_ssts ssts st)\<lparr>ls_levels := A @ (u, U @ V) # (l, P @ map st_id ssts @ S) # B\<rparr>)) co' \<and>
    store_view co' = store_view co"
proof (rule replace_part [OF inv pend, where A = "A @ [(u, U @ x # V)]" and CA = "CA @ [ue @ es # ve]" and B = B and CB = CB and lower = lower and low = low
      and A' = "A @ [(u, U @ V)]" and CA' = "CA @ [ue @ ve]" and l0' = "ls_l0_sstables st" and czero = "co_l0 co" and P = P and S = S and pe = pe and se = se])
  have h: "st_holds X tables st co" and d: "distinct (all_ids st)" using inv by (simp_all add: st_inv_def)
  have lh: "levels_hold X tables st A CA" "sorted_entries (concat low)" "sorted_entries (concat (ue @ es # ve))" and lenB: "length CB = length B"
    using h lev by (auto simp: st_holds_def list_all2_append dest: list_all2_lengthD)
  have lower: "lower = P @ M @ S" "low = pe @ me @ se" using part by (simp_all add: parted_def)
  have sorted: "sorted_entries (concat pe @ concat me @ concat se)" using lh(2) by (simp add: lower)
  have upper: "sorted_entries (concat ue @ es @ concat ve)" using lh(3) by simp
  have rest: "sorted_entries (concat ue @ concat ve)" using upper unfolding sorted_entries_append before_simps by simp
  show "levels_hold X tables st (A @ [(u, U @ V)]) (CA @ [ue @ ve])"
    using lh(1) up rest lev(3) unfolding ids_hold_def by (simp add: list_all2_appendI)
  show "ids_hold X tables st (ls_l0_sstables st) (co_l0 co)" using h by (simp add: st_holds_def)
  have out: "concat nss = kept bottom (merge_runs ([es] @ [concat me]))" using out by simp
  show "sorted_entries (concat pe @ concat nss @ concat se)" unfolding out by (rule sorted_part [OF ap sorted])
  let ?pre = "co_l0 co @ map concat CA" and ?low = "[concat pe @ concat me @ concat se] @ map concat CB"
  have "runs_value ((?pre @ [concat ue @ concat ve]) @ [concat pe @ kept bottom (merge_runs ([es] @ [concat me])) @ concat se] @ map concat CB) =
      runs_value ((?pre @ [concat ue @ concat ve]) @ [es] @ ?low)"
    by (rule runs_value_part [OF ap sorted]) (use bottom lenB in auto)
  also have "\<dots> = runs_value (?pre @ (concat ue @ es @ concat ve) # ?low)" using runs_value_take_out [OF upper, of ?pre ?low] by simp
  finally show "runs_value (co_l0 co @ map concat (CA @ [ue @ ve]) @ [concat pe @ concat nss @ concat se] @ map concat CB) =
      runs_value (co_l0 co @ map concat (co_levels co))" by (simp add: lev lower out)
  show "set (x # M) \<inter> (set (ls_l0_sstables st) \<union> level_ids (A @ [(u, U @ V)]) \<union> set P \<union> set S \<union> level_ids B) = {}"
    using d by (auto simp: all_ids_def lev lower)
  show "distinct (ls_l0_sstables st @ concat (map snd (A @ [(u, U @ V)])) @ P @ S)" using d by (auto simp: all_ids_def lev lower)
  show "shape_ok (op_compaction_options opts) ((add_ssts ssts st)\<lparr>ls_levels := A @ (u, U @ V) # (l, P @ map st_id ssts @ S) # B\<rparr>)"
    using inv lev by (simp add: st_inv_def kind shape_ok_def)
  show "set (x # M) \<subseteq> set (all_ids st)" by (auto simp: all_ids_def lev lower)
qed (use part lev in \<open>auto simp: parted_def\<close>)

section \<open>The controller's part\<close>

lemma Leveled_apply_l0:
  assumes "lt_upper_level task = None" "lt_upper_level_sst_ids task = old" "lt_lower_level task = Suc (length A)"
    "lt_lower_level_sst_ids task = M" "ls_l0_sstables st = new @ old" "ls_levels st = A @ (l, P @ M @ S) # B" "distinct (all_ids st)"
    and sort: "sort_by (Leveled_sst_less st) (P @ S @ out) = P @ out @ S"
  shows "Leveled_apply_compaction_result st task out False =
    Inr (st\<lparr>ls_l0_sstables := new, ls_levels := A @ (l, P @ out @ S) # B\<rparr>, old @ M)"
proof -
  have d: "distinct (new @ old)" "distinct (P @ M @ S)" using assms(5-7) by (auto simp: all_ids_def)
  show ?thesis using assms(1-6) sort take_out_middle [OF d(2)] take_out_suffix [of new old] d(1)
    by (simp add: Leveled_apply_compaction_result_def level_files_def set_level_files_def nth_append Let_def)
qed

lemma Leveled_apply_level:
  assumes "lt_upper_level task = Some (Suc (length A))" "lt_upper_level_sst_ids task = [x]" "lt_lower_level task = Suc (Suc (length A))"
    "lt_lower_level_sst_ids task = M" "ls_levels st = A @ (u, U @ x # V) # (l, P @ M @ S) # B" "distinct (all_ids st)"
    and sort: "sort_by (Leveled_sst_less st) (P @ S @ new) = P @ new @ S"
  shows "Leveled_apply_compaction_result st task new False =
    Inr (st\<lparr>ls_levels := A @ (u, U @ V) # (l, P @ new @ S) # B\<rparr>, x # M)"
proof -
  have d: "distinct (U @ [x] @ V)" "distinct (P @ M @ S)" using assms(5,6) by (auto simp: all_ids_def)
  have n: "(A @ a # b # B) ! length A = a" "(A @ a # b # B) ! Suc (length A) = b" "(A @ a # b # B)[length A := c] = A @ c # b # B"
    "(A @ a # b # B)[Suc (length A) := c] = A @ a # c # B" for a b c B by (simp_all add: nth_append list_update_append)
  show ?thesis using assms(1-5) sort take_out_middle [OF d(2)] take_out_middle [of U "[x]" V, OF d(1)]
    by (simp add: Leveled_apply_compaction_result_def level_files_def set_level_files_def Let_def n)
qed

section \<open>Tasks in later states\<close>

lemma flush_to_l0_leveled [simp]: "CompactionController_flush_to_l0 (CompactionController_create (LeveledOpts lopts))"
  by (simp add: CompactionController_flush_to_l0_def CompactionController_create_def)

lemma split_level:
  assumes "list_all2 R levels esss" and "1 \<le> l" and "l \<le> length levels"
  obtains A n lower B CA low CB where "levels = A @ (n, lower) # B" and "esss = CA @ low # CB"
    and "length A = l - 1" and "length CA = length A" and "lower = snd (levels ! (l - 1))"
proof -
  have len: "length levels = length esss" using assms(1) by (rule list_all2_lengthD)
  have lt: "l - 1 < length levels" "Suc (l - 1) = l" using assms by auto
  have eq: "levels = take (l - 1) levels @ (fst (levels ! (l - 1)), snd (levels ! (l - 1))) # drop l levels"
    "esss = take (l - 1) esss @ esss ! (l - 1) # drop l esss"
    using id_take_nth_drop [OF lt(1)] id_take_nth_drop [of "l - 1" esss] lt len by simp_all
  show thesis by (rule that [OF eq]) (use lt len in simp_all)
qed

text \<open>A level 0 compaction may only pass over levels that are empty.\<close>

definition passes_empty :: "LsmStorageState \<Rightarrow> LeveledCompactionTask \<Rightarrow> bool" where
  "passes_empty st task \<longleftrightarrow> lt_upper_level task = None \<longrightarrow> (\<forall>lev \<in> set (take (lt_lower_level task - 1) (ls_levels st)). snd lev = [])"

lemma parted_later:
  assumes inv0: "st_inv X opts b tables0 n st0 co0" and l: "later copts tables0 st0 tables st"
    and part: "parted X tables0 st0 lower low (P, M, S) (pe, me, se)" and sub: "set lower \<subseteq> set (all_ids st0)"
  shows "parted X tables st lower low (P, M, S) (pe, me, se)"
proof -
  have le: "tables0 \<subseteq>\<^sub>m tables" using l by (simp add: later_def)
  have same: "ls_sstables st i = ls_sstables st0 i" if "i \<in> set lower" for i using all_ids_dom [OF inv0] l sub that by (auto simp: later_def)
  have "ids_hold X tables st ids ess" if "ids_hold X tables0 st0 ids ess" "set ids \<subseteq> set lower" for ids ess
    by (rule ids_hold_mono [OF that(1) le]) (use same that(2) in blast)
  then show ?thesis using part by (auto simp: parted_def)
qed

lemma leveled_l0_works:
  assumes inv0: "st_inv (ev_ext E) opts b tables0 n st0 co0" and kind: "op_compaction_options opts = LeveledOpts lopts"
    and t: "lt_upper_level task = None" "lt_upper_level_sst_ids task = ls_l0_sstables st0" "lt_lower_level task = Suc (length A)"
      "lt_lower_level_sst_ids task = M" "lt_is_lower_level_bottom_level task \<Longrightarrow> B = []"
    and lev0: "ls_levels st0 = A @ (l, lower) # B" "co_levels co0 = CA @ low # CB" "length CA = length A"
    and above: "\<forall>lev \<in> set A. snd lev = []"
    and part0: "parted (ev_ext E) tables0 st0 lower low (P, M, S) (pe, me, se)" and ap: "apart (concat pe) (co_l0 co0) (concat se)"
    and sorted: "sorted_entries (concat pe @ concat me @ concat se)"
  shows "works E path opts False (TaskLeveled task) tables0 st0 (co_l0 co0 @ [concat me])"
  unfolding works_def
proof (intro allI impI)
  fix tables s co ssts nss
  assume r: "ready E path opts False tables s co ssts nss" and later: "later (op_compaction_options opts) tables0 st0 tables (in_state (fst s))"
    and out: "concat nss = kept (CompactionTask_compact_to_bottom_level (TaskLeveled task)) (merge_runs (co_l0 co0 @ [concat me]))"
  let ?st = "in_state (fst s)"
  have inv: "st_inv (ev_ext E) opts (op_target_sst_size opts) tables (in_next_sst_id (fst s)) ?st co" and pend: "pending (ev_ext E) tables ?st ssts nss"
    using ready_inv [OF r] by simp_all
  from later_l0 [OF inv0 inv later] obtain new cnew where
    new: "ls_l0_sstables ?st = new @ ls_l0_sstables st0" "co_l0 co = cnew @ co_l0 co0" "ids_hold (ev_ext E) tables ?st new cnew"
    and lev: "ls_levels ?st = A @ (l, lower) # B" "co_levels co = CA @ low # CB" unfolding lev0 kind by auto
  have part: "parted (ev_ext E) tables ?st lower low (P, M, S) (pe, me, se)"
    by (rule parted_later [OF inv0 later part0]) (auto simp: all_ids_def lev0)
  have d: "distinct (all_ids ?st)" using inv by (simp add: st_inv_def)
  have lower: "lower = P @ M @ S" using part by (simp add: parted_def)
  have ctrl: "in_compaction_controller (fst s) = CtrlLeveled lopts" using r by (cases s) (auto simp: ready_def eng_inv_def kind CompactionController_create_def)
  have "sorted_entries (concat pe @ concat nss @ concat se)" unfolding out by (rule sorted_part [OF ap sorted])
  then have sort: "sort_by (Leveled_sst_less (add_ssts ssts ?st)) (P @ S @ map st_id ssts) = P @ map st_id ssts @ S"
    by (intro sort_new_level [OF pend part]) (auto simp: all_ids_def lev)
  let ?st1 = "(add_ssts ssts ?st)\<lparr>ls_l0_sstables := new, ls_levels := A @ (l, P @ map st_id ssts @ S) # B\<rparr>" and ?rm = "ls_l0_sstables st0 @ M"
  have "Leveled_apply_compaction_result (add_ssts ssts ?st) task (map st_id ssts) False = Inr (?st1, ?rm)"
    using Leveled_apply_l0 [OF t(1-4) _ _ _ sort, of new l B] d new(1) lev(1) lower by (simp add: all_ids_def)
  then have "installs False (fst s) (TaskLeveled task) ssts ?st1 ?rm"
    using d lev(1) lower new(1) by (auto simp: installs_def ctrl CompactionController_apply_compaction_result_def all_ids_def)
  then show "\<exists>st1 rm co'. installs False (fst s) (TaskLeveled task) ssts st1 rm \<and>
      st_inv (ev_ext E) opts (op_target_sst_size opts) tables (in_next_sst_id (fst s)) (erase_ssts rm st1) co' \<and> store_view co' = store_view co"
    using leveled_l0_install [OF inv pend kind lev lev0(3) new above part ap out] t(5) by (auto simp: CompactionTask_compact_to_bottom_level_def)
qed

lemma leveled_level_works:
  assumes inv0: "st_inv (ev_ext E) opts b tables0 n st0 co0" and kind: "op_compaction_options opts = LeveledOpts lopts"
    and t: "lt_upper_level task = Some (Suc (length A))" "lt_upper_level_sst_ids task = [x]" "lt_lower_level task = Suc (Suc (length A))"
      "lt_lower_level_sst_ids task = M" "lt_is_lower_level_bottom_level task \<Longrightarrow> B = []"
    and lev0: "ls_levels st0 = A @ (u, U @ x # V) # (l, lower) # B" "co_levels co0 = CA @ (ue @ es # ve) # low # CB" "length CA = length A"
    and up0: "ids_hold (ev_ext E) tables0 st0 U ue" "ids_hold (ev_ext E) tables0 st0 V ve"
    and part0: "parted (ev_ext E) tables0 st0 lower low (P, M, S) (pe, me, se)" and ap: "apart (concat pe) [es] (concat se)"
    and sorted: "sorted_entries (concat pe @ concat me @ concat se)"
  shows "works E path opts False (TaskLeveled task) tables0 st0 [es, concat me]"
  unfolding works_def
proof (intro allI impI)
  fix tables s co ssts nss
  assume r: "ready E path opts False tables s co ssts nss" and later: "later (op_compaction_options opts) tables0 st0 tables (in_state (fst s))"
    and out: "concat nss = kept (CompactionTask_compact_to_bottom_level (TaskLeveled task)) (merge_runs [es, concat me])"
  let ?st = "in_state (fst s)"
  have inv: "st_inv (ev_ext E) opts (op_target_sst_size opts) tables (in_next_sst_id (fst s)) ?st co" and pend: "pending (ev_ext E) tables ?st ssts nss"
    using ready_inv [OF r] by simp_all
  from later_l0 [OF inv0 inv later] have
    lev: "ls_levels ?st = A @ (u, U @ x # V) # (l, lower) # B" "co_levels co = CA @ (ue @ es # ve) # low # CB" unfolding lev0 kind by auto
  have part: "parted (ev_ext E) tables ?st lower low (P, M, S) (pe, me, se)"
    by (rule parted_later [OF inv0 later part0]) (auto simp: all_ids_def lev0)
  have le: "tables0 \<subseteq>\<^sub>m tables" and same: "\<And>i. i \<in> set (all_ids st0) \<Longrightarrow> ls_sstables ?st i = ls_sstables st0 i"
    using all_ids_dom [OF inv0] later by (auto simp: later_def)
  have up: "ids_hold (ev_ext E) tables ?st U ue" "ids_hold (ev_ext E) tables ?st V ve"
    by (rule ids_hold_mono [OF up0(1) le], rule same, simp add: all_ids_def lev0, rule ids_hold_mono [OF up0(2) le], rule same, simp add: all_ids_def lev0)
  have d: "distinct (all_ids ?st)" using inv by (simp add: st_inv_def)
  have lower: "lower = P @ M @ S" using part by (simp add: parted_def)
  have ctrl: "in_compaction_controller (fst s) = CtrlLeveled lopts" using r by (cases s) (auto simp: ready_def eng_inv_def kind CompactionController_create_def)
  have out': "concat nss = kept (CompactionTask_compact_to_bottom_level (TaskLeveled task)) (merge_runs ([es] @ [concat me]))" using out by simp
  have "sorted_entries (concat pe @ concat nss @ concat se)" unfolding out' by (rule sorted_part [OF ap sorted])
  then have sort: "sort_by (Leveled_sst_less (add_ssts ssts ?st)) (P @ S @ map st_id ssts) = P @ map st_id ssts @ S"
    by (intro sort_new_level [OF pend part]) (auto simp: all_ids_def lev)
  let ?st1 = "(add_ssts ssts ?st)\<lparr>ls_levels := A @ (u, U @ V) # (l, P @ map st_id ssts @ S) # B\<rparr>"
  have "Leveled_apply_compaction_result (add_ssts ssts ?st) task (map st_id ssts) False = Inr (?st1, x # M)"
    using Leveled_apply_level [OF t(1-4) _ _ sort, of u U V l B] d lev(1) lower by (simp add: all_ids_def)
  then have "installs False (fst s) (TaskLeveled task) ssts ?st1 (x # M)"
    using d lev(1) lower by (auto simp: installs_def ctrl CompactionController_apply_compaction_result_def all_ids_def)
  then show "\<exists>st1 rm co'. installs False (fst s) (TaskLeveled task) ssts st1 rm \<and>
      st_inv (ev_ext E) opts (op_target_sst_size opts) tables (in_next_sst_id (fst s)) (erase_ssts rm st1) co' \<and> store_view co' = store_view co"
    using leveled_level_install [OF inv pend kind lev lev0(3) up part ap out] t(5) by (auto simp: CompactionTask_compact_to_bottom_level_def)
qed

lemma Leveled_generate_total:
  assumes "lo_max_levels opts = 1 \<or> 0 < lo_level_size_multiplier opts"
  shows "\<exists>t_opt. Leveled_generate_compaction_task opts st = Inr t_opt"
proof -
  let ?sizes = "Leveled_real_level_size st (lo_max_levels opts)"
  have "\<exists>tb. Leveled_targets opts ?sizes = Inr tb" using assms by (auto simp: Leveled_targets_def Let_def)
  then obtain target base where tb: "Leveled_targets opts ?sizes = Inr (target, base)" by auto
  let ?prio = "sort_by (\<lambda>a b. if fst a \<noteq> fst b then fst a > fst b else snd a < snd b) (Leveled_priorities ?sizes target)"
  show ?thesis
    unfolding Leveled_generate_compaction_task_def Let_def tb res_bind_simps prod.case
    by (cases "length (ls_l0_sstables st) \<ge> lo_level0_file_num_compaction_trigger opts"; cases ?prio) (auto simp only: if_True if_False list.case split: prod.split if_split)
qed

lemma leveled_l0_plan:
  assumes inv: "st_inv (ev_ext E) opts b tables n st co" and kind: "op_compaction_options opts = LeveledOpts lopts"
    and t: "lt_upper_level task = None" "lt_upper_level_sst_ids task = ls_l0_sstables st"
      "1 \<le> lt_lower_level task" "lt_lower_level task \<le> length (ls_levels st)"
      "lt_lower_level_sst_ids task = Leveled_find_overlapping_ssts st (lt_upper_level_sst_ids task) (lt_lower_level task)"
      "lt_is_lower_level_bottom_level task = (lt_lower_level task = length (ls_levels st))"
    and above: "passes_empty st task"
  shows "\<exists>xss. task_input (ev_ext E) tables st (TaskLeveled task) xss \<and> works E path opts False (TaskLeveled task) tables st xss"
proof -
  let ?X = "ev_ext E" and ?M = "lt_lower_level_sst_ids task"
  have st: "st_holds ?X tables st co" using inv by (simp add: st_inv_def)
  have h: "ids_hold ?X tables st (ls_l0_sstables st) (co_l0 co)" and lh: "levels_hold ?X tables st (ls_levels st) (co_levels co)"
    using st by (simp_all add: st_holds_def)
  from split_level [OF lh t(3,4)] obtain A l lower B CA low CB where
    lev: "ls_levels st = A @ (l, lower) # B" "co_levels co = CA @ low # CB" "length CA = length A" and A: "length A = lt_lower_level task - 1"
    and low: "lower = snd (ls_levels st ! (lt_lower_level task - 1))" by metis
  have hl: "ids_hold ?X tables st lower low" "sorted_entries (concat low)" using lh lev by (auto simp: list_all2_append)
  from overlapping_split [OF h hl t(3,4) low [symmetric], folded t(2), folded t(5)] obtain P S pe me se where
    part: "parted ?X tables st lower low (P, ?M, S) (pe, me, se)"
    and b: "\<forall>es \<in> set (co_l0 co). before (concat pe) es \<and> before es (concat se)" by (elim exE conjE) (rule that)
  have "\<forall>es \<in> set (co_l0 co). sorted_entries es" using st_holds_sorted [OF st] by (auto simp: lsm_runs_def)
  then have ap: "apart (concat pe) (co_l0 co) (concat se)" using b by (simp add: apart_def)
  have me: "low = pe @ me @ se" "ids_hold ?X tables st ?M me" using part by (simp_all add: parted_def)
  have sme: "sorted_entries (concat pe @ concat me @ concat se)" using hl(2) by (simp add: me)
  then have "sorted_entries (concat me)" unfolding sorted_entries_append by simp
  then have "task_input ?X tables st (TaskLeveled task) (co_l0 co @ [concat me])"
    using h me(2) t(1,2) by (auto simp: task_input_def leveled_input_def)
  moreover have "works E path opts False (TaskLeveled task) tables st (co_l0 co @ [concat me])"
  proof (rule leveled_l0_works [OF inv kind t(1,2) _ refl _ lev _ part ap sme])
    show l: "lt_lower_level task = Suc (length A)" using A t(3) by simp
    show "\<forall>lev \<in> set A. snd lev = []" using above A by (simp add: passes_empty_def t lev(1))
    show "B = []" if "lt_is_lower_level_bottom_level task" using that l lev(1) t(6) by simp
  qed
  ultimately show ?thesis by blast
qed

lemma leveled_level_plan:
  assumes inv: "st_inv (ev_ext E) opts b tables n st co" and kind: "op_compaction_options opts = LeveledOpts lopts"
    and i: "1 \<le> i" "i < length (ls_levels st)"
    and t: "lt_upper_level task = Some i" "lt_upper_level_sst_ids task = [x]" "x \<in> set (snd (ls_levels st ! (i - 1)))" "lt_lower_level task = i + 1"
      "lt_lower_level_sst_ids task = Leveled_find_overlapping_ssts st (lt_upper_level_sst_ids task) (lt_lower_level task)"
      "lt_is_lower_level_bottom_level task = (i + 1 = length (ls_levels st))"
  shows "\<exists>xss. task_input (ev_ext E) tables st (TaskLeveled task) xss \<and> works E path opts False (TaskLeveled task) tables st xss"
proof -
  let ?X = "ev_ext E" and ?M = "lt_lower_level_sst_ids task"
  have lh: "levels_hold ?X tables st (ls_levels st) (co_levels co)" using inv by (simp add: st_inv_def st_holds_def)
  from split_levels [OF lh i] obtain A u upper l lower B CA up low CB where
    lev': "ls_levels st = A @ (u, upper) # (l, lower) # B" "co_levels co = CA @ up # low # CB" "length CA = length A"
    and A: "length A = i - 1" and ul: "upper = snd (ls_levels st ! (i - 1))" "lower = snd (ls_levels st ! i)" by metis
  have hh: "ids_hold ?X tables st upper up" "ids_hold ?X tables st lower low" "sorted_entries (concat up)" "sorted_entries (concat low)"
    using lh lev' by (auto simp: list_all2_append)
  from t(3) obtain U V where U: "upper = U @ x # V" unfolding ul by (meson split_list)
  from hh(1) obtain ue es ve where up: "up = ue @ es # ve" "ids_hold ?X tables st U ue" "ids_hold ?X tables st [x] [es]" "ids_hold ?X tables st V ve"
    unfolding U ids_hold_def by (auto simp: list_all2_append1 list_all2_Cons1)
  note lev = lev' [unfolded U up(1)]
  have low: "snd (ls_levels st ! (lt_lower_level task - 1)) = lower" "1 \<le> lt_lower_level task" "lt_lower_level task \<le> length (ls_levels st)"
    using i by (simp_all add: t(4) ul(2))
  from overlapping_split [OF up(3) hh(2,4) low(2,3,1), folded t(2), folded t(5)] obtain P S pe me se where
    part: "parted ?X tables st lower low (P, ?M, S) (pe, me, se)"
    and b: "\<forall>es \<in> set [es]. before (concat pe) es \<and> before es (concat se)" by (elim exE conjE) (rule that)
  have es: "sorted_entries es" using up(3) by (auto simp: ids_hold_def dest: sst_entries_keys(4))
  then have ap: "apart (concat pe) [es] (concat se)" using b by (simp add: apart_def)
  have me: "low = pe @ me @ se" "ids_hold ?X tables st ?M me" using part by (simp_all add: parted_def)
  have sme: "sorted_entries (concat pe @ concat me @ concat se)" using hh(4) by (simp add: me)
  then have "sorted_entries (concat me)" unfolding sorted_entries_append by simp
  then have "task_input ?X tables st (TaskLeveled task) [es, concat me]"
    using up(3) es me(2) unfolding task_input_def leveled_input_def CompactionTask.case t(1,2) option.case
    by (intro exI [of _ "[es]"] exI [of _ me]) simp
  moreover have "works E path opts False (TaskLeveled task) tables st [es, concat me]"
  proof (rule leveled_level_works [OF inv kind _ t(2) _ refl _ lev up(2,4) part ap sme])
    show "lt_upper_level task = Some (Suc (length A))" "lt_lower_level task = Suc (Suc (length A))" using A i(1) t(1,4) by simp_all
    show "B = []" if "lt_is_lower_level_bottom_level task" using that lev'(1) A i(1) t(6) by (cases B) auto
  qed
  ultimately show ?thesis by blast
qed

lemma leveled_plan:
  assumes inv: "st_inv (ev_ext E) opts b tables n st co" and kind: "op_compaction_options opts = LeveledOpts lopts"
    and pos: "0 < lo_max_levels lopts" and gen: "Leveled_generate_compaction_task lopts st = Inr (Some task)" and pass: "passes_empty st task"
  shows "\<exists>xss. task_input (ev_ext E) tables st (TaskLeveled task) xss \<and> works E path opts False (TaskLeveled task) tables st xss"
proof -
  note shape = Leveled_task_shape [OF gen pos]
  have lens: "length (ls_levels st) = lo_max_levels lopts" using inv by (simp add: st_inv_def shape_ok_def kind)
  show ?thesis
  proof (cases "lt_upper_level task")
    case None
    then show ?thesis using shape lens by (intro leveled_l0_plan [OF inv kind _ _ _ _ _ _ pass]) auto
  next
    case (Some l)
    then have l: "1 \<le> l" "l < length (ls_levels st)" "lt_lower_level task = l + 1" "snd (ls_levels st ! (l - 1)) \<noteq> []"
      "lt_upper_level_sst_ids task = [min_list (snd (ls_levels st ! (l - 1)))]" using shape(1) lens by auto
    show ?thesis by (rule leveled_level_plan [OF inv kind l(1,2) Some l(5) min_list_in [OF l(4)] l(3) shape(2)]) (use shape(3) lens l(3) in simp)
  qed
qed

text \<open>When a leveled compaction is safe.\<close>

definition leveled_safe :: "LeveledCompactionOptions \<Rightarrow> LsmStorageState \<Rightarrow> bool" where
  "leveled_safe lopts st \<longleftrightarrow> 0 < lo_max_levels lopts \<and> (lo_max_levels lopts = 1 \<or> 0 < lo_level_size_multiplier lopts) \<and>
     (\<forall>task. Leveled_generate_compaction_task lopts st = Inr (Some task) \<longrightarrow> passes_empty st task)"

interpretation leveled: compaction_strategy E path opts False
  "\<lambda>st. \<exists>lopts. op_compaction_options opts = LeveledOpts lopts \<and> leveled_safe lopts st"
proof
  fix b tables n st co assume inv: "st_inv (ev_ext E) opts b tables n st co"
    and "\<exists>lopts. op_compaction_options opts = LeveledOpts lopts \<and> leveled_safe lopts st"
  then obtain lopts where kind: "op_compaction_options opts = LeveledOpts lopts" and safe: "leveled_safe lopts st" by blast
  obtain t_opt where t_opt: "Leveled_generate_compaction_task lopts st = Inr t_opt" using Leveled_generate_total safe unfolding leveled_safe_def by blast
  then have "CompactionController_generate_compaction_task (CompactionController_create (op_compaction_options opts)) st = Inr (map_option TaskLeveled t_opt)"
    by (simp add: kind CompactionController_create_def CompactionController_generate_compaction_task_def)
  then show "\<exists>task_opt. CompactionController_generate_compaction_task (CompactionController_create (op_compaction_options opts)) st = Inr task_opt \<and>
      (\<forall>task. task_opt = Some task \<longrightarrow> (\<exists>xss. task_input (ev_ext E) tables st task xss \<and> works E path opts False task tables st xss))"
    using leveled_plan [OF inv kind] safe t_opt by (auto simp: leveled_safe_def)
qed

section \<open>Properties\<close>

text \<open>C13: a compaction of the leveled strategy changes nothing that can be read. It returns, and the store holds the same map as
  before, whichever tables the strategy picks, provided that a compaction of level 0 passes over no level that has tables.\<close>

theorem leveled_compaction_keeps_map:
  assumes "engine_holds E path opts False s M" and "op_compaction_options opts = LeveledOpts lopts"
    and "0 < lo_max_levels lopts" and "lo_max_levels lopts = 1 \<or> 0 < lo_level_size_multiplier lopts"
    and "\<forall>task. Leveled_generate_compaction_task lopts (in_state (fst s)) = Inr (Some task) \<longrightarrow> passes_empty (in_state (fst s)) task"
  shows "\<exists>b s'. LsmStorageInner_trigger_compaction E s = Some (Inr b, s') \<and> engine_holds E path opts False s' M"
  using leveled.compaction [OF lasting_True, unfolded engine_with_True, OF assms(1)] assms(2-5) by (simp add: returns_def leveled_safe_def)

theorem leveled_compaction_keeps_map_witness:
  "\<exists>s b s'. LsmStorageInner_open example_env ''db'' (default_for_week2_test (LeveledOpts \<lparr>lo_level_size_multiplier = 2,
      lo_level0_file_num_compaction_trigger = 0, lo_max_levels = 4, lo_base_level_size_mb = 1\<rparr>)) Map.empty = Some (Inr (), s) \<and>
    LsmStorageInner_trigger_compaction example_env s = Some (Inr b, s')"
proof -
  let ?l = "\<lparr>lo_level_size_multiplier = 2, lo_level0_file_num_compaction_trigger = 0, lo_max_levels = 4, lo_base_level_size_mb = 1\<rparr>"
  let ?opts = "default_for_week2_test (LeveledOpts ?l)"
  from LsmStorageInner_open_new [OF example_env_ok(1,2) default_opts_ok(2), of Map.empty "''db''" "LeveledOpts ?l"] obtain s where
    s: "LsmStorageInner_open example_env ''db'' ?opts Map.empty = Some (Inr (), s)" "engine_holds example_env ''db'' ?opts True s (\<lambda>_. [])"
      "all_ids (in_state (fst s)) = []" by auto
  have "\<forall>lev \<in> set (ls_levels (in_state (fst s))). snd lev = []" using s(3) by (simp add: all_ids_def)
  then have "passes_empty (in_state (fst s)) task" for task by (auto simp: passes_empty_def dest: in_set_takeD)
  moreover have "engine_holds example_env ''db'' ?opts False s (\<lambda>_. [])" using s(2) by (simp add: engine_holds_def)
  ultimately show ?thesis
    using leveled_compaction_keeps_map [of example_env "''db''" ?opts s "\<lambda>_. []" ?l] s(1) by (simp add: default_for_week2_test_def) blast
qed

lemma Leveled_target_loop_low:
  assumes "i < length target" and "target ! i \<le> base" and "\<forall>j < i. target ! j = 0"
  shows "Leveled_target_loop mlt base i target bl = (target, bl)"
  using assms
proof (induction i)
  case (Suc i)
  then show ?case by (simp add: Let_def not_less)
qed simp

text \<open>C22: the proviso is needed. As long as the lowest level is not larger than the base size, a compaction of level 0 goes
  straight to the lowest level, whatever the levels between hold: the newest entries end up below older ones if any of them has
  tables.\<close>

theorem leveled_skips_levels:
  assumes "0 < lo_max_levels opts" and "lo_max_levels opts = 1 \<or> 0 < lo_level_size_multiplier opts"
    and "length (ls_levels st) = lo_max_levels opts" and "lo_level0_file_num_compaction_trigger opts \<le> length (ls_l0_sstables st)"
    and "Leveled_real_level_size st (lo_max_levels opts) ! (lo_max_levels opts - 1) \<le> (lo_base_level_size_mb opts * 1024 * 1024) mod 2 ^ 64"
  shows "\<exists>task. Leveled_generate_compaction_task opts st = Inr (Some task) \<and> lt_upper_level task = None \<and>
    lt_lower_level task = lo_max_levels opts \<and> (passes_empty st task \<longleftrightarrow> (\<forall>lev \<in> set (butlast (ls_levels st)). snd lev = []))"
proof -
  let ?n = "lo_max_levels opts" and ?base = "(lo_base_level_size_mb opts * 1024 * 1024) mod 2 ^ 64"
  let ?sizes = "Leveled_real_level_size st ?n" and ?target = "(replicate (lo_max_levels opts) 0)[lo_max_levels opts - 1 := (lo_base_level_size_mb opts * 1024 * 1024) mod 2 ^ 64]"
  have "Leveled_target_loop (lo_level_size_multiplier opts) ?base (?n - 1) ?target ?n = (?target, ?n)"
    by (rule Leveled_target_loop_low) (use assms(1) in auto)
  then have "Leveled_targets opts ?sizes = Inr (?target, ?n)"
    using assms(1,2,5) by (auto simp: Leveled_targets_def Let_def max_absorb2)
  then show ?thesis using assms(3,4) by (auto simp: Leveled_generate_compaction_task_def Let_def passes_empty_def butlast_conv_take)
qed

theorem leveled_skips_levels_witness:
  "\<exists>task. Leveled_generate_compaction_task \<lparr>lo_level_size_multiplier = 2, lo_level0_file_num_compaction_trigger = 2, lo_max_levels = 2,
      lo_base_level_size_mb = 1\<rparr> (example_level_state\<lparr>ls_levels := [(1, [5]), (2, [])]\<rparr>) = Inr (Some task) \<and>
    lt_lower_level task = 2 \<and> \<not> passes_empty (example_level_state\<lparr>ls_levels := [(1, [5]), (2, [])]\<rparr>) task"
  using leveled_skips_levels [of "\<lparr>lo_level_size_multiplier = 2, lo_level0_file_num_compaction_trigger = 2, lo_max_levels = 2,
      lo_base_level_size_mb = 1\<rparr>" "example_level_state\<lparr>ls_levels := [(1, [5]), (2, [])]\<rparr>"]
  by (simp add: example_level_state_def Leveled_real_level_size_def numeral_2_eq_2) blast

section \<open>Recovery does not restore the order\<close>

text \<open>The same task at runtime, and in the recovery of a state with the same lists of tables.\<close>

lemma Leveled_apply_recovery:
  assumes run: "Leveled_apply_compaction_result st task output False = Inr (st1, rm)"
    and same: "ls_l0_sstables st' = ls_l0_sstables st" "ls_levels st' = ls_levels st"
  obtains kept st2 where "level_files st1 (lt_lower_level task) = Inr (sort_by (Leveled_sst_less st) (kept @ output))"
    and "Leveled_apply_compaction_result st' task output True = Inr (st2, rm)" and "level_files st2 (lt_lower_level task) = Inr (kept @ output)"
proof -
  have set_at: "level_files (set_level_files l ids s) l = Inr ids" if "level_files s l = Inr fs" for l ids s fs
    using that by (auto simp: level_files_def set_level_files_def split: if_splits)
  have cong: "level_files s' l = level_files s l" if "ls_levels s' = ls_levels s" for s s' l
    using that by (simp add: level_files_def)
  have cong': "ls_levels (set_level_files l ids s') = ls_levels (set_level_files l ids s)" if "ls_levels s' = ls_levels s" for s s' l ids
    using that by (simp add: set_level_files_def)
  let ?upper = "\<lambda>s. (case lt_upper_level task of
      Some upper_level \<Rightarrow>
        res_bind (level_files s upper_level) (\<lambda>files.
        case take_out (set (lt_upper_level_sst_ids task)) files of (new_upper, rest) \<Rightarrow>
        res_bind (assert_res ''upper_set.empty()'' (rest = {})) (\<lambda>_.
        Inr (set_level_files upper_level new_upper s)))
    | None \<Rightarrow>
        (case take_out (set (lt_upper_level_sst_ids task)) (ls_l0_sstables s) of (new_l0, rest) \<Rightarrow>
         res_bind (assert_res ''upper_set.empty()'' (rest = {})) (\<lambda>_.
         Inr (s\<lparr>ls_l0_sstables := new_l0\<rparr>))))"
  from run obtain s files where s: "?upper st = Inr s" and f: "level_files s (lt_lower_level task) = Inr files"
    and t: "(case take_out (set (lt_lower_level_sst_ids task)) files of (new_lower, rest) \<Rightarrow>
      res_bind (assert_res ''lower_set.empty()'' (rest = {})) (\<lambda>_.
      let new_lower = sort_by (Leveled_sst_less st) (new_lower @ output)
      in Inr (set_level_files (lt_lower_level task) new_lower s, lt_upper_level_sst_ids task @ lt_lower_level_sst_ids task))) = Inr (st1, rm)"
    unfolding Leveled_apply_compaction_result_def by (simp add: res_bind_Inr_iff) blast
  obtain kept rest where k: "take_out (set (lt_lower_level_sst_ids task)) files = (kept, rest)" by fastforce
  with t have r: "rest = {}" "st1 = set_level_files (lt_lower_level task) (sort_by (Leveled_sst_less st) (kept @ output)) s"
    "rm = lt_upper_level_sst_ids task @ lt_lower_level_sst_ids task"
    by (auto simp: res_bind_Inr_iff assert_res_def Let_def split: if_splits)
  have "\<exists>s'. ?upper st' = Inr s' \<and> ls_levels s' = ls_levels s"
  proof (cases "lt_upper_level task")
    case None
    obtain new_l0 rest' where "take_out (set (lt_upper_level_sst_ids task)) (ls_l0_sstables st) = (new_l0, rest')" by fastforce
    then show ?thesis using s same None by (auto simp: res_bind_Inr_iff assert_res_def split: if_splits)
  next
    case (Some l)
    with s obtain fs where fs: "level_files st l = Inr fs" by (auto simp: res_bind_Inr_iff)
    obtain new_upper rest' where "take_out (set (lt_upper_level_sst_ids task)) fs = (new_upper, rest')" by fastforce
    then show ?thesis using s fs same cong [OF same(2)] cong' [OF same(2)] Some
      by (auto simp: res_bind_Inr_iff assert_res_def split: if_splits)
  qed
  then obtain s' where s': "?upper st' = Inr s'" "ls_levels s' = ls_levels s" by blast
  have "Leveled_apply_compaction_result st' task output True = Inr (set_level_files (lt_lower_level task) (kept @ output) s', rm)"
    unfolding Leveled_apply_compaction_result_def s'(1) using f k r(1,3) by (simp add: cong [OF s'(2)] Let_def assert_res_def)
  then show thesis using that set_at [OF f] set_at [OF f [folded cong [OF s'(2)]]] r(2) by blast
qed

lemma sort_by_first_key:
  assumes "\<forall>x \<in> set ids. ls_sstables st x \<noteq> None"
  shows "sort_by (Leveled_sst_less st) ids = sort_key (\<lambda>x. st_first_key (the (ls_sstables st x))) ids"
proof (rule sort_by_sort_key)
  fix x y assume "x \<in> set ids" "y \<in> set ids"
  then obtain t u where "ls_sstables st x = Some t" "ls_sstables st y = Some u" using assms by blast
  then show "Leveled_sst_less st x y \<longleftrightarrow> st_first_key (the (ls_sstables st x)) < st_first_key (the (ls_sstables st y))"
    by (simp add: Leveled_sst_less_def)
qed

text \<open>C21: recovery of the leveled strategy does not restore the order of a level. At runtime the tables that stay in
  the lower level and the output are sorted by first key. The same task, replayed in recovery, where no table is open yet,
  only appends the output: whenever a table that stays starts after one of the output, the level that is recovered has the same
  tables in an order that \<open>check_sst_valid\<close> refuses with a failed assertion.\<close>

theorem leveled_recovery_unordered:
  assumes "Leveled_apply_compaction_result st task output False = Inr (st1, rm)" and "level_files st1 (lt_lower_level task) = Inr ids"
    and "\<forall>x \<in> set ids. ls_sstables st x \<noteq> None" and "i \<in> set ids - set output" and "j \<in> set output"
    and "st_first_key (the (ls_sstables st j)) < st_first_key (the (ls_sstables st i))"
    and "ls_l0_sstables st' = ls_l0_sstables st" and "ls_levels st' = ls_levels st"
  shows "sorted (map (\<lambda>x. st_first_key (the (ls_sstables st x))) ids) \<and>
    (\<exists>st2 ids2 w. Leveled_apply_compaction_result st' task output True = Inr (st2, rm) \<and> level_files st2 (lt_lower_level task) = Inr ids2 \<and>
       set ids2 = set ids \<and> SstConcatIterator_check_sst_valid (map (\<lambda>x. the (ls_sstables st x)) ids2) = Inl (AssertFailed w))"
proof -
  let ?f = "\<lambda>x. st_first_key (the (ls_sstables st x))"
  from Leveled_apply_recovery [OF assms(1,7,8)] obtain kept st2 where ids: "ids = sort_by (Leveled_sst_less st) (kept @ output)"
    and st2: "Leveled_apply_compaction_result st' task output True = Inr (st2, rm)" "level_files st2 (lt_lower_level task) = Inr (kept @ output)"
    using assms(2) by (metis sum.inject(2))
  have set: "set ids = set (kept @ output)" by (simp add: ids)
  have "i \<in> set kept" using assms(4) set by auto
  then have "\<not> sorted_wrt (\<lambda>t u. st_first_key t < st_first_key u) (map (\<lambda>x. the (ls_sstables st x)) (kept @ output))"
    using assms(5,6) by (force simp: sorted_wrt_append sorted_wrt_map not_less)
  then obtain w where "SstConcatIterator_check_sst_valid (map (\<lambda>x. the (ls_sstables st x)) (kept @ output)) = Inl (AssertFailed w)"
    using check_sst_valid_increasing check_sst_valid_cases by metis
  moreover have "sorted (map ?f ids)" unfolding ids using assms(3) by (subst sort_by_first_key) (simp_all add: set)
  ultimately show ?thesis using st2 set by metis
qed

theorem leveled_recovery_unordered_witness:
  "\<exists>st task st1 st2 ids w. Leveled_apply_compaction_result st task [9] False = Inr (st1, [7]) \<and> ls_levels st1 = [(1, []), (2, [9, 8])] \<and>
    Leveled_apply_compaction_result (st\<lparr>ls_sstables := Map.empty\<rparr>) task [9] True = Inr (st2, [7]) \<and> level_files st2 2 = Inr ids \<and>
    SstConcatIterator_check_sst_valid (map (\<lambda>x. the (ls_sstables st x)) ids) = Inl (AssertFailed w)"
proof -
  let ?t = "example_table\<lparr>st_first_key := [2], st_last_key := [2]\<rparr>" and ?u = "example_table\<lparr>st_first_key := [1], st_last_key := [1]\<rparr>"
  let ?st = "example_level_state\<lparr>ls_levels := [(1, [7]), (2, [8])], ls_sstables := [8 \<mapsto> ?t, 9 \<mapsto> ?u]\<rparr>"
  let ?task = "\<lparr>lt_upper_level = Some 1, lt_upper_level_sst_ids = [7], lt_lower_level = 2, lt_lower_level_sst_ids = [],
      lt_is_lower_level_bottom_level = True\<rparr>"
  have run: "Leveled_apply_compaction_result ?st ?task [9] False = Inr (?st\<lparr>ls_levels := [(1, []), (2, [9, 8])]\<rparr>, [7])"
    by (simp add: Leveled_apply_compaction_result_def level_files_def set_level_files_def Let_def sort_by_def Leveled_sst_less_def)
  have "level_files (?st\<lparr>ls_levels := [(1, []), (2, [9, 8])]\<rparr>) (lt_lower_level ?task) = Inr [9, 8]" by (simp add: level_files_def)
  from leveled_recovery_unordered [OF run this, where i = 8 and j = 9 and st' = "?st\<lparr>ls_sstables := Map.empty\<rparr>"]
  obtain st2 ids w where "Leveled_apply_compaction_result (?st\<lparr>ls_sstables := Map.empty\<rparr>) ?task [9] True = Inr (st2, [7])"
    "level_files st2 2 = Inr ids" "SstConcatIterator_check_sst_valid (map (\<lambda>x. the (ls_sstables ?st x)) ids) = Inl (AssertFailed w)"
    by auto
  moreover have "ls_levels (?st\<lparr>ls_levels := [(1, []), (2, [9, 8])]\<rparr>) = [(1, []), (2, [9, 8])]" by simp
  ultimately show ?thesis using run by blast
qed

end
