(* ===== verification/Restart.thy ===== *)
theory Restart
  imports Recovery
begin

text \<open>
  Restarting a store from its files, after it was closed and destroyed or after the process died. What the
  buffer of a log stream had not passed on may be lost in a crash, to any length; everything else
  comes back. \<open>crash\<close> is the state of the files then; destroying a store is the case where nothing is lost.
\<close>

section \<open>What a crash leaves\<close>

abbreviation mems :: "LsmStorageState \<Rightarrow> MemTable list" where
  "mems st \<equiv> ls_memtable st # ls_imm_memtables st"

text \<open>The log of memtable \<open>i\<close> keeps the first \<open>n i\<close> bytes of its buffer.\<close>

fun crash_logs :: "(nat \<Rightarrow> nat) \<Rightarrow> MemTable list \<Rightarrow> fs \<Rightarrow> fs" where
  "crash_logs n [] files = files"
| "crash_logs n (t # ts) files =
     crash_logs n ts (case mt_wal t of None \<Rightarrow> files | Some wal \<Rightarrow> wal_crash (n (mt_id t)) wal files)"

definition crash :: "(nat \<Rightarrow> nat) \<Rightarrow> LsmStorageState \<Rightarrow> fs \<Rightarrow> fs" where
  "crash n st = crash_logs n (ls_imm_memtables st @ [ls_memtable st])"

lemma wal_crash_other: "p \<noteq> wal_path w \<Longrightarrow> wal_crash n w files p = files p"
  by (simp add: wal_crash_def Wal_fflush_def)

lemma wal_crash_cong: "files (wal_path w) = files' (wal_path w) \<Longrightarrow> wal_crash n w files (wal_path w) = wal_crash n w files' (wal_path w)"
  by (simp add: wal_crash_def Wal_fflush_def)

definition own_log :: "LsmStorageInner \<Rightarrow> MemTable \<Rightarrow> bool" where
  "own_log inner t \<longleftrightarrow> (\<forall>wal. mt_wal t = Some wal \<longrightarrow> wal_path wal = path_of_wal_val inner (mt_id t))"

lemma crash_logs_other:
  assumes "\<forall>t \<in> set ts. own_log inner t" and "p \<notin> path_of_wal_val inner ` mt_id ` set ts"
  shows "crash_logs n ts files p = files p"
  using assms
proof (induction ts arbitrary: files)
  case (Cons u ts)
  have "(case mt_wal u of None \<Rightarrow> files | Some wal \<Rightarrow> wal_crash (n (mt_id u)) wal files) p = files p"
    using Cons.prems by (auto simp: own_log_def split: option.split intro!: wal_crash_other)
  then show ?case using Cons by simp
qed simp

lemma crash_logs_own:
  assumes "\<forall>t \<in> set ts. own_log inner t" and "distinct (map mt_id ts)" and "t \<in> set ts" and w: "mt_wal t = Some wal"
  shows "crash_logs n ts files (path_of_wal_val inner (mt_id t)) = wal_crash (n (mt_id t)) wal files (path_of_wal_val inner (mt_id t))"
  using assms(1-3)
proof (induction ts arbitrary: files)
  case (Cons u ts)
  let ?files = "case mt_wal u of None \<Rightarrow> files | Some wal \<Rightarrow> wal_crash (n (mt_id u)) wal files"
  show ?case
  proof (cases "t = u")
    case True
    then have "path_of_wal_val inner (mt_id t) \<notin> path_of_wal_val inner ` mt_id ` set ts" using Cons.prems(2) by auto
    then show ?thesis using crash_logs_other [of ts inner _ n ?files] Cons.prems(1) True w by simp
  next
    case False
    then have t: "t \<in> set ts" "own_log inner t" "own_log inner u" using Cons.prems by auto
    have p: "path_of_wal_val inner (mt_id t) = wal_path wal" using t(2) w by (simp add: own_log_def)
    have "mt_id t \<noteq> mt_id u" using t(1) Cons.prems(2) by (force simp: image_iff)
    then have "?files (wal_path wal) = files (wal_path wal)"
      using t(3) p [symmetric] by (auto simp: own_log_def split: option.split intro!: wal_crash_other)
    from wal_crash_cong [of ?files wal files, OF this] show ?thesis using Cons.IH [of ?files] Cons.prems t(1) by (simp add: p)
  qed
qed simp

lemma crash_eq:
  assumes "wal_paths inner" and "distinct (map mt_id (mems (in_state inner)))"
  shows "t \<in> set (mems (in_state inner)) \<Longrightarrow> mt_wal t = Some wal \<Longrightarrow> crash n (in_state inner) files (path_of_wal_val inner (mt_id t)) =
      wal_crash (n (mt_id t)) wal files (path_of_wal_val inner (mt_id t))"
    and "p \<notin> range (path_of_wal_val inner) \<Longrightarrow> crash n (in_state inner) files p = files p"
proof -
  have own: "\<forall>t \<in> set (ls_imm_memtables (in_state inner) @ [ls_memtable (in_state inner)]). own_log inner t"
    using assms(1) by (auto simp: wal_paths_def own_log_def)
  show "t \<in> set (mems (in_state inner)) \<Longrightarrow> mt_wal t = Some wal \<Longrightarrow> crash n (in_state inner) files (path_of_wal_val inner (mt_id t)) =
      wal_crash (n (mt_id t)) wal files (path_of_wal_val inner (mt_id t))"
    unfolding crash_def by (rule crash_logs_own [OF own]) (use assms(2) in auto)
  show "p \<notin> range (path_of_wal_val inner) \<Longrightarrow> crash n (in_state inner) files p = files p"
    unfolding crash_def by (rule crash_logs_other [OF own]) auto
qed

section \<open>Recovering the memtables\<close>

lemma Wal_recover_local:
  assumes "files path = files' path" and "Wal_recover crc32 io path files = (r, f)"
  shows "\<exists>f'. Wal_recover crc32 io path files' = (r, f') \<and> (\<forall>p. p \<noteq> path \<longrightarrow> f' p = files' p)"
  using assms by (auto simp: Wal_recover_def Wal_create_def Let_def split: option.splits sum.splits prod.splits if_splits)

lemma recover_logged:
  assumes io: "io_works io" and log: "mt_logged crc32 path t files es bs" and w: "mt_wal t = Some w"
  shows "\<exists>j w'. wal_fp w' \<and> wal_path w' = path \<and> (length (wal_buf w) \<le> n \<longrightarrow> take j bs = bs) \<and>
    (\<forall>f. f path = wal_crash n w files path \<longrightarrow>
      (\<exists>f'. MemTable_recover_from_wal crc32 io (mt_id t) path f = (Inr (loaded (mt_id t) (Some w') (es @ take j bs)), f') \<and>
        (\<forall>p. p \<noteq> path \<longrightarrow> f' p = f p)))"
proof -
  have h: "wal_path w = path" "wal_holds crc32 w files es bs" using log w by (auto simp: mt_logged_def)
  from Wal_recover_crash [OF io h(2), of n] obtain j w' g where
    r: "Wal_recover crc32 io path (wal_crash n w files) = (Inr (w', es @ take j bs), g)" "wal_fp w' \<and> wal_path w' = path"
    "length (wal_buf w) \<le> n \<longrightarrow> take j bs = bs" unfolding h(1) by (auto simp: wal_holds_def)
  have "\<exists>f'. MemTable_recover_from_wal crc32 io (mt_id t) path f = (Inr (loaded (mt_id t) (Some w') (es @ take j bs)), f') \<and>
        (\<forall>p. p \<noteq> path \<longrightarrow> f' p = f p)" if "f path = wal_crash n w files path" for f
    using Wal_recover_local [of "wal_crash n w files" path f crc32 io] that r(1)
    by (auto simp: MemTable_recover_from_wal_def loaded_def)
  then show ?thesis using r(2,3) by blast
qed

text \<open>\<open>open\<close> goes through the logs from the oldest to the newest; memtables without entries are dropped.\<close>

lemma recover_memtables_ok:
  assumes "\<And>i f. i \<in> set ids \<Longrightarrow> f (path_of_wal_val inner i) = files (path_of_wal_val inner i) \<Longrightarrow>
      \<exists>f'. MemTable_recover_from_wal (ext_crc32 (ev_ext E)) (ev_io E) i (path_of_wal_val inner i) f = (Inr (T i), f') \<and>
        (\<forall>p. p \<noteq> path_of_wal_val inner i \<longrightarrow> f' p = f p)"
    and "distinct ids"
  shows "\<exists>files'. (\<forall>st. recover_memtables E ids (inner\<lparr>in_state := st\<rparr>, files) = Some (Inr (), inner\<lparr>in_state :=
      st\<lparr>ls_imm_memtables := filter (\<lambda>t. \<not> MemTable_is_empty t) (rev (map T ids)) @ ls_imm_memtables st\<rparr>\<rparr>, files')) \<and>
      (\<forall>p. p \<notin> range (path_of_wal_val inner) \<longrightarrow> files' p = files p)"
  using assms
proof (induction ids arbitrary: files)
  case (Cons i ids)
  from Cons.prems(1) [of i files] obtain f where
    f: "MemTable_recover_from_wal (ext_crc32 (ev_ext E)) (ev_io E) i (path_of_wal_val inner i) files = (Inr (T i), f)"
    "\<forall>p. p \<noteq> path_of_wal_val inner i \<longrightarrow> f p = files p" by auto
  have "\<exists>f''. MemTable_recover_from_wal (ext_crc32 (ev_ext E)) (ev_io E) k (path_of_wal_val inner k) g = (Inr (T k), f'') \<and>
        (\<forall>p. p \<noteq> path_of_wal_val inner k \<longrightarrow> f'' p = g p)"
    if "k \<in> set ids" "g (path_of_wal_val inner k) = f (path_of_wal_val inner k)" for k g
  proof (rule Cons.prems(1))
    have "k \<noteq> i" using that(1) Cons.prems(2) by auto
    then show "g (path_of_wal_val inner k) = files (path_of_wal_val inner k)" using that(2) f(2) by simp
  qed (use that in simp)
  from Cons.IH [of f, OF this] Cons.prems(2) obtain files' where
    IH: "\<And>st. recover_memtables E ids (inner\<lparr>in_state := st\<rparr>, f) = Some (Inr (), inner\<lparr>in_state :=
      st\<lparr>ls_imm_memtables := filter (\<lambda>t. \<not> MemTable_is_empty t) (rev (map T ids)) @ ls_imm_memtables st\<rparr>\<rparr>, files')"
    and frame: "\<And>p. p \<notin> range (path_of_wal_val inner) \<Longrightarrow> files' p = f p" unfolding distinct.simps by blast
  have "recover_memtables E (i # ids) (inner\<lparr>in_state := st\<rparr>, files) = Some (Inr (), inner\<lparr>in_state :=
      st\<lparr>ls_imm_memtables := filter (\<lambda>t. \<not> MemTable_is_empty t) (rev (map T (i # ids))) @ ls_imm_memtables st\<rparr>\<rparr>, files')" for st
  proof (cases "MemTable_is_empty (T i)")
    case True
    then show ?thesis using IH [of st] f(1) by simp
  next
    case False
    then show ?thesis using IH [of "st\<lparr>ls_imm_memtables := T i # ls_imm_memtables st\<rparr>"] f(1) by simp
  qed
  moreover have "files' p = files p" if "p \<notin> range (path_of_wal_val inner)" for p using frame [OF that] f(2) that by auto
  ultimately show ?case by blast
qed (auto intro!: exI [of _ files])

section \<open>Memtables that were cut off\<close>

lemma entries_size_take: "entries_size (take j es) \<le> entries_size es"
proof (induction es arbitrary: j)
  case (Cons e es)
  show ?case using Cons [of "j - 1"] by (cases j) (simp_all add: entries_size_def)
qed (simp add: entries_size_def)

lemma loaded_size: "mt_approximate_size (loaded i wal es) = entries_size es"
proof (induction es rule: rev_induct)
  case (snoc e es)
  then show ?case using loaded_snoc [of i wal es] by (cases e) (simp add: MemTable_load_def entries_size_def)
qed (simp add: loaded_def MemTable_new_def entries_size_def)

lemma loaded_map:
  "map_of (mt_map (loaded i wal es)) = map_of (rev es)" "set (mt_map (loaded i wal es)) \<subseteq> set es"
  "entries_size (mt_map (loaded i wal es)) \<le> entries_size es"
proof -
  show "map_of (mt_map (loaded i wal es)) = map_of (rev es)"
    using fold_MemTable_load(2) [OF mt_wf_new, of es i wal] by (simp add: loaded_def mt_view_def)
      (simp add: MemTable_new_def)
  have "set (mt_map (loaded i wal es)) \<subseteq> set es \<and> entries_size (mt_map (loaded i wal es)) \<le> entries_size es"
  proof (induction es rule: rev_induct)
    case (snoc e es)
    obtain k v where e: "e = (k, v)" by (cases e)
    let ?m = "mt_map (loaded i wal es)"
    have "mt_map (loaded i wal (es @ [e])) = map_assign k v ?m" using loaded_snoc [of i wal es k v] by (simp add: e MemTable_load_def)
    then show ?case using snoc set_map_assign [of k v ?m] entries_size_map_assign [of k v ?m] by (auto simp: e entries_size_def)
  qed (simp add: loaded_def MemTable_new_def entries_size_def)
  then show "set (mt_map (loaded i wal es)) \<subseteq> set es" "entries_size (mt_map (loaded i wal es)) \<le> entries_size es" by auto
qed

lemma loaded_ok:
  assumes "\<forall>e \<in> set es. wf_entry e" and "wal_fp w" and "entries_size es \<le> n"
  shows "mt_ok n (loaded i (Some w) es)"
  using assms loaded_map(2,3) [of i "Some w" es] by (auto simp: mt_ok_def loaded_size)

text \<open>A key with a record in the part of the log that has not reached the file.\<close>

definition unsynced :: "zlib_crc32 \<Rightarrow> MemTable \<Rightarrow> bytes \<Rightarrow> bool" where
  "unsynced crc32 t k \<longleftrightarrow> (\<exists>w bs. mt_wal t = Some w \<and> wal_buf w = wal_frames crc32 bs \<and> k \<in> fst ` set bs)"

definition survives :: "env \<Rightarrow> (nat \<Rightarrow> nat) \<Rightarrow> bool \<Rightarrow> MemTable \<Rightarrow> bytes \<Rightarrow> bool" where
  "survives E n wal t k \<longleftrightarrow> (if wal
     then (\<forall>w. mt_wal t = Some w \<longrightarrow> length (wal_buf w) \<le> n (mt_id t)) \<or> \<not> unsynced (ext_crc32 (ev_ext E)) t k
     else k \<notin> fst ` set (mt_map t))"

text \<open>What recovery makes of one memtable.\<close>

definition recovers :: "env \<Rightarrow> LsmStorageInner \<Rightarrow> (nat \<Rightarrow> nat) \<Rightarrow> fs \<Rightarrow> MemTable \<Rightarrow> MemTable \<Rightarrow> bool" where
  "recovers E inner n files t u \<longleftrightarrow> mt_id u = mt_id t \<and> own_log inner u \<and> (\<forall>b. mt_ok b t \<longrightarrow> mt_ok b u) \<and>
     (\<forall>k. survives E n True t k \<longrightarrow> map_of (mt_map u) k = map_of (mt_map t) k) \<and>
     (\<forall>f. f (path_of_wal_val inner (mt_id t)) = files (path_of_wal_val inner (mt_id t)) \<longrightarrow>
       (\<exists>f'. MemTable_recover_from_wal (ext_crc32 (ev_ext E)) (ev_io E) (mt_id t) (path_of_wal_val inner (mt_id t)) f = (Inr u, f') \<and>
         (\<forall>p. p \<noteq> path_of_wal_val inner (mt_id t) \<longrightarrow> f' p = f p)))"

lemma recovers_logged:
  assumes io: "io_works (ev_io E)" and log: "mt_logged (ext_crc32 (ev_ext E)) (path_of_wal_val inner (mt_id t)) t files es bs"
    and f: "\<And>w. mt_wal t = Some w \<Longrightarrow> files' (path_of_wal_val inner (mt_id t)) = wal_crash (n (mt_id t)) w files (path_of_wal_val inner (mt_id t))"
  shows "\<exists>u. recovers E inner n files' t u"
proof -
  let ?crc = "ext_crc32 (ev_ext E)" and ?p = "path_of_wal_val inner (mt_id t)"
  from log obtain w where w: "mt_wal t = Some w" "wal_holds ?crc w files es bs" "\<forall>e \<in> set (es @ bs). wf_entry e"
    and t: "t = loaded (mt_id t) (Some w) (es @ bs)" by (auto simp: mt_logged_def)
  from recover_logged [OF io log w(1), of "n (mt_id t)"] obtain j w' where
    j: "wal_fp w'" "wal_path w' = ?p" "length (wal_buf w) \<le> n (mt_id t) \<longrightarrow> take j bs = bs" and
    rec: "\<And>f. f ?p = wal_crash (n (mt_id t)) w files ?p \<Longrightarrow>
      \<exists>f'. MemTable_recover_from_wal ?crc (ev_io E) (mt_id t) ?p f = (Inr (loaded (mt_id t) (Some w') (es @ take j bs)), f') \<and>
        (\<forall>p. p \<noteq> ?p \<longrightarrow> f' p = f p)" by blast
  let ?u = "loaded (mt_id t) (Some w') (es @ take j bs)"
  have map: "map_of (mt_map t) = map_of (rev (es @ bs))" "mt_approximate_size t = entries_size (es @ bs)"
    by (rule trans [OF arg_cong [OF t, of "\<lambda>t. map_of (mt_map t)"] loaded_map(1)],
        rule trans [OF arg_cong [OF t, of mt_approximate_size] loaded_size])
  have "mt_ok b ?u" if "mt_ok b t" for b
  proof (rule loaded_ok [OF _ j(1)])
    show "entries_size (es @ take j bs) \<le> b" using that map(2) entries_size_take [of j bs] by (simp add: mt_ok_def entries_size_def)
  qed (use w(3) in \<open>auto dest: in_set_takeD\<close>)
  moreover have "map_of (mt_map ?u) k = map_of (mt_map t) k" if "survives E n True t k" for k
  proof (cases "length (wal_buf w) \<le> n (mt_id t)")
    case False
    then have "\<not> unsynced ?crc t k" using that w(1) by (simp add: survives_def)
    then have k: "k \<notin> fst ` set bs" using w(1,2) unfolding unsynced_def wal_holds_def by blast
    then have "k \<notin> fst ` set (take j bs)" by (auto dest: in_set_takeD)
    with k have "map_of (rev bs) k = None" "map_of (rev (take j bs)) k = None" by (simp_all add: map_of_eq_None_iff)
    then show ?thesis by (simp add: loaded_map map map_add_def)
  qed (use j(3) in \<open>simp add: loaded_map map\<close>)
  ultimately show ?thesis using rec f [OF w(1)] j(2) unfolding recovers_def own_log_def by (intro exI [of _ ?u]) simp
qed

lemma newest_nonempty: "newest (map mt_map (filter (\<lambda>t. \<not> MemTable_is_empty t) ts) @ xss) = newest (map mt_map ts @ xss)"
  by (induction ts) (auto simp: fun_eq_iff MemTable_is_empty_def split: option.split)

lemma newest_same:
  "list_all2 (\<lambda>t u. map_of (mt_map u) k = map_of (mt_map t) k) ts us \<Longrightarrow> newest (map mt_map us @ xss) k = newest (map mt_map ts @ xss) k"
  by (induction rule: list_all2_induct) (auto split: option.split)

lemma sorted_mems:
  assumes "sorted ids" and "distinct ids" and "set ids = mem_ids st" and "sorted_wrt (>) (map mt_id (mems st))"
  shows "ids = rev (map mt_id (mems st))"
proof (rule sorted_distinct_set_unique [OF assms(1,2)])
  have "sorted_wrt (<) (rev (map mt_id (mems st)))" using assms(4) by (simp only: sorted_wrt_rev)
  then show "sorted (rev (map mt_id (mems st)))" "distinct (rev (map mt_id (mems st)))"
    by (simp_all only: strict_sorted_iff)
qed (simp add: assms(3) mem_ids_def)

text \<open>All memtables: the ones that were not empty come back, in the same order.\<close>

lemma recover_all:
  assumes "\<forall>t \<in> set (mems st). recovers E inner n files t (S t)" and "sorted_wrt (>) (map mt_id (mems st))"
    and "sorted ids" and "distinct ids" and "set ids = mem_ids st"
  shows "\<exists>files'. (\<forall>st1. ls_imm_memtables st1 = [] \<longrightarrow> recover_memtables E ids (inner\<lparr>in_state := st1\<rparr>, files) = Some (Inr (), inner\<lparr>in_state :=
      st1\<lparr>ls_imm_memtables := filter (\<lambda>t. \<not> MemTable_is_empty t) (map S (mems st))\<rparr>\<rparr>, files')) \<and>
      (\<forall>p. p \<notin> range (path_of_wal_val inner) \<longrightarrow> files' p = files p)"
proof -
  have ids: "ids = rev (map mt_id (mems st))" by (rule sorted_mems [OF assms(3-5,2)])
  define T where "T i = S (the (map_of (map (\<lambda>t. (mt_id t, t)) (mems st)) i))" for i
  have "distinct (map mt_id (mems st))" using assms(2) by (rule distinct_decreasing)
  then have T: "T (mt_id t) = S t" if "t \<in> set (mems st)" for t
  proof -
    have "map_of (map (\<lambda>t. (mt_id t, t)) (mems st)) (mt_id t) = Some t"
      using that \<open>distinct (map mt_id (mems st))\<close> by (intro map_of_is_SomeI) (auto simp: o_def)
    then show ?thesis by (simp only: T_def option.sel)
  qed
  have "\<exists>f'. MemTable_recover_from_wal (ext_crc32 (ev_ext E)) (ev_io E) i (path_of_wal_val inner i) f = (Inr (T i), f') \<and>
        (\<forall>p. p \<noteq> path_of_wal_val inner i \<longrightarrow> f' p = f p)"
    if "i \<in> set ids" "f (path_of_wal_val inner i) = files (path_of_wal_val inner i)" for i f
  proof -
    from that(1) obtain t where t: "t \<in> set (mems st)" "i = mt_id t" unfolding ids set_rev set_map by blast
    with assms(1) have "recovers E inner n files t (S t)" by blast
    then show ?thesis using that(2) T [OF t(1)] unfolding recovers_def t(2) by simp
  qed
  from recover_memtables_ok [OF this assms(4)] obtain files' where
    "\<And>st1. recover_memtables E ids (inner\<lparr>in_state := st1\<rparr>, files) = Some (Inr (), inner\<lparr>in_state :=
      st1\<lparr>ls_imm_memtables := filter (\<lambda>t. \<not> MemTable_is_empty t) (rev (map T ids)) @ ls_imm_memtables st1\<rparr>\<rparr>, files')"
    "\<And>p. p \<notin> range (path_of_wal_val inner) \<Longrightarrow> files' p = files p" by blast
  moreover have "rev (map T ids) = map S (mems st)" unfolding ids rev_map rev_rev_ident map_map by (rule map_cong) (simp_all add: T)
  ultimately show ?thesis by (metis append_Nil2)
qed

section \<open>Opening the store again\<close>

text \<open>What is new in a reopened store: an empty memtable under the next identifier, and its record, which is written
  over the beginning of the manifest.\<close>

definition reopened :: "env \<Rightarrow> string \<Rightarrow> LsmStorageOptions \<Rightarrow> fs \<Rightarrow> engine \<Rightarrow> bool" where
  "reopened E path opts files s \<longleftrightarrow> (\<exists>recs st ids m.
     Manifest_recover (ext_crc32 (ev_ext E)) (ev_json E) (ev_io E) (manifest_path path) files =
       (Inr (\<lparr>man_path = manifest_path path, man_fd = True, man_off = 0\<rparr>, recs), files) \<and>
     replay_records (CompactionController_create (op_compaction_options opts)) recs (LsmStorageState_create opts, [], 1) = Inr (st, ids, m) \<and>
     mt_id (ls_memtable (in_state (fst s))) = m + 1 \<and>
     (op_enable_wal opts \<longrightarrow> mt_logged (ext_crc32 (ev_ext E)) (path_of_wal_val (fst s) (m + 1)) (ls_memtable (in_state (fst s))) (snd s) [] [] \<and>
       wal_paths (fst s)) \<and>
     snd s (manifest_path path) = Some (pwrite_at (the (files (manifest_path path))) 0
       (Manifest_frame (ext_crc32 (ev_ext E)) (ev_json E) (NewMemtable (m + 1)))))"

lemma LsmStorageInner_new_fields:
  "in_options (LsmStorageInner_new opts path) = opts" "in_path (LsmStorageInner_new opts path) = path"
  "in_state (LsmStorageInner_new opts path) = LsmStorageState_create opts"
  "in_compaction_controller (LsmStorageInner_new opts path) = CompactionController_create (op_compaction_options opts)"
  "in_block_cache (LsmStorageInner_new opts path) = BlockCache_new (push_bit 20 1)"
  by (simp_all add: LsmStorageInner_new_def)

lemma use_manifest_recovered:
  assumes io: "io_works (ev_io E)" and c: "files mp = Some c"
  shows "\<exists>man files'. use_manifest E \<lparr>man_path = mp, man_fd = True, man_off = 0\<rparr> (inner, files) =
      Some (Inr (), inner\<lparr>in_manifest := Some man\<rparr>, files') \<and>
    files' mp = Some (pwrite_at c 0 (Manifest_frame (ext_crc32 (ev_ext E)) (ev_json E) (NewMemtable (mt_id (ls_memtable (in_state inner)))))) \<and>
    (\<forall>p. p \<noteq> mp \<longrightarrow> files' p = files p)"
  using Manifest_add_record_ok [OF io, of "\<lparr>man_path = mp, man_fd = True, man_off = 0\<rparr>" files c "ext_crc32 (ev_ext E)" "ev_json E"
      "NewMemtable (mt_id (ls_memtable (in_state inner)))"] c
  by (simp add: use_manifest_def Manifest_add_record_def) blast

text \<open>The run of \<open>open\<close>, step by step.\<close>

lemma open_exec:
  assumes io: "io_works (ev_io E)"
    and rec: "Manifest_recover (ext_crc32 (ev_ext E)) (ev_json E) (ev_io E) (manifest_path path) files =
      (Inr (\<lparr>man_path = manifest_path path, man_fd = True, man_off = 0\<rparr>, recs), files)" and c: "files (manifest_path path) = Some c"
    and replay: "replay_records (CompactionController_create (op_compaction_options opts)) recs
      (LsmStorageState_create opts, [], 1) = Inr (layout opts st, ids, m)"
    and disk: "\<And>i. i \<in> set (all_ids st) \<Longrightarrow> \<exists>t. ls_sstables st i = Some t \<and> st_id t = i \<and> on_disk E (LsmStorageInner_new opts path) files t"
    and mems: "\<And>st1. ls_imm_memtables st1 = [] \<Longrightarrow>
      (if op_enable_wal opts then recover_memtables E ids else m_return ()) ((LsmStorageInner_new opts path)\<lparr>in_state := st1\<rparr>, files) =
      Some (Inr (), (LsmStorageInner_new opts path)\<lparr>in_state := st1\<lparr>ls_imm_memtables := imm\<rparr>\<rparr>, files1)"
    and files1: "\<And>p. p \<notin> range (path_of_wal_val (LsmStorageInner_new opts path)) \<Longrightarrow> files1 p = files p"
  shows "\<exists>t man files3. LsmStorageInner_open E path opts files = Some (Inr (), (LsmStorageInner_new opts path)\<lparr>in_state :=
        \<lparr>ls_memtable = t, ls_imm_memtables = imm, ls_l0_sstables = ls_l0_sstables st, ls_levels = ls_levels st,
         ls_sstables = ls_sstables st |` set (all_ids st)\<rparr>, in_next_sst_id := m + 2, in_manifest := Some man\<rparr>, files3) \<and>
    mt_ok n t \<and> mt_map t = [] \<and> mt_id t = m + 1 \<and>
    (op_enable_wal opts \<longrightarrow> mt_logged (ext_crc32 (ev_ext E)) (path_of_wal_val (LsmStorageInner_new opts path) (m + 1)) t files3 [] []) \<and>
    files3 (manifest_path path) = Some (pwrite_at c 0 (Manifest_frame (ext_crc32 (ev_ext E)) (ev_json E) (NewMemtable (m + 1))))"
proof -
  let ?new = "LsmStorageInner_new opts path" and ?mp = "manifest_path path" and ?crc = "ext_crc32 (ev_ext E)"
  let ?w = "path_of_wal_val ?new (Suc m)"
  define t where "t = MemTable_new (Suc m) (if op_enable_wal opts then Some \<lparr>wal_path = ?w, wal_fp = True, wal_buf = []\<rparr> else None)"
  define files2 where "files2 = (if op_enable_wal opts then files1(?w \<mapsto> []) else files1)"
  have ne: "?mp \<notin> range (path_of_wal_val ?new)" using path_of_ne(3) [of ?new] by (metis LsmStorageInner_new_fields(2) rangeE)
  have t: "fresh_memtable E (Suc m) (?new\<lparr>in_state := st1\<rparr>, files1) = Some (Inr t, ?new\<lparr>in_state := st1\<rparr>, files2)" for st1
    using io by (simp add: fresh_memtable_def t_def files2_def LsmStorageInner_new_fields MemTable_create_with_wal_def Wal_create_def io_works_def)
  have f2: "files2 ?mp = Some c" using files1 [OF ne] ne c by (auto simp: files2_def)
  define st' where "st' = \<lparr>ls_memtable = t, ls_imm_memtables = imm, ls_l0_sstables = ls_l0_sstables st, ls_levels = ls_levels st,
    ls_sstables = ls_sstables st |` set (all_ids st)\<rparr>"
  let ?inner = "?new\<lparr>in_state := st', in_next_sst_id := m + 2\<rparr>"
  have "LsmStorageInner_open E path opts files = use_manifest E \<lparr>man_path = ?mp, man_fd = True, man_off = 0\<rparr> (?inner, files2)"
    using open_existing_ok [OF io, of ?mp files _ recs ?new st ids m imm files1 t files2] rec replay disk mems t c
    by (simp add: LsmStorageInner_open_def Let_def LsmStorageInner_new_fields st'_def)
  moreover obtain man files3 where "use_manifest E \<lparr>man_path = ?mp, man_fd = True, man_off = 0\<rparr> (?inner, files2) =
      Some (Inr (), ?inner\<lparr>in_manifest := Some man\<rparr>, files3)"
    and f3: "files3 ?mp = Some (pwrite_at c 0 (Manifest_frame ?crc (ev_json E) (NewMemtable (m + 1))))" "\<And>p. p \<noteq> ?mp \<Longrightarrow> files3 p = files2 p"
    using use_manifest_recovered [OF io, of files2 ?mp c ?inner] f2 by (auto simp: st'_def t_def)
  moreover have "mt_ok n t" "mt_map t = []" unfolding t_def by (rule mt_ok_new, simp) (simp add: MemTable_new_def)
  moreover have "mt_logged ?crc (path_of_wal_val ?new (m + 1)) t files3 [] []" if "op_enable_wal opts"
    using that path_of_ne(3) [of ?new] unfolding t_def
    by (simp, intro mt_logged_create) (simp_all add: f3(2) files2_def LsmStorageInner_new_fields)
  ultimately show ?thesis using f3(1) by (auto simp: st'_def t_def)
qed

text \<open>The runs of the recovered state give surviving keys the values they had.\<close>

lemma recovered_view:
  assumes wal: "op_enable_wal opts \<Longrightarrow> \<forall>t \<in> set ts. recovers E inner n files t (S t)"
    and k: "\<forall>t \<in> set ts. survives E n (op_enable_wal opts) t k"
    and imm: "imm = (if op_enable_wal opts then filter (\<lambda>t. \<not> MemTable_is_empty t) (map S ts) else [])"
  shows "newest (map mt_map imm @ rest) k = newest (map mt_map ts @ rest) k"
proof (cases "op_enable_wal opts")
  case True
  have "list_all2 (\<lambda>t u. map_of (mt_map u) k = map_of (mt_map t) k) ts (map S ts)"
    using wal [OF True] k True by (simp add: list_all2_map2 list_all2_same recovers_def)
  from newest_same [OF this, of rest] show ?thesis using True by (simp only: imm newest_nonempty simp_thms if_True)
next
  case False
  then have "\<forall>t \<in> set ts. map_of (mt_map t) k = None" using k by (simp add: survives_def map_of_eq_None_iff)
  then have "newest (map mt_map ts @ rest) k = newest rest k" by (induction ts) auto
  then show ?thesis using False by (simp add: imm)
qed

text \<open>The memtables that come back from their logs, \<open>S t\<close> for \<open>t\<close>.\<close>

definition restored :: "LsmStorageOptions \<Rightarrow> (MemTable \<Rightarrow> MemTable) \<Rightarrow> MemTable list \<Rightarrow> MemTable list" where
  "restored opts S ts = (if op_enable_wal opts then filter (\<lambda>t. \<not> MemTable_is_empty t) (map S ts) else [])"

lemma recover_restored:
  assumes wal: "op_enable_wal opts \<Longrightarrow> \<forall>t \<in> set (mems st). recovers E inner n files t (S t)"
    and "sorted_wrt (>) (map mt_id (mems st))" and "sorted ids" and "distinct ids" and "set ids = mem_ids st"
  shows "\<exists>files1. (\<forall>st1. ls_imm_memtables st1 = [] \<longrightarrow>
      (if op_enable_wal opts then recover_memtables E ids else m_return ()) (inner\<lparr>in_state := st1\<rparr>, files) =
      Some (Inr (), inner\<lparr>in_state := st1\<lparr>ls_imm_memtables := restored opts S (mems st)\<rparr>\<rparr>, files1)) \<and>
    (\<forall>p. p \<notin> range (path_of_wal_val inner) \<longrightarrow> files1 p = files p)"
proof (cases "op_enable_wal opts")
  case True
  from recover_all [OF wal [OF True] assms(2-5)] show ?thesis by (simp add: restored_def True)
next
  case False
  then show ?thesis by (intro exI [of _ files]) (simp add: restored_def)
qed

lemma restored_ids:
  assumes "op_enable_wal opts \<Longrightarrow> \<forall>t \<in> set ts. mt_id (S t) = mt_id t"
  shows "subseq (map mt_id (restored opts S ts)) (map mt_id ts)"
proof (cases "op_enable_wal opts")
  case True
  have "subseq (map mt_id (restored opts S ts)) (map mt_id (map S ts))"
    unfolding restored_def using True by (simp only: if_True subseq_map subseq_filter_left)
  moreover have "map mt_id (map S ts) = map mt_id ts" using assms [OF True] by simp
  ultimately show ?thesis by metis
qed (simp add: restored_def)

lemma open_recovered:
  assumes h: "engine_holds E path opts True (inner, files) M" and json: "json_restores (ev_json E)"
    and files': "\<And>p. p \<notin> range (path_of_wal_val inner) \<Longrightarrow> files' p = files p"
    and short: "\<And>c. files (manifest_path path) = Some c \<Longrightarrow> length c < 2 ^ 64"
    and wal: "op_enable_wal opts \<Longrightarrow> \<forall>t \<in> set (mems (in_state inner)). recovers E inner n files' t (S t)"
  shows "\<exists>s M'. LsmStorageInner_open E path opts files' = Some (Inr (), s) \<and> engine_holds E path opts False s M' \<and>
    reopened E path opts files' s \<and>
    (\<forall>k. (\<forall>t \<in> set (mems (in_state inner)). survives E n (op_enable_wal opts) t k) \<longrightarrow> M' k = M k)"
proof -
  let ?crc = "ext_crc32 (ev_ext E)" and ?new = "LsmStorageInner_new opts path" and ?st = "in_state inner" and ?mp = "manifest_path path"
  note new = LsmStorageInner_new_fields [of opts path]
  from h obtain tables co where env: "env_inv E tables inner" and M: "M = store_view co" and o: "in_options inner = opts" "in_path inner = path"
    and inv: "st_inv (ev_ext E) opts (op_target_sst_size opts) tables (in_next_sst_id inner) ?st co"
    by (auto simp: engine_holds_def eng_inv_iff)
  from h obtain man recs where man: "man_path man = ?mp" "man_holds ?crc (ev_json E) man files recs" "replayed inner recs"
    and disk: "tables_on_disk E inner files" by (auto simp: engine_holds_def durable_def o)
  from man(3) obtain ids m where replay: "replay_records (CompactionController_create (op_compaction_options opts)) recs
      (LsmStorageState_create opts, [], 1) = Inr (layout opts ?st, ids, m)" and m: "\<forall>i \<in> set (all_ids ?st) \<union> mem_ids ?st. i \<le> m"
    and ids: "sorted ids" "distinct ids" "set ids = mem_ids ?st"
    by (auto simp: replayed_def o)
  have io: "io_works (ev_io E)" using env by (simp add: env_inv_def)
  have mems: "sorted_wrt (>) (map mt_id (mems ?st))" "\<forall>t \<in> set (mems ?st). mt_ok (op_target_sst_size opts + 2 ^ 17) t"
    using inv mt_ok_mono [of "op_target_sst_size opts" "ls_memtable ?st"] by (auto simp: st_inv_def)
  have paths: "path_of_sst_val ?new = path_of_sst_val inner" "path_of_wal_val ?new = path_of_wal_val inner"
    using o(2) new(2) by (simp_all add: path_of_cong [of ?new inner])
  have same: "files' ?mp = files ?mp" "files' (path_of_sst_val inner i) = files (path_of_sst_val inner i)" for i
    using files' path_of_ne [of inner] o(2) by (metis rangeE)+
  have content: "files ?mp = Some (Manifest_frames ?crc (ev_json E) recs)" using man(1,2) by (simp add: man_holds_def)
  have rec: "Manifest_recover ?crc (ev_json E) (ev_io E) ?mp files' = (Inr (\<lparr>man_path = ?mp, man_fd = True, man_off = 0\<rparr>, recs), files')"
    using io content json_safe_short [OF json short [OF content]] by (intro Manifest_recover_frames) (auto simp: io_works_def same)
  have d: "\<exists>t. ls_sstables ?st i = Some t \<and> st_id t = i \<and> on_disk E ?new files' t" if "i \<in> set (all_ids ?st)" for i
    using disk that by (simp add: tables_on_disk_def on_disk_def paths same)
  let ?imm = "restored opts S (mems ?st)"
  have wal': "\<forall>t \<in> set (mems ?st). recovers E ?new n files' t (S t)" if "op_enable_wal opts"
    using wal [OF that] by (simp add: recovers_def own_log_def paths)
  from recover_restored [OF wal' mems(1) ids] obtain files1 where files1: "\<forall>st1. ls_imm_memtables st1 = [] \<longrightarrow>
      (if op_enable_wal opts then recover_memtables E ids else m_return ()) (?new\<lparr>in_state := st1\<rparr>, files') =
      Some (Inr (), ?new\<lparr>in_state := st1\<lparr>ls_imm_memtables := ?imm\<rparr>\<rparr>, files1)"
    "\<forall>p. p \<notin> range (path_of_wal_val ?new) \<longrightarrow> files1 p = files' p" by blast
  have content': "files' ?mp = Some (Manifest_frames ?crc (ev_json E) recs)" by (simp add: same content)
  from open_exec [OF io rec content' replay d files1 [rule_format], of "op_target_sst_size opts"] obtain t man' files3 st' where
    run: "LsmStorageInner_open E path opts files' = Some (Inr (), ?new\<lparr>in_state := st', in_next_sst_id := m + 2, in_manifest := Some man'\<rparr>, files3)"
    and st': "st' = \<lparr>ls_memtable = t, ls_imm_memtables = ?imm, ls_l0_sstables = ls_l0_sstables ?st, ls_levels = ls_levels ?st,
         ls_sstables = ls_sstables ?st |` set (all_ids ?st)\<rparr>"
    and t: "mt_ok (op_target_sst_size opts) t" "mt_map t = []" "mt_id t = m + 1"
      "op_enable_wal opts \<Longrightarrow> mt_logged ?crc (path_of_wal_val ?new (m + 1)) t files3 [] []"
    and f3: "files3 ?mp = Some (pwrite_at (Manifest_frames ?crc (ev_json E) recs) 0 (Manifest_frame ?crc (ev_json E) (NewMemtable (m + 1))))"
    by blast
  let ?s = "(?new\<lparr>in_state := st', in_next_sst_id := m + 2, in_manifest := Some man'\<rparr>, files3)"
  let ?co = "co\<lparr>co_mems := [] # map mt_map ?imm\<rparr>"
  have "st_inv (ev_ext E) opts (op_target_sst_size opts) (tables |` set (all_ids ?st)) (m + 2) st' ?co"
  proof (rule recovered_inv [OF inv _ _ t(1-3) m st'])
    show "mt_ok (op_target_sst_size opts + 2 ^ 17) u \<and> mt_map u \<noteq> []" if "u \<in> set ?imm" for u
      using that mems(2) wal by (auto simp: restored_def recovers_def MemTable_is_empty_def split: if_splits)
    show "subseq (map mt_id ?imm) (map mt_id (mems ?st))" by (rule restored_ids) (use wal in \<open>simp add: recovers_def\<close>)
  qed
  then have "eng_inv E (tables |` set (all_ids ?st)) ?s ?co"
    using env by (simp add: eng_inv_def env_inv_def new o cache_sound_new)
  then have holds: "engine_holds E path opts False ?s (store_view ?co)" by (rule engine_holdsI) (simp_all add: new)
  have view: "store_view ?co k = M k" if k: "\<forall>t \<in> set (mems ?st). survives E n (op_enable_wal opts) t k" for k
    using recovered_view [OF wal k restored_def, of "co_l0 co @ map concat (co_levels co)"] inv
    by (simp add: M store_view_def lsm_runs_def st_inv_def st_holds_def)
  moreover have "wal_paths (fst ?s)" if wal': "op_enable_wal opts"
  proof -
    have "own_log inner u" if "u \<in> set ?imm" for u using that wal [OF wal'] wal' by (auto simp: restored_def recovers_def split: if_splits)
    then show ?thesis using t(3) t(4) [OF wal'] by (auto simp: wal_paths_def st' own_log_def paths mt_logged_def)
  qed
  moreover have "path_of_wal_val (fst ?s) = path_of_wal_val ?new" by (rule path_of_cong) simp
  ultimately have "reopened E path opts files' ?s"
    unfolding reopened_def using rec replay t(3,4) f3 content'
    by (intro exI [of _ recs] exI [of _ "layout opts ?st"] exI [of _ ids] exI [of _ m]) (simp add: st')
  then show ?thesis using run holds view by blast
qed

lemma reopen_after_crash:
  assumes h: "engine_holds E path opts True (inner, files) M" and json: "json_restores (ev_json E)"
    and short: "\<And>c. files (manifest_path path) = Some c \<Longrightarrow> length c < 2 ^ 64"
  shows "\<exists>s M'. LsmStorageInner_open E path opts (crash n (in_state inner) files) = Some (Inr (), s) \<and>
    engine_holds E path opts False s M' \<and> reopened E path opts (crash n (in_state inner) files) s \<and>
    (\<forall>k. (\<forall>t \<in> set (mems (in_state inner)). survives E n (op_enable_wal opts) t k) \<longrightarrow> M' k = M k)"
proof -
  let ?st = "in_state inner"
  have o: "in_options inner = opts" and dur: "durable E (inner, files)" and io: "io_works (ev_io E)"
    and d: "distinct (map mt_id (mems ?st))"
    using h by (auto simp: engine_holds_def eng_inv_def dest: st_inv_mem_ids)
  note eq = crash_eq [OF durableD(2) [OF dur] d]
  have "\<exists>u. recovers E inner n (crash n ?st files) t u" if "op_enable_wal opts" "t \<in> set (mems ?st)" for t
  proof -
    from durableD(3) [OF dur] that obtain es bs where
      log: "mt_logged (ext_crc32 (ev_ext E)) (path_of_wal_val inner (mt_id t)) t files es bs"
      unfolding wal_logs_def o by blast
    show ?thesis by (rule recovers_logged [OF io log]) (rule eq(1) [OF that(2)])
  qed
  then obtain S where S: "op_enable_wal opts \<Longrightarrow> t \<in> set (mems ?st) \<Longrightarrow> recovers E inner n (crash n ?st files) t (S t)" for t
    by metis
  show ?thesis by (rule open_recovered [where S = S, OF h json]) (use S short eq(2) in blast)+
qed

text \<open>Destroying the store writes every buffer out.\<close>

lemma destroy_memtables_crash:
  assumes "\<forall>t \<in> set (mems st). \<forall>w. mt_wal t = Some w \<longrightarrow> wal_fp w \<and> length (wal_buf w) \<le> n"
  shows "destroy_memtables st files = crash (\<lambda>_. n) st files"
proof -
  have one: "Wal_destroy w f = wal_crash n w f" if "wal_fp w" "length (wal_buf w) \<le> n" for w f
    using that by (simp add: Wal_destroy_def wal_crash_def)
  have "fold (\<lambda>t files. case mt_wal t of None \<Rightarrow> files | Some wal \<Rightarrow> Wal_destroy wal files) ts f = crash_logs (\<lambda>_. n) ts f"
    if "set ts \<subseteq> set (mems st)" for ts f
    using that
  proof (induction ts arbitrary: f)
    case (Cons t ts)
    have "(case mt_wal t of None \<Rightarrow> f | Some wal \<Rightarrow> Wal_destroy wal f) = (case mt_wal t of None \<Rightarrow> f | Some wal \<Rightarrow> wal_crash n wal f)"
      using Cons.prems assms one by (auto split: option.split)
    then show ?case using Cons by simp
  qed simp
  note this [of "ls_imm_memtables st @ [ls_memtable st]" files]
  then show ?thesis unfolding destroy_memtables_def crash_def by simp
qed

lemma reopen_after_destroy:
  assumes h: "engine_holds E path opts True s M" and json: "json_restores (ev_json E)"
  shows "\<exists>files. MiniLsm_destroy E s = Some (Inr (), files) \<and> (2 ^ 64 \<le> length (the (files (manifest_path path))) \<or>
    (\<exists>s'. LsmStorageInner_open E path opts files = Some (Inr (), s') \<and> engine_holds E path opts False s' M \<and>
       reopened E path opts files s'))"
proof -
  from returns_close [OF h] obtain inner f where c: "MiniLsm_close E s = Some (Inr (), inner, f)" "engine_holds E path opts True (inner, f) M"
    and empty: "\<not> op_enable_wal opts \<Longrightarrow> \<forall>t \<in> set (mems (in_state inner)). mt_map t = []"
    by (auto simp: returns_def MemTable_is_empty_def)
  let ?st = "in_state inner"
  define n where "n = sum_list (map (\<lambda>t. case mt_wal t of None \<Rightarrow> 0 | Some w \<Rightarrow> length (wal_buf w)) (mems ?st))"
  have wal: "\<forall>w. mt_wal t = Some w \<longrightarrow> wal_fp w \<and> length (wal_buf w) \<le> n" if "t \<in> set (mems ?st)" for t
  proof -
    have "(case mt_wal t of None \<Rightarrow> 0 | Some w \<Rightarrow> length (wal_buf w)) \<le> n"
      unfolding n_def using that by (intro member_le_sum_list) auto
    moreover have "\<exists>b. mt_ok b t" using that c(2) by (auto simp: engine_holds_def eng_inv_def st_inv_def)
    ultimately show ?thesis by (auto simp: mt_ok_def)
  qed
  have p: "in_path inner = path" and dur: "durable E (inner, f)" and d: "distinct (map mt_id (mems ?st))"
    using c(2) by (auto simp: engine_holds_def eng_inv_def dest: st_inv_mem_ids)
  let ?f = "destroy_memtables ?st f"
  have eq: "?f = crash (\<lambda>_. n) ?st f" using wal by (intro destroy_memtables_crash) blast
  have "?f (manifest_path path) = f (manifest_path path)"
    unfolding eq by (rule crash_eq(2) [OF durableD(2) [OF dur] d]) (use path_of_ne(3) [of inner] p in \<open>metis rangeE\<close>)
  moreover have "survives E (\<lambda>_. n) (op_enable_wal opts) t k" if "t \<in> set (mems ?st)" for t k
    using that wal [OF that] empty by (cases "op_enable_wal opts") (auto simp: survives_def)
  ultimately have "\<exists>s'. LsmStorageInner_open E path opts ?f = Some (Inr (), s') \<and> engine_holds E path opts False s' M \<and>
      reopened E path opts ?f s'"
    if "\<not> 2 ^ 64 \<le> length (the (?f (manifest_path path)))"
    using reopen_after_crash [OF c(2) json, of "\<lambda>_. n"] that eq by (fastforce simp: fun_eq_iff [symmetric])
  then show ?thesis using c(1) by (auto simp: MiniLsm_destroy_def)
qed

text \<open>With a log, destroying a store touches nothing but logs, and the log of the active memtable is complete then.\<close>

lemma destroy_logs:
  assumes h: "engine_holds E path opts d (inner, files) M" and wal: "op_enable_wal opts" and paths: "wal_paths inner"
    and log: "mt_logged (ext_crc32 (ev_ext E)) (path_of_wal_val inner (mt_id (ls_memtable (in_state inner)))) (ls_memtable (in_state inner)) files es bs"
  shows "\<exists>f. MiniLsm_destroy E (inner, files) = Some (Inr (), f) \<and>
    f (path_of_wal_val inner (mt_id (ls_memtable (in_state inner)))) = Some (wal_frames (ext_crc32 (ev_ext E)) (es @ bs)) \<and>
    (\<forall>p. p \<notin> range (path_of_wal_val inner) \<longrightarrow> f p = files p)"
proof -
  let ?st = "in_state inner" and ?crc = "ext_crc32 (ev_ext E)"
  let ?p = "path_of_wal_val inner (mt_id (ls_memtable ?st))"
  have io: "io_works (ev_io E)" and o: "in_options inner = opts" using h by (auto simp: engine_holds_def eng_inv_def)
  obtain r t f where t: "MemTable_sync_wal (ev_io E) (ls_memtable ?st) files = (r, t, f)" by (rule prod_cases3)
  note sync = mt_logged_sync [OF io log t]
  have same: "mt_id t = mt_id (ls_memtable ?st)"
    using t by (auto simp: MemTable_sync_wal_def split: option.splits prod.splits)
  let ?inner = "inner\<lparr>in_state := ?st\<lparr>ls_memtable := t\<rparr>\<rparr>"
  have run: "MiniLsm_close E (inner, files) = Some (Inr (), ?inner, f)"
    using t wal by (simp add: MiniLsm_close_def o LsmStorageInner_sync_def)
  then have h': "engine_holds E path opts d (?inner, f) M" using returns_close [OF h] by (auto simp: returns_def)
  define n where "n = sum_list (map (\<lambda>t. case mt_wal t of None \<Rightarrow> 0 | Some w \<Rightarrow> length (wal_buf w)) (mems (in_state ?inner)))"
  have fp: "\<forall>w. mt_wal u = Some w \<longrightarrow> wal_fp w \<and> length (wal_buf w) \<le> n" if "u \<in> set (mems (in_state ?inner))" for u
  proof -
    have "(case mt_wal u of None \<Rightarrow> 0 | Some w \<Rightarrow> length (wal_buf w)) \<le> n"
      unfolding n_def using that by (intro member_le_sum_list) auto
    moreover have "\<exists>b. mt_ok b u" using that h' by (auto simp: engine_holds_def eng_inv_def st_inv_def)
    ultimately show ?thesis by (auto simp: mt_ok_def)
  qed
  obtain w where w: "mt_wal t = Some w" "wal_path w = ?p" "wal_buf w = []" "f ?p = Some (wal_frames ?crc (es @ bs))"
    using sync(1) by (auto simp: mt_logged_def wal_holds_def)
  have paths': "wal_paths ?inner" using paths w(1,2) same by (simp add: wal_paths_def)
  have dist: "distinct (map mt_id (mems (in_state ?inner)))" using h' by (auto simp: engine_holds_def eng_inv_def dest: st_inv_mem_ids)
  note eq = crash_eq [OF paths' dist, where n = "\<lambda>_. n" and files = f]
  have pw: "path_of_wal_val ?inner = path_of_wal_val inner" by (rule path_of_cong) simp
  have "destroy_memtables (in_state ?inner) f = crash (\<lambda>_. n) (in_state ?inner) f"
    using fp by (intro destroy_memtables_crash) blast
  moreover have "crash (\<lambda>_. n) (in_state ?inner) f ?p = Some (wal_frames ?crc (es @ bs))"
    using eq(1) [of t w] w unfolding pw by (simp add: same wal_crash_def Wal_fflush_def)
  moreover have "crash (\<lambda>_. n) (in_state ?inner) f p = files p" if "p \<notin> range (path_of_wal_val inner)" for p
    using eq(2) [of p] that sync(2) [of p] unfolding pw by auto
  ultimately show ?thesis using run by (simp add: MiniLsm_destroy_def)
qed

end
