(* ===== verification/Store_Spec.thy ===== *)
theory Store_Spec
  imports Simple_View Leveled_View Restart
begin

text \<open>
  The specification of the store: a map from keys to values, the empty value standing for an
  absent key. The locale \<open>kv_store\<close> is the contract of one call; sequences of calls follow from
  it. The engine is shown to keep it, background rounds included.
\<close>

section \<open>The specification\<close>

definition request_effect :: "request \<Rightarrow> (bytes \<Rightarrow> bytes) \<Rightarrow> bytes \<Rightarrow> bytes" where
  "request_effect r M = (case r of Put k v \<Rightarrow> M(k := v) | Del k \<Rightarrow> M(k := []) | _ \<Rightarrow> M)"

definition answer_ok :: "request \<Rightarrow> (bytes \<Rightarrow> bytes) \<Rightarrow> answer \<Rightarrow> bool" where
  "answer_ok r M a = (case r of
     Get k \<Rightarrow> a = Val (M k)
   | Scan lower upper \<Rightarrow> (\<exists>es. a = Entries es \<and> sorted_entries es \<and>
       map_of es = (\<lambda>k. if in_range lower upper k \<and> M k \<noteq> [] then Some (M k) else None))
   | _ \<Rightarrow> a = Done)"

fun answers_ok :: "request list \<Rightarrow> (bytes \<Rightarrow> bytes) \<Rightarrow> answer list \<Rightarrow> bool" where
  "answers_ok [] M [] = True"
| "answers_ok (r # rs) M (a # as) = (answer_ok r M a \<and> answers_ok rs (request_effect r M) as)"
| "answers_ok _ M _ = False"

locale kv_store =
  fixes holds :: "'s \<Rightarrow> (bytes \<Rightarrow> bytes) \<Rightarrow> bool"
    and serve :: "request \<Rightarrow> ('s, answer) m"
    and admissible :: "request \<Rightarrow> bool"
  assumes serve_ok: "holds s M \<Longrightarrow> admissible r \<Longrightarrow>
    returns (serve r) s (\<lambda>a s'. answer_ok r M a \<and> holds s' (request_effect r M))"
begin

lemma serve_all:
  assumes "holds s M" and "\<forall>r \<in> set rs. admissible r"
  shows "returns (m_map serve rs) s (\<lambda>as s'. answers_ok rs M as \<and> holds s' (fold request_effect rs M))"
  using assms
proof (induction rs arbitrary: s M)
  case (Cons r rs)
  show ?case
    unfolding m_map.simps
  proof (rule returns_bind [OF serve_ok])
    fix a s' assume "answer_ok r M a \<and> holds s' (request_effect r M)"
    with Cons show "returns (m_bind (m_map serve rs) (\<lambda>as. m_return (a # as))) s'
        (\<lambda>as s'. answers_ok (r # rs) M as \<and> holds s' (fold request_effect (r # rs) M))"
      by (intro returns_bind [OF Cons.IH]) auto
  qed (use Cons.prems in auto)
qed simp

text \<open>A value that was written is read until the key is written again.\<close>

lemma read_your_writes:
  assumes "holds s M" and "\<forall>r \<in> set rs. admissible r" and "admissible (Put k v)" and "admissible (Get k)"
    and untouched: "\<forall>r \<in> set rs. \<forall>M. request_effect r M k = M k"
  shows "returns (m_map serve (Put k v # rs @ [Get k])) s (\<lambda>as s'. last as = Val v)"
proof -
  have keep: "fold request_effect rs M' k = M' k" for M' using untouched by (induction rs arbitrary: M') auto
  have last: "answers_ok (qs @ [Get k]) M' as \<Longrightarrow> last as = Val (fold request_effect qs M' k)" for qs M' as
  proof (induction qs arbitrary: M' as)
    case Nil
    then show ?case by (cases as) (auto simp: answer_ok_def split: list.splits elim: answers_ok.elims)
  next
    case (Cons q qs)
    then show ?case by (cases as) (auto elim: answers_ok.elims)
  qed
  have "\<forall>r \<in> set (Put k v # rs @ [Get k]). admissible r" using assms by auto
  from serve_all [OF assms(1) this] show ?thesis
    by (rule returns_weaken) (use last [of "Put k v # rs" M] keep in \<open>simp add: request_effect_def\<close>)
qed

end

section \<open>The engine keeps it\<close>

text \<open>What the engine is asked to do: keys are not empty and fit into 16 bits with their values, a full compaction is
  only requested without a strategy. The compaction thread runs without a strategy, with the simple
  leveled one, or with the tiered one as long as it may merge any number of tiers.\<close>

definition strategy_ok :: "CompactionOptions \<Rightarrow> bool" where
  "strategy_ok copts = (case copts of
     TieredOpts topts \<Rightarrow> 0 < to_num_tiers topts \<and> to_max_merge_width topts = None
   | SimpleOpts _ \<Rightarrow> True
   | NoCompaction \<Rightarrow> True
   | LeveledOpts _ \<Rightarrow> False)"

definition admissible :: "LsmStorageOptions \<Rightarrow> request \<Rightarrow> bool" where
  "admissible opts r = (case r of
     Put k v \<Rightarrow> wf_entry (k, v)
   | Del k \<Rightarrow> k \<noteq> [] \<and> length k < 2 ^ 16
   | ForceFullCompaction \<Rightarrow> op_compaction_options opts = NoCompaction
   | CompactionRound \<Rightarrow> strategy_ok (op_compaction_options opts)
   | _ \<Rightarrow> True)"

lemma returns_attempt: "returns p s (\<lambda>_ s'. Q s') \<Longrightarrow> returns (attempt p) s (\<lambda>_ s'. Q s')"
  by (auto simp: returns_def attempt_def split: option.splits sum.splits)

text \<open>Every strategy under its conditions; the leveled one without a claim about restarts.\<close>

definition compaction_safe :: "LsmStorageOptions \<Rightarrow> bool \<Rightarrow> LsmStorageState \<Rightarrow> bool" where
  "compaction_safe opts d st = (case op_compaction_options opts of
     LeveledOpts lopts \<Rightarrow> \<not> d \<and> leveled_safe lopts st
   | copts \<Rightarrow> strategy_ok copts)"

lemma strategy_ok_safe: "strategy_ok (op_compaction_options opts) \<Longrightarrow> compaction_safe opts d st"
  by (simp add: compaction_safe_def strategy_ok_def split: CompactionOptions.splits)

interpretation strategies: compaction_strategy E path opts d "compaction_safe opts d"
proof
  fix b tables n st co assume inv: "st_inv (ev_ext E) opts b tables n st co" and safe: "compaction_safe opts d st"
  show "\<exists>task_opt. CompactionController_generate_compaction_task (CompactionController_create (op_compaction_options opts)) st = Inr task_opt \<and>
      (\<forall>task. task_opt = Some task \<longrightarrow> (\<exists>xss. task_input (ev_ext E) tables st task xss \<and> works E path opts d task tables st xss))"
  proof (cases "op_compaction_options opts")
    case (LeveledOpts lopts)
    then show ?thesis using leveled.plan [OF inv] safe by (simp add: compaction_safe_def)
  next
    case (TieredOpts topts)
    then show ?thesis using tiered.plan [OF inv] safe by (simp add: compaction_safe_def strategy_ok_def)
  next
    case (SimpleOpts sopts)
    then show ?thesis using simple.plan [OF inv] by simp
  next
    case NoCompaction
    then show ?thesis by (simp add: CompactionController_create_def CompactionController_generate_compaction_task_def)
  qed
qed

lemma with_compaction_round:
  assumes F: "lasting F" and h: "engine_with F E path opts d s M" and a: "admissible opts CompactionRound"
  shows "returns (compaction_round E) s (\<lambda>_ s. engine_with F E path opts d s M)"
proof -
  obtain inner files where s: "s = (inner, files)" by (cases s)
  have o: "in_options inner = opts" using h by (simp add: engine_with_def s)
  have "compaction_safe opts d (in_state (fst s))" using a by (intro strategy_ok_safe) (simp add: admissible_def)
  from returns_attempt [OF strategies.compaction [OF F h this]]
  show ?thesis using h by (simp add: s compaction_round_def o)
qed

lemma returns_finish: "returns p s (\<lambda>_ s'. Q s') \<Longrightarrow> returns (m_bind p (\<lambda>_. m_return Done)) s (\<lambda>a s'. a = Done \<and> Q s')"
  by (rule returns_bind) auto

text \<open>Requests that do not compact keep every steady relation, all of them keep the lasting ones.\<close>

definition compacts :: "request \<Rightarrow> bool" where
  "compacts r \<longleftrightarrow> r = ForceFullCompaction \<or> r = CompactionRound"

interpretation quiet: kv_store "engine_with F E path opts d" "MiniLsm_serve E" "\<lambda>r. steady d F \<and> admissible opts r \<and> \<not> compacts r" for F E path opts d
proof
  fix s M r assume h: "engine_with F E path opts d s M" and "steady d F \<and> admissible opts r \<and> \<not> compacts r"
  then have F: "steady d F" and a: "admissible opts r" "\<not> compacts r" by simp_all
  show "returns (MiniLsm_serve E r) s (\<lambda>a s'. answer_ok r M a \<and> engine_with F E path opts d s' (request_effect r M))"
  proof (cases r)
    case (Put k v)
    then show ?thesis using returns_finish [OF with_put [OF F h]] a
      by (simp add: MiniLsm_serve_def answer_ok_def request_effect_def admissible_def)
  next
    case (Del k)
    then show ?thesis using returns_finish [OF with_del [OF F h]] a
      by (simp add: MiniLsm_serve_def answer_ok_def request_effect_def admissible_def)
  next
    case (Get k)
    then show ?thesis
      by (auto simp: MiniLsm_serve_def answer_ok_def request_effect_def intro!: returns_bind [OF with_get [OF F h]])
  next
    case (Scan lower upper)
    then show ?thesis
      by (auto simp: MiniLsm_serve_def answer_ok_def request_effect_def intro!: returns_bind [OF with_scan [OF F h]])
  next
    case Sync
    then show ?thesis using returns_finish [OF with_sync [OF F h]]
      by (simp add: MiniLsm_serve_def answer_ok_def request_effect_def)
  next
    case ForceFlush
    then show ?thesis using returns_finish [OF with_flush [OF F h]]
      by (simp add: MiniLsm_serve_def answer_ok_def request_effect_def)
  next
    case FlushRound
    then show ?thesis using returns_finish [OF returns_attempt [OF with_trigger_flush [OF F h]]]
      by (simp add: MiniLsm_serve_def answer_ok_def request_effect_def flush_round_def)
  qed (use a(2) in \<open>simp_all add: compacts_def\<close>)
qed

interpretation relating: kv_store "engine_with F E path opts d" "MiniLsm_serve E" "\<lambda>r. lasting F \<and> admissible opts r" for F E path opts d
proof
  fix s M r assume h: "engine_with F E path opts d s M" and "lasting F \<and> admissible opts r"
  then have F: "lasting F" and a: "admissible opts r" by simp_all
  show "returns (MiniLsm_serve E r) s (\<lambda>a s'. answer_ok r M a \<and> engine_with F E path opts d s' (request_effect r M))"
  proof (cases "compacts r")
    case True
    then consider "r = ForceFullCompaction" | "r = CompactionRound" by (auto simp: compacts_def)
    then show ?thesis
    proof cases
      case 1
      then show ?thesis using returns_finish [OF returns_weaken [OF with_force_full_compaction [OF F h]]] a
        by (simp add: MiniLsm_serve_def answer_ok_def request_effect_def admissible_def)
    next
      case 2
      then show ?thesis using returns_finish [OF with_compaction_round [OF F h]] a
        by (simp add: MiniLsm_serve_def answer_ok_def request_effect_def)
    qed
  next
    case False
    then show ?thesis using quiet.serve_ok [OF h] lasting_steady [OF F] a by blast
  qed
qed

interpretation mini_lsm: kv_store "engine_holds E path opts d" "MiniLsm_serve E" "admissible opts" for E path opts d
  by standard (use relating.serve_ok [where F = "\<lambda>_ _. True", unfolded engine_with_True] lasting_True in blast)

section \<open>Properties\<close>

lemma answers_ok_append:
  "answers_ok rs M as \<Longrightarrow> answers_ok qs (fold request_effect rs M) bs \<Longrightarrow> answers_ok (rs @ qs) M (as @ bs)"
  by (induction rs M as rule: answers_ok.induct) auto

lemma serve_from_new:
  assumes "io_works (ev_io E)" and "snappy_inverts (ev_ext E)" and "opts_ok (ev_ext E) opts"
    and "files (manifest_path path) = None" and "\<forall>r \<in> set rs. admissible opts r"
  shows "\<exists>as s s'. LsmStorageInner_open E path opts files = Some (Inr (), s) \<and>
    m_map (MiniLsm_serve E) rs s = Some (Inr as, s') \<and> answers_ok rs (\<lambda>_. []) as \<and>
    engine_holds E path opts True s' (fold request_effect rs (\<lambda>_. []))"
proof -
  from LsmStorageInner_open_new [OF assms(1-3), where files = files and path = path] assms(4) obtain s where
    s: "LsmStorageInner_open E path opts files = Some (Inr (), s)" "engine_holds E path opts True s (\<lambda>_. [])" by auto
  with mini_lsm.serve_all [OF s(2) assms(5)] show ?thesis by (auto simp: returns_def)
qed

text \<open>C1: the store implements a map. From a new store, any sequence of calls (\<open>put\<close>, \<open>del\<close>, \<open>get\<close>, \<open>scan\<close>,
  \<open>sync\<close>, \<open>force_flush\<close>, \<open>force_full_compaction\<close>), with any number of rounds of the flush thread and of
  the compaction thread between them, returns without an error, and every answer is that of a plain
  map: \<open>get\<close> the last value put for the key or the empty value, \<open>scan\<close> the live entries of the range in
  order. It holds with and without write-ahead log; without compaction, with simple leveled compaction and
  with tiered compaction of unlimited merge width.\<close>

theorem MiniLsm_refines_map:
  assumes "io_works (ev_io E)" and "snappy_inverts (ev_ext E)" and "opts_ok (ev_ext E) opts"
    and "files (manifest_path path) = None" and "\<forall>r \<in> set rs. admissible opts r"
  shows "\<exists>as s s'. LsmStorageInner_open E path opts files = Some (Inr (), s) \<and>
    m_map (MiniLsm_serve E) rs s = Some (Inr as, s') \<and> answers_ok rs (\<lambda>_. []) as"
  using serve_from_new [of E opts files path rs] assms by blast

theorem MiniLsm_refines_map_witness:
  "\<exists>a s s'. LsmStorageInner_open example_env ''db'' default_for_week1_test Map.empty = Some (Inr (), s) \<and>
    m_map (MiniLsm_serve example_env) [Put [1] [7], FlushRound, Put [2] [8], Del [2], ForceFlush, ForceFullCompaction, Get [1], Get [2]] s =
      Some (Inr a, s') \<and> a = [Done, Done, Done, Done, Done, Done, Val [7], Val []]"
proof -
  let ?rs = "[Put [1] [7], FlushRound, Put [2] [8], Del [2], ForceFlush, ForceFullCompaction, Get [1], Get [2]]"
  have "\<forall>r \<in> set ?rs. admissible default_for_week1_test r"
    by (simp add: admissible_def default_for_week1_test_def wf_entry_def)
  from MiniLsm_refines_map [OF example_env_ok(1,2) default_opts_ok(1) _ this, of Map.empty "''db''"] obtain a s s' where
    1: "LsmStorageInner_open example_env ''db'' default_for_week1_test Map.empty = Some (Inr (), s)"
      "m_map (MiniLsm_serve example_env) ?rs s = Some (Inr a, s')" "answers_ok ?rs (\<lambda>_. []) a" by auto
  have "a = [Done, Done, Done, Done, Done, Done, Val [7], Val []]"
    using 1(3) by (auto simp: answer_ok_def request_effect_def elim!: answers_ok.elims)
  with 1 show ?thesis by blast
qed

text \<open>What the invariant says of the state itself.\<close>

definition well_formed :: "env \<Rightarrow> engine \<Rightarrow> bool" where
  "well_formed E = (\<lambda>(inner, files). let st = in_state inner in
     distinct (all_ids st) \<and>
     (\<forall>i \<in> set (all_ids st). i < in_next_sst_id inner \<and>
        (\<exists>t d. ls_sstables st i = Some t \<and> st_id t = i \<and> files (path_of_sst_val inner i) = Some d \<and>
           SsTable_open (ev_ext E) i True \<lparr>fo_content = d\<rparr> = Inr t)) \<and>
     (\<forall>lev \<in> set (ls_levels st). SstConcatIterator_check_sst_valid (map (\<lambda>i. the (ls_sstables st i)) (snd lev)) = Inr ()) \<and>
     sorted_wrt (>) (map mt_id (ls_memtable st # ls_imm_memtables st)) \<and>
     (\<forall>t \<in> set (ls_memtable st # ls_imm_memtables st).
        mt_id t < in_next_sst_id inner \<and> mt_id t \<notin> set (all_ids st) \<and> sorted_wrt (<) (map fst (mt_map t))))"

lemma ids_hold_the: "ids_hold X tables st ids ess \<Longrightarrow> list_all2 (sst_entries X tables) (map (\<lambda>i. the (ls_sstables st i)) ids) ess"
  unfolding ids_hold_def list_all2_map1 by (erule list_all2_mono) auto

lemma st_holds_levels_valid:
  assumes "st_holds X tables st co" and "lev \<in> set (ls_levels st)"
  shows "SstConcatIterator_check_sst_valid (map (\<lambda>i. the (ls_sstables st i)) (snd lev)) = Inr ()"
proof -
  from assms obtain ess where "ids_hold X tables st (snd lev) ess" "sorted_entries (concat ess)"
    by (auto simp: st_holds_def in_set_conv_nth list_all2_conv_all_nth case_prod_beta)
  then have "level_holds X tables (map (\<lambda>i. the (ls_sstables st i)) (snd lev)) ess" by (simp add: level_holds_def ids_hold_the)
  then show ?thesis by (rule check_sst_valid_ok)
qed

lemma engine_holds_well_formed:
  assumes "engine_holds E path opts True s M"
  shows "well_formed E s"
proof -
  obtain inner files where s: "s = (inner, files)" by (cases s)
  let ?st = "in_state inner"
  from assms obtain tables co where inv: "st_inv (ev_ext E) opts (op_target_sst_size opts) tables (in_next_sst_id inner) ?st co"
    and disk: "tables_on_disk E inner files"
    by (auto simp: s engine_holds_def eng_inv_def dest: durableD)
  have ids: "\<exists>t d. ls_sstables ?st i = Some t \<and> st_id t = i \<and> files (path_of_sst_val inner i) = Some d \<and>
      SsTable_open (ev_ext E) i True \<lparr>fo_content = d\<rparr> = Inr t" if "i \<in> set (all_ids ?st)" for i
    using disk that by (force simp: tables_on_disk_def on_disk_def)
  have "tables i \<noteq> None" if "ls_sstables ?st i = Some t" for i t using inv that by (auto simp: st_inv_def)
  then have dom: "tables i \<noteq> None" if "i \<in> set (all_ids ?st)" for i using ids [OF that] by blast
  have "i < in_next_sst_id inner" if "i \<in> set (all_ids ?st)" for i using dom [OF that] inv by (auto simp: st_inv_def)
  moreover have "mt_id t < in_next_sst_id inner" "mt_id t \<notin> set (all_ids ?st)" "sorted_wrt (<) (map fst (mt_map t))"
    if "t \<in> set (ls_memtable ?st # ls_imm_memtables ?st)" for t
    using that inv dom [of "mt_id t"] by (auto simp: st_inv_def st_holds_def mt_wf_def sorted_wrt_map)
  moreover have "st_holds (ev_ext E) tables ?st co" using inv by (simp add: st_inv_def)
  ultimately show ?thesis using inv ids st_holds_levels_valid [of "ev_ext E" tables ?st co]
    by (simp add: well_formed_def s st_inv_def Let_def)
qed

text \<open>C14: every state that a store reaches is well formed. No table is listed twice; every listed table has an id that was given out, is in memory under
  its id, and its file opens to exactly that table; the tables of each level pass \<open>check_sst_valid\<close>: their key ranges are ordered
  and disjoint; memtables are listed from the newest to the oldest, under ids of no table, and are
  ordered by key.\<close>

theorem reachable_well_formed:
  assumes "io_works (ev_io E)" and "snappy_inverts (ev_ext E)" and "opts_ok (ev_ext E) opts"
    and "files (manifest_path path) = None" and "\<forall>r \<in> set rs. admissible opts r"
  shows "\<exists>as s s'. LsmStorageInner_open E path opts files = Some (Inr (), s) \<and>
    m_map (MiniLsm_serve E) rs s = Some (Inr as, s') \<and> well_formed E s'"
  using serve_from_new [of E opts files path rs] assms engine_holds_well_formed by blast

theorem reachable_well_formed_witness:
  "\<exists>as s s'. LsmStorageInner_open example_env ''db'' default_for_week1_test Map.empty = Some (Inr (), s) \<and>
    m_map (MiniLsm_serve example_env) [Put [1] [7], FlushRound, ForceFullCompaction] s = Some (Inr as, s') \<and> well_formed example_env s'"
  by (rule reachable_well_formed [OF example_env_ok(1,2) default_opts_ok(1)])
    (simp_all add: admissible_def wf_entry_def default_for_week1_test_def)

text \<open>C16: closing comes to an end and leaves nothing behind. \<open>MiniLsm::close\<close> of a store that holds a map returns,
  the store still holds the map, and without write-ahead log the active memtable is empty and no
  immutable memtable is left: the loop that flushes them one by one terminates.\<close>

theorem MiniLsm_close_flushes:
  assumes "engine_holds E path opts d s M"
  shows "\<exists>s'. MiniLsm_close E s = Some (Inr (), s') \<and> engine_holds E path opts d s' M \<and>
    (op_enable_wal opts \<or> (MemTable_is_empty (ls_memtable (in_state (fst s'))) \<and> ls_imm_memtables (in_state (fst s')) = []))"
  using returns_close [OF assms] by (auto simp: returns_def)

lemma week2_fields [simp]:
  "op_enable_wal (default_for_week2_test copts) = False" "op_compaction_options (default_for_week2_test copts) = copts"
  "op_num_memtable_limit (default_for_week2_test copts) = 2"
  by (simp_all add: default_for_week2_test_def)

lemma example_store:
  obtains s where "LsmStorageInner_open example_env ''db'' (default_for_week2_test copts) Map.empty = Some (Inr (), s)"
    and "engine_holds example_env ''db'' (default_for_week2_test copts) True s (\<lambda>_. [])"
  using LsmStorageInner_open_new [OF example_env_ok(1,2) default_opts_ok(2) [where copts = copts], of Map.empty "''db''"] by auto

theorem MiniLsm_close_flushes_witness:
  "\<exists>s s'. MiniLsm_close example_env s = Some (Inr (), s') \<and>
    engine_holds example_env ''db'' (default_for_week2_test NoCompaction) True s' ((\<lambda>_. [])([1] := [7])) \<and>
    ls_imm_memtables (in_state (fst s')) = []"
proof (rule example_store [of NoCompaction])
  let ?opts = "default_for_week2_test NoCompaction"
  fix s assume "engine_holds example_env ''db'' ?opts True s (\<lambda>_. [])"
  from returns_put [OF this, of "[1]" "[7]"] obtain s1 where
    "engine_holds example_env ''db'' ?opts True s1 ((\<lambda>_. [])([1] := [7]))" by (auto simp: returns_def wf_entry_def)
  from MiniLsm_close_flushes [OF this] show ?thesis unfolding week2_fields by blast
qed

text \<open>A flush moves the oldest immutable memtable into a table and changes no value; the other memtables
  stay as they are.\<close>

theorem force_flush_moves_oldest:
  assumes "engine_holds E path opts d s M"
  shows "\<exists>s'. LsmStorageInner_force_flush_next_imm_memtable E s = Some (Inr (), s') \<and> engine_holds E path opts d s' M \<and>
    ls_imm_memtables (in_state (fst s')) = butlast (ls_imm_memtables (in_state (fst s))) \<and>
    ls_memtable (in_state (fst s')) = ls_memtable (in_state (fst s))"
  using returns_flush_oldest [OF assms] by (auto simp: returns_def)

theorem force_flush_moves_oldest_witness:
  "\<exists>s s'. LsmStorageInner_force_flush_next_imm_memtable example_env s = Some (Inr (), s') \<and>
    engine_holds example_env ''db'' (default_for_week2_test NoCompaction) True s' (\<lambda>_. [])"
proof (rule example_store [of NoCompaction])
  fix s assume "engine_holds example_env ''db'' (default_for_week2_test NoCompaction) True s (\<lambda>_. [])"
  from force_flush_moves_oldest [OF this] show ?thesis by blast
qed

text \<open>C12: a full compaction changes no value. Without a compaction strategy, \<open>force_full_compaction\<close> returns, the
  store holds the same map, and level 0 is empty; with a strategy, it throws and changes nothing.\<close>

theorem force_full_compaction_keeps_map:
  assumes "engine_holds E path opts d s M"
  shows "if op_compaction_options opts = NoCompaction
    then \<exists>s'. LsmStorageInner_force_full_compaction E s = Some (Inr (), s') \<and> engine_holds E path opts d s' M \<and>
      ls_l0_sstables (in_state (fst s')) = []
    else LsmStorageInner_force_full_compaction E s =
      Some (Inl (Throw ''full compaction can only be called when compaction is not enabled''), s)"
proof (cases "op_compaction_options opts = NoCompaction")
  case True
  then show ?thesis using returns_force_full_compaction [OF assms] by (auto simp: returns_def)
next
  case False
  have "in_options (fst s) = opts" using assms by (simp add: engine_holds_def)
  then show ?thesis using False by (cases s) (simp add: LsmStorageInner_force_full_compaction_def full_begin_def m_bind_def get_inner_def)
qed

theorem force_full_compaction_keeps_map_witness:
  "\<exists>s s'. mt_map (ls_memtable (in_state (fst s))) = [] \<and> ls_imm_memtables (in_state (fst s)) = [] \<and>
    LsmStorageInner_force_full_compaction example_env s = Some (Inr (), s') \<and>
    engine_holds example_env ''db'' small_opts True s' ((\<lambda>_. [])([1] := [7], [2] := [8])) \<and> ls_l0_sstables (in_state (fst s')) = []"
proof (rule small_store_frozen)
  let ?M = "(\<lambda>_. [])([1] := [7], [2] := [8])"
  fix s assume s: "engine_holds example_env ''db'' small_opts True s ?M" "length (ls_imm_memtables (in_state (fst s))) = 2"
    "mt_map (ls_memtable (in_state (fst s))) = []"
  from returns_flush_oldest [OF s(1)] s(2,3) obtain s1 where 1: "engine_holds example_env ''db'' small_opts True s1 ?M"
    "length (ls_imm_memtables (in_state (fst s1))) = 1" "mt_map (ls_memtable (in_state (fst s1))) = []" by (auto simp: returns_def)
  from returns_flush_oldest [OF 1(1)] 1(2,3) obtain s2 where 2: "engine_holds example_env ''db'' small_opts True s2 ?M"
    "ls_imm_memtables (in_state (fst s2)) = []" "mt_map (ls_memtable (in_state (fst s2))) = []" by (auto simp: returns_def length_Suc_conv)
  have kind: "op_compaction_options small_opts = NoCompaction" by (simp add: default_for_week1_test_def)
  from force_full_compaction_keeps_map [OF 2(1)] 2(2,3) show ?thesis unfolding if_P [OF kind] by blast
qed

text \<open>C11: a compaction changes no value. \<open>trigger_compaction\<close> with the simple leveled strategy, and with the tiered one
  if the width of merges is not limited, returns without an error and leaves the value of every key
  as it was, whichever levels or tiers it picks; tombstones disappear only from the lowest run.\<close>

theorem trigger_compaction_keeps_map:
  assumes "engine_holds E path opts d s M" and "strategy_ok (op_compaction_options opts)"
  shows "\<exists>r s'. LsmStorageInner_trigger_compaction E s = Some (Inr r, s') \<and> engine_holds E path opts d s' M"
  using strategies.compaction [OF lasting_True, unfolded engine_with_True, OF assms(1) strategy_ok_safe [OF assms(2)]] by (auto simp: returns_def)

theorem trigger_compaction_keeps_map_witness:
  "\<exists>s r s'. LsmStorageInner_trigger_compaction example_env s = Some (Inr r, s') \<and>
    engine_holds example_env ''db'' (default_for_week2_test (SimpleOpts \<lparr>so_size_ratio_percent = 200,
      so_level0_file_num_compaction_trigger = 0, so_max_levels = 2\<rparr>)) True s' (\<lambda>_. [])"
proof (rule example_store [of "SimpleOpts \<lparr>so_size_ratio_percent = 200, so_level0_file_num_compaction_trigger = 0, so_max_levels = 2\<rparr>"])
  let ?o = "\<lparr>so_size_ratio_percent = 200, so_level0_file_num_compaction_trigger = 0, so_max_levels = 2\<rparr>"
  fix s assume "engine_holds example_env ''db'' (default_for_week2_test (SimpleOpts ?o)) True s (\<lambda>_. [])"
  moreover have "strategy_ok (op_compaction_options (default_for_week2_test (SimpleOpts ?o)))" by (simp add: strategy_ok_def)
  ultimately show ?thesis using trigger_compaction_keeps_map by blast
qed

lemma returns_flush_round:
  assumes h: "engine_holds E path opts d s M"
  shows "returns (flush_round E) s (\<lambda>_ s'. engine_holds E path opts d s' M \<and>
    length (ls_imm_memtables (in_state (fst s'))) =
      length (ls_imm_memtables (in_state (fst s))) - of_bool (op_num_memtable_limit opts \<le> length (ls_imm_memtables (in_state (fst s)))))"
proof -
  obtain inner files where s: "s = (inner, files)" by (cases s)
  have o: "in_options inner = opts" using h by (simp add: engine_holds_def s)
  have "returns (LsmStorageInner_trigger_flush E) s (\<lambda>_ s'. engine_holds E path opts d s' M \<and>
    length (ls_imm_memtables (in_state (fst s'))) =
      length (ls_imm_memtables (in_state (fst s))) - of_bool (op_num_memtable_limit opts \<le> length (ls_imm_memtables (in_state (fst s)))))"
    using h by (auto simp: s LsmStorageInner_trigger_flush_def o intro!: returns_bind [OF returns_flush_oldest [OF h [unfolded s]]])
  then show ?thesis unfolding flush_round_def by (rule returns_attempt)
qed

lemma returns_flush_rounds:
  assumes "engine_holds E path opts d s M"
  shows "returns (m_map (\<lambda>_. flush_round E) xs) s (\<lambda>_ s'. engine_holds E path opts d s' M \<and>
    (length (ls_imm_memtables (in_state (fst s'))) < op_num_memtable_limit opts \<or>
     length (ls_imm_memtables (in_state (fst s'))) \<le> length (ls_imm_memtables (in_state (fst s))) - length xs))"
  using assms
proof (induction xs arbitrary: s)
  case (Cons x xs)
  show ?case unfolding m_map.simps
  proof (rule returns_bind [OF returns_flush_round [OF Cons.prems]])
    fix u s1 assume 1: "engine_holds E path opts d s1 M \<and> length (ls_imm_memtables (in_state (fst s1))) =
      length (ls_imm_memtables (in_state (fst s))) - of_bool (op_num_memtable_limit opts \<le> length (ls_imm_memtables (in_state (fst s))))"
    show "returns (m_bind (m_map (\<lambda>_. flush_round E) xs) (\<lambda>us. m_return (u # us))) s1 (\<lambda>_ s'. engine_holds E path opts d s' M \<and>
      (length (ls_imm_memtables (in_state (fst s'))) < op_num_memtable_limit opts \<or>
       length (ls_imm_memtables (in_state (fst s'))) \<le> length (ls_imm_memtables (in_state (fst s))) - length (x # xs)))"
      by (rule returns_bind [OF Cons.IH]) (use 1 in \<open>auto simp: of_bool_def split: if_splits\<close>)
  qed
qed simp

text \<open>C17: the flush thread keeps up. With a limit of at least one memtable, as many rounds as there are immutable
  memtables bring their number below the limit, and no round changes a value or fails.\<close>

theorem flush_rounds_keep_up:
  assumes "engine_holds E path opts d s M" and "length (ls_imm_memtables (in_state (fst s))) \<le> n"
    and "0 < op_num_memtable_limit opts"
  shows "\<exists>us s'. m_map (\<lambda>_. flush_round E) [0..<n] s = Some (Inr us, s') \<and> engine_holds E path opts d s' M \<and>
    length (ls_imm_memtables (in_state (fst s'))) < op_num_memtable_limit opts"
proof -
  from returns_flush_rounds [OF assms(1), of "[0..<n]"] obtain us s' where
    "m_map (\<lambda>_. flush_round E) [0..<n] s = Some (Inr us, s')" "engine_holds E path opts d s' M"
    "length (ls_imm_memtables (in_state (fst s'))) < op_num_memtable_limit opts \<or>
     length (ls_imm_memtables (in_state (fst s'))) \<le> length (ls_imm_memtables (in_state (fst s))) - length [0..<n]"
    unfolding returns_def by blast
  then show ?thesis using assms(2,3) by fastforce
qed

theorem flush_rounds_keep_up_witness:
  "\<exists>s us s'. length (ls_imm_memtables (in_state (fst s))) = op_num_memtable_limit small_opts \<and>
    engine_holds example_env ''db'' small_opts True s ((\<lambda>_. [])([1] := [7], [2] := [8])) \<and>
    m_map (\<lambda>_. flush_round example_env) [0..<2] s = Some (Inr us, s') \<and>
    engine_holds example_env ''db'' small_opts True s' ((\<lambda>_. [])([1] := [7], [2] := [8])) \<and>
    length (ls_imm_memtables (in_state (fst s'))) < op_num_memtable_limit small_opts"
proof (rule small_store_frozen)
  fix s assume s: "engine_holds example_env ''db'' small_opts True s ((\<lambda>_. [])([1] := [7], [2] := [8]))" "length (ls_imm_memtables (in_state (fst s))) = 2"
  have "length (ls_imm_memtables (in_state (fst s))) \<le> 2" "0 < op_num_memtable_limit small_opts" using s(2) by simp_all
  from flush_rounds_keep_up [OF s(1) this] obtain us s' where "m_map (\<lambda>_. flush_round example_env) [0..<2] s = Some (Inr us, s')"
    "engine_holds example_env ''db'' small_opts True s' ((\<lambda>_. [])([1] := [7], [2] := [8]))"
    "length (ls_imm_memtables (in_state (fst s'))) < op_num_memtable_limit small_opts" by blast
  moreover have "length (ls_imm_memtables (in_state (fst s))) = op_num_memtable_limit small_opts" using s(2) by simp
  ultimately show ?thesis using s(1) by blast
qed

end
