(* ===== verification/Durability.thy ===== *)
theory Durability
  imports Store_Spec
begin

text \<open>
  What survives the end of a process: restarting a store that was destroyed, and one that died. The store is
  used through its interface, from its creation on.
\<close>

section \<open>Restarting\<close>

text \<open>The options of the command line: a log, no compaction.\<close>

definition cli_options :: LsmStorageOptions where
  "cli_options = default_for_week1_test\<lparr>op_enable_wal := True\<rparr>"

lemma cli_options_ok: "opts_ok X cli_options"
  by (rule opts_ok_uncompressed) (simp_all add: cli_options_def default_for_week1_test_def)

lemma m_map_length: "m_map f xs s = Some (Inr ys, s') \<Longrightarrow> length ys = length xs"
  by (induction xs arbitrary: s ys) (auto simp: m_bind_def split: option.splits prod.splits sum.splits)

text \<open>C3: closing and opening again loses nothing. A store that was created, used by any sequence of calls and
  background rounds, and destroyed (\<open>~MiniLsm\<close>, which closes it and lets its logs write out their buffers), is
  opened again from its files alone and goes on answering as the same map: with write-ahead log, where memtables
  come back from their logs, and without, where \<open>close\<close> has moved them into tables. The only alternative is a
  manifest of \<open>2^64\<close> bytes or more.\<close>

theorem MiniLsm_restart:
  assumes "io_works (ev_io E)" and "snappy_inverts (ev_ext E)" and "opts_ok (ev_ext E) opts" and "json_restores (ev_json E)"
    and "files (manifest_path path) = None" and "\<forall>r \<in> set (rs @ qs). admissible opts r"
  shows "\<exists>as s s1 files'. LsmStorageInner_open E path opts files = Some (Inr (), s) \<and>
    m_map (MiniLsm_serve E) rs s = Some (Inr as, s1) \<and> MiniLsm_destroy E s1 = Some (Inr (), files') \<and>
    (2 ^ 64 \<le> length (the (files' (manifest_path path))) \<or>
     (\<exists>bs s2 s3. LsmStorageInner_open E path opts files' = Some (Inr (), s2) \<and>
        m_map (MiniLsm_serve E) qs s2 = Some (Inr bs, s3) \<and> answers_ok (rs @ qs) (\<lambda>_. []) (as @ bs)))"
proof -
  have adm: "\<forall>r \<in> set rs. admissible opts r" "\<forall>r \<in> set qs. admissible opts r" using assms(6) by auto
  let ?M = "fold request_effect rs (\<lambda>_. [])"
  from serve_from_new [of E opts files path rs] assms(1-3,5) adm(1) obtain as s s1 where
    1: "LsmStorageInner_open E path opts files = Some (Inr (), s)" "m_map (MiniLsm_serve E) rs s = Some (Inr as, s1)"
      "answers_ok rs (\<lambda>_. []) as" "engine_holds E path opts True s1 ?M" by blast
  from reopen_after_destroy [OF 1(4) assms(4)] obtain files' where
    2: "MiniLsm_destroy E s1 = Some (Inr (), files')"
      "2 ^ 64 \<le> length (the (files' (manifest_path path))) \<or>
       (\<exists>s2. LsmStorageInner_open E path opts files' = Some (Inr (), s2) \<and> engine_holds E path opts False s2 ?M)" by blast
  have "\<exists>bs s3. m_map (MiniLsm_serve E) qs s2 = Some (Inr bs, s3) \<and> answers_ok (rs @ qs) (\<lambda>_. []) (as @ bs)"
    if "engine_holds E path opts False s2 ?M" for s2
    using mini_lsm.serve_all [OF that adm(2)] answers_ok_append [OF 1(3)] by (fastforce simp: returns_def)
  then show ?thesis using 1(1,2) 2 by blast
qed

theorem MiniLsm_restart_witness:
  "\<exists>as s s1 files'. LsmStorageInner_open example_env ''db'' cli_options Map.empty = Some (Inr (), s) \<and>
    m_map (MiniLsm_serve example_env) [Put [1] [7], Put [2] [8], Del [2]] s = Some (Inr as, s1) \<and>
    MiniLsm_destroy example_env s1 = Some (Inr (), files') \<and>
    (2 ^ 64 \<le> length (the (files' (manifest_path ''db''))) \<or>
     (\<exists>s2 s3. LsmStorageInner_open example_env ''db'' cli_options files' = Some (Inr (), s2) \<and>
        m_map (MiniLsm_serve example_env) [Get [1], Get [2]] s2 = Some (Inr [Val [7], Val []], s3)))"
proof -
  let ?rs = "[Put [1] [7], Put [2] [8], Del [2]]" and ?qs = "[Get [1], Get [2]]"
  have adm: "\<forall>r \<in> set (?rs @ ?qs). admissible cli_options r" by (simp add: admissible_def wf_entry_def)
  have vals: "bs = [Val [7], Val []]" if "answers_ok (?rs @ ?qs) (\<lambda>_. []) (as @ bs)" "length as = 3" for as bs
    using that by (auto simp: answer_ok_def request_effect_def numeral_3_eq_3 length_Suc_conv elim!: answers_ok.elims)
  have len: "length as = 3" if "m_map (MiniLsm_serve example_env) ?rs s = Some (Inr as, s1)" for as s s1
    using m_map_length [OF that] by simp
  from MiniLsm_restart [OF example_env_ok(1,2) cli_options_ok example_env_ok(3) _ adm, of Map.empty "''db''"]
  obtain as s s1 files' where 1: "LsmStorageInner_open example_env ''db'' cli_options Map.empty = Some (Inr (), s)"
    "m_map (MiniLsm_serve example_env) ?rs s = Some (Inr as, s1)" "MiniLsm_destroy example_env s1 = Some (Inr (), files')"
    "2 ^ 64 \<le> length (the (files' (manifest_path ''db''))) \<or>
     (\<exists>bs s2 s3. LsmStorageInner_open example_env ''db'' cli_options files' = Some (Inr (), s2) \<and>
        m_map (MiniLsm_serve example_env) ?qs s2 = Some (Inr bs, s3) \<and> answers_ok (?rs @ ?qs) (\<lambda>_. []) (as @ bs))" by auto
  then show ?thesis using vals [OF _ len [OF 1(2)]] by blast
qed

section \<open>Crashes\<close>

text \<open>C6: a crash never makes a store unreadable, and loses at most records that were still buffered. After any use,
  if the process dies and each log keeps an arbitrary prefix of its buffered bytes, opening
  returns, the store goes on answering as a map, and that map has the old value for every key
  without a buffered record (without log: every key that is in no memtable).\<close>

theorem MiniLsm_crash_recovery:
  assumes "io_works (ev_io E)" and "snappy_inverts (ev_ext E)" and "opts_ok (ev_ext E) opts" and "json_restores (ev_json E)"
    and "files (manifest_path path) = None" and "\<forall>r \<in> set (rs @ qs). admissible opts r"
  shows "\<exists>as s inner f. LsmStorageInner_open E path opts files = Some (Inr (), s) \<and>
    m_map (MiniLsm_serve E) rs s = Some (Inr as, inner, f) \<and>
    (2 ^ 64 \<le> length (the (f (manifest_path path))) \<or>
     (\<exists>bs s2 s3 M. LsmStorageInner_open E path opts (crash n (in_state inner) f) = Some (Inr (), s2) \<and>
        m_map (MiniLsm_serve E) qs s2 = Some (Inr bs, s3) \<and> answers_ok qs M bs \<and>
        (\<forall>k. (\<forall>t \<in> set (mems (in_state inner)). survives E n (op_enable_wal opts) t k) \<longrightarrow>
           M k = fold request_effect rs (\<lambda>_. []) k)))"
proof -
  have adm: "\<forall>r \<in> set rs. admissible opts r" "\<forall>r \<in> set qs. admissible opts r" using assms(6) by auto
  from serve_from_new [of E opts files path rs] assms(1-3,5) adm(1) obtain as s inner f where
    1: "LsmStorageInner_open E path opts files = Some (Inr (), s)" "m_map (MiniLsm_serve E) rs s = Some (Inr as, inner, f)"
      "engine_holds E path opts True (inner, f) (fold request_effect rs (\<lambda>_. []))" by (metis prod.collapse)
  have "\<exists>bs s2 s3 M. LsmStorageInner_open E path opts (crash n (in_state inner) f) = Some (Inr (), s2) \<and>
        m_map (MiniLsm_serve E) qs s2 = Some (Inr bs, s3) \<and> answers_ok qs M bs \<and>
        (\<forall>k. (\<forall>t \<in> set (mems (in_state inner)). survives E n (op_enable_wal opts) t k) \<longrightarrow> M k = fold request_effect rs (\<lambda>_. []) k)"
    if "\<not> 2 ^ 64 \<le> length (the (f (manifest_path path)))"
  proof -
    have "length c < 2 ^ 64" if "f (manifest_path path) = Some c" for c
      using that \<open>\<not> 2 ^ 64 \<le> length (the (f (manifest_path path)))\<close> by simp
    from reopen_after_crash [OF 1(3) assms(4) this, of n] obtain s2 M where
      2: "LsmStorageInner_open E path opts (crash n (in_state inner) f) = Some (Inr (), s2)" "engine_holds E path opts False s2 M"
        "\<forall>k. (\<forall>t \<in> set (mems (in_state inner)). survives E n (op_enable_wal opts) t k) \<longrightarrow> M k = fold request_effect rs (\<lambda>_. []) k" by blast
    from mini_lsm.serve_all [OF 2(2) adm(2)] obtain bs s3 where
      "m_map (MiniLsm_serve E) qs s2 = Some (Inr bs, s3)" "answers_ok qs M bs" unfolding returns_def by blast
    then show ?thesis using 2 by blast
  qed
  then show ?thesis using 1(1,2) by blast
qed

theorem MiniLsm_crash_recovery_witness:
  "\<exists>as s inner f. LsmStorageInner_open example_env ''db'' cli_options Map.empty = Some (Inr (), s) \<and>
    m_map (MiniLsm_serve example_env) [Put [1] [7], Sync, Put [2] [8]] s = Some (Inr as, inner, f) \<and>
    (2 ^ 64 \<le> length (the (f (manifest_path ''db''))) \<or>
     (\<exists>bs s2 s3 M. LsmStorageInner_open example_env ''db'' cli_options (crash (\<lambda>_. 3) (in_state inner) f) = Some (Inr (), s2) \<and>
        m_map (MiniLsm_serve example_env) [Get [1]] s2 = Some (Inr bs, s3) \<and> answers_ok [Get [1]] M bs \<and>
        (\<forall>k. (\<forall>t \<in> set (mems (in_state inner)). survives example_env (\<lambda>_. 3) (op_enable_wal cli_options) t k) \<longrightarrow>
           M k = fold request_effect [Put [1] [7], Sync, Put [2] [8]] (\<lambda>_. []) k)))"
  by (rule MiniLsm_crash_recovery [OF example_env_ok(1,2) cli_options_ok example_env_ok(3)]) (simp_all add: admissible_def wf_entry_def)

text \<open>The first put of a new store, when it does not fill the memtable.\<close>

lemma put_first:
  assumes "engine_holds E path opts d (inner, files) M" and "wf_entry (k, v)" and "length k + length v < op_target_sst_size opts"
    and "mt_approximate_size (ls_memtable (in_state inner)) = 0"
  shows "\<exists>inner'. LsmStorageInner_put E k v (inner, files) = Some (Inr (), inner', files) \<and>
    ls_imm_memtables (in_state inner') = ls_imm_memtables (in_state inner)"
proof -
  have "in_options inner = opts" using assms(1) by (simp add: engine_holds_def)
  moreover have "mt_approximate_size (snd (MemTable_put (ext_crc32 (ev_ext E)) (ev_io E) k v t)) \<le>
      mt_approximate_size t + (length k + length v)" for t
    by (auto simp: MemTable_put_def Let_def split: option.split sum.split prod.split)
  note this [of "ls_memtable (in_state inner)"]
  ultimately show ?thesis using assms(3,4) by (simp add: LsmStorageInner_put_def put_insert_def m_bind_assoc)
qed

text \<open>C26: \<open>sync\<close> makes writes permanent. With a log and no frozen memtable, a store that has just synced is opened again as the
  same map after any crash.\<close>

theorem sync_survives_crash:
  assumes "engine_holds E path opts True s M" and "op_enable_wal opts" and "ls_imm_memtables (in_state (fst s)) = []"
    and "json_restores (ev_json E)"
  shows "\<exists>inner f. LsmStorageInner_sync E s = Some (Inr (), inner, f) \<and>
    (2 ^ 64 \<le> length (the (f (manifest_path path))) \<or>
     (\<exists>s'. LsmStorageInner_open E path opts (crash n (in_state inner) f) = Some (Inr (), s') \<and> engine_holds E path opts False s' M))"
proof -
  obtain inner0 files where s: "s = (inner0, files)" by (cases s)
  let ?t = "ls_memtable (in_state inner0)"
  from assms(1) have io: "io_works (ev_io E)" and o: "in_options inner0 = opts" and dur: "durable E (inner0, files)"
    by (auto simp: engine_holds_def eng_inv_def s)
  from durableD(3) [OF dur] assms(2) o obtain es bs where
    log: "mt_logged (ext_crc32 (ev_ext E)) (path_of_wal_val inner0 (mt_id ?t)) ?t files es bs" by (auto simp: wal_logs_def)
  obtain r t f where t: "MemTable_sync_wal (ev_io E) ?t files = (r, t, f)" by (rule prod_cases3)
  let ?inner = "inner0\<lparr>in_state := (in_state inner0)\<lparr>ls_memtable := t\<rparr>\<rparr>"
  have run: "LsmStorageInner_sync E s = Some (Inr (), ?inner, f)" using t by (simp add: s LsmStorageInner_sync_def)
  then have h: "engine_holds E path opts True (?inner, f) M" using returns_sync [OF assms(1)] by (simp add: returns_def)
  have "wal_buf w = []" if "mt_wal t = Some w" for w
    using mt_logged_sync(1) [OF io log t] that by (auto simp: mt_logged_def wal_holds_def)
  then have "survives E n (op_enable_wal opts) u k" if "u \<in> set (mems (in_state ?inner))" for u k
    using that assms(2,3) by (simp add: survives_def s)
  then have "\<exists>s'. LsmStorageInner_open E path opts (crash n (in_state ?inner) f) = Some (Inr (), s') \<and> engine_holds E path opts False s' M"
    if "\<not> 2 ^ 64 \<le> length (the (f (manifest_path path)))"
    using reopen_after_crash [OF h assms(4), of n] that by (fastforce simp: fun_eq_iff [symmetric])
  then show ?thesis using run by blast
qed

theorem sync_survives_crash_witness:
  "\<exists>s1 s2 inner f. LsmStorageInner_open example_env ''db'' cli_options Map.empty = Some (Inr (), s1) \<and>
    LsmStorageInner_put example_env [1] [7] s1 = Some (Inr (), s2) \<and> LsmStorageInner_sync example_env s2 = Some (Inr (), inner, f) \<and>
    (2 ^ 64 \<le> length (the (f (manifest_path ''db''))) \<or>
     (\<exists>s'. LsmStorageInner_open example_env ''db'' cli_options (crash (\<lambda>_. 0) (in_state inner) f) = Some (Inr (), s') \<and>
        engine_holds example_env ''db'' cli_options False s' ((\<lambda>_. [])([1] := [7]))))"
proof -
  have wf: "wf_entry ([1], [7])" by (simp add: wf_entry_def)
  have opts: "op_enable_wal cli_options" "length [1 :: byte] + length [7 :: byte] < op_target_sst_size cli_options"
    by (simp_all add: cli_options_def default_for_week1_test_def)
  from LsmStorageInner_open_new [OF example_env_ok(1,2) cli_options_ok, of Map.empty "''db''"] obtain inner1 f where
    1: "LsmStorageInner_open example_env ''db'' cli_options Map.empty = Some (Inr (), inner1, f)"
      "engine_holds example_env ''db'' cli_options True (inner1, f) (\<lambda>_. [])"
      "mt_approximate_size (ls_memtable (in_state inner1)) = 0" "ls_imm_memtables (in_state inner1) = []" by auto
  from put_first [OF 1(2) wf opts(2) 1(3)] 1(4) obtain inner2 where
    2: "LsmStorageInner_put example_env [1] [7] (inner1, f) = Some (Inr (), inner2, f)" "ls_imm_memtables (in_state inner2) = []" by auto
  have h2: "engine_holds example_env ''db'' cli_options True (inner2, f) ((\<lambda>_. [])([1] := [7]))"
    using returns_put [OF 1(2) wf] 2(1) by (simp add: returns_def)
  from sync_survives_crash [OF h2 opts(1) _ example_env_ok(3), of "\<lambda>_. 0"] 2(2) 1(1) 2(1) show ?thesis by auto
qed

section \<open>The second restart\<close>

text \<open>A store whose manifest has one record and whose memtable is empty.\<close>

lemma fresh_store:
  assumes "io_works (ev_io E)" and "snappy_inverts (ev_ext E)" and "opts_ok (ev_ext E) opts" and wal: "op_enable_wal opts"
    and man: "files (manifest_path path) = Some (Manifest_frames (ext_crc32 (ev_ext E)) (ev_json E) [NewMemtable (Suc (Suc 0))])"
    and log: "files (path_of_wal_val (LsmStorageInner_new opts path) (Suc (Suc 0))) = Some []"
  shows "\<exists>inner. engine_holds E path opts True (inner, files) (\<lambda>_. []) \<and> ls_imm_memtables (in_state inner) = [] \<and>
    mt_wal (ls_memtable (in_state inner)) =
      Some \<lparr>wal_path = path_of_wal_val (LsmStorageInner_new opts path) (Suc (Suc 0)), wal_fp = True, wal_buf = []\<rparr>"
proof -
  let ?new = "LsmStorageInner_new opts path" and ?mp = "manifest_path path" and ?i = "Suc (Suc 0)"
  let ?w = "\<lparr>wal_path = path_of_wal_val ?new ?i, wal_fp = True, wal_buf = []\<rparr>"
  let ?man = "\<lparr>man_path = ?mp, man_fd = True, man_off = length (Manifest_frames (ext_crc32 (ev_ext E)) (ev_json E) [NewMemtable ?i])\<rparr>"
  note new = LsmStorageInner_new_fields [of opts path] and create = LsmStorageState_create_fields [of opts]
  obtain tables co where inv: "eng_inv E tables (?new, files) co" "(\<lambda>_. []) = store_view co"
    using engine_holds_new [OF assms(1-3), of path files] by (auto simp: engine_holds_def)
  define t where "t = MemTable_new ?i (Some ?w)"
  define st where "st = (LsmStorageState_create opts)\<lparr>ls_memtable := t\<rparr>"
  let ?inner = "?new\<lparr>in_state := st, in_next_sst_id := 3, in_manifest := Some ?man\<rparr>"
  have ids: "all_ids st = []" using create(4) by (simp add: all_ids_def st_def)
  have st: "st = \<lparr>ls_memtable = t, ls_imm_memtables = [], ls_l0_sstables = ls_l0_sstables (LsmStorageState_create opts),
      ls_levels = ls_levels (LsmStorageState_create opts), ls_sstables = ls_sstables (LsmStorageState_create opts) |` set (all_ids (LsmStorageState_create opts))\<rparr>"
    by (simp add: st_def create)
  have "st_inv (ev_ext E) opts (op_target_sst_size opts) (tables |` set (all_ids (LsmStorageState_create opts))) (1 + 2) st (co\<lparr>co_mems := [] # map mt_map ([] :: MemTable list)\<rparr>)"
  proof (rule recovered_inv [where imm = "[]" and m = 1 and st = "LsmStorageState_create opts" and t = t and tables = tables and co = co])
    show "st_inv (ev_ext E) opts (op_target_sst_size opts) tables (in_next_sst_id ?new) (LsmStorageState_create opts) co"
      using inv(1) by (simp add: eng_inv_def new)
    show "mt_ok (op_target_sst_size opts) t" unfolding t_def by (rule mt_ok_new) simp
    show "mt_map t = []" "mt_id t = 1 + 1" by (simp_all add: t_def MemTable_new_def)
    show "\<forall>i \<in> set (all_ids (LsmStorageState_create opts)) \<union> mem_ids (LsmStorageState_create opts). i \<le> 1"
      by (simp add: mem_ids_def create)
  qed (use st in simp_all)
  moreover have "store_view (co\<lparr>co_mems := [] # map mt_map ([] :: MemTable list)\<rparr>) = store_view co"
    using inv(1) by (simp add: store_view_def lsm_runs_def fun_eq_iff eng_inv_def new st_inv_def st_holds_def create) (simp add: MemTable_new_def)
  ultimately have eng: "eng_inv E (tables |` set (all_ids (LsmStorageState_create opts))) (?inner, files) (co\<lparr>co_mems := [] # map mt_map ([] :: MemTable list)\<rparr>)"
    "store_view (co\<lparr>co_mems := [] # map mt_map ([] :: MemTable list)\<rparr>) = (\<lambda>_. [])"
    using inv by (simp_all add: eng_inv_def new create cache_sound_new numeral_3_eq_3)
  have "replayed ?inner [NewMemtable ?i]"
    by (simp add: replayed_def replay_record_def new mem_ids_def st_def t_def create layout_def ids [unfolded st_def t_def])
  moreover have "wal_logs E ?inner files"
    using log by (auto simp: wal_logs_def st_def create t_def intro!: exI [of _ "[]"] mt_logged_create)
  moreover have "wal_paths ?inner" by (simp add: wal_paths_def st_def create t_def)
  moreover have "man_holds (ext_crc32 (ev_ext E)) (ev_json E) ?man files [NewMemtable ?i]" using man by (simp add: man_holds_def)
  ultimately have "durable E (?inner, files)"
    unfolding durable_def split by (intro exI [of _ ?man] exI [of _ "[NewMemtable ?i]"]) (simp add: new tables_on_disk_def ids)
  then have "engine_holds E path opts True (?inner, files) (\<lambda>_. [])"
    using engine_holdsI [OF eng, of opts path True] by (simp add: new)
  then show ?thesis by (intro exI [of _ ?inner]) (simp add: st_def create t_def)
qed

text \<open>A store whose manifest has one record, for a memtable 0, comes back with a memtable 2 whose record has taken
  the place of the old one, if both records have the same length.\<close>

lemma reopened_overwrites:
  assumes "io_works (ev_io E)" and "json_restores (ev_json E)" and r: "reopened E path opts files s"
    and man: "files (manifest_path path) = Some (Manifest_frames (ext_crc32 (ev_ext E)) (ev_json E) [NewMemtable 0])"
    and len: "length (jl_dump (ev_json E) (ManifestRecord_to_json (NewMemtable 0))) + 12 < 2 ^ 64"
      "length (jl_dump (ev_json E) (ManifestRecord_to_json (NewMemtable 2))) = length (jl_dump (ev_json E) (ManifestRecord_to_json (NewMemtable 0)))"
  shows "mt_id (ls_memtable (in_state (fst s))) = Suc (Suc 0)"
    and "snd s (manifest_path path) = Some (Manifest_frames (ext_crc32 (ev_ext E)) (ev_json E) [NewMemtable (Suc (Suc 0))])"
proof -
  let ?crc = "ext_crc32 (ev_ext E)" and ?lib = "ev_json E" and ?mp = "manifest_path path"
  have "Manifest_recover ?crc ?lib (ev_io E) ?mp files = (Inr (\<lparr>man_path = ?mp, man_fd = True, man_off = 0\<rparr>, [NewMemtable 0]), files)"
    using assms(1,2) man len(1) by (intro Manifest_recover_frames) (auto simp: io_works_def json_safe_def json_restores_def Let_def)
  with r obtain st ids m where
    m: "replay_records (CompactionController_create (op_compaction_options opts)) [NewMemtable 0] (LsmStorageState_create opts, [], 1) = Inr (st, ids, m)"
      "mt_id (ls_memtable (in_state (fst s))) = m + 1"
      "snd s ?mp = Some (pwrite_at (the (files ?mp)) 0 (Manifest_frame ?crc ?lib (NewMemtable (m + 1))))"
    unfolding reopened_def by auto
  have "m = 1" using m(1) by (simp add: replay_record_def)
  then show "mt_id (ls_memtable (in_state (fst s))) = Suc (Suc 0)"
    "snd s ?mp = Some (Manifest_frames ?crc ?lib [NewMemtable (Suc (Suc 0))])"
    using m(2,3) man len(2) by (simp_all add: pwrite_at_def length_Manifest_frame numeral_2_eq_2)
qed

text \<open>A store whose manifest has one record, for a memtable with an empty log, is opened as the empty map.\<close>

lemma reopen_fresh:
  assumes "io_works (ev_io E)" and "snappy_inverts (ev_ext E)" and "opts_ok (ev_ext E) opts" and "op_enable_wal opts" and "json_restores (ev_json E)"
    and man: "files (manifest_path path) = Some (Manifest_frames (ext_crc32 (ev_ext E)) (ev_json E) [NewMemtable (Suc (Suc 0))])"
    and len: "length (jl_dump (ev_json E) (ManifestRecord_to_json (NewMemtable (Suc (Suc 0))))) + 12 < 2 ^ 64"
    and log: "files (path_of_wal_val (LsmStorageInner_new opts path) (Suc (Suc 0))) = Some []"
  shows "\<exists>s. LsmStorageInner_open E path opts files = Some (Inr (), s) \<and> engine_holds E path opts False s (\<lambda>_. [])"
proof -
  from fresh_store [OF assms(1-4) man log] obtain inner where
    inner: "engine_holds E path opts True (inner, files) (\<lambda>_. [])" "ls_imm_memtables (in_state inner) = []"
      "mt_wal (ls_memtable (in_state inner)) =
        Some \<lparr>wal_path = path_of_wal_val (LsmStorageInner_new opts path) (Suc (Suc 0)), wal_fp = True, wal_buf = []\<rparr>" by blast
  have "crash (\<lambda>_. 0) (in_state inner) files = files"
    using log by (simp add: crash_def inner wal_crash_def Wal_fflush_def fun_upd_idem)
  moreover have "survives E (\<lambda>_. 0) (op_enable_wal opts) t k" if "t \<in> set (mems (in_state inner))" for t k
    using that assms(4) by (simp add: survives_def inner)
  ultimately show ?thesis
    using reopen_after_crash [OF inner(1) assms(5), of "\<lambda>_. 0"] man len by (fastforce simp: length_Manifest_frame fun_eq_iff [symmetric])
qed

text \<open>C23: data is lost at the second restart. A value is put into a new store, which is then closed: opened again, the store
  has the value, but opening has written the record of its fresh memtable over the first record of the manifest,
  the one that names the log. Closed and opened a second time, the store is empty. The records \<open>{"NewMemtable":0}\<close> and
  \<open>{"NewMemtable":2}\<close> have the same length, as the theorem requires.\<close>

theorem second_restart_loses_data:
  assumes "io_works (ev_io E)" and "snappy_inverts (ev_ext E)" and "opts_ok (ev_ext E) opts" and "json_restores (ev_json E)"
    and "op_enable_wal opts" and "files (manifest_path path) = None"
    and "wf_entry (k, v)" and "length k + length v < op_target_sst_size opts"
    and "length (jl_dump (ev_json E) (ManifestRecord_to_json (NewMemtable 0))) + 12 < 2 ^ 64"
    and "length (jl_dump (ev_json E) (ManifestRecord_to_json (NewMemtable 2))) = length (jl_dump (ev_json E) (ManifestRecord_to_json (NewMemtable 0)))"
  shows "\<exists>s1 s2 f1 s3 f2 s4. LsmStorageInner_open E path opts files = Some (Inr (), s1) \<and>
    LsmStorageInner_put E k v s1 = Some (Inr (), s2) \<and> MiniLsm_destroy E s2 = Some (Inr (), f1) \<and>
    LsmStorageInner_open E path opts f1 = Some (Inr (), s3) \<and> (\<exists>s. engine_get E k s3 = Some (Inr v, s)) \<and>
    MiniLsm_destroy E s3 = Some (Inr (), f2) \<and>
    LsmStorageInner_open E path opts f2 = Some (Inr (), s4) \<and> (\<exists>s. engine_get E k s4 = Some (Inr [], s))"
proof -
  let ?mp = "manifest_path path" and ?crc = "ext_crc32 (ev_ext E)"
  from LsmStorageInner_open_new [OF assms(1-3), of files path] assms(6) obtain inner1 f where
    1: "LsmStorageInner_open E path opts files = Some (Inr (), inner1, f)" "engine_holds E path opts True (inner1, f) (\<lambda>_. [])"
      "mt_approximate_size (ls_memtable (in_state inner1)) = 0" "f ?mp = Some (Manifest_frames ?crc (ev_json E) [NewMemtable 0])" by auto
  from put_first [OF 1(2) assms(7,8) 1(3)] obtain inner2 where 2: "LsmStorageInner_put E k v (inner1, f) = Some (Inr (), inner2, f)" by blast
  then have h2: "engine_holds E path opts True (inner2, f) ((\<lambda>_. [])(k := v))" using returns_put [OF 1(2) assms(7)] by (simp add: returns_def)
  then have dur: "durable E (inner2, f)" and o: "in_options inner2 = opts" "in_path inner2 = path" by (auto simp: engine_holds_def)
  from durableD(3) [OF dur] assms(5) o obtain es bs where
    "mt_logged ?crc (path_of_wal_val inner2 (mt_id (ls_memtable (in_state inner2)))) (ls_memtable (in_state inner2)) f es bs"
    by (auto simp: wal_logs_def)
  from destroy_logs [OF h2 assms(5) durableD(2) [OF dur] this] obtain f1 where
    d1: "MiniLsm_destroy E (inner2, f) = Some (Inr (), f1)" "\<And>p. p \<notin> range (path_of_wal_val inner2) \<Longrightarrow> f1 p = f p" by blast
  have ne: "?mp \<notin> range (path_of_wal_val i)" if "in_path i = path" for i using path_of_ne(3) [of i] that by (metis rangeE)
  have m1: "f1 ?mp = Some (Manifest_frames ?crc (ev_json E) [NewMemtable 0])" using d1(2) [OF ne] o(2) 1(4) by simp
  from reopen_after_destroy [OF h2 assms(4)] d1(1) m1 assms(9) obtain inner3 f3 where
    3: "LsmStorageInner_open E path opts f1 = Some (Inr (), inner3, f3)" "engine_holds E path opts False (inner3, f3) ((\<lambda>_. [])(k := v))"
      "reopened E path opts f1 (inner3, f3)" by (auto simp: length_Manifest_frame)
  note over = reopened_overwrites [OF assms(1,4) 3(3) m1 assms(9,10)]
  have o3: "in_path inner3 = path" using 3(2) by (simp add: engine_holds_def)
  then have pw: "path_of_wal_val inner3 = path_of_wal_val (LsmStorageInner_new opts path)" by (simp add: path_of_cong LsmStorageInner_new_fields)
  have log3: "wal_paths inner3" "mt_logged ?crc (path_of_wal_val inner3 (mt_id (ls_memtable (in_state inner3)))) (ls_memtable (in_state inner3)) f3 [] []"
    using 3(3) assms(5) by (auto simp: reopened_def)
  from destroy_logs [OF 3(2) assms(5) log3] over(1) obtain f2 where
    d2: "MiniLsm_destroy E (inner3, f3) = Some (Inr (), f2)" "f2 (path_of_wal_val inner3 (Suc (Suc 0))) = Some []"
      "\<And>p. p \<notin> range (path_of_wal_val inner3) \<Longrightarrow> f2 p = f3 p" by auto
  from reopen_fresh [OF assms(1-3,5,4), of f2 path] d2(2) d2(3) [OF ne [OF o3]] over(2) assms(9,10) obtain s4 where
    4: "LsmStorageInner_open E path opts f2 = Some (Inr (), s4)" "engine_holds E path opts False s4 (\<lambda>_. [])"
    by (auto simp: pw numeral_2_eq_2)
  have "\<exists>s. engine_get E k (inner3, f3) = Some (Inr v, s)" "\<exists>s. engine_get E k s4 = Some (Inr [], s)"
    using returns_get [OF 3(2), of k] returns_get [OF 4(2), of k] by (auto simp: returns_def)
  then show ?thesis using 1(1) 2 d1(1) 3(1) d2(1) 4(1) by blast
qed

text \<open>A library whose texts for the records of memtables 0 and 2 have the same length, as those of JSON have.\<close>

definition padded_json :: json_lib where
  "padded_json = \<lparr>jl_dump = (\<lambda>j. if j = ManifestRecord_to_json (NewMemtable 0) then 6 # jl_dump codec_json (ManifestRecord_to_json (NewMemtable 2))
       else 5 # jl_dump codec_json j),
     jl_parse = (\<lambda>t. if hd t = 6 then Some (ManifestRecord_to_json (NewMemtable 0)) else jl_parse codec_json (tl t))\<rparr>"

definition padded_env :: env where
  "padded_env = example_env\<lparr>ev_json := padded_json\<rparr>"

lemma padded_env_ok:
  "io_works (ev_io padded_env)" "snappy_inverts (ev_ext padded_env)" "json_restores (ev_json padded_env)"
  using example_env_ok(1,2) codec_json_restores by (simp_all add: padded_env_def json_restores_def padded_json_def)

theorem second_restart_loses_data_witness:
  "\<exists>s1 s2 f1 s3 f2 s4. LsmStorageInner_open padded_env ''db'' cli_options Map.empty = Some (Inr (), s1) \<and>
    LsmStorageInner_put padded_env [1] [7] s1 = Some (Inr (), s2) \<and> MiniLsm_destroy padded_env s2 = Some (Inr (), f1) \<and>
    LsmStorageInner_open padded_env ''db'' cli_options f1 = Some (Inr (), s3) \<and> (\<exists>s. engine_get padded_env [1] s3 = Some (Inr [7], s)) \<and>
    MiniLsm_destroy padded_env s3 = Some (Inr (), f2) \<and>
    LsmStorageInner_open padded_env ''db'' cli_options f2 = Some (Inr (), s4) \<and> (\<exists>s. engine_get padded_env [1] s4 = Some (Inr [], s))"
proof (rule second_restart_loses_data [OF padded_env_ok(1,2) cli_options_ok padded_env_ok(3)])
  let ?len = "\<lambda>n. length (jl_dump (ev_json padded_env) (ManifestRecord_to_json (NewMemtable n)))"
  have "?len 0 = 6" by (simp add: padded_env_def padded_json_def codec_json_def record_enc_def)
  then show "?len 0 + 12 < 2 ^ 64" by simp
  show "?len 2 = ?len 0" by (simp add: padded_env_def padded_json_def)
qed (simp_all add: wf_entry_def cli_options_def default_for_week1_test_def)

end
