(* ===== verification/Mini_Lsm_Cli.thy ===== *)
theory Mini_Lsm_Cli
  imports Durability
begin

text \<open>
  The command line (\<open>bin/mini_lsm_cli.cpp\<close>): one command per line, answers on the standard output.

  The input is the sequence of lines, with the rounds that the background threads make between two of
  them. A \<open>char\<close> of a word is a byte of a key or a value. Exceptions are caught around each command and
  printed; a failed assertion and an exception of a destructor end the process.
\<close>

section \<open>Words\<close>

definition isspace :: "char \<Rightarrow> bool" where
  "isspace c \<longleftrightarrow> c \<in> {CHR 0x20, CHR 0x09, CHR 0x0A, CHR 0x0B, CHR 0x0C, CHR 0x0D}"

text \<open>\<open>iss >> word\<close>: the word and the rest of the stream; it fails at the end of the line.\<close>

definition read_word :: "string \<Rightarrow> (string \<times> string) option" where
  "read_word iss =
     (let rest = dropWhile isspace iss in
      if rest = [] then None else Some (takeWhile (\<lambda>c. \<not> isspace c) rest, dropWhile (\<lambda>c. \<not> isspace c) rest))"

definition read_words2 :: "string \<Rightarrow> (string \<times> string) option" where
  "read_words2 iss = (case read_word iss of None \<Rightarrow> None | Some (k, iss) \<Rightarrow>
     (case read_word iss of None \<Rightarrow> None | Some (v, _) \<Rightarrow> Some (k, v)))"

text \<open>A \<open>std::string\<close> as the bytes of a slice, and back.\<close>

definition to_slice :: "string \<Rightarrow> bytes" where
  "to_slice = map of_char"

definition to_text :: "bytes \<Rightarrow> string" where
  "to_text = map (\<lambda>b. char_of (unat b))"

definition endl :: "string \<Rightarrow> string" where
  "endl s = s @ [CHR 0x0A]"

section \<open>The process\<close>

text \<open>The store, whether its threads run, the files and what was printed.\<close>

record cli =
  cli_db :: "LsmStorageInner option"
  cli_running :: bool
  cli_files :: fs
  cli_out :: string

datatype cli_event = Line string | FlushTick | CompactionTick

definition print :: "string \<Rightarrow> (cli, unit) m" where
  "print t = (\<lambda>s. Some (Inr (), s\<lparr>cli_out := cli_out s @ t\<rparr>))"

definition get_cli :: "(cli, cli) m" where
  "get_cli = (\<lambda>s. Some (Inr s, s))"

text \<open>A call of the store \<open>*db\<close>.\<close>

definition on_db :: "(engine, 'a) m \<Rightarrow> (cli, 'a) m" where
  "on_db p = (\<lambda>s. case cli_db s of
     None \<Rightarrow> Some (Inl (OutOfRange ''db''), s)
   | Some inner \<Rightarrow> (case p (inner, cli_files s) of
       None \<Rightarrow> None
     | Some (r, inner, files) \<Rightarrow> Some (r, s\<lparr>cli_db := Some inner, cli_files := files\<rparr>)))"

text \<open>\<open>try { ... } catch (const std::exception& e) { std::cout << "Error: " << e.what() << "\n"; }\<close>\<close>

definition try_catch :: "(cli, unit) m \<Rightarrow> (cli, unit) m" where
  "try_catch p = (\<lambda>s. case p s of
     None \<Rightarrow> None
   | Some (r, s) \<Rightarrow> (case r of
       Inl (Throw what) \<Rightarrow> print (endl (''Error: '' @ what)) s
     | _ \<Rightarrow> Some (r, s)))"

definition require_db :: "(cli, unit) m \<Rightarrow> (cli, unit) m" where
  "require_db p = m_bind get_cli (\<lambda>s.
     if cli_db s = None then print (endl ''Error: DB not opened. Run 'open <path>' first.'') else p)"

section \<open>The commands\<close>

text \<open>\<open>if (db) db->close();\<close> stops the threads first.\<close>

definition cli_close :: "env \<Rightarrow> (cli, unit) m" where
  "cli_close E = m_bind get_cli (\<lambda>s.
     if cli_db s = None then m_return ()
     else m_bind (\<lambda>s. Some (Inr (), s\<lparr>cli_running := False\<rparr>)) (\<lambda>_. on_db (MiniLsm_close E)))"

text \<open>The destructor of the store that \<open>db\<close> points to. An exception cannot leave it.\<close>

definition cli_delete :: "env \<Rightarrow> LsmStorageInner option \<Rightarrow> (fs, unit) m" where
  "cli_delete E db = (\<lambda>files. case db of
     None \<Rightarrow> Some (Inr (), files)
   | Some inner \<Rightarrow> (case MiniLsm_destroy E (inner, files) of
       None \<Rightarrow> None
     | Some (Inl e, files) \<Rightarrow> Some (Inl (AssertFailed ''std::terminate''), files)
     | Some (Inr _, files) \<Rightarrow> Some (Inr (), files)))"

text \<open>\<open>db = MiniLsm::open(path, opts)\<close>: the new store is opened before the old one is destroyed.\<close>

definition cli_assign :: "env \<Rightarrow> string \<Rightarrow> (cli, unit) m" where
  "cli_assign E path = (\<lambda>s. case LsmStorageInner_open E path cli_options (cli_files s) of
     None \<Rightarrow> None
   | Some (Inl e, _, files) \<Rightarrow> Some (Inl e, s\<lparr>cli_files := files\<rparr>)
   | Some (Inr _, inner, files) \<Rightarrow> (case cli_delete E (cli_db s) files of
       None \<Rightarrow> None
     | Some (r, files) \<Rightarrow> Some (r, s\<lparr>cli_db := Some inner, cli_running := True, cli_files := files\<rparr>)))"

definition cli_open :: "env \<Rightarrow> string \<Rightarrow> (cli, unit) m" where
  "cli_open E iss = (case read_word iss of
     None \<Rightarrow> print (endl ''Usage: open <path>'')
   | Some (path, _) \<Rightarrow> try_catch (m_bind (cli_close E) (\<lambda>_. m_bind (cli_assign E path) (\<lambda>_. print (endl ''OK'')))))"

definition cli_put :: "env \<Rightarrow> string \<Rightarrow> (cli, unit) m" where
  "cli_put E iss = require_db (case read_words2 iss of
     None \<Rightarrow> print (endl ''Usage: put <k> <v>'')
   | Some (k, v) \<Rightarrow> try_catch (m_bind (on_db (LsmStorageInner_put E (to_slice k) (to_slice v))) (\<lambda>_. print (endl ''OK''))))"

definition cli_get :: "env \<Rightarrow> string \<Rightarrow> (cli, unit) m" where
  "cli_get E iss = require_db (case read_word iss of
     None \<Rightarrow> print (endl ''Usage: get <k>'')
   | Some (k, _) \<Rightarrow> try_catch (m_bind (on_db (engine_get E (to_slice k))) (\<lambda>val.
       if val \<noteq> [] then print (endl (to_text val)) else print (endl ''(not found)''))))"

definition cli_del :: "env \<Rightarrow> string \<Rightarrow> (cli, unit) m" where
  "cli_del E iss = require_db (case read_word iss of
     None \<Rightarrow> print (endl ''Usage: delete <k>'')
   | Some (k, _) \<Rightarrow> try_catch (m_bind (on_db (LsmStorageInner_del E (to_slice k))) (\<lambda>_. print (endl ''OK''))))"

text \<open>The scan prints each entry before it moves on.\<close>

definition print_entry :: "bytes \<Rightarrow> bytes \<Rightarrow> string" where
  "print_entry k v = endl (to_text k @ '' '' @ to_text v)"

definition cli_scan_step :: "(BlockCache, 'i) iter_ops \<Rightarrow> 'i \<Rightarrow> (cli, 'i) m" where
  "cli_scan_step ops iter =
     m_bind (m_lift (it_key ops iter)) (\<lambda>k.
     m_bind (m_lift (it_value ops iter)) (\<lambda>v.
     m_bind (print (print_entry k v)) (\<lambda>_.
     on_db (on_cache (it_next ops iter)))))"

definition cli_scan_loop :: "(BlockCache, 'i) iter_ops \<Rightarrow> 'i \<Rightarrow> (cli, 'i) m" where
  "cli_scan_loop ops = m_while (\<lambda>iter. m_return (it_valid ops iter)) (cli_scan_step ops)"

definition lower_bound :: "string \<Rightarrow> Bound" where
  "lower_bound l = (if l = ''*'' then Unbounded else Included (to_slice l))"

definition upper_bound :: "string \<Rightarrow> Bound" where
  "upper_bound u = (if u = ''*'' then Unbounded else Excluded (to_slice u))"

definition cli_scan :: "env \<Rightarrow> string \<Rightarrow> (cli, unit) m" where
  "cli_scan E iss = require_db (case read_words2 iss of
     None \<Rightarrow> print (endl ''Usage: scan <lower> <upper>'')
   | Some (l, u) \<Rightarrow> try_catch (
       m_bind (on_db (m_bind get_inner (\<lambda>inner. on_cache (LsmStorageInner_scan (ev_ext E) (in_state inner) (lower_bound l) (upper_bound u))))) (\<lambda>iter.
       m_bind (cli_scan_loop (FusedIterator_ops (LsmIterator_ops (scan_iter_ops (ev_ext E)))) iter) (\<lambda>_.
       print (endl ''OK'')))))"

definition cli_flush :: "env \<Rightarrow> (cli, unit) m" where
  "cli_flush E = require_db (try_catch (m_bind (on_db (LsmStorageInner_force_flush_next_imm_memtable E)) (\<lambda>_. print (endl ''OK''))))"

definition cli_compact :: "env \<Rightarrow> (cli, unit) m" where
  "cli_compact E = require_db (try_catch (m_bind (on_db (LsmStorageInner_force_full_compaction E)) (\<lambda>_. print (endl ''OK''))))"

section \<open>The main loop\<close>

text \<open>The chain of comparisons that selects the command.\<close>

definition dispatch :: "string \<Rightarrow> 'a \<Rightarrow> 'a \<Rightarrow> 'a \<Rightarrow> 'a \<Rightarrow> 'a \<Rightarrow> 'a \<Rightarrow> 'a \<Rightarrow> 'a \<Rightarrow> 'a \<Rightarrow> 'a" where
  "dispatch cmd quit open_db put get del scan flush compact_db unknown =
     (if cmd = ''quit'' \<or> cmd = ''exit'' then quit
      else if cmd = ''open'' then open_db
      else if cmd = ''put'' then put
      else if cmd = ''get'' then get
      else if cmd = ''delete'' then del
      else if cmd = ''scan'' then scan
      else if cmd = ''flush'' then flush
      else if cmd = ''compact'' then compact_db
      else unknown)"

text \<open>One line; the answer is whether the loop goes on. A line of blanks has the empty command.\<close>

definition first_word :: "string \<Rightarrow> string \<times> string" where
  "first_word line = (case read_word line of None \<Rightarrow> ([], []) | Some p \<Rightarrow> p)"

definition continue_with :: "(cli, unit) m \<Rightarrow> (cli, bool) m" where
  "continue_with p = m_bind p (\<lambda>_. m_return True)"

definition cli_line :: "env \<Rightarrow> string \<Rightarrow> (cli, bool) m" where
  "cli_line E line =
     (if line = [] then m_return True
      else (case first_word line of (cmd, iss) \<Rightarrow>
        dispatch cmd
          (m_bind (cli_close E) (\<lambda>_. m_return False))
          (continue_with (cli_open E iss))
          (continue_with (cli_put E iss))
          (continue_with (cli_get E iss))
          (continue_with (cli_del E iss))
          (continue_with (cli_scan E iss))
          (continue_with (cli_flush E))
          (continue_with (cli_compact E))
          (continue_with (print (endl (''Unknown command: '' @ cmd))))))"

text \<open>A round of a background thread, if it runs.\<close>

definition cli_round :: "(engine, unit) m \<Rightarrow> (cli, unit) m" where
  "cli_round p = m_bind get_cli (\<lambda>s. if cli_db s \<noteq> None \<and> cli_running s then on_db p else m_return ())"

fun cli_loop :: "env \<Rightarrow> cli_event list \<Rightarrow> (cli, unit) m" where
  "cli_loop E [] = m_return ()"
| "cli_loop E (Line l # es) = m_bind (cli_line E l) (\<lambda>go. if go then cli_loop E es else m_return ())"
| "cli_loop E (FlushTick # es) = m_bind (cli_round (flush_round E)) (\<lambda>_. cli_loop E es)"
| "cli_loop E (CompactionTick # es) = m_bind (cli_round (compaction_round E)) (\<lambda>_. cli_loop E es)"

definition cli_main :: "env \<Rightarrow> cli_event list \<Rightarrow> (cli, unit) m" where
  "cli_main E events =
     m_bind (cli_loop E events) (\<lambda>_.
     m_bind (cli_close E) (\<lambda>_.
     (\<lambda>s. case cli_delete E (cli_db s) (cli_files s) of
        None \<Rightarrow> None | Some (r, files) \<Rightarrow> Some (r, s\<lparr>cli_db := None, cli_files := files\<rparr>))))"

definition cli_start :: "fs \<Rightarrow> cli" where
  "cli_start files = \<lparr>cli_db = None, cli_running = False, cli_files = files, cli_out = []\<rparr>"

section \<open>Printing a scan\<close>

text \<open>Any iterator over cached blocks that keeps the contract is printed to its end, entry by entry.\<close>

definition print_entries :: "entry list \<Rightarrow> string" where
  "print_entries es = concat (map (\<lambda>(k, v). print_entry k v) es)"

locale printed_iterator = storage_iterator ops sinv rep
  for ops :: "(BlockCache, 'i) iter_ops" and sinv :: "BlockCache \<Rightarrow> bool" and rep :: "'i \<Rightarrow> entry list \<Rightarrow> bool"
begin

lemma step_prints:
  assumes "rep it (x # xs)" and "cli_db s = Some inner" and "sinv (in_block_cache inner)"
  shows "\<exists>it' c. cli_scan_step ops it s = Some (Inr it', s\<lparr>cli_db := Some (inner\<lparr>in_block_cache := c\<rparr>),
    cli_out := cli_out s @ print_entry (fst x) (snd x)\<rparr>) \<and> rep it' xs \<and> sinv c"
proof -
  obtain it' c where "it_next ops it (in_block_cache inner) = Some (Inr it', c)" "rep it' xs" "sinv c"
    by (rule okD [OF next_tl [OF assms(1)] assms(3)])
  then show ?thesis using assms(2) key_hd [OF assms(1)] value_hd [OF assms(1)]
    by (intro exI [of _ it'] exI [of _ c]) (simp add: cli_scan_step_def print_def on_db_def on_cache_def m_bind_case)
qed

lemma loop_prints:
  assumes "rep it xs" and "cli_db s = Some inner" and "sinv (in_block_cache inner)"
  shows "\<exists>it' c. cli_scan_loop ops it s = Some (Inr it', s\<lparr>cli_db := Some (inner\<lparr>in_block_cache := c\<rparr>),
    cli_out := cli_out s @ print_entries xs\<rparr>) \<and> sinv c"
  using assms
proof (induction xs arbitrary: it s inner)
  case Nil
  have "s\<lparr>cli_db := Some inner, cli_out := cli_out s\<rparr> = s" using Nil(2) by (cases s) simp
  then show ?case using Nil valid_Nil [OF Nil(1)]
    by (intro exI [of _ it] exI [of _ "in_block_cache inner"]) (simp add: cli_scan_loop_def m_while.simps print_entries_def)
next
  case (Cons x xs)
  from step_prints [OF Cons.prems] obtain it' c where
    step: "cli_scan_step ops it s = Some (Inr it', s\<lparr>cli_db := Some (inner\<lparr>in_block_cache := c\<rparr>), cli_out := cli_out s @ print_entry (fst x) (snd x)\<rparr>)"
      "rep it' xs" "sinv c" by blast
  let ?s = "s\<lparr>cli_db := Some (inner\<lparr>in_block_cache := c\<rparr>), cli_out := cli_out s @ print_entry (fst x) (snd x)\<rparr>"
  have "cli_scan_loop ops it s = cli_scan_loop ops it' ?s"
    unfolding cli_scan_loop_def by (subst m_while.simps) (simp add: valid_Cons [OF Cons.prems(1)] step(1))
  with Cons.IH [of it' ?s "inner\<lparr>in_block_cache := c\<rparr>"] step(2,3) show ?case
    by (auto simp: print_entries_def case_prod_beta)
qed

end

interpretation scan_printed: printed_iterator "FusedIterator_ops (LsmIterator_ops (scan_iter_ops X))" "cache_sound (blocks_of tables)"
  "fi_abs (li_abs (scan_abs X tables))" for X tables
  by unfold_locales

section \<open>What a line asks for\<close>

datatype command =
    Nothing
  | Quit
  | Say string
  | Open string
  | Ask request

definition asked :: "bool \<Rightarrow> 'a option \<Rightarrow> string \<Rightarrow> ('a \<Rightarrow> request) \<Rightarrow> command" where
  "asked opened ws usage r =
     (if \<not> opened then Say (endl ''Error: DB not opened. Run 'open <path>' first.'')
      else (case ws of None \<Rightarrow> Say (endl usage) | Some w \<Rightarrow> Ask (r w)))"

definition parse_line :: "bool \<Rightarrow> string \<Rightarrow> command" where
  "parse_line opened line =
     (if line = [] then Nothing
      else (case first_word line of (cmd, iss) \<Rightarrow>
        dispatch cmd Quit
          (case read_word iss of None \<Rightarrow> Say (endl ''Usage: open <path>'') | Some (path, _) \<Rightarrow> Open path)
          (asked opened (read_words2 iss) ''Usage: put <k> <v>'' (\<lambda>(k, v). Put (to_slice k) (to_slice v)))
          (asked opened (read_word iss) ''Usage: get <k>'' (\<lambda>(k, _). Get (to_slice k)))
          (asked opened (read_word iss) ''Usage: delete <k>'' (\<lambda>(k, _). Del (to_slice k)))
          (asked opened (read_words2 iss) ''Usage: scan <lower> <upper>'' (\<lambda>(l, u). Scan (lower_bound l) (upper_bound u)))
          (asked opened (Some ()) [] (\<lambda>_. ForceFlush))
          (asked opened (Some ()) [] (\<lambda>_. ForceFullCompaction))
          (Say (endl (''Unknown command: '' @ cmd)))))"

text \<open>The text of an answer, and a request that is answered.\<close>

definition print_answer :: "answer \<Rightarrow> string" where
  "print_answer a = (case a of
     Done \<Rightarrow> endl ''OK''
   | Val v \<Rightarrow> endl (if v \<noteq> [] then to_text v else ''(not found)'')
   | Entries es \<Rightarrow> print_entries es @ endl ''OK'')"

definition print_scan :: "env \<Rightarrow> Bound \<Rightarrow> Bound \<Rightarrow> (cli, unit) m" where
  "print_scan E lower upper =
     m_bind (on_db (m_bind get_inner (\<lambda>inner. on_cache (LsmStorageInner_scan (ev_ext E) (in_state inner) lower upper)))) (\<lambda>iter.
     m_bind (cli_scan_loop (FusedIterator_ops (LsmIterator_ops (scan_iter_ops (ev_ext E)))) iter) (\<lambda>_.
     print (endl ''OK'')))"

definition cli_ask :: "env \<Rightarrow> request \<Rightarrow> (cli, unit) m" where
  "cli_ask E r = (case r of
     Scan lower upper \<Rightarrow> print_scan E lower upper
   | _ \<Rightarrow> m_bind (on_db (MiniLsm_serve E r)) (\<lambda>a. print (print_answer a)))"

definition run_command :: "env \<Rightarrow> command \<Rightarrow> (cli, bool) m" where
  "run_command E c = (case c of
     Nothing \<Rightarrow> m_return True
   | Quit \<Rightarrow> m_bind (cli_close E) (\<lambda>_. m_return False)
   | Say t \<Rightarrow> continue_with (print t)
   | Open path \<Rightarrow> continue_with (try_catch (m_bind (cli_close E) (\<lambda>_. m_bind (cli_assign E path) (\<lambda>_. print (endl ''OK'')))))
   | Ask r \<Rightarrow> continue_with (try_catch (cli_ask E r)))"

lemma dispatch_rel:
  assumes "R q q'" "R o1 o1'" "R p p'" "R g g'" "R d d'" "R s s'" "R f f'" "R c c'" "R u u'"
  shows "R (dispatch cmd q o1 p g d s f c u) (dispatch cmd q' o1' p' g' d' s' f' c' u')"
  using assms by (simp add: dispatch_def)

lemma on_db_bind_return: "on_db (m_bind p (\<lambda>x. m_return (f x))) = m_bind (on_db p) (\<lambda>x. m_return (f x))"
  by (auto simp: on_db_def m_bind_case fun_eq_iff split: option.split sum.split prod.split)

lemma cli_ask_simps:
  "cli_ask E (Put k v) = m_bind (on_db (LsmStorageInner_put E k v)) (\<lambda>_. print (endl ''OK''))"
  "cli_ask E (Del k) = m_bind (on_db (LsmStorageInner_del E k)) (\<lambda>_. print (endl ''OK''))"
  "cli_ask E (Get k) = m_bind (on_db (engine_get E k)) (\<lambda>v. if v \<noteq> [] then print (endl (to_text v)) else print (endl ''(not found)''))"
  "cli_ask E ForceFlush = m_bind (on_db (LsmStorageInner_force_flush_next_imm_memtable E)) (\<lambda>_. print (endl ''OK''))"
  "cli_ask E ForceFullCompaction = m_bind (on_db (LsmStorageInner_force_full_compaction E)) (\<lambda>_. print (endl ''OK''))"
  "cli_ask E (Scan lower upper) = print_scan E lower upper"
  by (simp_all add: cli_ask_def MiniLsm_serve_def on_db_bind_return m_bind_assoc print_answer_def if_distrib [of print] if_distrib [of endl])

lemma cli_line_request:
  "continue_with (require_db (case ws of None \<Rightarrow> print (endl usage) | Some x \<Rightarrow> try_catch (cli_ask E (r x)))) s =
    run_command E (asked (cli_db s \<noteq> None) ws usage r) s"
  by (cases ws) (auto simp: asked_def require_db_def get_cli_def run_command_def continue_with_def m_bind_case)

lemma cli_commands:
  "cli_put E iss = require_db (case read_words2 iss of None \<Rightarrow> print (endl ''Usage: put <k> <v>'')
     | Some x \<Rightarrow> try_catch (cli_ask E ((\<lambda>(k, v). Put (to_slice k) (to_slice v)) x)))"
  "cli_get E iss = require_db (case read_word iss of None \<Rightarrow> print (endl ''Usage: get <k>'')
     | Some x \<Rightarrow> try_catch (cli_ask E ((\<lambda>(k, _). Get (to_slice k)) x)))"
  "cli_del E iss = require_db (case read_word iss of None \<Rightarrow> print (endl ''Usage: delete <k>'')
     | Some x \<Rightarrow> try_catch (cli_ask E ((\<lambda>(k, _). Del (to_slice k)) x)))"
  "cli_scan E iss = require_db (case read_words2 iss of None \<Rightarrow> print (endl ''Usage: scan <lower> <upper>'')
     | Some x \<Rightarrow> try_catch (cli_ask E ((\<lambda>(l, u). Scan (lower_bound l) (upper_bound u)) x)))"
  "cli_flush E = require_db (case Some () of None \<Rightarrow> print (endl []) | Some x \<Rightarrow> try_catch (cli_ask E ForceFlush))"
  "cli_compact E = require_db (case Some () of None \<Rightarrow> print (endl []) | Some x \<Rightarrow> try_catch (cli_ask E ForceFullCompaction))"
  by (simp_all add: cli_put_def cli_get_def cli_del_def cli_scan_def cli_flush_def cli_compact_def cli_ask_simps print_scan_def
      split: option.split)

text \<open>The chain of conditions of a line is that of its command.\<close>

lemma cli_line_command: "cli_line E l s = run_command E (parse_line (cli_db s \<noteq> None) l) s"
proof -
  obtain cmd iss where w: "first_word l = (cmd, iss)" by (rule prod.exhaust)
  let ?R = "\<lambda>p c. p s = run_command E c s"
  let ?o = "cli_db s \<noteq> None"
  have "?R (dispatch cmd (m_bind (cli_close E) (\<lambda>_. m_return False)) (continue_with (cli_open E iss)) (continue_with (cli_put E iss))
      (continue_with (cli_get E iss)) (continue_with (cli_del E iss)) (continue_with (cli_scan E iss)) (continue_with (cli_flush E))
      (continue_with (cli_compact E)) (continue_with (print (endl (''Unknown command: '' @ cmd)))))
    (dispatch cmd Quit
      (case read_word iss of None \<Rightarrow> Say (endl ''Usage: open <path>'') | Some (path, _) \<Rightarrow> Open path)
      (asked ?o (read_words2 iss) ''Usage: put <k> <v>'' (\<lambda>(k, v). Put (to_slice k) (to_slice v)))
      (asked ?o (read_word iss) ''Usage: get <k>'' (\<lambda>(k, _). Get (to_slice k)))
      (asked ?o (read_word iss) ''Usage: delete <k>'' (\<lambda>(k, _). Del (to_slice k)))
      (asked ?o (read_words2 iss) ''Usage: scan <lower> <upper>'' (\<lambda>(l, u). Scan (lower_bound l) (upper_bound u)))
      (asked ?o (Some ()) [] (\<lambda>_. ForceFlush)) (asked ?o (Some ()) [] (\<lambda>_. ForceFullCompaction))
      (Say (endl (''Unknown command: '' @ cmd))))"
    unfolding cli_commands
    by (rule dispatch_rel [where R = ?R], simp add: run_command_def, simp add: run_command_def cli_open_def split: option.split)
      (rule cli_line_request | simp add: run_command_def)+
  then show ?thesis by (simp add: cli_line_def parse_line_def w run_command_def)
qed

section \<open>A session\<close>

text \<open>The process with a store that holds \<open>M\<close>.\<close>

definition cli_holds :: "env \<Rightarrow> string \<Rightarrow> bool \<Rightarrow> cli \<Rightarrow> (bytes \<Rightarrow> bytes) \<Rightarrow> bool" where
  "cli_holds E path d s M \<longleftrightarrow> (\<exists>inner. cli_db s = Some inner \<and> engine_holds E path cli_options d (inner, cli_files s) M)"

lemma returns_on_db:
  assumes "cli_db s = Some inner" and "returns p (inner, cli_files s) Q"
  shows "returns (on_db p) s (\<lambda>x s'. \<exists>inner files. Q x (inner, files) \<and> s' = s\<lparr>cli_db := Some inner, cli_files := files\<rparr>)"
proof -
  from assms(2) obtain x inner' files where "p (inner, cli_files s) = Some (Inr x, inner', files)" "Q x (inner', files)"
    by (auto simp: returns_def)
  then show ?thesis using assms(1) unfolding returns_def
    by (intro exI [of _ x] exI [of _ "s\<lparr>cli_db := Some inner', cli_files := files\<rparr>"]) (auto simp: on_db_def)
qed

lemma returns_try_catch: "returns p s Q \<Longrightarrow> returns (try_catch p) s Q"
  by (auto simp: returns_def try_catch_def)

text \<open>A scan answers with its entries, one line each.\<close>

lemma returns_print_scan:
  assumes "cli_holds E path d s M"
  shows "returns (print_scan E lower upper) s (\<lambda>_ s'. \<exists>a. answer_ok (Scan lower upper) M a \<and> cli_holds E path d s' M \<and>
    cli_running s' = cli_running s \<and> cli_out s' = cli_out s @ print_answer a)"
proof -
  from assms obtain inner where db: "cli_db s = Some inner" and h: "engine_holds E path cli_options d (inner, cli_files s) M"
    by (auto simp: cli_holds_def)
  let ?files = "cli_files s" and ?ops = "FusedIterator_ops (LsmIterator_ops (scan_iter_ops (ev_ext E)))"
  from h obtain tables co where inv: "eng_inv E tables (inner, ?files) co" and M: "M = store_view co"
    and o: "in_options inner = cli_options \<and> in_path inner = path" by (auto simp: engine_holds_def)
  have dur: "durable E (inner, ?files)" if d using that h by (simp add: engine_holds_def)
  have st: "st_holds (ev_ext E) tables (in_state inner) co" and c0: "cache_sound (blocks_of tables) (in_block_cache inner)"
    using inv by (simp_all add: eng_inv_def st_inv_def)
  define es where "es = filter (\<lambda>e. in_range lower upper (fst e) \<and> snd e \<noteq> []) (merge_runs (lsm_runs co))"
  obtain it c1 where it: "LsmStorageInner_scan (ev_ext E) (in_state inner) lower upper (in_block_cache inner) = Some (Inr it, c1)"
    "fi_abs (li_abs (scan_abs (ev_ext E) tables)) it es" "cache_sound (blocks_of tables) c1"
    unfolding es_def by (rule okD [OF LsmStorageInner_scan_ok [OF st, of lower upper] c0])
  let ?s1 = "s\<lparr>cli_db := Some (inner\<lparr>in_block_cache := c1\<rparr>)\<rparr>"
  from scan_printed.loop_prints [OF it(2), of ?s1 "inner\<lparr>in_block_cache := c1\<rparr>"] it(3) obtain it' c where
    loop: "cli_scan_loop ?ops it ?s1 = Some (Inr it', ?s1\<lparr>cli_db := Some (inner\<lparr>in_block_cache := c\<rparr>), cli_out := cli_out s @ print_entries es\<rparr>)"
    and c: "cache_sound (blocks_of tables) c" by auto
  have "returns (on_cache (\<lambda>_. Some (Inr (), c))) (inner, ?files) (\<lambda>r s. r = () \<and> engine_holds E path cli_options d s (store_view co))"
    by (rule returns_on_cache [where d = d, OF inv _ o dur]) (use c in \<open>simp_all add: ok_def\<close>)
  then have "engine_holds E path cli_options d (inner\<lparr>in_block_cache := c\<rparr>, ?files) M" by (simp add: returns_def on_cache_def M)
  moreover have "answer_ok (Scan lower upper) M (Entries es)"
    using store_view_scan [OF st, of lower upper] by (simp add: answer_ok_def M es_def)
  moreover have "s\<lparr>cli_db := Some (inner\<lparr>in_block_cache := c1\<rparr>), cli_files := ?files\<rparr> = ?s1" by simp
  then have "print_scan E lower upper s = Some (Inr (), ?s1\<lparr>cli_db := Some (inner\<lparr>in_block_cache := c\<rparr>), cli_out := cli_out s @ print_answer (Entries es)\<rparr>)"
    using db it(1) loop by (simp only: print_scan_def on_db_def on_cache_def m_bind_case print_def print_answer_def get_inner_def
      option.case sum.case prod.case answer.case cli.simps append_assoc m_apply LsmStorageInner.simps) simp
  ultimately show ?thesis by (auto simp: returns_def cli_holds_def)
qed

lemma returns_ask:
  assumes h: "cli_holds E path d s M" and r: "admissible cli_options r"
  shows "returns (try_catch (cli_ask E r)) s (\<lambda>_ s'. \<exists>a. answer_ok r M a \<and> cli_holds E path d s' (request_effect r M) \<and>
    cli_running s' = cli_running s \<and> cli_out s' = cli_out s @ print_answer a)"
proof (rule returns_try_catch, cases "\<exists>lower upper. r = Scan lower upper")
  case True
  then show "returns (cli_ask E r) s (\<lambda>_ s'. \<exists>a. answer_ok r M a \<and> cli_holds E path d s' (request_effect r M) \<and>
    cli_running s' = cli_running s \<and> cli_out s' = cli_out s @ print_answer a)"
    using returns_print_scan [OF h] by (auto simp: cli_ask_simps request_effect_def)
next
  case False
  from h obtain inner where db: "cli_db s = Some inner" "engine_holds E path cli_options d (inner, cli_files s) M"
    by (auto simp: cli_holds_def)
  have "cli_ask E r = m_bind (on_db (MiniLsm_serve E r)) (\<lambda>a. print (print_answer a))"
    using False by (auto simp: cli_ask_def split: request.split)
  then show "returns (cli_ask E r) s (\<lambda>_ s'. \<exists>a. answer_ok r M a \<and> cli_holds E path d s' (request_effect r M) \<and>
    cli_running s' = cli_running s \<and> cli_out s' = cli_out s @ print_answer a)"
    using returns_on_db [OF db(1) mini_lsm.serve_ok [OF db(2) r]]
    by (auto simp: print_def returns_def cli_holds_def m_bind_case)
qed

text \<open>What a session asks the store for, up to the command that ends it, and what it prints, given the answers.\<close>

fun session_requests :: "cli_event list \<Rightarrow> request list" where
  "session_requests [] = []"
| "session_requests (FlushTick # es) = FlushRound # session_requests es"
| "session_requests (CompactionTick # es) = CompactionRound # session_requests es"
| "session_requests (Line l # es) = (case parse_line True l of
     Quit \<Rightarrow> [] | Ask r \<Rightarrow> r # session_requests es | _ \<Rightarrow> session_requests es)"

fun session_output :: "cli_event list \<Rightarrow> answer list \<Rightarrow> string" where
  "session_output [] as = []"
| "session_output (FlushTick # es) as = session_output es (tl as)"
| "session_output (CompactionTick # es) as = session_output es (tl as)"
| "session_output (Line l # es) as = (case parse_line True l of
     Quit \<Rightarrow> [] | Ask r \<Rightarrow> print_answer (hd as) @ session_output es (tl as)
   | Say t \<Rightarrow> t @ session_output es as | _ \<Rightarrow> session_output es as)"

text \<open>The session stays with its store.\<close>

definition keeps_store :: "cli_event list \<Rightarrow> bool" where
  "keeps_store es \<longleftrightarrow> (\<forall>l path. Line l \<in> set es \<longrightarrow> parse_line True l \<noteq> Open path)"

lemma returns_cli_close:
  assumes "cli_holds E path d s M"
  shows "returns (cli_close E) s (\<lambda>_ s'. cli_holds E path d s' M \<and> cli_out s' = cli_out s)"
proof -
  from assms obtain inner where db: "cli_db s = Some inner" "engine_holds E path cli_options d (inner, cli_files s) M"
    by (auto simp: cli_holds_def)
  from returns_on_db [of "s\<lparr>cli_running := False\<rparr>" inner, OF _ returns_close, of E path cli_options d M] db show ?thesis
    by (auto simp: cli_close_def returns_def get_cli_def m_bind_case cli_holds_def)
qed

lemma returns_cli_round:
  assumes "cli_holds E path d s M" and "cli_running s" and "admissible cli_options r" and "MiniLsm_serve E r = m_bind p (\<lambda>_. m_return Done)"
    and "request_effect r M = M"
  shows "returns (cli_round p) s (\<lambda>_ s'. cli_holds E path d s' M \<and> cli_running s' \<and> cli_out s' = cli_out s \<and> answer_ok r M Done)"
proof -
  from assms(1) obtain inner where db: "cli_db s = Some inner" "engine_holds E path cli_options d (inner, cli_files s) M"
    by (auto simp: cli_holds_def)
  from mini_lsm.serve_ok [OF db(2) assms(3)] obtain inner' files where
    "p (inner, cli_files s) = Some (Inr (), inner', files)" "engine_holds E path cli_options d (inner', files) M" "answer_ok r M Done"
    by (auto simp: returns_def assms(4,5) m_bind_case split: option.splits sum.splits)
  then show ?thesis using db assms(2) by (simp add: returns_def cli_round_def get_cli_def m_bind_case on_db_def cli_holds_def)
qed

text \<open>What a session has done in the end: from the map \<open>M\<close>, with the output \<open>out\<close> so far.\<close>

definition session_done :: "env \<Rightarrow> string \<Rightarrow> bool \<Rightarrow> (bytes \<Rightarrow> bytes) \<Rightarrow> string \<Rightarrow> cli_event list \<Rightarrow> cli \<Rightarrow> bool" where
  "session_done E path d M out es s' \<longleftrightarrow> (\<exists>as. answers_ok (session_requests es) M as \<and> cli_out s' = out @ session_output es as \<and>
     cli_holds E path d s' (fold request_effect (session_requests es) M))"

lemma session_done_answered:
  assumes "session_done E path d (request_effect r M) (out @ t) es s'" and "answer_ok r M a"
    and "session_requests (e # es) = r # session_requests es" and "\<And>as. session_output (e # es) (a # as) = t @ session_output es as"
  shows "session_done E path d M out (e # es) s'"
proof -
  from assms(1) obtain as where "answers_ok (session_requests es) (request_effect r M) as" "cli_out s' = out @ t @ session_output es as"
    "cli_holds E path d s' (fold request_effect (session_requests es) (request_effect r M))" by (auto simp: session_done_def)
  then show ?thesis unfolding session_done_def assms(3) using assms(2,4) by (intro exI [of _ "a # as"]) simp
qed

lemma cli_loop_tick:
  assumes "cli_holds E path d s M" and "cli_running s"
    and IH: "\<And>s1. cli_holds E path d s1 M \<Longrightarrow> cli_running s1 \<Longrightarrow> returns (cli_loop E es) s1 (\<lambda>_. session_done E path d M (cli_out s1) es)"
    and e: "cli_loop E (e # es) = m_bind (cli_round p) (\<lambda>_. cli_loop E es)" "session_requests (e # es) = r # session_requests es"
      "\<And>as. session_output (e # es) as = session_output es (tl as)"
    and r: "MiniLsm_serve E r = m_bind p (\<lambda>_. m_return Done)" "request_effect r M = M" "admissible cli_options r"
  shows "returns (cli_loop E (e # es)) s (\<lambda>_. session_done E path d M (cli_out s) (e # es))"
  unfolding e(1)
proof (rule returns_bind [OF returns_cli_round [OF assms(1,2) r(3,1,2)]])
  fix u s1 assume "cli_holds E path d s1 M \<and> cli_running s1 \<and> cli_out s1 = cli_out s \<and> answer_ok r M Done"
  then show "returns (cli_loop E es) s1 (\<lambda>_. session_done E path d M (cli_out s) (e # es))"
    by (intro returns_weaken [OF IH] session_done_answered [where r = r and t = "[]" and a = Done]) (simp_all add: e r(2))
qed

lemma cli_loop_session:
  assumes "cli_holds E path d s M" and "cli_running s" and "keeps_store es" and "\<forall>r \<in> set (session_requests es). admissible cli_options r"
  shows "returns (cli_loop E es) s (\<lambda>_. session_done E path d M (cli_out s) es)"
  using assms
proof (induction es arbitrary: s M)
  case Nil
  then show ?case by (auto simp: returns_def session_done_def intro!: exI [of _ "[]"])
next
  case (Cons e es)
  have keep: "keeps_store es" using Cons.prems(3) by (auto simp: keeps_store_def)
  show ?case
  proof (cases e)
    case FlushTick
    then show ?thesis using Cons.prems keep
      by (intro cli_loop_tick [OF Cons.prems(1,2) Cons.IH, where p = "flush_round E" and r = FlushRound]) (simp_all add: MiniLsm_serve_def request_effect_def)
  next
    case CompactionTick
    then show ?thesis using Cons.prems keep
      by (intro cli_loop_tick [OF Cons.prems(1,2) Cons.IH, where p = "compaction_round E" and r = CompactionRound]) (simp_all add: MiniLsm_serve_def request_effect_def)
  next
    case (Line l)
    have "cli_db s \<noteq> None" using Cons.prems(1) by (auto simp: cli_holds_def)
    then have run: "cli_line E l s = run_command E (parse_line True l) s" using cli_line_command [of E l s] by simp
    show ?thesis
    proof (cases "parse_line True l")
      case Nothing
      then show ?thesis using Cons.IH [OF Cons.prems(1,2) keep] Cons.prems(4) run
        by (simp add: Line returns_def m_bind_case run_command_def session_done_def)
    next
      case Quit
      then show ?thesis using returns_cli_close [OF Cons.prems(1)] run
        by (auto simp: Line returns_def m_bind_case run_command_def session_done_def intro!: exI [of _ "[]"])
    next
      case (Say t)
      let ?s = "s\<lparr>cli_out := cli_out s @ t\<rparr>"
      have "cli_holds E path d ?s M" "cli_running ?s" using Cons.prems(1,2) by (simp_all add: cli_holds_def)
      from Cons.IH [OF this keep] show ?thesis using Say Cons.prems(4) run
        by (simp add: Line returns_def m_bind_case run_command_def continue_with_def print_def session_done_def)
    next
      case (Open p)
      then show ?thesis using Cons.prems(3) Line by (auto simp: keeps_store_def)
    next
      case (Ask r)
      have adm: "admissible cli_options r" "\<forall>r \<in> set (session_requests es). admissible cli_options r" using Ask Cons.prems(4) Line by simp_all
      from returns_ask [OF Cons.prems(1) adm(1)] obtain s1 a where
        s1: "try_catch (cli_ask E r) s = Some (Inr (), s1)" "answer_ok r M a" "cli_holds E path d s1 (request_effect r M)"
          "cli_running s1" "cli_out s1 = cli_out s @ print_answer a" using Cons.prems(2) by (auto simp: returns_def)
      have "cli_loop E (e # es) s = cli_loop E es s1" using s1(1) run Ask by (simp add: Line m_bind_case run_command_def continue_with_def)
      moreover have "returns (cli_loop E es) s1 (\<lambda>_. session_done E path d M (cli_out s) (e # es))"
        by (rule returns_weaken [OF Cons.IH [OF s1(3,4) keep adm(2)]], rule session_done_answered [OF _ s1(2)]) (simp_all add: s1(5) Line Ask)
      ultimately show ?thesis by (simp add: returns_def)
    qed
  qed
qed

section \<open>Words of a line\<close>

definition is_word :: "string \<Rightarrow> bool" where
  "is_word w \<longleftrightarrow> w \<noteq> [] \<and> (\<forall>c \<in> set w. \<not> isspace c)"

lemma read_word_blank: "read_word (CHR 0x20 # s) = read_word s"
  by (simp add: read_word_def isspace_def)

lemma read_word_word:
  assumes "is_word w" and "rest = [] \<or> isspace (hd rest)"
  shows "read_word (w @ rest) = Some (w, rest)"
proof -
  from assms(1) obtain c cs where w: "w = c # cs" "\<not> isspace c" by (cases w) (auto simp: is_word_def)
  have "takeWhile (\<lambda>c. \<not> isspace c) (w @ rest) = w" "dropWhile (\<lambda>c. \<not> isspace c) (w @ rest) = rest"
    using assms by (cases rest; simp add: is_word_def takeWhile_append2 dropWhile_append2)+
  then show ?thesis by (simp add: read_word_def w)
qed

lemma read_words2_words:
  assumes "is_word k" and "is_word v"
  shows "read_words2 (k @ CHR 0x20 # v) = Some (k, v)"
  using read_word_word [OF assms(1), of "CHR 0x20 # v"] read_word_word [OF assms(2), of "[]"]
  by (simp add: read_words2_def read_word_blank isspace_def)

lemma first_word_line: "is_word cmd \<Longrightarrow> first_word (cmd @ CHR 0x20 # iss) = (cmd, CHR 0x20 # iss)"
  by (simp add: first_word_def read_word_word isspace_def)

lemma parse_words:
  assumes "is_word k" and "is_word v"
  shows "parse_line opened (''open'' @ CHR 0x20 # k) = Open k"
    and "parse_line True (''put'' @ CHR 0x20 # k @ CHR 0x20 # v) = Ask (Put (to_slice k) (to_slice v))"
    and "parse_line True (''get'' @ CHR 0x20 # k) = Ask (Get (to_slice k))"
    and "parse_line True (''delete'' @ CHR 0x20 # k) = Ask (Del (to_slice k))"
proof -
  have w: "is_word ''open''" "is_word ''put''" "is_word ''get''" "is_word ''delete''" by (simp_all add: is_word_def isspace_def)
  note first = w [THEN first_word_line] and words = read_word_word [OF assms(1), of "[]", simplified] read_words2_words [OF assms]
  show "parse_line opened (''open'' @ CHR 0x20 # k) = Open k"
    unfolding parse_line_def first by (simp add: dispatch_def read_word_blank words)
  show "parse_line True (''put'' @ CHR 0x20 # k @ CHR 0x20 # v) = Ask (Put (to_slice k) (to_slice v))"
    unfolding parse_line_def first by (simp add: dispatch_def read_words2_def read_word_blank) (simp add: asked_def words(2) [unfolded read_words2_def])
  show "parse_line True (''get'' @ CHR 0x20 # k) = Ask (Get (to_slice k))"
    unfolding parse_line_def first by (simp add: dispatch_def read_word_blank words asked_def)
  show "parse_line True (''delete'' @ CHR 0x20 # k) = Ask (Del (to_slice k))"
    unfolding parse_line_def first by (simp add: dispatch_def read_word_blank words asked_def)
qed

lemma to_text_to_slice [simp]: "to_text (to_slice s) = s"
proof -
  have "char_of (unat (of_char c :: 8 word)) = c" for c
  proof -
    have "unat (of_nat (of_char c) :: 8 word) = of_char c mod 256" by (simp add: unat_of_nat)
    then show ?thesis by (simp add: of_nat_of_char)
  qed
  then show ?thesis by (simp add: to_text_def to_slice_def o_def)
qed

section \<open>The program\<close>

lemma cli_main_session:
  assumes "io_works (ev_io E)" and "snappy_inverts (ev_ext E)" and "json_restores (ev_json E)"
    and "files (manifest_path path) = None" and "parse_line False l = Open path"
    and "keeps_store es" and "\<forall>r \<in> set (session_requests es). admissible cli_options r"
  shows "\<exists>s as. cli_main E (Line l # es) (cli_start files) = Some (Inr (), s) \<and>
    answers_ok (session_requests es) (\<lambda>_. []) as \<and> cli_out s = endl ''OK'' @ session_output es as \<and>
    (2 ^ 64 \<le> length (the (cli_files s (manifest_path path))) \<or>
     (\<exists>s2. LsmStorageInner_open E path cli_options (cli_files s) = Some (Inr (), s2) \<and>
        engine_holds E path cli_options False s2 (fold request_effect (session_requests es) (\<lambda>_. []))))"
proof -
  let ?M = "fold request_effect (session_requests es) (\<lambda>_. [])"
  from LsmStorageInner_open_new [OF assms(1,2) cli_options_ok, of files path] assms(4) obtain inner f where
    1: "LsmStorageInner_open E path cli_options files = Some (Inr (), inner, f)"
      "engine_holds E path cli_options True (inner, f) (\<lambda>_. [])" by auto
  let ?s1 = "\<lparr>cli_db = Some inner, cli_running = True, cli_files = f, cli_out = endl ''OK''\<rparr>"
  have "cli_line E l (cli_start files) = Some (Inr True, ?s1)"
    using cli_line_command [of E l "cli_start files"] assms(5) 1(1)
    by (simp add: cli_start_def run_command_def continue_with_def try_catch_def m_bind_case cli_close_def get_cli_def cli_assign_def
        cli_delete_def print_def)
  then have loop: "cli_loop E (Line l # es) (cli_start files) = cli_loop E es ?s1" by (simp add: m_bind_case)
  have "cli_holds E path True ?s1 (\<lambda>_. [])" using 1(2) by (simp add: cli_holds_def)
  from cli_loop_session [OF this _ assms(6,7)] obtain s2 as where
    2: "cli_loop E es ?s1 = Some (Inr (), s2)" "answers_ok (session_requests es) (\<lambda>_. []) as" "cli_out s2 = endl ''OK'' @ session_output es as"
      "cli_holds E path True s2 ?M" by (auto simp: returns_def session_done_def)
  from returns_cli_close [OF 2(4)] obtain s3 inner3 where
    3: "cli_close E s2 = Some (Inr (), s3)" "cli_out s3 = cli_out s2" "cli_db s3 = Some inner3"
      "engine_holds E path cli_options True (inner3, cli_files s3) ?M" by (auto simp: returns_def cli_holds_def)
  from reopen_after_destroy [OF 3(4) assms(3)] obtain g where
    4: "MiniLsm_destroy E (inner3, cli_files s3) = Some (Inr (), g)"
      "2 ^ 64 \<le> length (the (g (manifest_path path))) \<or>
       (\<exists>s2. LsmStorageInner_open E path cli_options g = Some (Inr (), s2) \<and> engine_holds E path cli_options False s2 ?M)" by blast
  have "cli_main E (Line l # es) (cli_start files) = Some (Inr (), s3\<lparr>cli_db := None, cli_files := g\<rparr>)"
    using loop 2(1) 3(1,3) 4(1) by (simp add: cli_main_def m_bind_case cli_delete_def)
  then show ?thesis using 2(2,3) 3(2) 4(2) by (intro exI [of _ "s3\<lparr>cli_db := None, cli_files := g\<rparr>"] exI [of _ as]) simp
qed

section \<open>Properties\<close>

text \<open>C10: the command line is a faithful window on the store. A session that opens a new path and stays with it, whatever its
  other lines are (requests, lines with missing words, unknown commands, empty lines), prints for every request the answer
  of a plain map, a usage message for every malformed line, and ends without an error at \<open>quit\<close> or at the end of its
  input; background rounds between the lines change nothing. A process that opens the path afterwards finds the map that the session left.\<close>

theorem cli_session:
  assumes "io_works (ev_io E)" and "snappy_inverts (ev_ext E)" and "json_restores (ev_json E)"
    and "files (manifest_path path) = None" and "parse_line False l = Open path"
    and "keeps_store es" and "\<forall>r \<in> set (session_requests es). admissible cli_options r"
  shows "\<exists>s as. cli_main E (Line l # es) (cli_start files) = Some (Inr (), s) \<and>
    answers_ok (session_requests es) (\<lambda>_. []) as \<and> cli_out s = endl ''OK'' @ session_output es as \<and>
    (2 ^ 64 \<le> length (the (cli_files s (manifest_path path))) \<or>
     (\<exists>s2. LsmStorageInner_open E path cli_options (cli_files s) = Some (Inr (), s2) \<and>
        engine_holds E path cli_options False s2 (fold request_effect (session_requests es) (\<lambda>_. []))))"
  by (rule cli_main_session) (use assms in auto)

theorem cli_session_witness:
  "\<exists>s as. cli_main example_env [Line ''open db'', Line ''put a 1'', FlushTick, Line ''put b'', Line ''flush'', Line ''quit''] (cli_start Map.empty) = Some (Inr (), s) \<and>
    answers_ok [Put [97] [49], FlushRound, ForceFlush] (\<lambda>_. []) as \<and>
    cli_out s = endl ''OK'' @ endl ''OK'' @ endl ''Usage: put <k> <v>'' @ endl ''OK'' \<and>
    (2 ^ 64 \<le> length (the (cli_files s (manifest_path ''db''))) \<or>
     (\<exists>s2. LsmStorageInner_open example_env ''db'' cli_options (cli_files s) = Some (Inr (), s2) \<and>
        engine_holds example_env ''db'' cli_options False s2 ((\<lambda>_. [])([97] := [49]))))"
proof -
  let ?es = "[Line ''put a 1'', FlushTick, Line ''put b'', Line ''flush'', Line ''quit'']"
  have open_db: "parse_line False ''open db'' = Open ''db''"
    by (simp add: parse_line_def first_word_def read_word_def isspace_def dispatch_def)
  have lines: "parse_line True ''put a 1'' = Ask (Put [97] [49])" "parse_line True ''put b'' = Say (endl ''Usage: put <k> <v>'')"
    "parse_line True ''flush'' = Ask ForceFlush" "parse_line True ''quit'' = Quit"
    by (simp_all add: parse_line_def first_word_def read_word_def read_words2_def isspace_def dispatch_def asked_def to_slice_def)
  have rs: "session_requests ?es = [Put [97] [49], FlushRound, ForceFlush]" by (simp add: lines)
  have keep: "keeps_store ?es" by (auto simp: keeps_store_def lines)
  have adm: "\<forall>r \<in> set (session_requests ?es). admissible cli_options r" unfolding rs by (simp add: admissible_def wf_entry_def)
  from cli_session [OF example_env_ok, of Map.empty "''db''", OF _ open_db keep adm] obtain s as where
    s: "cli_main example_env (Line ''open db'' # ?es) (cli_start Map.empty) = Some (Inr (), s)" "answers_ok [Put [97] [49], FlushRound, ForceFlush] (\<lambda>_. []) as"
      "cli_out s = endl ''OK'' @ session_output ?es as"
      "2 ^ 64 \<le> length (the (cli_files s (manifest_path ''db''))) \<or>
       (\<exists>s2. LsmStorageInner_open example_env ''db'' cli_options (cli_files s) = Some (Inr (), s2) \<and>
        engine_holds example_env ''db'' cli_options False s2 ((\<lambda>_. [])([97] := [49])))"
    unfolding rs by (auto simp: request_effect_def)
  have "as = [Done, Done, Done]" using s(2) by (auto simp: answer_ok_def elim!: answers_ok.elims)
  then have "session_output ?es as = endl ''OK'' @ endl ''Usage: put <k> <v>'' @ endl ''OK''" by (simp add: lines print_answer_def)
  then show ?thesis using s by (intro exI [of _ s] exI [of _ as]) simp
qed

text \<open>What is put as text is read as text. For words \<open>k\<close> and \<open>v\<close>, the lines \<open>open p\<close>, \<open>put k v\<close>, \<open>get k\<close> print \<open>OK\<close>, \<open>OK\<close> and \<open>v\<close>;
  after \<open>delete k\<close>, \<open>get k\<close> prints \<open>(not found)\<close>.\<close>

theorem cli_put_get_text:
  assumes "io_works (ev_io E)" and "snappy_inverts (ev_ext E)" and "json_restores (ev_json E)"
    and "files (manifest_path p) = None" and "is_word p" and "is_word k" and "is_word v" and "length k < 2 ^ 16" and "length v < 2 ^ 16"
  shows "\<exists>s. cli_main E [Line (''open'' @ CHR 0x20 # p), Line (''put'' @ CHR 0x20 # k @ CHR 0x20 # v), Line (''get'' @ CHR 0x20 # k),
      Line (''delete'' @ CHR 0x20 # k), Line (''get'' @ CHR 0x20 # k)] (cli_start files) = Some (Inr (), s) \<and>
    cli_out s = endl ''OK'' @ endl ''OK'' @ endl v @ endl ''OK'' @ endl ''(not found)''"
proof -
  let ?es = "[Line (''put'' @ CHR 0x20 # k @ CHR 0x20 # v), Line (''get'' @ CHR 0x20 # k), Line (''delete'' @ CHR 0x20 # k), Line (''get'' @ CHR 0x20 # k)]"
  let ?rs = "[Put (to_slice k) (to_slice v), Get (to_slice k), Del (to_slice k), Get (to_slice k)]"
  note parse = parse_words [OF assms(6,7)]
  have rs: "session_requests ?es = ?rs" by (simp only: session_requests.simps parse command.case)
  have keep: "keeps_store ?es" unfolding keeps_store_def using parse by (auto simp del: append_Cons)
  have slice: "length (to_slice w) = length w" "to_slice w = [] \<longleftrightarrow> w = []" for w by (simp_all add: to_slice_def)
  have adm: "\<forall>r \<in> set (session_requests ?es). admissible cli_options r"
    unfolding rs using assms(6,8,9) by (simp add: admissible_def wf_entry_def slice is_word_def)
  from cli_main_session [where files = files and path = p, OF assms(1-4) parse_words(1) [OF assms(5,6)] keep adm] obtain s as where
    s: "cli_main E (Line (''open'' @ CHR 0x20 # p) # ?es) (cli_start files) = Some (Inr (), s)" "answers_ok ?rs (\<lambda>_. []) as"
      "cli_out s = endl ''OK'' @ session_output ?es as" unfolding rs by blast
  have "as = [Done, Val (to_slice v), Done, Val []]" using s(2) by (auto simp: answer_ok_def request_effect_def elim!: answers_ok.elims)
  then have "session_output ?es as = endl ''OK'' @ endl v @ endl ''OK'' @ endl ''(not found)''"
    using assms(7) by (simp only: session_output.simps parse command.case list.sel) (simp add: print_answer_def slice is_word_def)
  then show ?thesis using s(1,3) by auto
qed

theorem cli_put_get_text_witness:
  "\<exists>s. cli_main example_env [Line (''open'' @ CHR 0x20 # ''db''), Line (''put'' @ CHR 0x20 # ''name'' @ CHR 0x20 # ''lsm''),
      Line (''get'' @ CHR 0x20 # ''name''), Line (''delete'' @ CHR 0x20 # ''name''), Line (''get'' @ CHR 0x20 # ''name'')]
      (cli_start Map.empty) = Some (Inr (), s) \<and>
    cli_out s = endl ''OK'' @ endl ''OK'' @ endl ''lsm'' @ endl ''OK'' @ endl ''(not found)''"
  by (rule cli_put_get_text [OF example_env_ok]) (simp_all add: is_word_def isspace_def)

text \<open>C27: mistakes are harmless. A request before \<open>open\<close>, a line with missing words and an unknown command print one message and change
  neither the store nor the files.\<close>

theorem cli_line_mistake:
  assumes "parse_line (cli_db s \<noteq> None) l = Say t"
  shows "cli_line E l s = Some (Inr True, s\<lparr>cli_out := cli_out s @ t\<rparr>)"
  using cli_line_command [of E l s] assms by (simp add: run_command_def continue_with_def m_bind_case print_def)

theorem cli_line_mistake_witness:
  "cli_line example_env ''get a'' (cli_start Map.empty) =
     Some (Inr True, (cli_start Map.empty)\<lparr>cli_out := endl ''Error: DB not opened. Run 'open <path>' first.''\<rparr>)"
proof -
  have "parse_line False ''get a'' = Say (endl ''Error: DB not opened. Run 'open <path>' first.'')"
    by (simp add: parse_line_def first_word_def read_word_def isspace_def dispatch_def asked_def)
  then show ?thesis using cli_line_mistake [of "cli_start Map.empty" "''get a''"] by (simp add: cli_start_def)
qed

end
