(* ===== verification/Benchmarks.thy ===== *)
theory Benchmarks
  imports Mini_Lsm_Cli
begin

text \<open>
  The benchmarks (\<open>bench/bench_common.h\<close>, \<open>bench/bench_write.cpp\<close>, \<open>bench/bench_read.cpp\<close>): the keys and values they generate,
  the options they use, the calls they make, and the percentiles of the latencies, in exact arithmetic. The clock is not modelled.
\<close>

section \<open>Keys and values\<close>

definition decimal_pad :: "nat \<Rightarrow> nat \<Rightarrow> string" where
  "decimal_pad w n = replicate (w - length (decimal n)) (CHR ''0'') @ decimal n"

text \<open>\<open>snprintf(buf, sizeof(buf), "key_%011d", i)\<close> for \<open>i \<ge> 0\<close>.\<close>

definition gen_key :: "nat \<Rightarrow> string" where
  "gen_key i = ''key_'' @ decimal_pad 11 i"

function pad_x :: "nat \<Rightarrow> string \<Rightarrow> string" where
  "pad_x val_size v = (if length v < val_size then pad_x val_size (v @ ''x'') else v)"
  by pat_completeness auto
termination by (relation "measure (\<lambda>(n, v). n - length v)") auto

declare pad_x.simps [simp del]

definition gen_val :: "nat \<Rightarrow> nat \<Rightarrow> string" where
  "gen_val i val_size = take val_size (pad_x val_size (''val_'' @ decimal_pad 8 i @ ''_''))"

definition human_bytes :: "nat \<Rightarrow> string" where
  "human_bytes bytes =
     (if bytes > 1024 * 1024 * 1024 then decimal (bytes div (1024 * 1024 * 1024)) @ '' GB''
      else if bytes > 1024 * 1024 then decimal (bytes div (1024 * 1024)) @ '' MB''
      else if bytes > 1024 then decimal (bytes div 1024) @ '' KB''
      else decimal bytes @ '' B'')"

section \<open>Latencies\<close>

definition LatencyHistogram_record :: "real \<Rightarrow> real list \<Rightarrow> real list" where
  "LatencyHistogram_record us samples = samples @ [us]"

definition percentile :: "real \<Rightarrow> real list \<Rightarrow> real" where
  "percentile p samples =
     (if samples = [] then 0
      else (let idx = nat \<lfloor>p / 100 * real (length samples)\<rfloor>;
                idx = (if idx \<ge> length samples then length samples - 1 else idx)
            in samples ! idx))"

definition p50 :: "real list \<Rightarrow> real" where "p50 samples = percentile 50 (sort samples)"
definition p99 :: "real list \<Rightarrow> real" where "p99 samples = percentile 99 (sort samples)"
definition p999 :: "real list \<Rightarrow> real" where "p999 samples = percentile (999 / 10) (sort samples)"

section \<open>The options\<close>

definition bench_sizes :: "LsmStorageOptions \<Rightarrow> LsmStorageOptions" where
  "bench_sizes opts = opts\<lparr>op_block_size := 4096, op_target_sst_size := push_bit 20 2\<rparr>"

definition bench_simple :: SimpleLeveledCompactionOptions where
  "bench_simple = \<lparr>so_size_ratio_percent = 0, so_level0_file_num_compaction_trigger = 200, so_max_levels = 4\<rparr>"

definition bench_tiered :: TieredCompactionOptions where
  "bench_tiered = \<lparr>to_num_tiers = 3, to_max_size_amplification_percent = 200, to_size_ratio = 1, to_min_merge_width = 2,
     to_max_merge_width = None\<rparr>"

definition bench_leveled :: LeveledCompactionOptions where
  "bench_leveled = \<lparr>lo_level_size_multiplier = 2, lo_level0_file_num_compaction_trigger = 2, lo_max_levels = 4, lo_base_level_size_mb = 16\<rparr>"

definition bench_write_options :: "(string \<times> LsmStorageOptions) list" where
  "bench_write_options =
    [(''NoCompaction'', bench_sizes default_for_week1_test),
     (''SimpleLeveled'', bench_sizes (default_for_week2_test (SimpleOpts bench_simple))),
     (''Tiered'', bench_sizes (default_for_week2_test (TieredOpts bench_tiered))),
     (''Leveled'', bench_sizes (default_for_week2_test (LeveledOpts bench_leveled))),
     (''NoCompact (Snappy)'', (bench_sizes default_for_week1_test)\<lparr>op_compression := Snappy\<rparr>),
     (''Leveled (Snappy)'', (bench_sizes (default_for_week2_test (LeveledOpts bench_leveled)))\<lparr>op_compression := Snappy\<rparr>)]"

definition bench_read_options :: "CompressionType \<Rightarrow> LsmStorageOptions" where
  "bench_read_options compr = (bench_sizes default_for_week1_test)\<lparr>op_enable_wal := False, op_compression := compr\<rparr>"

section \<open>The calls\<close>

definition put_all :: "nat \<Rightarrow> nat \<Rightarrow> request list" where
  "put_all num_keys val_size = map (\<lambda>i. Put (to_slice (gen_key i)) (to_slice (gen_val i val_size))) [0..<num_keys]"

definition run_write_bench :: "nat \<Rightarrow> nat \<Rightarrow> request list" where
  "run_write_bench num_keys val_size = put_all num_keys val_size @ [ForceFlush]"

text \<open>The four phases of the read benchmark. The keys of the second one are drawn from a random generator.\<close>

definition read_load :: "nat \<Rightarrow> nat \<Rightarrow> request list" where
  "read_load num_write val_size = put_all num_write val_size @ [ForceFlush, ForceFullCompaction]"

definition read_hits :: "nat list \<Rightarrow> request list" where
  "read_hits drawn = map (\<lambda>i. Get (to_slice (gen_key i))) drawn"

definition read_misses :: "nat \<Rightarrow> nat \<Rightarrow> request list" where
  "read_misses num_write num_miss = map (\<lambda>i. Get (to_slice (gen_key (num_write + i)))) [0..<num_miss]"

definition run_read_suite :: "nat \<Rightarrow> nat \<Rightarrow> nat list \<Rightarrow> nat \<Rightarrow> request list" where
  "run_read_suite num_write val_size drawn num_miss =
     read_load num_write val_size @ read_hits drawn @ read_misses num_write num_miss @ [Scan Unbounded Unbounded]"

lemmas read_suite_defs = run_read_suite_def read_load_def read_hits_def read_misses_def

definition background :: "request \<Rightarrow> bool" where
  "background r \<longleftrightarrow> r \<in> {FlushRound, CompactionRound}"

section \<open>What is generated\<close>

lemma length_decimal: "n < 10 ^ w \<Longrightarrow> 0 < w \<Longrightarrow> length (decimal n) \<le> w"
proof (induction n arbitrary: w rule: decimal.induct)
  case (1 n)
  show ?case
  proof (cases "n < 10")
    case False
    then obtain w' where w: "w = Suc w'" "0 < w'" using "1.prems" by (cases w; cases "w - 1") auto
    then have "n div 10 < 10 ^ w'" using "1.prems"(1) by (simp add: less_mult_imp_div_less mult.commute)
    with "1.IH" [OF False] w show ?thesis using False by (subst decimal.simps) simp
  qed (use "1.prems" in \<open>subst decimal.simps, simp\<close>)
qed

lemma decimal_pad_inj: "decimal_pad w i = decimal_pad w j \<Longrightarrow> i = j"
proof -
  have "undecimal 0 (decimal_pad w n) = n" for n
    by (simp add: decimal_pad_def undecimal_append undecimal_zeros undecimal_decimal)
  then show "decimal_pad w i = decimal_pad w j \<Longrightarrow> i = j" by metis
qed

lemma gen_key_inj [simp]: "gen_key i = gen_key j \<longleftrightarrow> i = j"
  by (auto simp: gen_key_def dest: decimal_pad_inj)

lemma length_gen_key: "i < 10 ^ 11 \<Longrightarrow> length (gen_key i) = 15"
  using length_decimal [of i 11] by (simp add: gen_key_def decimal_pad_def)

lemma length_pad_x: "length (pad_x n v) = max n (length v)"
  by (induction n v rule: pad_x.induct) (subst pad_x.simps, auto)

lemma length_gen_val: "length (gen_val i n) = n"
  by (simp add: gen_val_def length_pad_x)

lemma percentile_nth:
  assumes "xs \<noteq> []"
  shows "percentile p (sort xs) = sort xs ! min (nat \<lfloor>p / 100 * real (length xs)\<rfloor>) (length xs - 1)"
    and "min (nat \<lfloor>p / 100 * real (length xs)\<rfloor>) (length xs - 1) < length (sort xs)"
proof -
  have "sort xs \<noteq> []" using assms by (metis length_0_conv length_sort)
  then show "percentile p (sort xs) = sort xs ! min (nat \<lfloor>p / 100 * real (length xs)\<rfloor>) (length xs - 1)"
    using length_greater_0_conv [of xs] assms by (auto simp: percentile_def Let_def min_def simp del: length_greater_0_conv)
  have "length xs - 1 < length (sort xs)" using assms by (cases xs) auto
  then show "min (nat \<lfloor>p / 100 * real (length xs)\<rfloor>) (length xs - 1) < length (sort xs)" by (rule min.strict_coboundedI2)
qed

lemma percentile_mono:
  assumes "p \<le> q"
  shows "percentile p (sort xs) \<le> percentile q (sort xs)"
proof (cases "xs = []")
  case False
  have "p / 100 * real (length xs) \<le> q / 100 * real (length xs)" using assms by (intro mult_right_mono) simp_all
  then have "nat \<lfloor>p / 100 * real (length xs)\<rfloor> \<le> nat \<lfloor>q / 100 * real (length xs)\<rfloor>" by (intro nat_mono floor_mono)
  then show ?thesis unfolding percentile_nth(1) [OF False]
    by (intro sorted_nth_mono sorted_sort min.mono percentile_nth(2) [OF False] order_refl)
qed (simp add: percentile_def)

section \<open>Calls and background rounds\<close>

lemma answers_ok_foreground:
  "answers_ok rs M as \<Longrightarrow>
    answers_ok (filter (\<lambda>r. \<not> background r) rs) M (map snd (filter (\<lambda>(r, a). \<not> background r) (zip rs as)))"
proof (induction rs M as rule: answers_ok.induct)
  case (2 r rs M a as)
  have "background r \<Longrightarrow> request_effect r M = M" by (auto simp: background_def request_effect_def)
  then show ?case using 2 by auto
qed auto

lemma answers_ok_appendD:
  "answers_ok (rs @ qs) M as \<Longrightarrow> \<exists>bs cs. as = bs @ cs \<and> answers_ok rs M bs \<and> answers_ok qs (fold request_effect rs M) cs"
proof (induction rs arbitrary: M as)
  case (Cons r rs)
  then obtain a as' where as: "as = a # as'" "answer_ok r M a" "answers_ok (rs @ qs) (request_effect r M) as'" by (cases as) auto
  from Cons.IH [OF as(3)] obtain bs cs where "as' = bs @ cs" "answers_ok rs (request_effect r M) bs"
    "answers_ok qs (fold request_effect rs (request_effect r M)) cs" by blast
  with as(1,2) show ?case by (intro exI [of _ "a # bs"] exI [of _ cs]) simp
next
  case Nil
  then show ?case by (intro exI [of _ "[]"] exI [of _ as]) simp
qed

lemma answers_ok_gets: "answers_ok (map Get ks) M as \<Longrightarrow> as = map (\<lambda>k. Val (M k)) ks"
proof (induction ks arbitrary: as)
  case (Cons k ks)
  then show ?case by (cases as) (auto simp: answer_ok_def request_effect_def)
qed (auto elim: answers_ok.elims)

lemma fold_gets: "fold request_effect (map Get ks) M = M"
  by (induction ks) (simp_all add: request_effect_def)

lemma answers_ok_done:
  "answers_ok rs M as \<Longrightarrow> \<forall>r \<in> set rs. (\<exists>k v. r = Put k v) \<or> r = ForceFlush \<or> r = ForceFullCompaction \<Longrightarrow> as = replicate (length rs) Done"
  by (induction rs M as rule: answers_ok.induct) (auto simp: answer_ok_def)

text \<open>The map after all puts.\<close>

definition bench_map :: "nat \<Rightarrow> nat \<Rightarrow> bytes \<Rightarrow> bytes" where
  "bench_map n val_size k = (if k \<in> to_slice ` gen_key ` {..<n} then to_slice (gen_val (the_inv gen_key (to_text k)) val_size) else [])"

lemma to_slice_inj [simp]: "to_slice s = to_slice t \<longleftrightarrow> s = t"
  by (metis to_text_to_slice)

lemma bench_map_key: "bench_map n v (to_slice (gen_key i)) = (if i < n then to_slice (gen_val i v) else [])"
proof -
  have "inj gen_key" by (rule injI) simp
  then show ?thesis by (auto simp: bench_map_def the_inv_f_f image_iff)
qed

lemma fold_put_all: "fold request_effect (put_all n v) (\<lambda>_. []) = bench_map n v"
proof (induction n)
  case (Suc n)
  have "bench_map (Suc n) v = (bench_map n v)(to_slice (gen_key n) := to_slice (gen_val n v))"
  proof
    fix k
    show "bench_map (Suc n) v k = ((bench_map n v)(to_slice (gen_key n) := to_slice (gen_val n v))) k"
    proof (cases "\<exists>i. k = to_slice (gen_key i)")
      case True
      then show ?thesis by (auto simp: bench_map_key less_Suc_eq)
    next
      case False
      then show ?thesis by (auto simp: bench_map_def)
    qed
  qed
  then show ?case using Suc by (simp add: put_all_def request_effect_def)
qed (simp add: put_all_def bench_map_def fun_eq_iff)

section \<open>Properties\<close>

text \<open>The latencies that are reported are consistent: a median is at most the 99th percentile, which is at most the 99.9th, and each
  of them is one of the latencies that were measured.\<close>

theorem percentiles_ordered:
  "p50 xs \<le> p99 xs \<and> p99 xs \<le> p999 xs \<and> (xs \<noteq> [] \<longrightarrow> p50 xs \<in> set xs \<and> p99 xs \<in> set xs \<and> p999 xs \<in> set xs)"
proof -
  have "percentile p (sort xs) \<in> set xs" if "xs \<noteq> []" for p
    using nth_mem [OF percentile_nth(2) [OF that, of p]] by (simp only: percentile_nth(1) [OF that] set_sort)
  then show ?thesis using percentile_mono [of 50 99 xs] percentile_mono [of 99 "999 / 10" xs] by (simp add: p50_def p99_def p999_def)
qed

theorem percentiles_ordered_witness:
  "p50 [3, 1, 2] \<le> p99 [3, 1, 2] \<and> p99 [3, 1, 2] \<le> p999 [3, 1, 2] \<and> p50 [3, 1, 2] \<in> set [3, 1, 2]"
  using percentiles_ordered [of "[3, 1, 2]"] by simp

text \<open>C25: the benchmark of the simple leveled strategy never compacts. Its options are a size ratio of 0 per cent and a trigger of 200 tables,
  so that no task is generated as long as there are fewer than 200 tables in level 0 (it writes 23 MB in tables of 2 MB).\<close>

theorem bench_simple_never_compacts:
  assumes "length (ls_l0_sstables st) < 200"
  shows "Simple_generate_compaction_task bench_simple st = None"
proof -
  have "Simple_ratio_task bench_simple st is = None" for "is"
  proof (induction "is")
    case (Cons i "is")
    have "\<not> real (level_sizes st ! (i + 1)) / real (level_sizes st ! i) < real (so_size_ratio_percent bench_simple) / 100"
      by (simp add: bench_simple_def not_less)
    then show ?case using Cons by (simp add: Let_def)
  qed simp
  then show ?thesis using assms by (simp add: Simple_generate_compaction_task_def) (simp add: bench_simple_def)
qed

theorem bench_simple_never_compacts_witness:
  "Simple_generate_compaction_task bench_simple (LsmStorageState_create (bench_sizes (default_for_week2_test (SimpleOpts bench_simple)))) = None"
  by (rule bench_simple_never_compacts) (simp add: LsmStorageState_create_def)

lemma answers_ok_suite:
  assumes "answers_ok (ws @ map Get ks @ [r]) M as"
  obtains ds gs a where "as = ds @ gs @ [a]" and "answers_ok ws M ds" and "answers_ok (map Get ks) (fold request_effect ws M) gs"
    and "answer_ok r (fold request_effect ws M) a"
proof -
  from answers_ok_appendD [OF assms] obtain ds xs where 1: "as = ds @ xs" "answers_ok ws M ds"
    "answers_ok (map Get ks @ [r]) (fold request_effect ws M) xs" by blast
  from answers_ok_appendD [OF 1(3)] obtain gs ys where 2: "xs = gs @ ys" "answers_ok (map Get ks) (fold request_effect ws M) gs"
    "answers_ok [r] (fold request_effect ws M) ys" unfolding fold_gets by blast
  from 2(3) obtain a where "ys = [a]" "answer_ok r (fold request_effect ws M) a" by (auto elim!: answers_ok.elims)
  with 1 2 show thesis by (intro that) simp_all
qed

lemma bench_map_entries:
  assumes "0 < v" and "sorted_entries es" and es: "map_of es = (\<lambda>k. if bench_map n v k \<noteq> [] then Some (bench_map n v k) else None)"
  shows "length es = n"
proof -
  have "fst ` set es = {k. bench_map n v k \<noteq> []}"
    unfolding dom_map_of_conv_image_fst [symmetric] es by (auto simp: dom_def)
  also have "\<dots> = to_slice ` gen_key ` {..<n}"
  proof -
    have "gen_val i v \<noteq> []" for i using length_gen_val [of i v] assms(1) by (metis less_numeral_extra(3) list.size(3))
    then show ?thesis by (auto simp: bench_map_def) (simp_all add: to_slice_def)
  qed
  finally have "card (fst ` set es) = card {..<n}" by (simp add: image_image card_image inj_on_def)
  moreover have "distinct (map fst es)" using assms(2) by (rule sorted_entries_distinct)
  ultimately show ?thesis by (metis card_lessThan distinct_card length_map set_map)
qed

text \<open>C28: the read benchmark measures what it says. However background rounds fall between its calls, every key drawn in the second
  phase is read with the value that was put, every key of the third phase is missing, and the scan of the fourth phase delivers
  each of the keys once; without compression and with Snappy.\<close>

theorem run_read_suite_answers:
  assumes "io_works (ev_io E)" and "snappy_inverts (ev_ext E)" and "opts_ok (ev_ext E) (bench_read_options compr)"
    and "files (manifest_path path) = None"
    and rs: "filter (\<lambda>r. \<not> background r) rs = run_read_suite n v drawn misses"
    and "\<forall>i \<in> set drawn. i < n" and "n \<le> 10 ^ 11" and "0 < v" and "v < 2 ^ 16"
  shows "\<exists>s as s' es. LsmStorageInner_open E path (bench_read_options compr) files = Some (Inr (), s) \<and>
    m_map (MiniLsm_serve E) rs s = Some (Inr as, s') \<and>
    map snd (filter (\<lambda>(r, a). \<not> background r) (zip rs as)) =
      replicate (n + 2) Done @ map (\<lambda>i. Val (to_slice (gen_val i v))) drawn @ replicate misses (Val []) @ [Entries es] \<and>
    length es = n \<and> map_of es = (\<lambda>k. if bench_map n v k \<noteq> [] then Some (bench_map n v k) else None)"
proof -
  let ?user = "\<lambda>r. \<not> background r" and ?opts = "bench_read_options compr" and ?M = "bench_map n v"
  have slice: "length (to_slice w) = length w" for w by (simp add: to_slice_def)
  have user: "admissible ?opts r" if "r \<in> set (run_read_suite n v drawn misses)" for r
    using that length_gen_key assms(7-9)
    by (auto simp: read_suite_defs put_all_def admissible_def wf_entry_def slice length_gen_val bench_read_options_def bench_sizes_def
        default_for_week1_test_def length_greater_0_conv [symmetric] simp del: length_greater_0_conv)
  have "admissible ?opts r" if "r \<in> set rs" for r
  proof (cases "background r")
    case True
    then show ?thesis by (auto simp: background_def admissible_def strategy_ok_def bench_read_options_def bench_sizes_def default_for_week1_test_def)
  next
    case False
    with that have "r \<in> set (filter ?user rs)" by simp
    then show ?thesis unfolding rs by (rule user)
  qed
  with serve_from_new [of E ?opts files path rs] assms(1-4) obtain as s s' where
    run: "LsmStorageInner_open E path ?opts files = Some (Inr (), s)" "m_map (MiniLsm_serve E) rs s = Some (Inr as, s')"
      and ok: "answers_ok rs (\<lambda>_. []) as" by blast
  let ?as = "map snd (filter (\<lambda>(r, a). ?user r) (zip rs as))"
  let ?writes = "put_all n v @ [ForceFlush, ForceFullCompaction]"
    and ?gets = "map Get (map (\<lambda>i. to_slice (gen_key i)) (drawn @ map (\<lambda>i. n + i) [0..<misses]))"
  have fold_writes: "fold request_effect ?writes (\<lambda>_. []) = ?M" by (simp add: fold_put_all) (simp add: request_effect_def)
  have "run_read_suite n v drawn misses = ?writes @ ?gets @ [Scan Unbounded Unbounded]" by (simp add: read_suite_defs o_def)
  with answers_ok_foreground [OF ok] have "answers_ok (?writes @ ?gets @ [Scan Unbounded Unbounded]) (\<lambda>_. []) ?as" by (simp only: rs)
  then obtain ds gs a where as: "?as = ds @ gs @ [a]" "answers_ok ?writes (\<lambda>_. []) ds" "answers_ok ?gets ?M gs"
    "answer_ok (Scan Unbounded Unbounded) ?M a"
    by (rule answers_ok_suite) (simp only: fold_writes that)
  have "ds = replicate (n + 2) Done" using answers_ok_done [OF as(2)] by (auto simp: put_all_def)
  moreover have "gs = map (\<lambda>i. Val (to_slice (gen_val i v))) drawn @ replicate misses (Val [])"
    unfolding answers_ok_gets [OF as(3)] using assms(6) by (auto simp: bench_map_key map_replicate_const o_def)
  moreover obtain es where es: "a = Entries es" "sorted_entries es" "map_of es = (\<lambda>k. if ?M k \<noteq> [] then Some (?M k) else None)"
    using as(4) by (auto simp: answer_ok_def in_range_def)
  moreover have "length es = n" using assms(8) es(2,3) by (rule bench_map_entries)
  ultimately show ?thesis using run as(1) by auto
qed

theorem run_read_suite_answers_witness:
  "\<exists>s as s' es. LsmStorageInner_open example_env ''db'' (bench_read_options NoCompression) Map.empty = Some (Inr (), s) \<and>
    m_map (MiniLsm_serve example_env) (FlushRound # run_read_suite 2 100 [1] 1) s = Some (Inr as, s') \<and>
    map snd (filter (\<lambda>(r, a). \<not> background r) (zip (FlushRound # run_read_suite 2 100 [1] 1) as)) =
      replicate (2 + 2) Done @ map (\<lambda>i. Val (to_slice (gen_val i 100))) [1] @ replicate 1 (Val []) @ [Entries es] \<and>
    length es = 2 \<and> map_of es = (\<lambda>k. if bench_map 2 100 k \<noteq> [] then Some (bench_map 2 100 k) else None)"
proof (rule run_read_suite_answers [OF example_env_ok(1,2)])
  show "opts_ok (ev_ext example_env) (bench_read_options NoCompression)"
    by (rule opts_ok_uncompressed) (simp_all add: bench_read_options_def bench_sizes_def)
  have "\<not> background r" if "r \<in> set (run_read_suite 2 100 [1] 1)" for r
    using that by (auto simp: read_suite_defs put_all_def background_def)
  then show "filter (\<lambda>r. \<not> background r) (FlushRound # run_read_suite 2 100 [1] 1) = run_read_suite 2 100 [1] 1"
    by (simp add: background_def [of FlushRound])
qed simp_all

text \<open>\<open>force_flush\<close> does not write everything out: it leaves the active memtable, and of the frozen ones it writes at most the oldest.\<close>

lemma force_flush_one:
  assumes "LsmStorageInner_force_flush_next_imm_memtable E (inner, files) = Some (r, inner', files')"
  shows "ls_memtable (in_state inner') = ls_memtable (in_state inner) \<and>
    ls_imm_memtables (in_state inner') \<in> {ls_imm_memtables (in_state inner), butlast (ls_imm_memtables (in_state inner))}"
proof (cases "ls_imm_memtables (in_state inner) = []")
  case True
  then show ?thesis using assms by (simp add: LsmStorageInner_force_flush_next_imm_memtable_def)
next
  case False
  let ?t = "last (ls_imm_memtables (in_state inner))"
  from assms False have "m_bind (m_lift (MemTable_flush (ev_ext E) ?t (SsTableBuilder_new (op_block_size (in_options inner)) (op_compression (in_options inner)))))
    (\<lambda>builder. m_bind (on_files (SsTableBuilder_build (ev_ext E) (ev_io E) builder (mt_id ?t) True (path_of_sst_val inner (mt_id ?t))))
      (\<lambda>sst. m_bind (modify (\<lambda>inner. inner\<lparr>in_state :=
           flush_state (CompactionController_flush_to_l0 (in_compaction_controller inner)) sst (in_state inner)\<rparr>)) (\<lambda>_.
       m_bind (record_in_manifest E (Flush (mt_id ?t))) (\<lambda>_. release_memtable ?t)))) (inner, files) = Some (r, inner', files')"
    by (simp add: LsmStorageInner_force_flush_next_imm_memtable_def Let_def)
  then show ?thesis
    by (elim m_bindE)
      (auto simp: on_files_def modify_def record_in_manifest_def release_memtable_def flush_state_def Let_def split: option.splits prod.splits if_splits)
qed

end
