(* ===== verification/Interleaving.thy ===== *)
theory Interleaving
  imports Store_Spec Durability
begin

text \<open>
  Threads. The background compaction and \<open>force_full_compaction\<close> read a snapshot and write their tables without a lock, and
  replace the tables in the state under the lock afterwards; an iterator of \<open>scan\<close> reads tables and blocks for as long as its user
  keeps it. Here the calls of other threads come between: a configuration is the engine, the compaction under way and the open
  iterators; a step is a whole call of another thread, one half of a compaction, or one move of an iterator.

  The specification is a map with snapshots: a scan delivers the live entries of the map as it was when the scan began. Every
  interleaving is a run of the specification, and no step can fail.
\<close>

section \<open>Iterators while tables are added\<close>

lemma sti_abs_mono: "tables \<subseteq>\<^sub>m tables' \<Longrightarrow> sti_abs X tables it xs \<Longrightarrow> sti_abs X tables' it xs"
  unfolding sti_abs_def using sst_holds_mono by blast

lemma sc_abs_mono: "tables \<subseteq>\<^sub>m tables' \<Longrightarrow> sc_abs X tables it xs \<Longrightarrow> sc_abs X tables' it xs"
proof -
  assume le: "tables \<subseteq>\<^sub>m tables'"
  have "sc_at X tables' it ess g" if "sc_at X tables it ess g" for ess g
    using that sti_abs_mono [OF le] sst_entries_mono [OF le]
    unfolding sc_at_def level_holds_def by (auto split: option.splits elim: list_all2_mono)
  then show "sc_abs X tables it xs \<Longrightarrow> sc_abs X tables' it xs" unfolding sc_abs_def by blast
qed

lemma mi_abs_mono: "(\<And>i xs. rep i xs \<Longrightarrow> rep' i xs) \<Longrightarrow> mi_abs rep mi zs \<Longrightarrow> mi_abs rep' mi zs"
proof -
  assume le: "\<And>i xs. rep i xs \<Longrightarrow> rep' i xs"
  then have "hw_rep rep w p \<Longrightarrow> hw_rep rep' w p" for w p by (simp add: hw_rep_def)
  then have "heap_rep rep h L \<Longrightarrow> heap_rep rep' h L" "hw_rep rep w p \<Longrightarrow> hw_rep rep' w p" for h L w p
    unfolding heap_rep_def by (auto elim: list_all2_mono)
  then show "mi_abs rep mi zs \<Longrightarrow> mi_abs rep' mi zs" unfolding mi_abs_def by (cases "mi_current mi") (simp, simp, blast)
qed

lemma tm_abs_mono:
  "(\<And>i xs. a i xs \<Longrightarrow> a' i xs) \<Longrightarrow> (\<And>i xs. b i xs \<Longrightarrow> b' i xs) \<Longrightarrow> tm_abs a b it zs \<Longrightarrow> tm_abs a' b' it zs"
  unfolding tm_abs_def by blast

lemma li_abs_mono: "(\<And>i xs. rep i xs \<Longrightarrow> rep' i xs) \<Longrightarrow> li_abs rep it zs \<Longrightarrow> li_abs rep' it zs"
  unfolding li_abs_def li_at_def by (auto split: if_splits)

lemma fi_abs_mono: "(\<And>i xs. rep i xs \<Longrightarrow> rep' i xs) \<Longrightarrow> fi_abs rep it zs \<Longrightarrow> fi_abs rep' it zs"
  unfolding fi_abs_def by blast

text \<open>An open iterator of a scan, and the entries it has yet to deliver.\<close>

type_synonym cursor = "scan_iter LsmIterator FusedIterator"

definition cursor_rep :: "ext \<Rightarrow> (nat \<Rightarrow> entry list list option) \<Rightarrow> cursor \<Rightarrow> entry list \<Rightarrow> bool" where
  "cursor_rep X tables = fi_abs (li_abs (scan_abs X tables))"

abbreviation cursor_ops :: "ext \<Rightarrow> (BlockCache, cursor) iter_ops" where
  "cursor_ops X \<equiv> FusedIterator_ops (LsmIterator_ops (scan_iter_ops X))"

lemma cursor_rep_mono: "tables \<subseteq>\<^sub>m tables' \<Longrightarrow> cursor_rep X tables it xs \<Longrightarrow> cursor_rep X tables' it xs"
  unfolding cursor_rep_def
  by (erule fi_abs_mono [OF li_abs_mono [OF tm_abs_mono [OF tm_abs_mono [OF _ mi_abs_mono [OF sti_abs_mono]] mi_abs_mono [OF sc_abs_mono]]], rotated -1])

section \<open>The system\<close>

datatype phase =
    Idle
  | Compacting CompactionTask "SsTable list"
  | FullCompacting "nat list" "nat list" "SsTable list"

text \<open>What an observer sees: a call and its answer, nothing, or what the iterator with a number does.\<close>

datatype event =
    Call request answer
  | Internal
  | Opened nat Bound Bound
  | Delivered nat bytes bytes
  | Ended nat

type_synonym config = "engine \<times> phase \<times> (nat \<Rightarrow> cursor option)"

definition open_scan :: "env \<Rightarrow> Bound \<Rightarrow> Bound \<Rightarrow> (engine, cursor) m" where
  "open_scan E lower upper = m_bind get_inner (\<lambda>inner. on_cache (LsmStorageInner_scan (ev_ext E) (in_state inner) lower upper))"

definition read_cursor :: "env \<Rightarrow> cursor \<Rightarrow> (engine, entry \<times> cursor) m" where
  "read_cursor E it =
     m_bind (m_lift (it_key (cursor_ops (ev_ext E)) it)) (\<lambda>k.
     m_bind (m_lift (it_value (cursor_ops (ev_ext E)) it)) (\<lambda>v.
     m_bind (on_cache (it_next (cursor_ops (ev_ext E)) it)) (\<lambda>it'. m_return ((k, v), it'))))"

text \<open>A call takes effect at once, except for compactions, of which there is one at a time.\<close>

inductive conc_step :: "env \<Rightarrow> config \<Rightarrow> event \<Rightarrow> config \<Rightarrow> bool" for E where
  call: "MiniLsm_serve E r s = Some (Inr a, s') \<Longrightarrow> \<not> compacts r \<Longrightarrow> conc_step E (s, ph, C) (Call r a) (s', ph, C)"
| skip: "compaction_begin E s = Some (Inr None, s') \<Longrightarrow> conc_step E (s, Idle, C) Internal (s', Idle, C)"
| start: "compaction_begin E s = Some (Inr (Some (task, ssts)), s') \<Longrightarrow> conc_step E (s, Idle, C) Internal (s', Compacting task ssts, C)"
| finish: "compaction_install E task ssts s = Some (Inr b, s') \<Longrightarrow> conc_step E (s, Compacting task ssts, C) Internal (s', Idle, C)"
| full_start: "full_begin E s = Some (Inr (l0, l1, ssts), s') \<Longrightarrow> conc_step E (s, Idle, C) Internal (s', FullCompacting l0 l1 ssts, C)"
| full_finish: "full_install E l0 l1 ssts s = Some (Inr u, s') \<Longrightarrow> conc_step E (s, FullCompacting l0 l1 ssts, C) Internal (s', Idle, C)"
| opened: "open_scan E lower upper s = Some (Inr it, s') \<Longrightarrow> conc_step E (s, ph, C) (Opened i lower upper) (s', ph, C(i \<mapsto> it))"
| delivered: "C i = Some it \<Longrightarrow> it_valid (cursor_ops (ev_ext E)) it \<Longrightarrow> read_cursor E it s = Some (Inr ((k, v), it'), s') \<Longrightarrow>
    conc_step E (s, ph, C) (Delivered i k v) (s', ph, C(i \<mapsto> it'))"
| ended: "C i = Some it \<Longrightarrow> \<not> it_valid (cursor_ops (ev_ext E)) it \<Longrightarrow> conc_step E (s, ph, C) (Ended i) (s, ph, C(i := None))"

inductive_cases conc_stepE: "conc_step E (s, ph, C) e c"

section \<open>The specification\<close>

text \<open>The live entries of a range, in order.\<close>

definition live :: "(bytes \<Rightarrow> bytes) \<Rightarrow> Bound \<Rightarrow> Bound \<Rightarrow> entry list \<Rightarrow> bool" where
  "live M lower upper es \<longleftrightarrow> sorted_entries es \<and> map_of es = (\<lambda>k. if in_range lower upper k \<and> M k \<noteq> [] then Some (M k) else None)"

inductive spec_step :: "(bytes \<Rightarrow> bytes) \<times> (nat \<Rightarrow> entry list option) \<Rightarrow> event \<Rightarrow> (bytes \<Rightarrow> bytes) \<times> (nat \<Rightarrow> entry list option) \<Rightarrow> bool" where
  spec_call: "answer_ok r M a \<Longrightarrow> spec_step (M, R) (Call r a) (request_effect r M, R)"
| spec_internal: "spec_step (M, R) Internal (M, R)"
| spec_opened: "live M lower upper es \<Longrightarrow> spec_step (M, R) (Opened i lower upper) (M, R(i \<mapsto> es))"
| spec_delivered: "R i = Some ((k, v) # es) \<Longrightarrow> spec_step (M, R) (Delivered i k v) (M, R(i \<mapsto> es))"
| spec_ended: "R i = Some [] \<Longrightarrow> spec_step (M, R) (Ended i) (M, R(i := None))"

inductive_simps spec_step_simps [simp]:
  "spec_step (M, R) (Call r a) x" "spec_step (M, R) Internal x" "spec_step (M, R) (Opened i lower upper) x"
  "spec_step (M, R) (Delivered i k v) x" "spec_step (M, R) (Ended i) x"

inductive trace :: "('c \<Rightarrow> 'e \<Rightarrow> 'c \<Rightarrow> bool) \<Rightarrow> 'c \<Rightarrow> 'e list \<Rightarrow> 'c \<Rightarrow> bool" for step where
  trace_Nil: "trace step c [] c"
| trace_Cons: "step c e c1 \<Longrightarrow> trace step c1 es c2 \<Longrightarrow> trace step c (e # es) c2"

inductive_simps trace_Nil_iff [simp]: "trace step c [] c'"
inductive_simps trace_Cons_iff: "trace step c (e # es) c'"

lemma trace_append: "trace step c (es @ fs) c' \<longleftrightarrow> (\<exists>c1. trace step c es c1 \<and> trace step c1 fs c')"
  by (induction es arbitrary: c) (auto simp: trace_Cons_iff)

text \<open>Forward simulation: what each step keeps, every run keeps.\<close>

locale simulation =
  fixes step :: "'c \<Rightarrow> 'e \<Rightarrow> 'c \<Rightarrow> bool" and spec :: "'a \<Rightarrow> 'e \<Rightarrow> 'a \<Rightarrow> bool" and rel :: "'c \<Rightarrow> 'a \<Rightarrow> bool" and fine :: "'e \<Rightarrow> bool"
  assumes simulates: "rel c a \<Longrightarrow> fine e \<Longrightarrow> step c e c' \<Longrightarrow> \<exists>a'. spec a e a' \<and> rel c' a'"
begin

lemma trace_simulates:
  assumes "trace step c es c'" and "rel c a" and "\<forall>e \<in> set es. fine e"
  shows "\<exists>a'. trace spec a es a' \<and> rel c' a'"
  using assms
proof (induction arbitrary: a rule: trace.induct)
  case (trace_Cons c e c1 es c2)
  from simulates [OF trace_Cons.prems(1) _ trace_Cons.hyps(1)] trace_Cons.prems(2) obtain a1 where "spec a e a1" "rel c1 a1" by auto
  with trace_Cons.IH [of a1] trace_Cons.prems(2) show ?case by (auto intro: trace.trace_Cons)
qed (auto intro: trace_Nil)

end

section \<open>The simulation\<close>

definition cursors_rep :: "ext \<Rightarrow> (nat \<Rightarrow> cursor option) \<Rightarrow> (nat \<Rightarrow> entry list option) \<Rightarrow> (nat \<Rightarrow> entry list list option) \<Rightarrow> engine \<Rightarrow> bool" where
  "cursors_rep X C R tables s \<longleftrightarrow> (\<forall>i. rel_option (cursor_rep X tables) (C i) (R i))"

definition phase_ok :: "env \<Rightarrow> string \<Rightarrow> LsmStorageOptions \<Rightarrow> bool \<Rightarrow> phase \<Rightarrow> (nat \<Rightarrow> entry list list option) \<Rightarrow> engine \<Rightarrow> bool" where
  "phase_ok E path opts d ph = (case ph of
     Idle \<Rightarrow> (\<lambda>_ _. True)
   | Compacting task ssts \<Rightarrow> in_progress E path opts d task ssts
   | FullCompacting l0 l1 ssts \<Rightarrow> (\<lambda>tables s. op_compaction_options opts = NoCompaction \<and>
       waiting E opts d True ssts (full_snapshot (ev_ext E) opts l0 l1) tables s))"

definition conc_rel :: "env \<Rightarrow> string \<Rightarrow> LsmStorageOptions \<Rightarrow> bool \<Rightarrow> config \<Rightarrow> (bytes \<Rightarrow> bytes) \<times> (nat \<Rightarrow> entry list option) \<Rightarrow> bool" where
  "conc_rel E path opts d = (\<lambda>(s, ph, C) (M, R).
     engine_with (\<lambda>tables s. cursors_rep (ev_ext E) C R tables s \<and> phase_ok E path opts d ph tables s) E path opts d s M)"

lemma lasting_cursors: "lasting (cursors_rep X C R)"
  unfolding lasting_def cursors_rep_def
  using cursor_rep_mono option.rel_mono_strong by blast

lemma steady_const: "steady d (\<lambda>_ _. b)"
  by (simp add: steady_def)

lemma steady_conj: "steady d F \<Longrightarrow> steady d G \<Longrightarrow> steady d (\<lambda>tables s. F tables s \<and> G tables s)"
  unfolding steady_def by blast

lemma steady_phase: "steady d (phase_ok E path opts d ph)"
  by (cases ph) (simp_all add: phase_ok_def steady_True steady_waiting steady_const steady_conj)

lemmas steady_conc = steady_conj [OF lasting_steady [OF lasting_cursors] steady_phase]

lemma returnsD: "returns p s Q \<Longrightarrow> p s = Some (Inr x, s') \<Longrightarrow> Q x s'"
  by (auto simp: returns_def)

lemma engine_with_mono: "engine_with F E path opts d s M \<Longrightarrow> (\<And>tables. F tables s \<Longrightarrow> G tables s) \<Longrightarrow> engine_with G E path opts d s M"
  unfolding engine_with_def by blast

lemma conc_rel_idle: "conc_rel E path opts d (s, Idle, C) (M, R) \<longleftrightarrow> engine_with (cursors_rep (ev_ext E) C R) E path opts d s M"
  by (simp add: conc_rel_def phase_ok_def)

lemma with_cache_step:
  assumes F: "steady d F" and h: "engine_with F E path opts d s M"
    and ok: "\<And>tables co. st_holds (ev_ext E) tables (in_state (fst s)) co \<Longrightarrow> M = store_view co \<Longrightarrow> F tables s \<Longrightarrow>
      ok (cache_sound (blocks_of tables)) p (Q tables)"
  shows "returns (on_cache p) s (\<lambda>r s'. engine_with (\<lambda>tables s. F tables s \<and> Q tables r) E path opts d s' M)"
proof -
  obtain inner files where s: "s = (inner, files)" by (cases s)
  from h obtain tables co where f: "F tables s" and inv: "eng_inv E tables s co" and M: "M = store_view co" and o: "in_options (fst s) = opts \<and> in_path (fst s) = path"
    and dur: "d \<longrightarrow> durable E s" unfolding engine_with_def by blast
  have "st_holds (ev_ext E) tables (in_state (fst s)) co" and c: "cache_sound (blocks_of tables) (in_block_cache inner)"
    using inv by (simp_all add: s eng_inv_def st_inv_def)
  from okD [OF ok [OF this(1) M f] c] obtain r c' where p: "p (in_block_cache inner) = Some (Inr r, c')" "cache_sound (blocks_of tables) c'" "Q tables r" .
  let ?s = "(inner\<lparr>in_block_cache := c'\<rparr>, files)"
  have "eng_inv E tables ?s co" using inv p(2) by (simp add: s eng_inv_def)
  moreover have "durable E ?s" if d
  proof -
    have "durable E (inner, files)" using dur that by (simp add: s)
    then show ?thesis by (rule durable_frame) (use durableD(2,3) [OF \<open>durable E (inner, files)\<close>] in \<open>simp_all add: wal_paths_def wal_logs_def\<close>)
  qed
  moreover have "F tables ?s" by (rule steadyD [OF F f]) (simp add: extends_def s)
  ultimately have "engine_with (\<lambda>tables s. F tables s \<and> Q tables r) E path opts d ?s M" using p(3) o M by (intro engine_withI) (simp_all add: s)
  then show ?thesis using p(1) by (simp add: s on_cache_def returns_def)
qed

lemma open_scan_rel:
  assumes "conc_rel E path opts d (s, ph, C) (M, R)"
  shows "returns (open_scan E lower upper) s (\<lambda>it s'. \<exists>es. live M lower upper es \<and> conc_rel E path opts d (s', ph, C(i \<mapsto> it)) (M, R(i \<mapsto> es)))"
proof -
  obtain inner files where s: "s = (inner, files)" by (cases s)
  let ?F = "\<lambda>tables s. cursors_rep (ev_ext E) C R tables s \<and> phase_ok E path opts d ph tables s"
  have h: "engine_with ?F E path opts d (inner, files) M" using assms by (simp add: conc_rel_def s)
  have "returns (on_cache (LsmStorageInner_scan (ev_ext E) (in_state inner) lower upper)) (inner, files) (\<lambda>it s'.
      engine_with (\<lambda>tables s. ?F tables s \<and> (\<exists>es. live M lower upper es \<and> cursor_rep (ev_ext E) tables it es)) E path opts d s' M)"
  proof (rule with_cache_step [OF steady_conc h])
    fix tables co assume sh: "st_holds (ev_ext E) tables (in_state (fst (inner, files))) co" and M: "M = store_view co"
    show "ok (cache_sound (blocks_of tables)) (LsmStorageInner_scan (ev_ext E) (in_state inner) lower upper)
        (\<lambda>it. \<exists>es. live M lower upper es \<and> cursor_rep (ev_ext E) tables it es)"
      by (rule ok_weaken [OF LsmStorageInner_scan_ok [OF sh [unfolded fst_conv]]])
        (use store_view_scan [OF sh, of lower upper] in \<open>auto simp: live_def M cursor_rep_def\<close>)
  qed
  then have "returns (on_cache (LsmStorageInner_scan (ev_ext E) (in_state inner) lower upper)) (inner, files) (\<lambda>it s'.
      \<exists>es. live M lower upper es \<and> conc_rel E path opts d (s', ph, C(i \<mapsto> it)) (M, R(i \<mapsto> es)))"
  proof (rule returns_weaken)
    fix it s' assume "engine_with (\<lambda>tables s. ?F tables s \<and> (\<exists>es. live M lower upper es \<and> cursor_rep (ev_ext E) tables it es)) E path opts d s' M"
    then obtain es where es: "live M lower upper es" "engine_with (\<lambda>tables s. ?F tables s \<and> cursor_rep (ev_ext E) tables it es) E path opts d s' M"
      unfolding engine_with_def by blast
    have "conc_rel E path opts d (s', ph, C(i \<mapsto> it)) (M, R(i \<mapsto> es))"
      unfolding conc_rel_def prod.case by (rule engine_with_mono [OF es(2)]) (simp add: cursors_rep_def)
    then show "\<exists>es. live M lower upper es \<and> conc_rel E path opts d (s', ph, C(i \<mapsto> it)) (M, R(i \<mapsto> es))" using es(1) by blast
  qed
  then show ?thesis by (simp add: s open_scan_def)
qed

lemma cursor_open:
  assumes "conc_rel E path opts d (s, ph, C) (M, R)" and "C i = Some it"
  obtains tables es where "R i = Some es" and "cursor_rep (ev_ext E) tables it es"
proof -
  from assms obtain tables where "rel_option (cursor_rep (ev_ext E) tables) (C i) (R i)"
    unfolding conc_rel_def prod.case engine_with_def cursors_rep_def by blast
  then show thesis using that assms(2) by (cases "R i") auto
qed

lemma cursor_valid: "cursor_rep X tables it es \<Longrightarrow> it_valid (cursor_ops X) it \<longleftrightarrow> es \<noteq> []"
  unfolding cursor_rep_def by (rule scan_fused.fused.valid_iff)

lemma read_cursor_rel:
  assumes rel: "conc_rel E path opts d (s, ph, C) (M, R)" and it: "C i = Some it" and R: "R i = Some ((k, v) # es)"
  shows "returns (read_cursor E it) s (\<lambda>((k', v'), it') s'. k' = k \<and> v' = v \<and> conc_rel E path opts d (s', ph, C(i \<mapsto> it')) (M, R(i \<mapsto> es)))"
proof -
  let ?F = "\<lambda>tables s. cursors_rep (ev_ext E) C R tables s \<and> phase_ok E path opts d ph tables s"
  have h: "engine_with ?F E path opts d s M" using rel by (simp add: conc_rel_def)
  have at: "cursor_rep (ev_ext E) tables it ((k, v) # es)" if "?F tables s" for tables s
  proof -
    have "rel_option (cursor_rep (ev_ext E) tables) (C i) (R i)" using that unfolding cursors_rep_def by blast
    then show ?thesis by (simp add: it R)
  qed
  from h obtain tables where "?F tables s" unfolding engine_with_def by blast
  note rep = at [OF this, unfolded cursor_rep_def]
  have kv: "it_key (cursor_ops (ev_ext E)) it = Inr k" "it_value (cursor_ops (ev_ext E)) it = Inr v"
    using scan_fused.fused.key_hd [OF rep] scan_fused.fused.value_hd [OF rep] by simp_all
  have "returns (on_cache (it_next (cursor_ops (ev_ext E)) it)) s (\<lambda>it' s'.
      engine_with (\<lambda>tables s. ?F tables s \<and> cursor_rep (ev_ext E) tables it' es) E path opts d s' M)"
    by (rule with_cache_step [OF steady_conc h], unfold cursor_rep_def, rule scan_fused.fused.next_tl [OF at [unfolded cursor_rep_def]])
  moreover have "conc_rel E path opts d (s', ph, C(i \<mapsto> it')) (M, R(i \<mapsto> es))"
    if "engine_with (\<lambda>tables s. ?F tables s \<and> cursor_rep (ev_ext E) tables it' es) E path opts d s' M" for it' s'
    unfolding conc_rel_def prod.case by (rule engine_with_mono [OF that]) (simp add: cursors_rep_def)
  ultimately have "returns (m_bind (on_cache (it_next (cursor_ops (ev_ext E)) it)) (\<lambda>it'. m_return ((k, v), it'))) s
      (\<lambda>((k', v'), it') s'. k' = k \<and> v' = v \<and> conc_rel E path opts d (s', ph, C(i \<mapsto> it')) (M, R(i \<mapsto> es)))"
    by (auto intro: returns_bind)
  then show ?thesis by (simp add: read_cursor_def kv)
qed

lemma full_begin_kind:
  assumes "conc_rel E path opts d (s, ph, C) (M, R)" and "full_begin E s = Some (Inr x, s')"
  shows "op_compaction_options opts = NoCompaction"
proof -
  obtain inner files where s: "s = (inner, files)" by (cases s)
  have "in_options inner = opts" using assms(1) by (simp add: conc_rel_def engine_with_def s)
  then show ?thesis using assms(2) by (auto simp: s full_begin_def split: if_splits)
qed

text \<open>The steps of a compaction keep the map and the open iterators.\<close>

lemma compaction_rel:
  assumes rel: "conc_rel E path opts d (s, ph, C) (M, R)" and ok: "strategy_ok (op_compaction_options opts)"
  shows "ph = Idle \<Longrightarrow> returns (compaction_begin E) s (\<lambda>started s'. conc_rel E path opts d
      (s', case started of None \<Rightarrow> Idle | Some (task, ssts) \<Rightarrow> Compacting task ssts, C) (M, R))"
    and "ph = Compacting task ssts \<Longrightarrow> returns (compaction_install E task ssts) s (\<lambda>_ s'. conc_rel E path opts d (s', Idle, C) (M, R))"
    and "ph = Idle \<Longrightarrow> op_compaction_options opts = NoCompaction \<Longrightarrow>
      returns (full_begin E) s (\<lambda>(l0, l1, ssts) s'. conc_rel E path opts d (s', FullCompacting l0 l1 ssts, C) (M, R))"
    and "ph = FullCompacting l0 l1 ssts \<Longrightarrow>
      returns (full_install E l0 l1 ssts) s (\<lambda>_ s'. conc_rel E path opts d (s', Idle, C) (M, R))"
proof -
  note F = lasting_cursors [of "ev_ext E" C R]
  show "returns (compaction_begin E) s (\<lambda>started s'. conc_rel E path opts d
      (s', case started of None \<Rightarrow> Idle | Some (task, ssts) \<Rightarrow> Compacting task ssts, C) (M, R))" if ph: "ph = Idle"
  proof (rule returns_weaken [OF strategies.begin_compaction [OF F _ strategy_ok_safe [OF ok]]])
    show "engine_with (cursors_rep (ev_ext E) C R) E path opts d s M" using rel by (simp add: ph conc_rel_idle)
  qed (auto simp: conc_rel_def phase_ok_def split: option.split)
  show "returns (compaction_install E task ssts) s (\<lambda>_ s'. conc_rel E path opts d (s', Idle, C) (M, R))" if ph: "ph = Compacting task ssts"
    by (rule returns_weaken [OF returns_install_waiting [OF F]]) (use rel in \<open>auto simp: ph conc_rel_def phase_ok_def\<close>)
  show "returns (full_begin E) s (\<lambda>(l0, l1, ssts) s'. conc_rel E path opts d (s', FullCompacting l0 l1 ssts, C) (M, R))"
    if ph: "ph = Idle" and kind: "op_compaction_options opts = NoCompaction"
    by (rule returns_weaken [OF with_full_begin [OF F kind]]) (use rel in \<open>auto simp: ph conc_rel_def phase_ok_def kind\<close>)
  show "returns (full_install E l0 l1 ssts) s (\<lambda>_ s'. conc_rel E path opts d (s', Idle, C) (M, R))"
    if ph: "ph = FullCompacting l0 l1 ssts"
  proof -
    have "op_compaction_options opts = NoCompaction" using rel by (auto simp: ph conc_rel_def phase_ok_def engine_with_def)
    note kind = this
    show ?thesis by (rule returns_weaken [OF with_full_install [OF F kind]]) (use rel in \<open>auto simp: ph conc_rel_def phase_ok_def kind\<close>)
  qed
qed

lemma call_rel:
  assumes "conc_rel E path opts d (s, ph, C) (M, R)" and "admissible opts r" and "\<not> compacts r"
  shows "returns (MiniLsm_serve E r) s (\<lambda>a s'. answer_ok r M a \<and> conc_rel E path opts d (s', ph, C) (request_effect r M, R))"
  using quiet.serve_ok [of "\<lambda>tables s. cursors_rep (ev_ext E) C R tables s \<and> phase_ok E path opts d ph tables s" E path opts d s M r]
    assms steady_conc by (simp add: conc_rel_def)

definition fine :: "LsmStorageOptions \<Rightarrow> event \<Rightarrow> bool" where
  "fine opts e \<longleftrightarrow> strategy_ok (op_compaction_options opts) \<and> (\<forall>r a. e = Call r a \<longrightarrow> admissible opts r)"

lemma cursor_rel:
  assumes rel: "conc_rel E path opts d (s, ph, C) (M, R)" and it: "C i = Some it"
  shows "it_valid (cursor_ops (ev_ext E)) it \<Longrightarrow> \<exists>k v es. R i = Some ((k, v) # es) \<and>
      returns (read_cursor E it) s (\<lambda>((k', v'), it') s'. k' = k \<and> v' = v \<and> conc_rel E path opts d (s', ph, C(i \<mapsto> it')) (M, R(i \<mapsto> es)))"
    and "\<not> it_valid (cursor_ops (ev_ext E)) it \<Longrightarrow> R i = Some [] \<and> conc_rel E path opts d (s, ph, C(i := None)) (M, R(i := None))"
proof -
  from cursor_open [OF rel it] obtain tables es where es: "R i = Some es" "cursor_rep (ev_ext E) tables it es" .
  note valid = cursor_valid [OF es(2)]
  show "\<exists>k v es. R i = Some ((k, v) # es) \<and>
      returns (read_cursor E it) s (\<lambda>((k', v'), it') s'. k' = k \<and> v' = v \<and> conc_rel E path opts d (s', ph, C(i \<mapsto> it')) (M, R(i \<mapsto> es)))"
    if v: "it_valid (cursor_ops (ev_ext E)) it"
  proof -
    obtain k v es' where "R i = Some ((k, v) # es')" using es(1) v valid by (cases es) auto
    then show ?thesis using read_cursor_rel [OF rel it] by blast
  qed
  show "R i = Some [] \<and> conc_rel E path opts d (s, ph, C(i := None)) (M, R(i := None))" if "\<not> it_valid (cursor_ops (ev_ext E)) it"
  proof
    show "R i = Some []" using es(1) that valid by simp
    show "conc_rel E path opts d (s, ph, C(i := None)) (M, R(i := None))" using rel unfolding conc_rel_def prod.case
      by (rule engine_with_mono) (simp add: cursors_rep_def)
  qed
qed

interpretation threads: simulation "conc_step E" spec_step "conc_rel E path opts d" "fine opts" for E path opts d
proof
  fix c a e c' assume r: "conc_rel E path opts d c a" and f: "fine opts e" and step: "conc_step E c e c'"
  obtain M R where a: "a = (M, R)" by (cases a)
  have ok: "strategy_ok (op_compaction_options opts)" using f by (simp add: fine_def)
  have internal: "\<exists>a'. spec_step (M, R) e a' \<and> conc_rel E path opts d c' a'" if "e = Internal" "conc_rel E path opts d c' (M, R)" using that by simp
  from step have "\<exists>a'. spec_step (M, R) e a' \<and> conc_rel E path opts d c' a'"
  proof cases
    case (call r s x s' ph C)
    have "admissible opts r" using f call by (auto simp: fine_def)
    from returnsD [OF call_rel [OF _ this call(5)] call(4)] show ?thesis using r call a by simp
  next
    case (skip s s' C)
    with r a have "conc_rel E path opts d (s, Idle, C) (M, R)" by simp
    from returnsD [OF compaction_rel(1) [OF this ok refl] skip(4)] show ?thesis using skip by (intro internal) simp_all
  next
    case (start s task ssts s' C)
    with r a have "conc_rel E path opts d (s, Idle, C) (M, R)" by simp
    from returnsD [OF compaction_rel(1) [OF this ok refl] start(4)] show ?thesis using start by (intro internal) simp_all
  next
    case (finish task ssts s b s' C)
    with r a have "conc_rel E path opts d (s, Compacting task ssts, C) (M, R)" by simp
    from returnsD [OF compaction_rel(2) [OF this ok refl] finish(4)] show ?thesis using finish by (intro internal) simp_all
  next
    case (full_start s l0 l1 ssts s' C)
    with r a have rel: "conc_rel E path opts d (s, Idle, C) (M, R)" by simp
    from returnsD [OF compaction_rel(3) [OF rel ok refl full_begin_kind [OF rel full_start(4)]] full_start(4)]
    show ?thesis using full_start by (intro internal) simp_all
  next
    case (full_finish l0 l1 ssts s u s' C)
    with r a have "conc_rel E path opts d (s, FullCompacting l0 l1 ssts, C) (M, R)" by simp
    from returnsD [OF compaction_rel(4) [OF this ok refl] full_finish(4)] show ?thesis using full_finish by (intro internal) simp_all
  next
    case (opened lower upper s it s' ph C i)
    with r a have "conc_rel E path opts d (s, ph, C) (M, R)" by simp
    from returnsD [OF open_scan_rel [OF this, of lower upper i] opened(4)] show ?thesis using opened by auto
  next
    case (delivered C i it s k v it' s' ph)
    with r a have "conc_rel E path opts d (s, ph, C) (M, R)" by simp
    from cursor_rel(1) [OF this delivered(4,5)] obtain k' v' es where R: "R i = Some ((k', v') # es)"
      and ret: "returns (read_cursor E it) s (\<lambda>((x, y), it') s'. x = k' \<and> y = v' \<and> conc_rel E path opts d (s', ph, C(i \<mapsto> it')) (M, R(i \<mapsto> es)))" by blast
    from returnsD [OF ret delivered(6)] show ?thesis using delivered R by simp
  next
    case (ended C i it s ph)
    then show ?thesis using cursor_rel(2) [of E path opts d s ph C M R i it] r a by simp
  qed
  then show "\<exists>a'. spec_step a e a' \<and> conc_rel E path opts d c' a'" by (simp add: a)
qed

section \<open>Runs of the specification\<close>

text \<open>What a sequence of events says: the calls and their answers, and what an iterator delivered.\<close>

fun calls :: "event list \<Rightarrow> request list" where
  "calls [] = []"
| "calls (Call r a # es) = r # calls es"
| "calls (_ # es) = calls es"

fun answers :: "event list \<Rightarrow> answer list" where
  "answers [] = []"
| "answers (Call r a # es) = a # answers es"
| "answers (_ # es) = answers es"

fun deliveries :: "nat \<Rightarrow> event list \<Rightarrow> entry list" where
  "deliveries i [] = []"
| "deliveries i (Delivered j k v # es) = (if i = j then (k, v) # deliveries i es else deliveries i es)"
| "deliveries i (_ # es) = deliveries i es"

lemma calls_append: "calls (es @ fs) = calls es @ calls fs"
  by (induction es rule: calls.induct) simp_all

lemma spec_calls:
  "trace spec_step a es a' \<Longrightarrow> answers_ok (calls es) (fst a) (answers es) \<and> fst a' = fold request_effect (calls es) (fst a)"
proof (induction rule: trace.induct)
  case (trace_Cons a e a1 es a2)
  obtain M R where "a = (M, R)" by (cases a)
  then show ?case using trace_Cons by (cases e) auto
qed simp

text \<open>From the opening of a scan on, its iterator delivers a prefix of what was live then.\<close>

lemma spec_deliveries:
  assumes "trace spec_step a es a'" and "\<forall>lower upper. Opened i lower upper \<notin> set es"
  shows "case snd a i of None \<Rightarrow> deliveries i es = [] \<and> Ended i \<notin> set es
    | Some xs \<Rightarrow> \<exists>ys. xs = deliveries i es @ ys \<and> (Ended i \<in> set es \<longrightarrow> ys = [])"
  using assms
proof (induction rule: trace.induct)
  case (trace_Cons a e a1 es a2)
  obtain M R where a: "a = (M, R)" by (cases a)
  show ?case
  proof (cases e)
    case (Opened j lower upper)
    then have "j \<noteq> i" using trace_Cons.prems by auto
    then show ?thesis using trace_Cons Opened by (auto simp: a split: option.splits)
  next
    case (Delivered j k v)
    then show ?thesis using trace_Cons by (auto simp: a split: option.splits)
  next
    case (Ended j)
    then show ?thesis using trace_Cons by (auto simp: a split: option.splits if_splits)
  qed (use trace_Cons in \<open>auto simp: a split: option.splits\<close>)
qed (simp split: option.split)

section \<open>Properties\<close>

lemma new_conc_rel:
  assumes "io_works (ev_io E)" and "snappy_inverts (ev_ext E)" and "opts_ok (ev_ext E) opts" and "files (manifest_path path) = None"
    and "LsmStorageInner_open E path opts files = Some (Inr (), s)"
  shows "conc_rel E path opts True (s, Idle, Map.empty) (\<lambda>_. [], Map.empty)"
proof -
  have "engine_holds E path opts True s (\<lambda>_. [])" using LsmStorageInner_open_new [OF assms(1-3), of files path] assms(4,5) by auto
  then have "engine_with (\<lambda>_ _. True) E path opts True s (\<lambda>_. [])" by (simp add: engine_with_True)
  then show ?thesis unfolding conc_rel_idle by (rule engine_with_mono) (simp add: cursors_rep_def)
qed

text \<open>What holds in the configuration that any interleaving from a new store leads to.\<close>

lemma run_rel:
  assumes "io_works (ev_io E)" and "snappy_inverts (ev_ext E)" and "opts_ok (ev_ext E) opts" and "files (manifest_path path) = None"
    and "strategy_ok (op_compaction_options opts)" and "LsmStorageInner_open E path opts files = Some (Inr (), s)"
    and "trace (conc_step E) (s, Idle, Map.empty) es c" and "\<forall>r \<in> set (calls es). admissible opts r"
  shows "\<exists>R. trace spec_step (\<lambda>_. [], Map.empty) es (fold request_effect (calls es) (\<lambda>_. []), R) \<and>
    conc_rel E path opts True c (fold request_effect (calls es) (\<lambda>_. []), R)"
proof -
  have "r \<in> set (calls es)" if "Call r a \<in> set es" for r a using that by (induction es rule: calls.induct) auto
  then have "\<forall>e \<in> set es. fine opts e" using assms(5,8) by (auto simp: fine_def)
  from threads.trace_simulates [OF assms(7) new_conc_rel [OF assms(1-4,6)] this] obtain M R where
    "trace spec_step (\<lambda>_. [], Map.empty) es (M, R)" "conc_rel E path opts True c (M, R)" by auto
  then show ?thesis using spec_calls by fastforce
qed

text \<open>What the compaction thread finds decides how it goes on: with a task of the strategy it compacts, without one it does nothing.\<close>

lemma compaction_begin_decides:
  assumes "compaction_begin E s = Some (Inr started, s')"
  shows "case CompactionController_generate_compaction_task (in_compaction_controller (fst s)) (in_state (fst s)) of
    Inl _ \<Rightarrow> False
  | Inr None \<Rightarrow> started = None
  | Inr (Some task) \<Rightarrow> \<exists>ssts. started = Some (task, ssts)"
  using assms by (cases s)
    (auto simp: compaction_begin_def m_bind_def get_inner_def m_lift_def m_return_def split: sum.splits option.splits prod.splits)

text \<open>An example: a scan that is opened between two puts, and read in the middle of a compaction.\<close>

abbreviation example_simple :: SimpleLeveledCompactionOptions where
  "example_simple \<equiv> \<lparr>so_size_ratio_percent = 200, so_level0_file_num_compaction_trigger = 0, so_max_levels = 2\<rparr>"

abbreviation example_opts :: LsmStorageOptions where
  "example_opts \<equiv> default_for_week2_test (SimpleOpts example_simple)"

abbreviation example_events :: "event list" where
  "example_events \<equiv> [Call (Put [1] [7]) Done, Opened 0 Unbounded Unbounded, Internal, Call (Put [1] [8]) Done, Delivered 0 [1] [7]]"

lemma example_live: "live ((\<lambda>_. [])([1] := [7])) Unbounded Unbounded es \<Longrightarrow> es = [([1], [7])]"
proof -
  assume l: "live ((\<lambda>_. [])([1] := [7])) Unbounded Unbounded es"
  then have sorted: "sorted_entries es" and m: "map_of es = [[1] \<mapsto> [7]]" by (auto simp: live_def in_range_def fun_eq_iff)
  have keys: "fst e = [1]" if "e \<in> set es" for e
  proof -
    have "map_of es (fst e) \<noteq> None" using that by (simp add: map_of_eq_None_iff)
    then show ?thesis by (simp add: m split: if_splits)
  qed
  show ?thesis
  proof (cases es)
    case Nil
    then show ?thesis using m by (simp add: fun_eq_iff split: if_splits)
  next
    case (Cons x xs)
    have "xs = []"
    proof (rule ccontr)
      assume "xs \<noteq> []"
      then obtain y where "y \<in> set xs" by (cases xs) auto
      then show False using sorted keys [of x] keys [of y] by (auto simp: Cons)
    qed
    moreover have "map_of es (fst x) = Some (snd x)" by (simp add: Cons)
    then have "snd x = [7]" unfolding m using keys [of x] by (simp add: Cons)
    ultimately show ?thesis using keys [of x] by (simp add: Cons prod_eq_iff)
  qed
qed

lemma example_generates:
  assumes rel: "conc_rel example_env path example_opts d (s, Idle, C) (M, R)"
  obtains task where "CompactionController_generate_compaction_task (in_compaction_controller (fst s)) (in_state (fst s)) = Inr (Some task)"
proof -
  obtain inner files where s: "s = (inner, files)" by (cases s)
  have "in_compaction_controller inner = CtrlSimple example_simple" and "length (ls_levels (in_state inner)) = 2"
    using rel by (auto simp: s conc_rel_def engine_with_def eng_inv_def CompactionController_create_def st_inv_def shape_ok_def)
  then show thesis using that by (auto simp: s CompactionController_generate_compaction_task_def Simple_generate_compaction_task_def)
qed

lemma example_starts:
  assumes rel: "conc_rel example_env path example_opts d (s, Idle, C) (M, R)"
  obtains task ssts s' where "compaction_begin example_env s = Some (Inr (Some (task, ssts)), s')"
    and "conc_rel example_env path example_opts d (s', Compacting task ssts, C) (M, R)"
proof -
  from example_generates [OF rel] obtain t where
    gen: "CompactionController_generate_compaction_task (in_compaction_controller (fst s)) (in_state (fst s)) = Inr (Some t)" .
  have "strategy_ok (op_compaction_options example_opts)" by (simp add: strategy_ok_def)
  from compaction_rel(1) [OF rel this refl] obtain started s' where
    run: "compaction_begin example_env s = Some (Inr started, s')" and
    rel': "conc_rel example_env path example_opts d (s', case started of None \<Rightarrow> Idle | Some (task, ssts) \<Rightarrow> Compacting task ssts, C) (M, R)"
    unfolding returns_def by blast
  from compaction_begin_decides [OF run] obtain ssts where "started = Some (t, ssts)" unfolding gen by auto
  then show thesis using that run rel' by auto
qed

lemma example_trace:
  obtains s s1 ph C where "LsmStorageInner_open example_env ''db'' example_opts Map.empty = Some (Inr (), s)"
    and "trace (conc_step example_env) (s, Idle, Map.empty) example_events (s1, ph, C)"
    and "ph \<noteq> Idle" and "conc_rel example_env ''db'' example_opts True (s1, ph, C) ((\<lambda>_. [])([1] := [8]), [0 \<mapsto> []])"
proof (rule example_store [of "SimpleOpts example_simple"])
  let ?rel = "conc_rel example_env ''db'' example_opts True"
  fix s assume s: "LsmStorageInner_open example_env ''db'' example_opts Map.empty = Some (Inr (), s)"
  have rel0: "?rel (s, Idle, Map.empty) (\<lambda>_. [], Map.empty)"
    by (rule new_conc_rel [OF example_env_ok(1,2) default_opts_ok(2) _ s]) simp
  have put: "admissible example_opts (Put [1] [v])" "\<not> compacts (Put [1] [v])" for v by (simp_all add: admissible_def wf_entry_def compacts_def)
  have put_step: "\<exists>s'. conc_step example_env (s, ph, C) (Call (Put [1] [v]) Done) (s', ph, C) \<and> ?rel (s', ph, C) (M([1] := [v]), R)"
    if "?rel (s, ph, C) (M, R)" for s ph C M R v
  proof -
    from call_rel [OF that put [of v]] obtain s' where "MiniLsm_serve example_env (Put [1] [v]) s = Some (Inr Done, s')" "?rel (s', ph, C) (M([1] := [v]), R)"
      by (auto simp: returns_def answer_ok_def request_effect_def)
    then show ?thesis using conc_step.call [OF _ put(2)] by blast
  qed
  from put_step [OF rel0] obtain s1 where s1: "conc_step example_env (s, Idle, Map.empty) (Call (Put [1] [7]) Done) (s1, Idle, Map.empty)"
    "?rel (s1, Idle, Map.empty) ((\<lambda>_. [])([1] := [7]), Map.empty)" by blast
  from open_scan_rel [OF s1(2), of Unbounded Unbounded 0] obtain it s2 where
    s2: "open_scan example_env Unbounded Unbounded s1 = Some (Inr it, s2)" "?rel (s2, Idle, [0 \<mapsto> it]) ((\<lambda>_. [])([1] := [7]), [0 \<mapsto> [([1], [7])]])"
    unfolding returns_def using example_live by blast
  from example_starts [OF s2(2)] obtain task ssts s3 where s3: "compaction_begin example_env s2 = Some (Inr (Some (task, ssts)), s3)"
    "?rel (s3, Compacting task ssts, [0 \<mapsto> it]) ((\<lambda>_. [])([1] := [7]), [0 \<mapsto> [([1], [7])]])" .
  from put_step [OF s3(2)] obtain s4 where s4: "conc_step example_env (s3, Compacting task ssts, [0 \<mapsto> it]) (Call (Put [1] [8]) Done) (s4, Compacting task ssts, [0 \<mapsto> it])"
    "?rel (s4, Compacting task ssts, [0 \<mapsto> it]) ((\<lambda>_. [])([1] := [8]), [0 \<mapsto> [([1], [7])]])" unfolding fun_upd_upd by blast
  have it: "[0 \<mapsto> it] (0 :: nat) = Some it" by simp
  have valid: "it_valid (cursor_ops (ev_ext example_env)) it" using cursor_open [OF s4(2) it] cursor_valid by fastforce
  have "[0 \<mapsto> [([1], [7])]] (0 :: nat) = Some (([1], [7]) # [])" by simp
  from read_cursor_rel [OF s4(2) it this] obtain it' s5 where s5: "read_cursor example_env it s4 = Some (Inr (([1], [7]), it'), s5)"
    "?rel (s5, Compacting task ssts, [0 \<mapsto> it']) ((\<lambda>_. [])([1] := [8]), [0 \<mapsto> []])" unfolding returns_def fun_upd_upd by fastforce
  have "trace (conc_step example_env) (s, Idle, Map.empty) example_events (s5, Compacting task ssts, [0 \<mapsto> it'])"
    using s1(1) conc_step.opened [OF s2(1), of Idle Map.empty 0] conc_step.start [OF s3(1), of "[0 \<mapsto> it]"] s4(1)
      conc_step.delivered [where i = 0 and ph = "Compacting task ssts" and C = "[0 \<mapsto> it]", OF it valid s5(1)]
    by (simp add: fun_upd_upd) (meson trace.intros)
  then show thesis using that s s5(2) by blast
qed

lemma example_hyps: "io_works (ev_io example_env)" "snappy_inverts (ev_ext example_env)" "opts_ok (ev_ext example_env) example_opts"
  "Map.empty (manifest_path ''db'') = None" "strategy_ok (op_compaction_options example_opts)"
  using example_env_ok(1,2) default_opts_ok(2) by (simp_all add: strategy_ok_def)

lemma example_admissible: "\<forall>r \<in> set (calls example_events). admissible example_opts r"
  by (simp add: admissible_def wf_entry_def)

text \<open>C2: compactions and scans may overlap with anything. Whatever the other threads do between the two halves of a compaction and between the
  moves of any number of iterators, the system does what a map with snapshots may do: calls are answered as by the map, in the order in
  which they took effect, and a scan delivers the live entries of the map of the moment when it was opened, each once and in order.\<close>

theorem threads_refine_snapshots:
  assumes "io_works (ev_io E)" and "snappy_inverts (ev_ext E)" and "opts_ok (ev_ext E) opts" and "files (manifest_path path) = None"
    and "strategy_ok (op_compaction_options opts)" and "LsmStorageInner_open E path opts files = Some (Inr (), s)"
    and "trace (conc_step E) (s, Idle, Map.empty) es c" and "\<forall>r \<in> set (calls es). admissible opts r"
  shows "(\<exists>R. trace spec_step (\<lambda>_. [], Map.empty) es (fold request_effect (calls es) (\<lambda>_. []), R)) \<and> answers_ok (calls es) (\<lambda>_. []) (answers es)"
  using run_rel [OF assms] spec_calls by fastforce

theorem threads_refine_snapshots_witness:
  "\<exists>s c R. LsmStorageInner_open example_env ''db'' example_opts Map.empty = Some (Inr (), s) \<and>
    trace (conc_step example_env) (s, Idle, Map.empty) example_events c \<and>
    trace spec_step (\<lambda>_. [], Map.empty) example_events ((\<lambda>_. [])([1] := [8]), R)"
proof (rule example_trace)
  fix s s1 ph C assume 1: "LsmStorageInner_open example_env ''db'' example_opts Map.empty = Some (Inr (), s)"
    "trace (conc_step example_env) (s, Idle, Map.empty) example_events (s1, ph, C)"
  have "fold request_effect (calls example_events) (\<lambda>_. []) = (\<lambda>_. [])([1] := [8])" by (simp add: request_effect_def)
  then show ?thesis using threads_refine_snapshots [OF example_hyps 1 example_admissible] 1 by metis
qed

text \<open>C8: a scan sees the store as it was when it was opened. Of what is put, deleted, flushed or compacted afterwards, its iterator
  shows nothing: it delivers the entries live at its opening in order, all of them if it is read to the end.\<close>

theorem scan_is_isolated:
  assumes "io_works (ev_io E)" and "snappy_inverts (ev_ext E)" and "opts_ok (ev_ext E) opts" and "files (manifest_path path) = None"
    and "strategy_ok (op_compaction_options opts)" and "LsmStorageInner_open E path opts files = Some (Inr (), s)"
    and "trace (conc_step E) (s, Idle, Map.empty) (es @ Opened i lower upper # fs) c" and "\<forall>r \<in> set (calls (es @ fs)). admissible opts r"
    and "\<forall>l u. Opened i l u \<notin> set fs"
  shows "\<exists>xs ys. live (fold request_effect (calls es) (\<lambda>_. [])) lower upper xs \<and> xs = deliveries i fs @ ys \<and> (Ended i \<in> set fs \<longrightarrow> ys = [])"
proof -
  have "\<forall>r \<in> set (calls (es @ Opened i lower upper # fs)). admissible opts r" using assms(8) by (simp add: calls_append)
  from run_rel [OF assms(1-7) this] obtain R where
    "trace spec_step (\<lambda>_. [], Map.empty) (es @ Opened i lower upper # fs) (fold request_effect (calls (es @ fs)) (\<lambda>_. []), R)"
    by (auto simp: calls_append)
  then obtain c1 a where "trace spec_step (\<lambda>_. [], Map.empty) es c1" "spec_step c1 (Opened i lower upper) a"
    "trace spec_step a fs (fold request_effect (calls (es @ fs)) (\<lambda>_. []), R)" unfolding trace_append trace_Cons_iff by blast
  moreover obtain M R1 where "c1 = (M, R1)" by (cases c1)
  ultimately have 1: "trace spec_step (\<lambda>_. [], Map.empty) es (M, R1)" "spec_step (M, R1) (Opened i lower upper) a"
    "trace spec_step a fs (fold request_effect (calls (es @ fs)) (\<lambda>_. []), R)" by simp_all
  from spec_calls [OF 1(1)] have "M = fold request_effect (calls es) (\<lambda>_. [])" by simp
  then show ?thesis using 1(2) spec_deliveries [OF 1(3) assms(9)] by auto
qed

theorem scan_is_isolated_witness:
  "\<exists>s c xs ys. LsmStorageInner_open example_env ''db'' example_opts Map.empty = Some (Inr (), s) \<and>
    trace (conc_step example_env) (s, Idle, Map.empty) example_events c \<and>
    live ((\<lambda>_. [])([1] := [7])) Unbounded Unbounded xs \<and> xs = [([1], [7])] @ ys"
proof (rule example_trace)
  let ?fs = "[Internal, Call (Put [1] [8]) Done, Delivered 0 [1] [7]]"
  fix s s1 ph C assume 1: "LsmStorageInner_open example_env ''db'' example_opts Map.empty = Some (Inr (), s)"
    "trace (conc_step example_env) (s, Idle, Map.empty) example_events (s1, ph, C)"
  have es: "example_events = [Call (Put [1] [7]) Done] @ Opened 0 Unbounded Unbounded # ?fs" by simp
  have "\<forall>r \<in> set (calls ([Call (Put [1] [7]) Done] @ ?fs)). admissible example_opts r" by (simp add: admissible_def wf_entry_def)
  from scan_is_isolated [OF example_hyps 1(1) 1(2) [unfolded es] this]
  have "\<exists>xs ys. live ((\<lambda>_. [])([1] := [7])) Unbounded Unbounded xs \<and> xs = [([1], [7])] @ ys" by (simp add: request_effect_def)
  with 1 show ?thesis by blast
qed

text \<open>An open iterator delivers its next entry or has come to its end.\<close>

lemma cursor_moves:
  assumes rel: "conc_rel E path opts d (s, ph, C) (M, R)" and it: "C i = Some it"
  shows "(\<exists>k v c. conc_step E (s, ph, C) (Delivered i k v) c) \<or> (\<exists>c. conc_step E (s, ph, C) (Ended i) c)"
proof (cases "it_valid (cursor_ops (ev_ext E)) it")
  case True
  from cursor_rel(1) [OF rel it True] obtain k v it' s' where "read_cursor E it s = Some (Inr ((k, v), it'), s')" by (auto simp: returns_def)
  then show ?thesis using conc_step.delivered [of C i it] it True by blast
next
  case False
  then show ?thesis using conc_step.ended [of C i it] it by blast
qed

text \<open>C9: no interleaving gets stuck. In every configuration that is reached, also in the middle of a compaction, every admissible
  call that does not compact returns, \<open>trigger_flush\<close> returns without an exception, a scan can be opened, and every open iterator
  delivers its next entry or ends. A running compaction can be finished. When none runs, every admissible call returns,
  the strategy generates a task or finds nothing to do, the generated task can be compacted, and without a strategy a full compaction
  can be started: no exception, no failed assertion, no index out of range.\<close>

theorem threads_never_stuck:
  assumes "io_works (ev_io E)" and "snappy_inverts (ev_ext E)" and "opts_ok (ev_ext E) opts" and "files (manifest_path path) = None"
    and "strategy_ok (op_compaction_options opts)" and "LsmStorageInner_open E path opts files = Some (Inr (), s)"
    and "trace (conc_step E) (s, Idle, Map.empty) es (s1, ph, C)" and "\<forall>r \<in> set (calls es). admissible opts r"
  shows "(\<forall>r. admissible opts r \<and> \<not> compacts r \<longrightarrow> (\<exists>a c. conc_step E (s1, ph, C) (Call r a) c)) \<and>
    (\<exists>b s'. LsmStorageInner_trigger_flush E s1 = Some (Inr b, s')) \<and>
    (\<forall>i lower upper. \<exists>c. conc_step E (s1, ph, C) (Opened i lower upper) c) \<and>
    (\<forall>i it. C i = Some it \<longrightarrow> (\<exists>k v c. conc_step E (s1, ph, C) (Delivered i k v) c) \<or> (\<exists>c. conc_step E (s1, ph, C) (Ended i) c)) \<and>
    (case ph of
       Compacting task ssts \<Rightarrow> \<exists>s'. conc_step E (s1, ph, C) Internal (s', Idle, C)
     | FullCompacting l0 l1 ssts \<Rightarrow> \<exists>s'. conc_step E (s1, ph, C) Internal (s', Idle, C)
     | Idle \<Rightarrow> (\<forall>r. admissible opts r \<longrightarrow> (\<exists>a s'. MiniLsm_serve E r s1 = Some (Inr a, s'))) \<and>
         (case CompactionController_generate_compaction_task (in_compaction_controller (fst s1)) (in_state (fst s1)) of
            Inl _ \<Rightarrow> False
          | Inr None \<Rightarrow> \<exists>s'. compaction_begin E s1 = Some (Inr None, s')
          | Inr (Some task) \<Rightarrow> \<exists>ssts s'. conc_step E (s1, ph, C) Internal (s', Compacting task ssts, C)) \<and>
         (op_compaction_options opts = NoCompaction \<longrightarrow>
            (\<exists>l0 l1 ssts s'. conc_step E (s1, ph, C) Internal (s', FullCompacting l0 l1 ssts, C))))"
proof -
  from run_rel [OF assms] obtain M R where rel: "conc_rel E path opts True (s1, ph, C) (M, R)" by blast
  have call: "\<exists>a c. conc_step E (s1, ph, C) (Call r a) c" if "admissible opts r" "\<not> compacts r" for r
    using call_rel [OF rel that] that(2) unfolding returns_def by (blast intro: conc_step.call)
  have flush: "\<exists>b s'. LsmStorageInner_trigger_flush E s1 = Some (Inr b, s')"
    using with_trigger_flush [OF steady_conc rel [unfolded conc_rel_def prod.case]] unfolding returns_def by blast
  have scan: "\<exists>c. conc_step E (s1, ph, C) (Opened i lower upper) c" for i lower upper
    using open_scan_rel [OF rel] unfolding returns_def by (blast intro: conc_step.opened)
  note cursor = cursor_moves [OF rel]
  have finish: "\<exists>s'. conc_step E (s1, ph, C) Internal (s', Idle, C)" if "ph = Compacting task ssts" for task ssts
    using compaction_rel(2) [OF rel assms(5) that] unfolding that returns_def by (blast intro: conc_step.finish)
  have full_finish: "\<exists>s'. conc_step E (s1, ph, C) Internal (s', Idle, C)" if "ph = FullCompacting l0 l1 ssts" for l0 l1 ssts
    using compaction_rel(4) [OF rel assms(5) that] unfolding that returns_def by (blast intro: conc_step.full_finish)
  have any_call: "\<exists>a s'. MiniLsm_serve E r s1 = Some (Inr a, s')" if "ph = Idle" "admissible opts r" for r
    using relating.serve_ok [of "cursors_rep (ev_ext E) C R" E path opts True s1 M r] rel that lasting_cursors
    by (auto simp: conc_rel_idle returns_def)
  have start: "case CompactionController_generate_compaction_task (in_compaction_controller (fst s1)) (in_state (fst s1)) of
      Inl _ \<Rightarrow> False
    | Inr None \<Rightarrow> \<exists>s'. compaction_begin E s1 = Some (Inr None, s')
    | Inr (Some task) \<Rightarrow> \<exists>ssts s'. conc_step E (s1, ph, C) Internal (s', Compacting task ssts, C)" if "ph = Idle"
  proof -
    from compaction_rel(1) [OF rel assms(5) that] obtain started s' where run: "compaction_begin E s1 = Some (Inr started, s')"
      by (auto simp: returns_def)
    have step: "\<exists>ssts s'. conc_step E (s1, ph, C) Internal (s', Compacting task ssts, C)" if "started = Some (task, ssts)" for task ssts
      unfolding \<open>ph = Idle\<close> using conc_step.start [OF run [unfolded that]] by blast
    show ?thesis using compaction_begin_decides [OF run] run step by (auto split: sum.splits option.splits)
  qed
  have full_start: "\<exists>l0 l1 ssts s'. conc_step E (s1, ph, C) Internal (s', FullCompacting l0 l1 ssts, C)"
    if "ph = Idle" "op_compaction_options opts = NoCompaction"
  proof -
    from compaction_rel(3) [OF rel assms(5) that] obtain l0 l1 ssts s' where "full_begin E s1 = Some (Inr (l0, l1, ssts), s')"
      by (auto simp: returns_def)
    then show ?thesis unfolding that(1) by (blast intro: conc_step.full_start)
  qed
  show ?thesis using call flush scan cursor finish full_finish any_call start full_start by (cases ph) simp_all
qed

text \<open>At work: the compaction that is running in the example can be finished, and after that the next task of the strategy compacted.\<close>

theorem threads_never_stuck_witness:
  "\<exists>s s1 ph C s2 task ssts c c'. LsmStorageInner_open example_env ''db'' example_opts Map.empty = Some (Inr (), s) \<and>
    trace (conc_step example_env) (s, Idle, Map.empty) example_events (s1, ph, C) \<and> ph \<noteq> Idle \<and>
    conc_step example_env (s1, ph, C) (Opened 1 Unbounded Unbounded) c' \<and>
    conc_step example_env (s1, ph, C) Internal (s2, Idle, C) \<and> conc_step example_env (s2, Idle, C) Internal (c, Compacting task ssts, C)"
proof (rule example_trace)
  fix s s1 ph C
  assume s: "LsmStorageInner_open example_env ''db'' example_opts Map.empty = Some (Inr (), s)"
    and t: "trace (conc_step example_env) (s, Idle, Map.empty) example_events (s1, ph, C)" and ph: "ph \<noteq> Idle"
  note stuck = threads_never_stuck [OF example_hyps s]
  obtain c' where c': "conc_step example_env (s1, ph, C) (Opened 1 Unbounded Unbounded) c'" using stuck [OF t example_admissible] by blast
  obtain s2 where s2: "conc_step example_env (s1, ph, C) Internal (s2, Idle, C)"
    using stuck [OF t example_admissible] ph by (cases ph) auto
  have t2: "trace (conc_step example_env) (s, Idle, Map.empty) (example_events @ [Internal]) (s2, Idle, C)"
    unfolding trace_append using t s2 by (meson trace.intros)
  have adm: "\<forall>r \<in> set (calls (example_events @ [Internal])). admissible example_opts r" using example_admissible by (simp add: calls_append)
  from run_rel [OF example_hyps s t2 adm] obtain M R where "conc_rel example_env ''db'' example_opts True (s2, Idle, C) (M, R)" by blast
  from example_generates [OF this] obtain task where
    "CompactionController_generate_compaction_task (in_compaction_controller (fst s2)) (in_state (fst s2)) = Inr (Some task)" .
  then obtain ssts c where "conc_step example_env (s2, Idle, C) Internal (c, Compacting task ssts, C)"
    using stuck [OF t2 adm] by auto
  then show ?thesis using s t ph c' s2 by blast
qed

text \<open>C7: a crash at any point of an interleaving, also in the middle of a compaction. Whatever prefix of its buffered bytes each log
  keeps, the store is opened again, and holds the value of every key that has no buffered record; half-done compactions leave no trace.\<close>

theorem crash_during_compaction:
  assumes "io_works (ev_io E)" and "snappy_inverts (ev_ext E)" and "opts_ok (ev_ext E) opts" and "files (manifest_path path) = None"
    and "strategy_ok (op_compaction_options opts)" and "LsmStorageInner_open E path opts files = Some (Inr (), s)"
    and "trace (conc_step E) (s, Idle, Map.empty) es ((inner, f), ph, C)" and "\<forall>r \<in> set (calls es). admissible opts r"
    and "json_restores (ev_json E)"
  shows "2 ^ 64 \<le> length (the (f (manifest_path path))) \<or>
    (\<exists>s2 M. LsmStorageInner_open E path opts (crash n (in_state inner) f) = Some (Inr (), s2) \<and> engine_holds E path opts False s2 M \<and>
      (\<forall>k. (\<forall>t \<in> set (mems (in_state inner)). survives E n (op_enable_wal opts) t k) \<longrightarrow> M k = fold request_effect (calls es) (\<lambda>_. []) k))"
proof -
  from run_rel [OF assms(1-8)] obtain R where "conc_rel E path opts True ((inner, f), ph, C) (fold request_effect (calls es) (\<lambda>_. []), R)" by blast
  then have h: "engine_holds E path opts True (inner, f) (fold request_effect (calls es) (\<lambda>_. []))"
    unfolding conc_rel_def prod.case by (rule engine_with_holds)
  show ?thesis
  proof (cases "2 ^ 64 \<le> length (the (f (manifest_path path)))")
    case False
    then have "length c < 2 ^ 64" if "f (manifest_path path) = Some c" for c using that by simp
    from reopen_after_crash [OF h assms(9) this, of n] show ?thesis by blast
  qed simp
qed

theorem crash_during_compaction_witness:
  "\<exists>s inner f ph C. LsmStorageInner_open example_env ''db'' example_opts Map.empty = Some (Inr (), s) \<and>
    trace (conc_step example_env) (s, Idle, Map.empty) example_events ((inner, f), ph, C) \<and> ph \<noteq> Idle \<and>
    (2 ^ 64 \<le> length (the (f (manifest_path ''db''))) \<or>
     (\<exists>s2. LsmStorageInner_open example_env ''db'' example_opts (crash (\<lambda>_. 0) (in_state inner) f) = Some (Inr (), s2)))"
proof (rule example_trace)
  fix s s1 ph C assume 1: "LsmStorageInner_open example_env ''db'' example_opts Map.empty = Some (Inr (), s)"
    "trace (conc_step example_env) (s, Idle, Map.empty) example_events (s1, ph, C)" "ph \<noteq> Idle"
  obtain inner f where s1: "s1 = (inner, f)" by (cases s1)
  from crash_during_compaction [OF example_hyps 1(1) 1(2) [unfolded s1] example_admissible example_env_ok(3), of "\<lambda>_. 0"]
  show ?thesis using 1 s1 by blast
qed

end
