(* ===== verification/Races.thy ===== *)
theory Races
  imports Interleaving
begin

text \<open>
  Interleavings outside of the model of \<open>Interleaving\<close>, in which the program goes wrong. \<open>put\<close> gives up its lock between
  looking at the size of the memtable and freezing it, and \<open>force_full_compaction\<close> does not look whether the tables of its
  snapshot are still there when it installs its result. The parts between which the lock is free are
  \<open>put_insert\<close> and \<open>LsmStorageInner_force_freeze_memtable\<close>, \<open>full_begin\<close> and \<open>full_install\<close>.
\<close>

section \<open>Two writers freeze the same memtable\<close>

lemma flush_of_empty_memtable:
  assumes "ls_imm_memtables (in_state (fst s)) = ms @ [t]" and "mt_map t = []"
  shows "LsmStorageInner_force_flush_next_imm_memtable E s = Some (Inl (OutOfRange ''bloom_bits_per_key''), s)"
proof -
  have "SsTableBuilder_file X (SsTableBuilder_new b c) = Inl (OutOfRange ''bloom_bits_per_key'')" for X b c
    by (simp add: SsTableBuilder_file_def SsTableBuilder_finish_block_def SsTableBuilder_new_def BlockBuilder_is_empty_def BlockBuilder_new_def
        Bloom_bloom_bits_per_key_def Let_def)
  with assms show ?thesis
    by (cases s) (simp add: LsmStorageInner_force_flush_next_imm_memtable_def MemTable_flush_def SsTableBuilder_build_def m_bind_case get_inner_def on_files_def Let_def)
qed

text \<open>C25: two writers may both find the memtable full. The second one then freezes the new, empty memtable of the first. When it has become the
  oldest one, no flush succeeds any more: the filter of a table of no keys divides zero by zero.\<close>

theorem racing_puts_freeze_empty:
  assumes "io_works (ev_io E)" and "put_insert E k v s = Some (Inr True, s1)" and "put_insert E k' v' s1 = Some (Inr True, s2)"
  shows "\<exists>s3 s4 t t0 ms. LsmStorageInner_force_freeze_memtable E s2 = Some (Inr (), s3) \<and> LsmStorageInner_force_freeze_memtable E s3 = Some (Inr (), s4) \<and>
    ls_imm_memtables (in_state (fst s4)) = t # t0 # ms \<and> mt_map t = [] \<and>
    (\<forall>s5 ts. ls_imm_memtables (in_state (fst s5)) = ts @ [t] \<longrightarrow>
       LsmStorageInner_force_flush_next_imm_memtable E s5 = Some (Inl (OutOfRange ''bloom_bits_per_key''), s5))"
proof -
  from freeze_moves_memtable [OF assms(1), of s2] obtain s3 where 3: "LsmStorageInner_force_freeze_memtable E s2 = Some (Inr (), s3)"
    "mt_map (ls_memtable (in_state (fst s3))) = []" "ls_imm_memtables (in_state (fst s3)) = ls_memtable (in_state (fst s2)) # ls_imm_memtables (in_state (fst s2))"
    by (auto simp: returns_def)
  from freeze_moves_memtable [OF assms(1), of s3] obtain s4 where "LsmStorageInner_force_freeze_memtable E s3 = Some (Inr (), s4)"
    "ls_imm_memtables (in_state (fst s4)) = ls_memtable (in_state (fst s3)) # ls_memtable (in_state (fst s2)) # ls_imm_memtables (in_state (fst s2))"
    by (auto simp: returns_def 3(3))
  with 3(1,2) flush_of_empty_memtable [where t = "ls_memtable (in_state (fst s3))"] show ?thesis by blast
qed

theorem racing_puts_freeze_empty_witness:
  "\<exists>s s1 s2 s3 s4 t t0 ms. LsmStorageInner_open example_env ''db'' small_opts Map.empty = Some (Inr (), s) \<and>
    put_insert example_env [1] [7] s = Some (Inr True, s1) \<and> put_insert example_env [2] [8] s1 = Some (Inr True, s2) \<and>
    LsmStorageInner_force_freeze_memtable example_env s2 = Some (Inr (), s3) \<and> LsmStorageInner_force_freeze_memtable example_env s3 = Some (Inr (), s4) \<and>
    ls_imm_memtables (in_state (fst s4)) = t # t0 # ms \<and> mt_map t = []"
proof (rule small_store)
  fix s assume s: "LsmStorageInner_open example_env ''db'' small_opts Map.empty = Some (Inr (), s)" "mt_wal (ls_memtable (in_state (fst s))) = None"
    "in_options (fst s) = small_opts"
  have n: "op_target_sst_size (in_options (fst s)) \<le> length [k] + length [v]" for k v :: byte using s(3) by simp
  from put_insert_full [OF s(2) n [of 1 7], where E = example_env] s(3) obtain s1 where
    1: "put_insert example_env [1] [7] s = Some (Inr True, s1)" "mt_wal (ls_memtable (in_state (fst s1))) = None" "in_options (fst s1) = in_options (fst s)" by metis
  from put_insert_full [OF 1(2) n [of 2 8, folded 1(3)], where E = example_env] obtain s2 where 2: "put_insert example_env [2] [8] s1 = Some (Inr True, s2)" by blast
  from racing_puts_freeze_empty [OF example_env_ok(1) 1(1) 2] show ?thesis using s(1) 1(1) 2 by blast
qed

section \<open>A full compaction that was overtaken\<close>

text \<open>No memtable holds an entry: all that was written has been flushed.\<close>

definition flushed :: "engine \<Rightarrow> bool" where
  "flushed s \<longleftrightarrow> (\<forall>t \<in> set (mems (in_state (fst s))). MemTable_is_empty t)"

text \<open>The tables hold exactly the map \<open>M\<close>.\<close>

definition tables_for :: "ext \<Rightarrow> SsTable list \<Rightarrow> (bytes \<Rightarrow> bytes) \<Rightarrow> (nat \<Rightarrow> entry list list option) \<Rightarrow> engine \<Rightarrow> bool" where
  "tables_for X ssts M tables s \<longleftrightarrow> distinct (map st_id ssts) \<and> (\<exists>ess. list_all2 (sst_entries X tables) ssts ess \<and>
     sorted_entries (concat ess) \<and> (\<forall>k. (case map_of (concat ess) k of None \<Rightarrow> [] | Some v \<Rightarrow> v) = M k))"

lemma lasting_tables_for: "lasting (tables_for X ssts M)"
  unfolding lasting_def tables_for_def using sst_entries_mono by (blast intro: list_all2_mono)

lemma runs_value_flushed:
  assumes "\<forall>xs \<in> set xss. xs = []"
  shows "runs_value (xss @ [ys]) k = (case map_of ys k of None \<Rightarrow> [] | Some v \<Rightarrow> v)"
  by (simp add: runs_value_append newest_empty [OF assms] runs_value_def split: option.split)

lemma full_begin_tables:
  assumes h: "engine_holds E path opts d s M" and kind: "op_compaction_options opts = NoCompaction" and e: "flushed s"
  shows "returns (full_begin E) s (\<lambda>(l0, l1, ssts) s'. engine_with (tables_for (ev_ext E) ssts M) E path opts d s' M)"
proof (rule returns_weaken [OF with_full_begin [OF lasting_True kind h [folded engine_with_True]]])
  fix x s' assume x': "(case x of (l0, l1, ssts) \<Rightarrow> \<lambda>s'. engine_with (\<lambda>tables s. True \<and> waiting E opts d True ssts (full_snapshot (ev_ext E) opts l0 l1) tables s)
      E path opts d s' M \<and> in_state (fst s') = in_state (fst s) \<and> l0 = ls_l0_sstables (in_state (fst s))) s'"
  obtain l0 l1 ssts where x: "x = (l0, l1, ssts)" by (cases x)
  note x' = x' [unfolded x prod.case]
  note w = conjunct1 [OF x'] and st = conjunct1 [OF conjunct2 [OF x']] and l0 = conjunct2 [OF conjunct2 [OF x']]
  from w have "engine_with (tables_for (ev_ext E) ssts M) E path opts d s' M"
  proof (rule waiting_ready)
    fix tables co nss tables0 st0 xss
    assume r: "ready E path opts d tables s' co ssts nss" and M: "M = store_view co"
      and l: "later (op_compaction_options opts) tables0 st0 tables (in_state (fst s'))" "concat nss = kept True (merge_runs xss)"
        "full_snapshot (ev_ext E) opts l0 l1 tables0 st0 xss"
    have r': "ready E path opts d tables (fst s', snd s') co ssts nss" using r by simp
    from full_install_state [OF r' kind l] obtain new lv co' where new: "ls_l0_sstables (in_state (fst s')) = new @ l0" and lev: "ls_levels (in_state (fst s')) = [(lv, l1)]"
      and eq: "full_state l0 l1 ssts (in_state (fst s')) = erase_ssts (l0 @ l1) ((add_ssts ssts (in_state (fst s')))\<lparr>ls_l0_sstables := new, ls_levels := [(lv, map st_id ssts)]\<rparr>)"
      and inv: "st_inv (ev_ext E) opts (op_target_sst_size opts) tables (in_next_sst_id (fst s')) (full_state l0 l1 ssts (in_state (fst s'))) co'"
      and v: "store_view co' = M" unfolding M by blast
    have "new = []" using new l0 st by simp
    have sh: "st_holds (ev_ext E) tables (full_state l0 l1 ssts (in_state (fst s'))) co'" using inv by (simp add: st_inv_def)
    have p: "pending (ev_ext E) tables (in_state (fst s')) ssts nss" using r by (simp add: ready_def)
    have inst: "installed (in_state (fst s')) ssts (l0 @ l1) (full_state l0 l1 ssts (in_state (fst s')))" unfolding eq by (rule installed_erase) simp_all
    have "set (l0 @ l1) \<subseteq> set (all_ids (in_state (fst s')))" using new lev by (auto simp: all_ids_def)
    from installed_hold(1) [OF p inst this] sh have co': "co_levels co' = [nss]" "co_l0 co' = []" "sorted_entries (concat nss)"
      by (auto simp: st_holds_def eq \<open>new = []\<close> list_all2_Cons1 ids_hold_def [of _ _ _ "[]"] dest: ids_hold_unique)
    have "\<forall>xs \<in> set (co_mems co'). xs = []"
      using e st sh inst by (auto simp: flushed_def st_holds_def installed_def MemTable_is_empty_def)
    from runs_value_flushed [OF this, of "concat nss"] have "tables_for (ev_ext E) ssts M tables s'"
      using v co' p by (auto simp: tables_for_def pending_def store_view_runs lsm_runs_def)
    then show "engine_with (tables_for (ev_ext E) ssts M) E path opts d s' M" using r M unfolding engine_with_def ready_def by blast
  qed
  then show "(case x of (l0, l1, ssts) \<Rightarrow> \<lambda>s'. engine_with (tables_for (ev_ext E) ssts M) E path opts d s' M) s'" by (simp add: x)
qed

lemma full_install_sets_state:
  assumes "io_works (ev_io E)"
  shows "returns (full_install E l0 l1 ssts) s (\<lambda>_ s'. in_state (fst s') = full_state l0 l1 ssts (in_state (fst s)) \<and>
    in_block_cache (fst s') = in_block_cache (fst s))"
proof -
  obtain inner files where s: "s = (inner, files)" by (cases s)
  have rm: "returns (remove_ssts E ids) (i, f) Q \<longleftrightarrow> (\<exists>f'. remove_ssts E ids (i, f) = Some (Inr (), i, f') \<and> Q () (i, f'))" for ids i f Q
    by (simp add: remove_ssts_def returns_def)
  have "returns (full_install E l0 l1 ssts) (inner, files) (\<lambda>_ s'. in_state (fst s') = full_state l0 l1 ssts (in_state inner) \<and>
    in_block_cache (fst s') = in_block_cache inner)"
    unfolding full_install_def Let_def
    by (simp, rule returns_bind [OF returns_record_in_manifest [OF assms, where Q = "\<lambda>_ s'. in_state (fst s') = full_state l0 l1 ssts (in_state inner) \<and>
          in_block_cache (fst s') = in_block_cache inner"]])
      (auto simp: m_bind_case returns_def remove_ssts_def)
  then show ?thesis by (simp add: s)
qed

lemma full_state_holds:
  assumes inv: "st_inv X opts b tables n st co" and kind: "op_compaction_options opts = NoCompaction" and l0: "ls_l0_sstables st = []"
    and t: "distinct (map st_id ssts)" "list_all2 (sst_entries X tables) ssts ess" "sorted_entries (concat ess)"
  shows "st_holds X tables (full_state l0 l1 ssts st) \<lparr>co_mems = map mt_map (mems st), co_l0 = [], co_levels = [ess]\<rparr>"
proof -
  from inv kind obtain l ids where lev: "ls_levels st = [(l, ids)]" by (auto simp: st_inv_def shape_ok_def length_Suc_conv)
  have "ls_sstables (full_state l0 l1 ssts st) (st_id t) = Some t" if "t \<in> set ssts" for t
    using lookup_add_ssts(1) [OF t(1) that] by (simp add: full_state_def Let_def)
  then have "ids_hold X tables (full_state l0 l1 ssts st) (map st_id ssts) ess" by (intro new_ids_hold t(2))
  moreover have "\<forall>m \<in> set (mems st). mt_wf m" using inv by (simp add: st_inv_def st_holds_def)
  ultimately show ?thesis using t(3) lev l0
    by (simp add: st_holds_def full_state_def Let_def ids_hold_def [of _ _ _ "[]"])
qed

lemma full_compaction_flushed:
  assumes h: "engine_with F E path opts d s M" and F: "lasting F" and kind: "op_compaction_options opts = NoCompaction" and e: "flushed s"
  shows "returns (LsmStorageInner_force_full_compaction E) s (\<lambda>_ s'. flushed s')"
proof -
  have io: "io_works (ev_io E)" using h by (auto simp: engine_with_def eng_inv_def split: prod.splits)
  have fs: "flushed s''" if "in_state (fst s'') = full_state l0 l1 ssts (in_state (fst s))" for l0 l1 ssts s''
    using e that by (simp add: flushed_def full_state_def Let_def)
  show ?thesis unfolding LsmStorageInner_force_full_compaction_def
    by (rule returns_bind [OF with_full_begin [OF F kind h]], clarify, rule returns_weaken [OF full_install_sets_state [OF io]]) (metis fs)
qed

text \<open>C24: a full compaction that another one overtakes undoes what was written in the meantime. It is installed over the result of the other without a
  look at what the level holds by now: if all writes are flushed, the store afterwards answers as it did when the first one began, whatever was
  put and deleted since.\<close>

theorem overtaken_full_compaction_undoes:
  assumes "engine_holds E path opts d s M" and "op_compaction_options opts = NoCompaction" and "flushed s"
    and "full_begin E s = Some (Inr (l0, l1, ssts), s1)" and "\<forall>r \<in> set rs. admissible opts r"
    and "m_map (MiniLsm_serve E) rs s1 = Some (Inr as, s2)" and "flushed s2" and "LsmStorageInner_force_full_compaction E s2 = Some (Inr (), s3)"
  shows "\<exists>s4. full_install E l0 l1 ssts s3 = Some (Inr (), s4) \<and>
    (\<forall>k. (\<exists>s'. engine_get E k s3 = Some (Inr (fold request_effect rs M k), s')) \<and> (\<exists>s'. engine_get E k s4 = Some (Inr (M k), s')))"
proof -
  let ?F = "tables_for (ev_ext E) ssts M" and ?M = "fold request_effect rs M"
  have "engine_with ?F E path opts d s1 M" using returnsD [OF full_begin_tables [OF assms(1-3)] assms(4)] by simp
  from returnsD [OF relating.serve_all [OF this, of rs] assms(6)] have 2: "engine_with ?F E path opts d s2 ?M"
    using assms(5) lasting_tables_for by simp
  from returnsD [OF with_force_full_compaction [OF lasting_tables_for 2 assms(2)] assms(8)]
  have 3: "engine_with ?F E path opts d s3 ?M" and l0: "ls_l0_sstables (in_state (fst s3)) = []" by simp_all
  have e: "flushed s3" by (rule returnsD [OF full_compaction_flushed [OF 2 lasting_tables_for assms(2,7)] assms(8)])
  from 3 obtain tables co ess where inv: "eng_inv E tables s3 co" and o: "in_options (fst s3) = opts"
    and t: "distinct (map st_id ssts)" "list_all2 (sst_entries (ev_ext E) tables) ssts ess" "sorted_entries (concat ess)"
      "\<And>k. (case map_of (concat ess) k of None \<Rightarrow> [] | Some v \<Rightarrow> v) = M k" unfolding engine_with_def tables_for_def by blast
  have env: "io_works (ev_io E)" "cache_sound (blocks_of tables) (in_block_cache (fst s3))"
    and st: "st_inv (ev_ext E) opts (op_target_sst_size opts) tables (in_next_sst_id (fst s3)) (in_state (fst s3)) co"
    using inv o by (auto simp: eng_inv_def split: prod.splits)
  from full_install_sets_state [OF env(1), of l0 l1 ssts s3] obtain s4 where s4: "full_install E l0 l1 ssts s3 = Some (Inr (), s4)"
    "in_state (fst s4) = full_state l0 l1 ssts (in_state (fst s3))" "in_block_cache (fst s4) = in_block_cache (fst s3)" unfolding returns_def by auto
  let ?co = "\<lparr>co_mems = map mt_map (mems (in_state (fst s3))), co_l0 = [], co_levels = [ess]\<rparr>"
  have sh: "st_holds (ev_ext E) tables (in_state (fst s4)) ?co" unfolding s4(2) by (rule full_state_holds [OF st assms(2) l0 t(1-3)])
  have "\<forall>xs \<in> set (co_mems ?co). xs = []" using e by (simp add: flushed_def MemTable_is_empty_def)
  from runs_value_flushed [OF this, of "concat ess"] have view: "(case lsm_view ?co k of None \<Rightarrow> [] | Some v \<Rightarrow> v) = M k" for k
    unfolding lsm_view_newest [OF sh] by (simp add: lsm_runs_def runs_value_def t(4))
  have "\<exists>s'. engine_get E k s4 = Some (Inr (M k), s')" for k
  proof -
    from ok_exec [OF LsmStorageInner_get_ok [OF sh, of k, unfolded view] env(2) [folded s4(3)]] obtain c where
      "LsmStorageInner_get (ev_ext E) (in_state (fst s4)) k (in_block_cache (fst s4)) = Some (Inr (M k), c)" by blast
    then show ?thesis by (cases s4) (simp add: engine_get_def get_inner_def m_bind_case on_cache_def)
  qed
  moreover have "\<exists>s'. engine_get E k s3 = Some (Inr (?M k), s')" for k
    using returns_get [OF engine_with_holds [OF 3], of k] by (auto simp: returns_def)
  ultimately show ?thesis using s4(1) by blast
qed

lemma put_flush_flushed:
  assumes h: "engine_holds E path opts d s M" and wal: "mt_wal (ls_memtable (in_state (fst s))) = None" "\<not> op_enable_wal opts"
    and imm: "ls_imm_memtables (in_state (fst s)) = []" and full: "op_target_sst_size opts \<le> length k + length v" and wf: "wf_entry (k, v)"
  shows "returns (m_map (MiniLsm_serve E) [Put k v, ForceFlush]) s (\<lambda>as s'. flushed s')"
proof -
  from full_put [OF h wal full wf] imm obtain s2 where 2: "LsmStorageInner_put E k v s = Some (Inr (), s2)" "engine_holds E path opts d s2 (M(k := v))"
    "mt_map (ls_memtable (in_state (fst s2))) = []" "length (ls_imm_memtables (in_state (fst s2))) = 1" by auto
  from returns_flush_oldest [OF 2(2)] 2(3,4) obtain s3 where 3: "LsmStorageInner_force_flush_next_imm_memtable E s2 = Some (Inr (), s3)" "flushed s3"
    by (auto simp: returns_def flushed_def MemTable_is_empty_def length_Suc_conv)
  then show ?thesis by (simp add: MiniLsm_serve_def Let_def m_bind_case 2(1) returns_def)
qed

theorem overtaken_full_compaction_undoes_witness:
  "\<exists>s l0 l1 ssts s1 as s2 s3 s4. LsmStorageInner_open example_env ''db'' small_opts Map.empty = Some (Inr (), s) \<and>
    full_begin example_env s = Some (Inr (l0, l1, ssts), s1) \<and> m_map (MiniLsm_serve example_env) [Put [1] [7], ForceFlush] s1 = Some (Inr as, s2) \<and>
    LsmStorageInner_force_full_compaction example_env s2 = Some (Inr (), s3) \<and> (\<exists>s'. engine_get example_env [1] s3 = Some (Inr [7], s')) \<and>
    full_install example_env l0 l1 ssts s3 = Some (Inr (), s4) \<and> (\<exists>s'. engine_get example_env [1] s4 = Some (Inr [], s'))"
proof (rule small_store)
  fix s assume s: "LsmStorageInner_open example_env ''db'' small_opts Map.empty = Some (Inr (), s)" "engine_holds example_env ''db'' small_opts True s (\<lambda>_. [])"
    "mt_wal (ls_memtable (in_state (fst s))) = None" "mt_map (ls_memtable (in_state (fst s))) = []" "ls_imm_memtables (in_state (fst s)) = []"
  let ?rs = "[Put [1] [7], ForceFlush]"
  have kind: "op_compaction_options small_opts = NoCompaction" by (simp add: default_for_week1_test_def)
  have e: "flushed s" using s(4,5) by (simp add: flushed_def MemTable_is_empty_def)
  have adm: "\<forall>r \<in> set ?rs. admissible small_opts r" by (simp add: admissible_def wf_entry_def)
  from with_full_begin [OF lasting_True kind s(2) [folded engine_with_True]] obtain l0 l1 ssts s1 where
    1: "full_begin example_env s = Some (Inr (l0, l1, ssts), s1)" "in_state (fst s1) = in_state (fst s)"
      "engine_holds example_env ''db'' small_opts True s1 (\<lambda>_. [])" unfolding returns_def by (auto dest: engine_with_holds)
  from put_flush_flushed [OF 1(3), of "[1]" "[7]"] s(3,5) 1(2) obtain as s2 where
    2: "m_map (MiniLsm_serve example_env) ?rs s1 = Some (Inr as, s2)" "flushed s2" by (auto simp: returns_def wf_entry_def default_for_week1_test_def)
  then have "engine_holds example_env ''db'' small_opts True s2 (fold request_effect ?rs (\<lambda>_. []))"
    using mini_lsm.serve_all [OF 1(3) adm] by (auto simp: returns_def)
  from returns_force_full_compaction [OF this kind] obtain s3 where 3: "LsmStorageInner_force_full_compaction example_env s2 = Some (Inr (), s3)"
    by (auto simp: returns_def)
  have "fold request_effect ?rs (\<lambda>_. []) [1] = [7]" by (simp add: request_effect_def)
  with overtaken_full_compaction_undoes [OF s(2) kind e 1(1) adm 2 3] obtain s4 where "full_install example_env l0 l1 ssts s3 = Some (Inr (), s4)"
    "\<exists>s'. engine_get example_env [1] s3 = Some (Inr [7], s')" "\<exists>s'. engine_get example_env [1] s4 = Some (Inr [], s')" by metis
  with s(1) 1(1) 2(1) 3 show ?thesis by blast
qed

end
