(* ===== verification/Spec2Isabelle.thy ===== *)
theory Spec2Isabelle
  imports Benchmarks Races
begin

text \<open>
  Verification of mini-lsm-cpp, a key-value store on a log-structured merge tree.

  \<^bold>\<open>The program.\<close> A write goes into the active memtable and, if enabled, its write-ahead log
  (\<open>LsmStorageInner::put\<close>); a memtable that has grown to \<open>target_sst_size\<close> is frozen into the list of
  immutable memtables; the flush thread writes the oldest of them as a sorted table to level 0; the
  compaction thread merges tables into lower levels or tiers by one of three strategies; every change
  of the set of tables is recorded in the manifest. Reads merge all runs through a stack of iterators,
  the newest run first. \<open>LsmStorageInner::open\<close> replays the manifest and the logs.

  \<^bold>\<open>Theories and sources\<close> (paths below \<open>src/\<close>; definitions keep the C++ names, as \<open>Class_method\<close>).

  \<^item> \<open>Prelude\<close>: byte strings, errors (\<open>Throw\<close> an exception, \<open>AssertFailed\<close> a failed assertion, \<open>Fail\<close> a returned error
    message, \<open>OutOfRange\<close> an access outside an object), the state-and-error monad \<open>m\<close> and its \<open>returns\<close> rules, sorted entry lists.
  \<^item> \<open>Key\<close>, \<open>Endian\<close>: \<open>key.h\<close>, \<open>endian.h\<close>.
  \<^item> \<open>Block\<close>, \<open>Block_Iterator\<close>: \<open>block/builder.cpp\<close>, \<open>block/iterator.cpp\<close>; prefix-compressed blocks.
  \<^item> \<open>Storage_Iterator\<close>, \<open>Merge_Spec\<close>, \<open>Two_Merge_Iterator\<close>, \<open>Merge_Iterator\<close>, \<open>Lsm_Iterator\<close>: \<open>iterators.h\<close>,
    \<open>lsm_iterator.cpp\<close>. The abstract class \<open>StorageIterator\<close> is the record \<open>iter_ops\<close> of its operations; its
    contract is the locale \<open>storage_iterator\<close>, extended to \<open>sorted_iterator\<close>, interpreted on every iterator of the program. What merging
    means is stated apart, in \<open>Merge_Spec\<close>.
  \<^item> \<open>Files\<close>, \<open>Wal\<close>, \<open>Mem_Table\<close>: \<open>FileObject\<close>, \<open>wal.cpp\<close>, \<open>mem_table.cpp\<close>. The file system is a map from
    paths to contents; what a system call does (short writes, failures) is the parameter \<open>io\<close>. The log has
    its \<open>stdio\<close> buffer, and a crash keeps any prefix of what was not synced.
  \<^item> \<open>Bloom\<close>, \<open>Block_Cache\<close>, \<open>Table\<close>, \<open>Table_Format\<close>, \<open>Table_Iterator\<close>, \<open>Table_Size\<close>, \<open>Concat_Iterator\<close>:
    \<open>table.h\<close>, \<open>table/*.cpp\<close>, \<open>block_cache.cpp\<close>, \<open>iterators/concat_iterator.cpp\<close>; table files, their filters and caches.
  \<^item> \<open>Lsm_Read\<close>: \<open>LsmStorageState\<close>, \<open>get\<close> and \<open>scan\<close> of \<open>lsm_storage.cpp\<close>.
  \<^item> \<open>Compact_Task\<close>, \<open>Manifest\<close>, \<open>Controllers\<close>, \<open>Strategies\<close>: \<open>compact.h\<close>, \<open>manifest.cpp\<close>, \<open>compact/*.cpp\<close>;
    tasks and their JSON form, the manifest log, the three strategies.
  \<^item> \<open>Lsm_Engine\<close>, \<open>File_Names\<close>, \<open>Compaction\<close>, \<open>Mini_Lsm\<close>: the rest of \<open>lsm_storage.cpp\<close> and \<open>compact.cpp\<close>;
    writing, freezing, flushing, compacting, opening, closing, and the interface with the
    rounds of the two background threads. The engine state is the pair of the object and the files.
  \<^item> \<open>Mini_Lsm_Cli\<close>: \<open>bin/mini_lsm_cli.cpp\<close>; the words of a line, the commands, their output and error messages, the main
    loop. \<open>Benchmarks\<close>: \<open>bench/\<close>; the options, keys, values and calls of the benchmarks, and the percentiles.
  \<^item> \<open>Engine_Inv\<close>, \<open>Compaction_Correct\<close>, \<open>Compaction_View\<close>, \<open>Simple_View\<close>, \<open>Tiered_View\<close>, \<open>Leveled_View\<close>: the invariants of the
    engine, and the proofs that each operation and strategy keeps them. What a strategy has to provide is the locale \<open>compaction_strategy\<close>: its tasks
    can be carried out in the state of the snapshot and in every later one. \<open>Store_Spec\<close>: the specification of the store and the refinement.
  \<^item> \<open>Replay\<close>, \<open>Recovery\<close>, \<open>Restart\<close>, \<open>Durability\<close>: what the manifest and the logs restore, after a shutdown and after a crash.
    \<open>Example_Env\<close>: a concrete environment and stores in it, on which the theorems are applied.
  \<^item> \<open>Interleaving\<close>: the step relation \<open>conc_step\<close> of the engine with a compaction under way and open iterators, its specification, a map with
    snapshots, and the simulation (locale \<open>simulation\<close>). \<open>Races\<close>: two interleavings outside of it, in which the program goes wrong.

  \<^bold>\<open>What is shown.\<close> The contract of the store is the locale \<open>kv_store\<close>: a map from keys to values. \<open>engine_holds E path opts d s M\<close>
  says that the engine state \<open>s\<close> stands for the map \<open>M\<close>: tables in memory agree with their
  files, levels are sorted and disjoint, ids are fresh and ordered, the newest run decides each key and, if \<open>d\<close>, the
  manifest replays to the present layout. Every operation keeps it, and calls and background rounds in any order answer as
  the map does (\<open>MiniLsm_refines_map\<close>). A store that is shut down is restored by opening it, with and without log
  (\<open>MiniLsm_restart\<close>); after a crash, the log restores a prefix of the writes (\<open>MiniLsm_crash_recovery\<close>) with
  everything that was synced in the active memtable (\<open>sync_survives_crash\<close>).
  A compaction takes its snapshot and writes its tables in one step and installs them in another (\<open>compaction_begin\<close>, \<open>compaction_install\<close>,
  \<open>full_begin\<close>, \<open>full_install\<close>); calls of other threads, flushes and the moves of any number of open iterators come between them. Every such
  interleaving refines the map with snapshots (\<open>threads_refine_snapshots\<close>), iterators see the state at their opening only (\<open>scan_is_isolated\<close>), every call, flush, iterator and
  half of a compaction can take its step wherever the interleaving has got to (\<open>threads_never_stuck\<close>), and a crash in the middle is recovered from (\<open>crash_during_compaction\<close>). The leveled strategy keeps the map as long as no
  level that it passes over is filled (\<open>leveled_compaction_keeps_map\<close>); the command line prints what the map
  answers (\<open>cli_session\<close>). Below that: reads against the newest run, the compaction writer against the merge of its inputs,
  strategies, durability of log and memtable under crashes, round trips of every format, error paths of every decoder,
  the cache against an LRU list.
  Loops whose end is not structural are \<open>m_while\<close>, where not ending is the value \<open>None\<close>; all claims that
  an operation returns are claims of a \<open>Some\<close> result, so that the loops are shown to end. Some theorems record flaws
  of the program (two overlapping full compactions that undo writes; two writers that freeze an empty memtable; a manifest that is overwritten after a restart, so that a second restart loses data; a wrong bottom flag; a level that is passed
  over; an unsorted recovered level; lost values).

  \<^bold>\<open>Parameters and bounds.\<close> zlib's \<open>crc32\<close>, farmhash's \<open>Fingerprint32\<close> and snappy are the record \<open>ext\<close>; the JSON library
  and system calls are fields of \<open>env\<close>. What is used of them are the hypotheses \<open>snappy_inverts\<close>, \<open>json_restores\<close> and
  \<open>io_works\<close> (system calls do not fail, but may write in pieces); no law of the checksum or the
  hash is needed. Each has an instance in \<open>Example_Env\<close> or a
  theory below. Widths are those of the code where values are stored: lengths and offsets of blocks are 16-bit words,
  table offsets 32-bit words, manifest lengths 64-bit words, and the theorems on lost and wrapped values
  rest on it. Table ids, level numbers, sizes in memory and the key index of the benchmarks are natural numbers. The ratios that the
  strategies compute in \<open>double\<close> are reals: a comparison can come out differently only where the two sides are equal up
  to rounding. \<open>opts_ok\<close> asks for blocks of at most \<open>2^16\<close>
  bytes and uncompressed tables of at most \<open>2^26\<close>, so that table offsets do not wrap; keys and values
  in requests are shorter than \<open>2^16\<close> bytes and keys are not empty.

  \<^bold>\<open>Not modelled.\<close> Mutexes, and steps smaller than a call, apart from the two halves of a compaction, the moves of an iterator and, in \<open>Races\<close>, the
  two halves of \<open>put\<close>: a flush holds \<open>state_lock\<close> throughout, and other calls are taken as one step. In \<open>Interleaving\<close> there is one
  compaction at a time, as in the program unless the user calls \<open>force_full_compaction\<close> from several threads. A crash is a crash of the process:
  what was written to a file is kept, also if it was not synced, only the \<open>stdio\<close> buffers of the logs are lost. A memtable that has been flushed
  is released, and its log closed, at once; in the program an open iterator keeps both a little longer, when the table that replaces them is
  already recorded. The directory (\<open>create_directories\<close>, \<open>sync_dir\<close>), the messages on \<open>std::cerr\<close>, the clock, the tables
  that the benchmarks print, the deletion of their directory, and the tests. Moves, references and \<open>shared_ptr\<close>s are values: the objects they
  share are immutable, except the block cache, which is passed on, and the active memtable, which only the engine holds.

  \<^bold>\<open>Open.\<close> Restarts of a store with the leveled strategy (its recovery does not order the levels); the insertion of an
  entry and the freezing of the memtable as separate steps of one writer in \<open>Interleaving\<close>.
\<close>

end
